(* ===== verification/Prelude.thy ===== *)
theory Prelude
  imports Complex_Main "HOL-Library.Word" "HOL-Library.AList" "HOL-Library.Monad_Syntax"
begin

text \<open>
  Shared vocabulary of the development: the C++ library types the sources use (fixed-width
  integers, \<open>std::map\<close>, \<open>std::unordered_map\<close>) and the generic lemmas on them.

  \<^item> \<open>u64\<close> and \<open>i64\<close> name the 64-bit integers (\<open>std::uint64_t\<close>, \<open>std::size_t\<close>, and the
    mathematical value of an \<open>std::int64_t\<close>).
  \<^item> \<open>std::map\<close> is an association list in the order of its comparator (\<open>omap_put\<close>,
    \<open>omap_erase\<close>, \<open>omap_find\<close>); the locale \<open>ordered_keys\<close> states what a comparator promises and
    proves that the three operations behave as updates of a finite map and keep the order.
  \<^item> \<open>std::unordered_map\<close> is a map \<open>'k \<rightharpoonup> 'v\<close> where the code only looks keys up, and an
    association list (\<open>AList.update\<close>, \<open>AList.delete\<close>, \<open>map_of\<close>) where it iterates.
\<close>

type_synonym u64 = "64 word"
type_synonym i64 = int

named_theorems exec_simps "equations that construct rings and pools from concrete sizes"

section \<open>Counters\<close>

text \<open>A 64-bit counter that has not reached its last value increments without wrapping.\<close>

lemma u64_not_max: "c \<noteq> (- 1 :: u64) \<Longrightarrow> unat c < 18446744073709551615"
proof -
  assume "c \<noteq> - 1"
  then have "c < - 1" by (simp add: word_order.not_eq_extremum)
  then show ?thesis by (simp add: word_less_nat_alt unsigned_minus_1_eq_mask mask_eq_exp_minus_1)
qed

lemma u64_unat_inc: "c \<noteq> (- 1 :: u64) \<Longrightarrow> unat (c + 1) = Suc (unat c)"
  using u64_not_max [of c] by (simp add: unat_plus_if')

lemma u64_unat_inc_below: "x < y \<Longrightarrow> unat (x + 1) = Suc (unat (x :: u64))"
  using u64_unat_inc [of x] word_order.extremum_strict [of y] by blast

lemma u64_less_inc: "x \<le> c \<Longrightarrow> c \<noteq> (- 1 :: u64) \<Longrightarrow> x < x + 1"
proof -
  assume "x \<le> c" "c \<noteq> - 1"
  then have "x \<noteq> - 1" by (metis word_order.extremum_uniqueI)
  then show ?thesis by (simp add: word_less_nat_alt u64_unat_inc)
qed

lemma u64_inc_le: "x < y \<Longrightarrow> x + 1 \<le> (y :: u64)"
proof -
  assume "x < y"
  then have "x \<noteq> - 1" by (metis word_order.extremum_strict)
  with \<open>x < y\<close> show ?thesis by (simp add: word_less_nat_alt word_le_nat_alt u64_unat_inc)
qed

section \<open>Signed time\<close>

text \<open>Sums and differences of \<open>std::int64_t\<close> times. A result that is not representable is undefined behaviour of the program, here an
  error. (Times that are only stored or compared need no check.)\<close>

datatype time_fault = TimeOverflow

definition in_i64 :: "int \<Rightarrow> bool" where
  "in_i64 x \<longleftrightarrow> - (2 ^ 63) \<le> x \<and> x < 2 ^ 63"

definition checked_i64 :: "int \<Rightarrow> time_fault + i64" where
  "checked_i64 x = (if in_i64 x then Inr x else Inl TimeOverflow)"

section \<open>Ordered maps\<close>

fun omap_find :: "('k \<Rightarrow> 'k \<Rightarrow> bool) \<Rightarrow> 'k \<Rightarrow> ('k \<times> 'v) list \<Rightarrow> 'v option" where
  "omap_find lt k [] = None"
| "omap_find lt k ((k', v') # m) =
     (if lt k k' then None else if lt k' k then omap_find lt k m else Some v')"

fun omap_put :: "('k \<Rightarrow> 'k \<Rightarrow> bool) \<Rightarrow> 'k \<Rightarrow> 'v \<Rightarrow> ('k \<times> 'v) list \<Rightarrow> ('k \<times> 'v) list" where
  "omap_put lt k v [] = [(k, v)]"
| "omap_put lt k v ((k', v') # m) =
     (if lt k k' then (k, v) # (k', v') # m
      else if lt k' k then (k', v') # omap_put lt k v m
      else (k', v) # m)"

fun omap_erase :: "('k \<Rightarrow> 'k \<Rightarrow> bool) \<Rightarrow> 'k \<Rightarrow> ('k \<times> 'v) list \<Rightarrow> ('k \<times> 'v) list" where
  "omap_erase lt k [] = []"
| "omap_erase lt k ((k', v') # m) =
     (if lt k k' then (k', v') # m
      else if lt k' k then (k', v') # omap_erase lt k m
      else m)"

definition omap_wf :: "('k \<Rightarrow> 'k \<Rightarrow> bool) \<Rightarrow> ('k \<Rightarrow> bool) \<Rightarrow> ('k \<times> 'v) list \<Rightarrow> bool" where
  "omap_wf lt ok m \<longleftrightarrow> sorted_wrt lt (map fst m) \<and> list_all ok (map fst m)"

lemma omap_wf_Nil [simp]: "omap_wf lt ok []"
  by (simp add: omap_wf_def)

lemma omap_wf_Cons:
  "omap_wf lt ok ((k, v) # m) \<longleftrightarrow> (\<forall>k' \<in> fst ` set m. lt k k') \<and> ok k \<and> omap_wf lt ok m"
  by (auto simp: omap_wf_def)

text \<open>
  What \<open>std::map\<close> requires of its comparator, on the keys \<open>ok\<close> for which the requirement is met
  (every non-NaN \<open>double\<close>): a strict total order.
\<close>

locale ordered_keys =
  fixes lt :: "'k \<Rightarrow> 'k \<Rightarrow> bool"
    and ok :: "'k \<Rightarrow> bool"
  assumes lt_irrefl: "\<not> lt a a"
    and lt_trans: "lt a b \<Longrightarrow> lt b c \<Longrightarrow> lt a c"
    and lt_total: "ok a \<Longrightarrow> ok b \<Longrightarrow> a = b \<or> lt a b \<or> lt b a"
begin

lemma lt_asym: "lt a b \<Longrightarrow> \<not> lt b a"
  using lt_trans lt_irrefl by blast

lemma map_of_below: "omap_wf lt ok m \<Longrightarrow> (\<forall>k' \<in> fst ` set m. lt k k') \<Longrightarrow> map_of m k = None"
  using lt_irrefl by (fastforce simp: map_of_eq_None_iff)

lemma find_eq: "omap_wf lt ok m \<Longrightarrow> ok k \<Longrightarrow> omap_find lt k m = map_of m k"
proof (induction m)
  case (Cons kv m)
  obtain k' v' where kv: "kv = (k', v')" by force
  consider "k = k'" | "lt k k'" | "lt k' k"
    using lt_total [of k k'] Cons.prems by (auto simp: kv omap_wf_Cons)
  then show ?case
  proof cases
    case 2
    then have "map_of m k = None"
      using Cons.prems lt_trans by (intro map_of_below) (auto simp: kv omap_wf_Cons)
    then show ?thesis using 2 lt_irrefl by (auto simp: kv)
  qed (use Cons lt_irrefl lt_asym in \<open>auto simp: kv omap_wf_Cons\<close>)
qed simp

lemma map_of_put: "omap_wf lt ok m \<Longrightarrow> ok k \<Longrightarrow> map_of (omap_put lt k v m) = (map_of m)(k \<mapsto> v)"
proof (induction m)
  case (Cons kv m)
  obtain k' v' where kv: "kv = (k', v')" by force
  consider "k = k'" | "lt k k'" | "lt k' k"
    using lt_total [of k k'] Cons.prems by (auto simp: kv omap_wf_Cons)
  then show ?case
    by cases (use Cons lt_irrefl lt_asym in \<open>auto simp: kv omap_wf_Cons fun_eq_iff\<close>)
qed simp

lemma map_of_erase: "omap_wf lt ok m \<Longrightarrow> ok k \<Longrightarrow> map_of (omap_erase lt k m) = (map_of m)(k := None)"
proof (induction m)
  case (Cons kv m)
  obtain k' v' where kv: "kv = (k', v')" by force
  consider "k = k'" | "lt k k'" | "lt k' k"
    using lt_total [of k k'] Cons.prems by (auto simp: kv omap_wf_Cons)
  then show ?case
  proof cases
    case 1
    then have "map_of m k = None"
      using Cons.prems by (intro map_of_below) (auto simp: kv omap_wf_Cons)
    then show ?thesis using 1 lt_irrefl by (auto simp: kv fun_eq_iff)
  next
    case 2
    then have "map_of m k = None"
      using Cons.prems lt_trans by (intro map_of_below) (auto simp: kv omap_wf_Cons)
    then show ?thesis using 2 lt_irrefl by (auto simp: kv fun_eq_iff)
  next
    case 3
    then show ?thesis using Cons lt_irrefl lt_asym by (auto simp: kv omap_wf_Cons fun_eq_iff)
  qed
qed auto

lemma keys_put: "k' \<in> fst ` set (omap_put lt k v m) \<Longrightarrow> k' = k \<or> k' \<in> fst ` set m"
  by (induction m) (force split: if_splits)+

lemma keys_erase: "kv \<in> set (omap_erase lt k m) \<Longrightarrow> kv \<in> set m"
  by (induction m) (auto split: if_splits)

lemma wf_put: "omap_wf lt ok m \<Longrightarrow> ok k \<Longrightarrow> omap_wf lt ok (omap_put lt k v m)"
proof (induction m)
  case (Cons kv m)
  obtain k' v' where kv: "kv = (k', v')" by force
  consider "k = k'" | "lt k k'" | "lt k' k"
    using lt_total [of k k'] Cons.prems by (auto simp: kv omap_wf_Cons)
  then show ?case
  proof cases
    case 2
    then show ?thesis using Cons.prems lt_trans by (auto simp: kv omap_wf_Cons)
  next
    case 3
    then show ?thesis
      using Cons lt_asym keys_put [of _ k v m] by (fastforce simp: kv omap_wf_Cons)
  qed (use Cons lt_irrefl in \<open>auto simp: kv omap_wf_Cons\<close>)
qed (simp add: omap_wf_Cons)

lemma wf_erase: "omap_wf lt ok m \<Longrightarrow> omap_wf lt ok (omap_erase lt k m)"
proof (induction m)
  case (Cons kv m)
  then show ?case using keys_erase [of _ k m] by (cases kv) (fastforce simp: omap_wf_Cons)
qed simp

lemma distinct_keys: "omap_wf lt ok m \<Longrightarrow> distinct (map fst m)"
proof (induction m)
  case (Cons kv m)
  then show ?case using lt_irrefl by (cases kv) (fastforce simp: omap_wf_Cons)
qed simp

lemma mem_iff: "omap_wf lt ok m \<Longrightarrow> (k, v) \<in> set m \<longleftrightarrow> map_of m k = Some v"
  using distinct_keys by (metis map_of_eq_Some_iff)

end

section \<open>Unordered maps\<close>

lemma AList_update_member: "kv \<in> set (AList.update i v al) \<Longrightarrow> kv = (i, v) \<or> kv \<in> set al"
  by (induction al) (auto split: if_splits)

lemma AList_delete_member: "kv \<in> set (AList.delete i al) \<longleftrightarrow> kv \<in> set al \<and> fst kv \<noteq> i"
  by (auto simp: AList.delete_eq)

end
