(* ===== verification/Ring_Queue.thy ===== *)
theory Ring_Queue
  imports Prelude
begin

unbundle bit_operations_syntax

text \<open>
  The single-producer single-consumer ring of \<open>infrastructure/lock-free-structures\<close>
  (\<open>spsc_ring_queue.hpp\<close>) behind the CRTP base \<open>QueueFacade\<close> (\<open>queue_facade.hpp\<close>). The
  indices \<open>head_\<close> and \<open>tail_\<close> are free-running 64-bit counters; a slot is the counter masked by
  \<open>capacity_ - 1\<close>.

  First the operations run to completion: they refine a bounded first-in first-out list, also when the
  counters wrap around. Then the same operations are split at their atomic accesses and interleaved, for
  one producer and one consumer. The interleaving here is sequentially consistent; the theory \<open>Ring_Weak\<close> has the
  same steps under the release/acquire memory model.
\<close>

section \<open>The ring\<close>

datatype ring_error = CapacityBelowTwo | CapacityNotRepresentable

record 'a SpscRingQueue =
  rq_capacity :: u64
  rq_mask :: u64
  rq_buffer :: "'a option list"
  rq_head :: u64
  rq_tail :: u64

text \<open>\<open>std::bit_ceil\<close>: the least power of two that is not below the argument. A result that does not fit into
  \<open>std::size_t\<close> is undefined behaviour.\<close>

function bit_ceil_from :: "nat \<Rightarrow> nat \<Rightarrow> nat" where
  "bit_ceil_from p x = (if p = 0 \<or> x \<le> p then p else bit_ceil_from (2 * p) x)"
  by pat_completeness auto
termination
  by (relation "measure (\<lambda>(p, x). x - p)") auto

declare bit_ceil_from.simps [simp del]

definition normalize_capacity :: "u64 \<Rightarrow> ring_error + u64" where
  "normalize_capacity requested_capacity =
     (if requested_capacity < 2 then Inl CapacityBelowTwo
      else let c = bit_ceil_from 1 (unat requested_capacity)
           in if c \<ge> 2 ^ 64 then Inl CapacityNotRepresentable else Inr (of_nat c))"

definition new_SpscRingQueue :: "u64 \<Rightarrow> ring_error + 'a SpscRingQueue" where
  "new_SpscRingQueue requested_capacity =
     (case normalize_capacity requested_capacity of
        Inl e \<Rightarrow> Inl e
      | Inr c \<Rightarrow> Inr \<lparr>rq_capacity = c, rq_mask = c - 1, rq_buffer = replicate (unat c) None,
                       rq_head = 0, rq_tail = 0\<rparr>)"

declare new_SpscRingQueue_def [exec_simps]

lemma normalize_capacity_2 [exec_simps]: "normalize_capacity 2 = Inr 2"
  by (simp add: normalize_capacity_def bit_ceil_from.simps [of "Suc 0"] bit_ceil_from.simps [of 2])

definition rq_slot :: "'a SpscRingQueue \<Rightarrow> u64 \<Rightarrow> nat" where
  "rq_slot q index = unat (index AND rq_mask q)"

definition rq_emplace :: "'a \<Rightarrow> 'a SpscRingQueue \<Rightarrow> bool \<times> 'a SpscRingQueue" where
  "rq_emplace value q =
     (let tail = rq_tail q in
      if tail - rq_head q = rq_capacity q then (False, q)
      else (True, q\<lparr>rq_buffer := (rq_buffer q)[rq_slot q tail := Some value], rq_tail := tail + 1\<rparr>))"

definition rq_push :: "'a \<Rightarrow> 'a SpscRingQueue \<Rightarrow> bool \<times> 'a SpscRingQueue" where
  "rq_push value q = rq_emplace value q"

definition rq_try_pop :: "'a SpscRingQueue \<Rightarrow> 'a option \<times> 'a SpscRingQueue" where
  "rq_try_pop q =
     (let head = rq_head q in
      if head = rq_tail q then (None, q)
      else let slot = rq_slot q head;
               result = rq_buffer q ! slot
           in (result, q\<lparr>rq_buffer := (rq_buffer q)[slot := None], rq_head := head + 1\<rparr>))"

definition rq_size_approx :: "'a SpscRingQueue \<Rightarrow> u64" where
  "rq_size_approx q = rq_tail q - rq_head q"

definition rq_empty :: "'a SpscRingQueue \<Rightarrow> bool" where
  "rq_empty q = (rq_size_approx q = 0)"

text \<open>\<open>QueueFacade::drain\<close> over the derived class's \<open>try_pop_impl\<close>, with the items in output order.\<close>

function qf_drain_loop ::
  "('q \<Rightarrow> 'a option \<times> 'q) \<Rightarrow> u64 \<Rightarrow> u64 \<Rightarrow> 'q \<Rightarrow> 'a list \<Rightarrow> u64 \<times> 'a list \<times> 'q" where
  "qf_drain_loop try_pop max_items drained q out =
     (if drained < max_items
      then (case try_pop q of
              (None, q') \<Rightarrow> (drained, out, q')
            | (Some item, q') \<Rightarrow> qf_drain_loop try_pop max_items (drained + 1) q' (out @ [item]))
      else (drained, out, q))"
  by pat_completeness auto
termination
  by (relation "measure (\<lambda>(_, m, d, _, _). unat (m - d))")
     (auto simp: unat_sub_if' u64_unat_inc_below word_less_nat_alt)

declare qf_drain_loop.simps [simp del]

definition qf_drain :: "('q \<Rightarrow> 'a option \<times> 'q) \<Rightarrow> u64 \<Rightarrow> 'q \<Rightarrow> u64 \<times> 'a list \<times> 'q" where
  "qf_drain try_pop max_items q = qf_drain_loop try_pop max_items 0 q []"

section \<open>Slots\<close>

definition rq_geom :: "'a SpscRingQueue \<Rightarrow> bool" where
  "rq_geom q \<longleftrightarrow> (\<exists>k \<in> {1 ..< 64}. rq_capacity q = 2 ^ k \<and> rq_mask q = 2 ^ k - 1 \<and> length (rq_buffer q) = 2 ^ k)"

definition rq_len :: "'a SpscRingQueue \<Rightarrow> nat" where
  "rq_len q = unat (rq_tail q - rq_head q)"

definition rq_at :: "'a SpscRingQueue \<Rightarrow> nat \<Rightarrow> 'a option" where
  "rq_at q i = rq_buffer q ! rq_slot q (rq_head q + of_nat i)"

text \<open>The queued elements, oldest first, and the invariant of a quiescent ring: at most \<open>capacity_\<close> elements,
  and the occupied slots are exactly those between \<open>head_\<close> and \<open>tail_\<close>.\<close>

definition rq_contents :: "'a SpscRingQueue \<Rightarrow> 'a list" where
  "rq_contents q = map (\<lambda>i. the (rq_at q i)) [0 ..< rq_len q]"

definition rq_wf :: "'a SpscRingQueue \<Rightarrow> bool" where
  "rq_wf q \<longleftrightarrow> rq_geom q \<and> rq_len q \<le> unat (rq_capacity q) \<and>
     (\<forall>i < unat (rq_capacity q). (rq_at q i \<noteq> None) = (i < rq_len q))"

lemma unat_exp64 [simp]: "k < 64 \<Longrightarrow> unat (2 ^ k :: u64) = 2 ^ k"
  using unat_of_nat [of "2 ^ k", where 'a = 64] power_strict_increasing [of k 64 "2 :: nat"] by simp

lemma rq_slot_mod:
  assumes "rq_geom q"
  shows "rq_slot q (h + of_nat i) = (unat h + i) mod unat (rq_capacity q)"
proof -
  obtain k where k: "k < 64" "rq_capacity q = 2 ^ k" "rq_mask q = mask k"
    using assms by (auto simp: rq_geom_def mask_eq_exp_minus_1)
  have "rq_slot q (h + of_nat i) = unat (h + of_nat i) mod 2 ^ k"
    using k by (simp add: rq_slot_def flip: take_bit_eq_mask) (simp add: take_bit_eq_mod unat_mod)
  moreover have "unat (h + of_nat i) = (unat h + i) mod 2 ^ 64"
    by (simp add: unat_word_ariths unat_of_nat mod_add_right_eq)
  moreover have "(unat h + i) mod 2 ^ 64 mod 2 ^ k = (unat h + i) mod 2 ^ k"
    using le_imp_power_dvd [of k 64 "2 :: nat"] k(1) by (intro mod_mod_cancel) simp
  ultimately show ?thesis using k by simp
qed

lemma rq_geom_facts:
  assumes "rq_geom q"
  shows "2 \<le> unat (rq_capacity q)" "unat (rq_capacity q) < 2 ^ 64" "length (rq_buffer q) = unat (rq_capacity q)"
proof -
  obtain k where k: "1 \<le> k" "k < 64" "rq_capacity q = 2 ^ k" "length (rq_buffer q) = 2 ^ k"
    using assms by (auto simp: rq_geom_def)
  show "2 \<le> unat (rq_capacity q)" using k(1) power_increasing [of 1 k "2 :: nat"] k by simp
  show "unat (rq_capacity q) < 2 ^ 64" using unsigned_less [of "rq_capacity q"] by simp
  show "length (rq_buffer q) = unat (rq_capacity q)" using k by simp
qed

lemma rq_slot_bound: "rq_geom q \<Longrightarrow> rq_slot q h < length (rq_buffer q)"
  using rq_slot_mod [of q h 0] rq_geom_facts [of q] by simp

lemma rq_slot_inject:
  assumes "rq_geom q" "i < unat (rq_capacity q)" "j < unat (rq_capacity q)"
  shows "rq_slot q (h + of_nat i) = rq_slot q (h + of_nat j) \<longleftrightarrow> i = j"
proof -
  have "i = j" if "i \<le> j" "j < c" "(a + j) mod c = (a + i) mod c" for a c i j :: nat
  proof -
    have "c dvd j - i" using that mod_eq_dvd_iff_nat [of "a + i" "a + j" c] by simp
    then show ?thesis using that dvd_imp_le [of c "j - i"] by fastforce
  qed
  then show ?thesis using assms by (metis rq_slot_mod nat_le_linear)
qed

lemma rq_slot_wrap: "rq_geom q \<Longrightarrow> rq_slot q (h + of_nat (unat (rq_capacity q))) = rq_slot q h"
  using rq_slot_mod [of q h "unat (rq_capacity q)"] rq_slot_mod [of q h 0] by simp

lemma rq_tail_eq: "rq_tail q = rq_head q + of_nat (rq_len q)"
  by (simp add: rq_len_def)

lemma rq_slot_update [simp]:
  "rq_slot (q\<lparr>rq_buffer := b\<rparr>) w = rq_slot q w"
  "rq_slot (q\<lparr>rq_tail := t\<rparr>) w = rq_slot q w"
  "rq_slot (q\<lparr>rq_head := h\<rparr>) w = rq_slot q w"
  by (simp_all add: rq_slot_def)

lemma rq_geom_update [simp]:
  "rq_geom (q\<lparr>rq_tail := t\<rparr>) = rq_geom q"
  "rq_geom (q\<lparr>rq_head := h\<rparr>) = rq_geom q"
  "rq_geom (q\<lparr>rq_buffer := (rq_buffer q)[i := x]\<rparr>) = rq_geom q"
  by (simp_all add: rq_geom_def)

section \<open>The operations on a quiescent ring\<close>

lemma rq_full_iff: "rq_tail q - rq_head q = rq_capacity q \<longleftrightarrow> rq_len q = unat (rq_capacity q)"
  by (simp add: rq_len_def word_unat_eq_iff)

lemma rq_empty_iff: "rq_head q = rq_tail q \<longleftrightarrow> rq_len q = 0"
  by (auto simp: rq_len_def unat_eq_0)

lemma rq_len_inc:
  assumes "rq_geom q" "rq_len q < unat (rq_capacity q)"
  shows "unat (rq_tail q + 1 - rq_head q) = Suc (rq_len q)"
proof -
  have "rq_tail q - rq_head q < rq_capacity q" using assms(2) by (simp add: rq_len_def word_less_nat_alt)
  from u64_unat_inc_below [OF this] show ?thesis by (simp add: rq_len_def algebra_simps)
qed

lemma rq_len_dec:
  assumes "rq_len q \<noteq> 0"
  shows "unat (rq_tail q - (rq_head q + 1)) = rq_len q - 1"
proof -
  let ?d = "rq_tail q - rq_head q"
  have "unat (?d - 1) = unat ?d - 1" using assms by (simp add: rq_len_def unat_minus_one unat_eq_0)
  then show ?thesis by (simp add: rq_len_def algebra_simps)
qed

text \<open>A pop that yields an element shortens the queue: the measure of every draining loop.\<close>

lemma rq_pop_shorter:
  assumes "fst (rq_try_pop q) = Some x"
  shows "rq_len (snd (rq_try_pop q)) < rq_len q"
proof -
  have "rq_head q \<noteq> rq_tail q" using assms by (auto simp: rq_try_pop_def Let_def)
  then have "rq_len q \<noteq> 0" by (simp add: rq_len_def unat_eq_0)
  moreover have "rq_len (snd (rq_try_pop q)) = unat (rq_tail q - (rq_head q + 1))"
    using \<open>rq_head q \<noteq> rq_tail q\<close> by (simp add: rq_try_pop_def rq_len_def Let_def)
  ultimately show ?thesis using rq_len_dec [of q] by simp
qed

lemma rq_push_full: "rq_len q = unat (rq_capacity q) \<Longrightarrow> rq_push v q = (False, q)"
  by (simp add: rq_push_def rq_emplace_def Let_def rq_full_iff)

lemma rq_push_room:
  assumes "rq_wf q" "rq_len q < unat (rq_capacity q)"
  obtains q' where "rq_push v q = (True, q')" "rq_geom q'" "rq_capacity q' = rq_capacity q" "rq_head q' = rq_head q"
    "rq_len q' = Suc (rq_len q)"
    "\<And>i. i < unat (rq_capacity q) \<Longrightarrow> rq_at q' i = (if i = rq_len q then Some v else rq_at q i)"
proof -
  let ?q = "q\<lparr>rq_buffer := (rq_buffer q)[rq_slot q (rq_tail q) := Some v], rq_tail := rq_tail q + 1\<rparr>"
  have geom: "rq_geom q" using assms(1) by (simp add: rq_wf_def)
  have at: "rq_at ?q i = (if i = rq_len q then Some v else rq_at q i)" if "i < unat (rq_capacity q)" for i
    using rq_slot_inject [OF geom that assms(2), of "rq_head q"] rq_slot_bound [OF geom]
    by (auto simp: rq_at_def rq_tail_eq nth_list_update)
  show thesis
  proof (rule that [of ?q])
    show "rq_push v q = (True, ?q)" using assms(2) by (simp add: rq_push_def rq_emplace_def Let_def rq_full_iff)
    show "rq_geom ?q" using geom by simp
    show "rq_len ?q = Suc (rq_len q)" using rq_len_inc [OF geom assms(2)] by (simp add: rq_len_def)
  qed (use at in auto)
qed

lemma rq_pop_empty: "rq_len q = 0 \<Longrightarrow> rq_try_pop q = (None, q)"
  by (simp add: rq_try_pop_def rq_empty_iff)

lemma rq_pop_some:
  assumes "rq_wf q" "rq_len q \<noteq> 0"
  obtains q' where "rq_try_pop q = (rq_at q 0, q')" "rq_geom q'" "rq_capacity q' = rq_capacity q"
    "rq_len q' = rq_len q - 1"
    "\<And>i. i < unat (rq_capacity q) \<Longrightarrow> rq_at q' i = (if Suc i = unat (rq_capacity q) then None else rq_at q (Suc i))"
proof -
  let ?q = "q\<lparr>rq_buffer := (rq_buffer q)[rq_slot q (rq_head q) := None], rq_head := rq_head q + 1\<rparr>"
  have geom: "rq_geom q" using assms(1) by (simp add: rq_wf_def)
  note facts = rq_geom_facts [OF geom]
  have suc: "rq_head q + 1 + of_nat i = rq_head q + of_nat (Suc i)" for i by simp
  have at: "rq_at ?q i = (if Suc i = unat (rq_capacity q) then None else rq_at q (Suc i))"
    if "i < unat (rq_capacity q)" for i
  proof (cases "Suc i = unat (rq_capacity q)")
    case True
    then have "rq_slot q (rq_head q + of_nat (Suc i)) = rq_slot q (rq_head q)" using rq_slot_wrap [OF geom] by simp
    then show ?thesis using True rq_slot_bound [OF geom] by (simp add: rq_at_def suc del: of_nat_Suc)
  next
    case False
    with that have "rq_slot q (rq_head q + of_nat (Suc i)) \<noteq> rq_slot q (rq_head q + of_nat 0)"
      using rq_slot_inject [OF geom, of "Suc i" 0 "rq_head q"] by simp
    then show ?thesis using False by (simp add: rq_at_def suc del: of_nat_Suc)
  qed
  show thesis
  proof (rule that [of ?q])
    show "rq_try_pop q = (rq_at q 0, ?q)" using assms(2) by (simp add: rq_try_pop_def rq_empty_iff Let_def rq_at_def)
    show "rq_geom ?q" using geom by simp
    show "rq_len ?q = rq_len q - 1" using rq_len_dec [OF assms(2)] by (simp add: rq_len_def)
  qed (use at in auto)
qed

lemma rq_contents_length [simp]: "length (rq_contents q) = rq_len q"
  by (simp add: rq_contents_def)

lemma rq_push_refines:
  assumes "rq_wf q"
  shows "rq_wf (snd (rq_push v q)) \<and> rq_capacity (snd (rq_push v q)) = rq_capacity q \<and>
    fst (rq_push v q) = (length (rq_contents q) < unat (rq_capacity q)) \<and>
    rq_contents (snd (rq_push v q)) =
      (if length (rq_contents q) < unat (rq_capacity q) then rq_contents q @ [v] else rq_contents q)"
proof (cases "rq_len q < unat (rq_capacity q)")
  case True
  from rq_push_room [OF assms True, of v] show ?thesis
  proof (cases)
    case (1 q')
    have "rq_contents q' = rq_contents q @ [v]"
      using True 1 by (simp add: rq_contents_def)
    moreover have "rq_wf q'" using assms True 1 by (auto simp: rq_wf_def)
    ultimately show ?thesis using True 1 by simp
  qed
next
  case False
  with assms have "rq_len q = unat (rq_capacity q)" by (auto simp: rq_wf_def)
  then show ?thesis using rq_push_full [of q v] assms by simp
qed

lemma rq_pop_refines:
  assumes "rq_wf q"
  shows "rq_wf (snd (rq_try_pop q)) \<and> rq_capacity (snd (rq_try_pop q)) = rq_capacity q \<and>
    fst (rq_try_pop q) = (case rq_contents q of [] \<Rightarrow> None | x # _ \<Rightarrow> Some x) \<and>
    rq_contents (snd (rq_try_pop q)) = tl (rq_contents q)"
proof (cases "rq_len q = 0")
  case True
  then show ?thesis using rq_pop_empty [of q] assms by (simp add: rq_contents_def)
next
  case False
  from rq_pop_some [OF assms False] show ?thesis
  proof (cases)
    case (1 q')
    have occ: "rq_len q \<le> unat (rq_capacity q)" "\<And>i. i < unat (rq_capacity q) \<Longrightarrow> (rq_at q i \<noteq> None) = (i < rq_len q)"
      using assms by (auto simp: rq_wf_def)
    have split: "rq_contents q = the (rq_at q 0) # map (\<lambda>i. the (rq_at q (Suc i))) [0 ..< rq_len q - 1]"
      using False by (intro nth_equalityI) (auto simp: rq_contents_def nth_Cons split: nat.split)
    have "rq_contents q' = map (\<lambda>i. the (rq_at q (Suc i))) [0 ..< rq_len q - 1]"
      unfolding rq_contents_def 1 using 1(5) occ(1) False by (intro map_cong) auto
    moreover have "rq_at q 0 = Some (the (rq_at q 0))" using occ False by (metis le_less_trans less_le option.collapse not_gr_zero not_less0)
    moreover have "rq_wf q'" using 1 occ False by (auto simp: rq_wf_def)
    ultimately show ?thesis using 1 split by simp
  qed
qed

lemma bit_ceil_from_power:
  "x \<le> 2 ^ n \<Longrightarrow> j \<le> n \<Longrightarrow> \<exists>k. j \<le> k \<and> k \<le> n \<and> bit_ceil_from (2 ^ j) x = 2 ^ k \<and> x \<le> 2 ^ k \<and> (k = j \<or> 2 ^ (k - 1) < x)"
proof (induction "n - j" arbitrary: j)
  case 0
  then show ?case by (auto simp: bit_ceil_from.simps [of "2 ^ j"])
next
  case (Suc d)
  show ?case
  proof (cases "x \<le> 2 ^ j")
    case True
    then show ?thesis using Suc.prems by (intro exI [of _ j]) (simp add: bit_ceil_from.simps [of "2 ^ j"])
  next
    case False
    then have step: "bit_ceil_from (2 ^ j) x = bit_ceil_from (2 ^ Suc j) x" by (simp add: bit_ceil_from.simps [of "2 ^ j"])
    have "d = n - Suc j" "Suc j \<le> n" using Suc.hyps(2) by simp_all
    then obtain k where "Suc j \<le> k" "k \<le> n" "bit_ceil_from (2 ^ Suc j) x = 2 ^ k" "x \<le> 2 ^ k" "k = Suc j \<or> 2 ^ (k - 1) < x"
      using Suc.hyps(1) [of "Suc j"] Suc.prems(1) by auto
    then show ?thesis using step False by (intro exI [of _ k]) auto
  qed
qed

lemma normalize_capacity_cases:
  "normalize_capacity c =
     (if c < 2 then Inl CapacityBelowTwo else if unat c > 2 ^ 63 then Inl CapacityNotRepresentable
      else normalize_capacity c) \<and>
   (c \<ge> 2 \<and> unat c \<le> 2 ^ 63 \<longrightarrow>
      (\<exists>k \<in> {1 ..< 64}. normalize_capacity c = Inr (2 ^ k) \<and> unat c \<le> 2 ^ k \<and> 2 ^ (k - 1) < unat c))"
proof (cases "c < 2")
  case False
  then have ge: "2 \<le> unat c" by (simp add: word_less_nat_alt)
  have "unat c \<le> 2 ^ 64" using unsigned_less [of c, where 'a = nat] by simp
  from bit_ceil_from_power [OF this, of 0] obtain k where k: "k \<le> 64" "bit_ceil_from 1 (unat c) = 2 ^ k"
    "unat c \<le> 2 ^ k" "k = 0 \<or> 2 ^ (k - 1) < unat c" by auto
  have k0: "k \<noteq> 0" using ge k(3) by (cases k) auto
  with k have low: "2 ^ (k - 1) < unat c" by simp
  show ?thesis
  proof (cases "k = 64")
    case True
    then show ?thesis using False k(2) low by (simp add: normalize_capacity_def)
  next
    case f64: False
    then have "k < 64" using k(1) by simp
    then have p: "(2 :: nat) ^ k < 2 ^ 64" "(2 :: nat) ^ k \<le> 2 ^ 63" by (simp_all del: power_numeral)
    then have "normalize_capacity c = Inr (2 ^ k)"
      using False k(2) by (simp add: normalize_capacity_def)
    then show ?thesis using False k(3) low k0 \<open>k < 64\<close> p by (auto intro!: bexI [of _ k])
  qed
qed (auto simp: normalize_capacity_def)

lemma rq_wf_new:
  assumes "new_SpscRingQueue c = Inr q"
  shows "rq_wf q" "rq_contents q = []"
proof -
  obtain m where m: "normalize_capacity c = Inr m" and q: "q = \<lparr>rq_capacity = m, rq_mask = m - 1,
      rq_buffer = replicate (unat m) None, rq_head = 0, rq_tail = 0\<rparr>"
    using assms by (auto simp: new_SpscRingQueue_def split: sum.splits)
  then obtain k where "k \<in> {1 ..< 64}" "m = 2 ^ k"
    using normalize_capacity_cases [of c] by (fastforce split: if_splits)
  then have geom: "rq_geom q" using q by (auto simp: rq_geom_def)
  show "rq_contents q = []" using q by (simp add: rq_contents_def rq_len_def)
  show "rq_wf q" using geom rq_slot_bound [OF geom] q by (simp add: rq_wf_def rq_len_def rq_at_def)
qed

section \<open>The queue interface\<close>

datatype 'a queue_op = Push 'a | Pop

datatype 'a queue_answer = Pushed bool | Popped "'a option"

text \<open>Runs a sequence of operations on a queue and collects the answers; and the same on a list of at most \<open>cap\<close> elements.\<close>

fun run_queue :: "('a \<Rightarrow> 'q \<Rightarrow> bool \<times> 'q) \<Rightarrow> ('q \<Rightarrow> 'a option \<times> 'q) \<Rightarrow> 'a queue_op list \<Rightarrow> 'q \<Rightarrow> 'a queue_answer list \<times> 'q" where
  "run_queue push pop [] q = ([], q)"
| "run_queue push pop (Push v # ops) q = (let (ok, q1) = push v q; (answers, q2) = run_queue push pop ops q1 in (Pushed ok # answers, q2))"
| "run_queue push pop (Pop # ops) q = (let (r, q1) = pop q; (answers, q2) = run_queue push pop ops q1 in (Popped r # answers, q2))"

fun run_bounded_list :: "nat \<Rightarrow> 'a queue_op list \<Rightarrow> 'a list \<Rightarrow> 'a queue_answer list \<times> 'a list" where
  "run_bounded_list cap [] xs = ([], xs)"
| "run_bounded_list cap (Push v # ops) xs =
     (if length xs < cap then let (answers, ys) = run_bounded_list cap ops (xs @ [v]) in (Pushed True # answers, ys)
      else let (answers, ys) = run_bounded_list cap ops xs in (Pushed False # answers, ys))"
| "run_bounded_list cap (Pop # ops) [] = (let (answers, ys) = run_bounded_list cap ops [] in (Popped None # answers, ys))"
| "run_bounded_list cap (Pop # ops) (x # xs) = (let (answers, ys) = run_bounded_list cap ops xs in (Popped (Some x) # answers, ys))"

text \<open>What a class derived from \<open>QueueFacade\<close> promises, and what clients get from it.\<close>

locale bounded_fifo =
  fixes push :: "'a \<Rightarrow> 'q \<Rightarrow> bool \<times> 'q"
    and try_pop :: "'q \<Rightarrow> 'a option \<times> 'q"
    and contents :: "'q \<Rightarrow> 'a list"
    and wf :: "'q \<Rightarrow> bool"
    and cap :: "'q \<Rightarrow> nat"
  assumes push_law: "wf q \<Longrightarrow> wf (snd (push v q)) \<and> cap (snd (push v q)) = cap q \<and>
      fst (push v q) = (length (contents q) < cap q) \<and>
      contents (snd (push v q)) = (if length (contents q) < cap q then contents q @ [v] else contents q)"
    and pop_law: "wf q \<Longrightarrow> wf (snd (try_pop q)) \<and> cap (snd (try_pop q)) = cap q \<and>
      fst (try_pop q) = (case contents q of [] \<Rightarrow> None | x # _ \<Rightarrow> Some x) \<and>
      contents (snd (try_pop q)) = tl (contents q)"
    and wf_bound: "wf q \<Longrightarrow> length (contents q) \<le> cap q"
begin

lemma run_fifo:
  "wf q \<Longrightarrow> run_queue push try_pop ops q = (answers, q') \<Longrightarrow>
   run_bounded_list (cap q) ops (contents q) = (answers, contents q') \<and> wf q' \<and> cap q' = cap q"
proof (induction ops arbitrary: q answers)
  case (Cons op ops)
  obtain answers' q1 where q1: "run_queue push try_pop ops q1 = (answers', q')" "q1 = (case op of Push v \<Rightarrow> snd (push v q) | Pop \<Rightarrow> snd (try_pop q))"
    and answers: "answers = (case op of Push v \<Rightarrow> Pushed (fst (push v q)) | Pop \<Rightarrow> Popped (fst (try_pop q))) # answers'"
    using Cons.prems(2) by (cases op) (auto split: prod.splits)
  have step: "wf q1" "cap q1 = cap q" using q1(2) push_law [OF Cons.prems(1)] pop_law [OF Cons.prems(1)] by (auto split: queue_op.splits)
  note IH = Cons.IH [OF step(1) q1(1), unfolded step(2)]
  show ?case
  proof (cases op)
    case (Push v)
    then show ?thesis using IH q1(2) answers push_law [OF Cons.prems(1), of v] by (cases "length (contents q) < cap q") simp_all
  next
    case Pop
    then show ?thesis using IH q1(2) answers pop_law [OF Cons.prems(1)] by (cases "contents q") simp_all
  qed
qed simp

lemma drain_loop:
  "wf q \<Longrightarrow> qf_drain_loop try_pop m d q out = (n, out', q') \<Longrightarrow> d \<le> m \<Longrightarrow>
   out' = out @ take (unat (m - d)) (contents q) \<and> contents q' = drop (unat (m - d)) (contents q) \<and> wf q' \<and>
   n = d + of_nat (min (unat (m - d)) (length (contents q)))"
proof (induction try_pop\<equiv>try_pop m d q out arbitrary: n out' q' rule: qf_drain_loop.induct)
  case (1 m d q out)
  show ?case
  proof (cases "d < m")
    case True
    then have suc: "unat (m - d) = Suc (unat (m - (d + 1)))"
      using u64_unat_inc_below [OF True] by (simp add: unat_sub_if' word_less_nat_alt)
    show ?thesis
    proof (cases "contents q")
      case Nil
      then show ?thesis using 1 True pop_law [of q] by (auto simp: qf_drain_loop.simps [of _ m d q] split: prod.splits)
    next
      case (Cons x xs)
      then obtain q1 where q1: "try_pop q = (Some x, q1)" "wf q1" "contents q1 = xs"
        using pop_law [OF 1(2)] by (cases "try_pop q") auto
      have "qf_drain_loop try_pop m (d + 1) q1 (out @ [x]) = (n, out', q')"
        using 1(3) True q1 by (simp add: qf_drain_loop.simps [of _ m d q])
      from 1(1) [OF True q1(1) [symmetric] refl q1(2) this] True q1 Cons suc u64_inc_le [OF True]
      show ?thesis by (auto simp: min_def algebra_simps)
    qed
  next
    case False
    then have "d = m" using 1 by simp
    then show ?thesis using 1 by (simp add: qf_drain_loop.simps [of _ m m q])
  qed
qed

lemma drain_takes_front:
  "wf q \<Longrightarrow> qf_drain try_pop m q = (n, out, q') \<Longrightarrow>
   out = take (unat m) (contents q) \<and> contents q' = drop (unat m) (contents q) \<and> wf q' \<and>
   n = of_nat (length out)"
  using drain_loop [of q m 0 "[]" n out q'] by (simp add: qf_drain_def min.commute)

end

interpretation rq: bounded_fifo rq_push rq_try_pop rq_contents rq_wf "\<lambda>q. unat (rq_capacity q)"
proof
  show "rq_wf q \<Longrightarrow> length (rq_contents q) \<le> unat (rq_capacity q)" for q by (simp add: rq_wf_def)
qed (simp_all only: rq_push_refines rq_pop_refines)

section \<open>Interleaved producer and consumer\<close>

text \<open>One thread runs \<open>push\<close>, another \<open>try_pop\<close>; each atomic load or store and each slot access is a step. The
  producer's counters are: the value and the loaded tail (\<open>PTail\<close>), after the capacity check (\<open>PWrite\<close>), after
  the slot is written (\<open>PPublish\<close>). The consumer's: the loaded head (\<open>CHead\<close>), after the check
  (\<open>CTake\<close>), after the value is moved out and the slot reset (\<open>CRelease\<close>). The fields \<open>sp_pushed\<close> and
  \<open>sp_popped\<close> record the values of completed operations.\<close>

datatype 'a producer_pc = PIdle | PTail 'a u64 | PWrite 'a u64 | PPublish 'a u64

datatype 'a consumer_pc = CIdle | CHead u64 | CTake u64 | CRelease u64 "'a option"

record 'a spsc =
  sp_ring :: "'a SpscRingQueue"
  sp_prod :: "'a producer_pc"
  sp_cons :: "'a consumer_pc"
  sp_pushed :: "'a list"
  sp_popped :: "'a option list"

inductive spsc_step :: "'a spsc \<Rightarrow> 'a spsc \<Rightarrow> bool" where
  load_tail: "sp_prod s = PIdle \<Longrightarrow> spsc_step s (s\<lparr>sp_prod := PTail v (rq_tail (sp_ring s))\<rparr>)"
| push_full: "\<lbrakk>sp_prod s = PTail v t; t - rq_head (sp_ring s) = rq_capacity (sp_ring s)\<rbrakk> \<Longrightarrow>
    spsc_step s (s\<lparr>sp_prod := PIdle\<rparr>)"
| push_room: "\<lbrakk>sp_prod s = PTail v t; t - rq_head (sp_ring s) \<noteq> rq_capacity (sp_ring s)\<rbrakk> \<Longrightarrow>
    spsc_step s (s\<lparr>sp_prod := PWrite v t\<rparr>)"
| write_slot: "sp_prod s = PWrite v t \<Longrightarrow>
    spsc_step s (s\<lparr>sp_ring := (sp_ring s)\<lparr>rq_buffer := (rq_buffer (sp_ring s))[rq_slot (sp_ring s) t := Some v]\<rparr>,
      sp_prod := PPublish v t\<rparr>)"
| store_tail: "sp_prod s = PPublish v t \<Longrightarrow>
    spsc_step s (s\<lparr>sp_ring := (sp_ring s)\<lparr>rq_tail := t + 1\<rparr>, sp_prod := PIdle, sp_pushed := sp_pushed s @ [v]\<rparr>)"
| load_head: "sp_cons s = CIdle \<Longrightarrow> spsc_step s (s\<lparr>sp_cons := CHead (rq_head (sp_ring s))\<rparr>)"
| pop_empty: "\<lbrakk>sp_cons s = CHead h; h = rq_tail (sp_ring s)\<rbrakk> \<Longrightarrow> spsc_step s (s\<lparr>sp_cons := CIdle\<rparr>)"
| pop_some: "\<lbrakk>sp_cons s = CHead h; h \<noteq> rq_tail (sp_ring s)\<rbrakk> \<Longrightarrow> spsc_step s (s\<lparr>sp_cons := CTake h\<rparr>)"
| take_slot: "sp_cons s = CTake h \<Longrightarrow>
    spsc_step s (s\<lparr>sp_ring := (sp_ring s)\<lparr>rq_buffer := (rq_buffer (sp_ring s))[rq_slot (sp_ring s) h := None]\<rparr>,
      sp_cons := CRelease h (rq_buffer (sp_ring s) ! rq_slot (sp_ring s) h)\<rparr>)"
| store_head: "sp_cons s = CRelease h r \<Longrightarrow>
    spsc_step s (s\<lparr>sp_ring := (sp_ring s)\<lparr>rq_head := h + 1\<rparr>, sp_cons := CIdle, sp_popped := sp_popped s @ [r]\<rparr>)"

definition spsc_init :: "'a SpscRingQueue \<Rightarrow> 'a spsc" where
  "spsc_init q = \<lparr>sp_ring = q, sp_prod = PIdle, sp_cons = CIdle, sp_pushed = [], sp_popped = []\<rparr>"

text \<open>The values between the two counters, the expected content of the \<open>i\<close>th slot from \<open>head_\<close>, and the
  invariant of the interleaving.\<close>

definition expected_slot :: "'a list \<Rightarrow> 'a producer_pc \<Rightarrow> 'a consumer_pc \<Rightarrow> nat \<Rightarrow> 'a option" where
  "expected_slot queue p c i =
     (if i < length queue then (case c of CRelease _ _ \<Rightarrow> if i = 0 then None else Some (queue ! i) | _ \<Rightarrow> Some (queue ! i))
      else (case p of PPublish v _ \<Rightarrow> if i = length queue then Some v else None | _ \<Rightarrow> None))"

definition prod_ok :: "'a SpscRingQueue \<Rightarrow> 'a producer_pc \<Rightarrow> bool" where
  "prod_ok q p = (case p of PIdle \<Rightarrow> True | PTail v t \<Rightarrow> t = rq_tail q
     | PWrite v t \<Rightarrow> t = rq_tail q \<and> rq_len q < unat (rq_capacity q)
     | PPublish v t \<Rightarrow> t = rq_tail q \<and> rq_len q < unat (rq_capacity q))"

definition cons_ok :: "'a SpscRingQueue \<Rightarrow> 'a list \<Rightarrow> 'a consumer_pc \<Rightarrow> bool" where
  "cons_ok q queue c = (case c of CIdle \<Rightarrow> True | CHead h \<Rightarrow> h = rq_head q
     | CTake h \<Rightarrow> h = rq_head q \<and> queue \<noteq> []
     | CRelease h r \<Rightarrow> h = rq_head q \<and> queue \<noteq> [] \<and> r = Some (hd queue))"

definition spsc_inv :: "'a list \<Rightarrow> 'a spsc \<Rightarrow> bool" where
  "spsc_inv queue s \<longleftrightarrow>
     rq_geom (sp_ring s) \<and> length queue = rq_len (sp_ring s) \<and> rq_len (sp_ring s) \<le> unat (rq_capacity (sp_ring s)) \<and>
     map Some (sp_pushed s) = sp_popped s @ map Some queue \<and>
     prod_ok (sp_ring s) (sp_prod s) \<and> cons_ok (sp_ring s) queue (sp_cons s) \<and>
     (\<forall>i < unat (rq_capacity (sp_ring s)). rq_at (sp_ring s) i = expected_slot queue (sp_prod s) (sp_cons s) i)"

lemmas spsc_defs = prod_ok_def cons_ok_def expected_slot_def

lemma rq_at_write:
  assumes "rq_geom q" "i < unat (rq_capacity q)" "j < unat (rq_capacity q)"
  shows "rq_at (q\<lparr>rq_buffer := (rq_buffer q)[rq_slot q (rq_head q + of_nat j) := x]\<rparr>) i = (if i = j then x else rq_at q i)"
  using rq_slot_inject [OF assms, of "rq_head q"] rq_slot_bound [OF assms(1)] by (auto simp: rq_at_def nth_list_update)

lemma spsc_inv_write_slot:
  assumes inv: "spsc_inv queue s" and pc: "sp_prod s = PWrite v t"
  shows "spsc_inv queue (s\<lparr>sp_ring := (sp_ring s)\<lparr>rq_buffer := (rq_buffer (sp_ring s))[rq_slot (sp_ring s) t := Some v]\<rparr>,
    sp_prod := PPublish v t\<rparr>)"
proof -
  let ?q = "sp_ring s"
  have pre: "t = rq_head ?q + of_nat (rq_len ?q)" "rq_len ?q < unat (rq_capacity ?q)" "rq_geom ?q"
    using pc inv rq_tail_eq [of ?q] by (auto simp: spsc_inv_def prod_ok_def)
  then show ?thesis using pc inv rq_at_write [OF pre(3) _ pre(2)]
    by (auto simp: spsc_inv_def spsc_defs rq_len_def split: consumer_pc.splits)
qed

lemma spsc_inv_store_tail:
  assumes inv: "spsc_inv queue s" and pc: "sp_prod s = PPublish v t"
  shows "spsc_inv (queue @ [v])
    (s\<lparr>sp_ring := (sp_ring s)\<lparr>rq_tail := t + 1\<rparr>, sp_prod := PIdle, sp_pushed := sp_pushed s @ [v]\<rparr>)"
proof -
  let ?q = "sp_ring s"
  have pre: "t = rq_tail ?q" "rq_len ?q < unat (rq_capacity ?q)" "rq_geom ?q"
    using pc inv by (auto simp: spsc_inv_def prod_ok_def)
  have len: "rq_len (?q\<lparr>rq_tail := t + 1\<rparr>) = Suc (rq_len ?q)"
    using rq_len_inc [OF pre(3,2)] pre(1) by (simp add: rq_len_def)
  show ?thesis
    using pc inv pre len length_greater_0_conv [of queue]
    by (auto simp: spsc_inv_def spsc_defs rq_at_def nth_append split: consumer_pc.splits)
qed

lemma spsc_inv_take_slot:
  assumes inv: "spsc_inv queue s" and pc: "sp_cons s = CTake h"
  shows "spsc_inv queue (s\<lparr>sp_ring := (sp_ring s)\<lparr>rq_buffer := (rq_buffer (sp_ring s))[rq_slot (sp_ring s) h := None]\<rparr>,
    sp_cons := CRelease h (rq_buffer (sp_ring s) ! rq_slot (sp_ring s) h)\<rparr>)"
proof -
  let ?q = "sp_ring s"
  have pre: "h = rq_head ?q" "queue \<noteq> []" "rq_geom ?q" "0 < unat (rq_capacity ?q)" "0 < rq_len ?q"
    using pc inv rq_geom_facts [of ?q] length_greater_0_conv [of queue] by (auto simp: spsc_inv_def cons_ok_def)
  have "rq_at ?q 0 = Some (hd queue)"
    using pc inv pre by (simp add: spsc_inv_def expected_slot_def hd_conv_nth)
  then have "rq_buffer ?q ! rq_slot ?q h = Some (hd queue)" using pre(1) by (simp add: rq_at_def)
  then show ?thesis using pc inv pre rq_at_write [OF pre(3) _ pre(4)]
    by (auto simp: spsc_inv_def spsc_defs rq_len_def split: producer_pc.splits)
qed

lemma rq_at_advance:
  assumes "rq_geom q"
  shows "rq_at (q\<lparr>rq_head := rq_head q + 1\<rparr>) i = (if Suc i = unat (rq_capacity q) then rq_at q 0 else rq_at q (Suc i))"
proof -
  have "rq_at (q\<lparr>rq_head := rq_head q + 1\<rparr>) i = rq_buffer q ! rq_slot q (rq_head q + of_nat (Suc i))"
    by (simp add: rq_at_def add.assoc)
  then show ?thesis using rq_slot_wrap [OF assms, of "rq_head q"] by (simp add: rq_at_def del: of_nat_Suc)
qed

lemma spsc_inv_store_head:
  assumes inv: "spsc_inv queue s" and pc: "sp_cons s = CRelease h r"
  shows "spsc_inv (tl queue)
    (s\<lparr>sp_ring := (sp_ring s)\<lparr>rq_head := h + 1\<rparr>, sp_cons := CIdle, sp_popped := sp_popped s @ [r]\<rparr>)"
proof -
  let ?q = "sp_ring s"
  have pre: "h = rq_head ?q" "queue \<noteq> []" "r = Some (hd queue)" "rq_geom ?q" "0 < rq_len ?q"
    using pc inv length_greater_0_conv [of queue] by (auto simp: spsc_inv_def cons_ok_def)
  have len: "rq_len (?q\<lparr>rq_head := h + 1\<rparr>) = rq_len ?q - 1"
    using rq_len_dec [of ?q] pre by (simp add: rq_len_def)
  have slots: "rq_at ?q i = expected_slot queue (sp_prod s) (CRelease h r) i" if "i < unat (rq_capacity ?q)" for i
    using inv pc that by (simp add: spsc_inv_def)
  have "rq_at (?q\<lparr>rq_head := h + 1\<rparr>) i = expected_slot (tl queue) (sp_prod s) CIdle i" if "i < unat (rq_capacity ?q)" for i
    unfolding pre(1) rq_at_advance [OF pre(4)] using that slots [of 0] slots [of "Suc i"] inv pre(2,5)
    by (auto simp: spsc_inv_def spsc_defs nth_tl split: producer_pc.splits)
  moreover have "map Some (sp_pushed s) = (sp_popped s @ [r]) @ map Some (tl queue)"
    using inv pre(2,3) by (cases queue) (auto simp: spsc_inv_def)
  ultimately show ?thesis
    using pc inv pre len by (auto simp: spsc_inv_def prod_ok_def cons_ok_def split: producer_pc.splits)
qed

lemma spsc_inv_step:
  assumes "spsc_step s s'" "spsc_inv queue s"
  shows "\<exists>queue'. spsc_inv queue' s'"
  using assms
proof (cases rule: spsc_step.cases)
  case (push_room v t)
  have "rq_len (sp_ring s) < unat (rq_capacity (sp_ring s))"
    using push_room assms(2) rq_full_iff [of "sp_ring s"] by (auto simp: spsc_inv_def prod_ok_def)
  then show ?thesis using push_room assms(2) by (auto simp: spsc_inv_def spsc_defs split: consumer_pc.splits)
next
  case (pop_some h)
  have "queue \<noteq> []" using pop_some assms(2) rq_empty_iff [of "sp_ring s"] by (auto simp: spsc_inv_def cons_ok_def)
  then show ?thesis using pop_some assms(2) by (auto simp: spsc_inv_def spsc_defs split: producer_pc.splits)
next
  case load_tail
  then show ?thesis using assms(2) by (auto simp: spsc_inv_def spsc_defs split: consumer_pc.splits)
next
  case push_full
  then show ?thesis using assms(2) by (auto simp: spsc_inv_def spsc_defs split: consumer_pc.splits)
next
  case load_head
  then show ?thesis using assms(2) by (auto simp: spsc_inv_def spsc_defs split: producer_pc.splits)
next
  case pop_empty
  then show ?thesis using assms(2) by (auto simp: spsc_inv_def spsc_defs split: producer_pc.splits)
next
  case (write_slot v t)
  then show ?thesis using spsc_inv_write_slot [OF assms(2)] by simp (rule exI)
next
  case (store_tail v t)
  then show ?thesis using spsc_inv_store_tail [OF assms(2)] by simp (rule exI)
next
  case (take_slot h)
  then show ?thesis using spsc_inv_take_slot [OF assms(2)] by simp (rule exI)
next
  case (store_head h r)
  then show ?thesis using spsc_inv_store_head [OF assms(2)] by simp (rule exI)
qed

lemma spsc_inv_init: "rq_wf q \<Longrightarrow> rq_contents q = [] \<Longrightarrow> spsc_inv [] (spsc_init q)"
  using rq_contents_length [of q] by (auto simp: spsc_inv_def spsc_init_def spsc_defs rq_wf_def)

lemma spsc_inv_reachable:
  assumes "spsc_step\<^sup>*\<^sup>* (spsc_init q) s" "rq_wf q" "rq_contents q = []"
  shows "\<exists>queue. spsc_inv queue s"
  using assms(1) by (induction) (use spsc_inv_init [OF assms(2,3)] spsc_inv_step in blast)+

text \<open>A producer that runs alone performs \<open>rq_push\<close>.\<close>

lemma spsc_push_alone:
  assumes "sp_prod s = PIdle"
  shows "\<exists>s'. spsc_step\<^sup>*\<^sup>* s s' \<and> sp_ring s' = snd (rq_push v (sp_ring s)) \<and> sp_prod s' = PIdle \<and>
    sp_cons s' = sp_cons s \<and> sp_popped s' = sp_popped s \<and>
    sp_pushed s' = (if fst (rq_push v (sp_ring s)) then sp_pushed s @ [v] else sp_pushed s)"
proof (cases "rq_tail (sp_ring s) - rq_head (sp_ring s) = rq_capacity (sp_ring s)")
  case True
  let ?a = "s\<lparr>sp_prod := PTail v (rq_tail (sp_ring s))\<rparr>"
  have "spsc_step s ?a" using assms by (rule spsc_step.load_tail)
  moreover have "spsc_step ?a (?a\<lparr>sp_prod := PIdle\<rparr>)" using True by (intro spsc_step.push_full) auto
  ultimately have "spsc_step\<^sup>*\<^sup>* s (?a\<lparr>sp_prod := PIdle\<rparr>)" by (meson converse_rtranclp_into_rtranclp rtranclp.rtrancl_refl)
  then show ?thesis using True by (intro exI) (auto simp: rq_push_def rq_emplace_def Let_def)
next
  case False
  let ?t = "rq_tail (sp_ring s)"
  let ?a = "s\<lparr>sp_prod := PTail v ?t\<rparr>"
  let ?b = "?a\<lparr>sp_prod := PWrite v ?t\<rparr>"
  let ?c = "?b\<lparr>sp_ring := (sp_ring ?b)\<lparr>rq_buffer := (rq_buffer (sp_ring ?b))[rq_slot (sp_ring ?b) ?t := Some v]\<rparr>,
    sp_prod := PPublish v ?t\<rparr>"
  let ?d = "?c\<lparr>sp_ring := (sp_ring ?c)\<lparr>rq_tail := ?t + 1\<rparr>, sp_prod := PIdle, sp_pushed := sp_pushed ?c @ [v]\<rparr>"
  have "spsc_step s ?a" using assms by (rule spsc_step.load_tail)
  moreover have "spsc_step ?a ?b" using False by (intro spsc_step.push_room) auto
  moreover have "spsc_step ?b ?c" by (intro spsc_step.write_slot) simp
  moreover have "spsc_step ?c ?d" by (intro spsc_step.store_tail) simp
  ultimately have "spsc_step\<^sup>*\<^sup>* s ?d" by (meson converse_rtranclp_into_rtranclp rtranclp.rtrancl_refl)
  then show ?thesis using False by (intro exI) (auto simp: rq_push_def rq_emplace_def Let_def)
qed

section \<open>Properties\<close>

text \<open>The capacity of a ring is the least power of two that is not below the requested one; a request below two, or
  above the largest representable power of two, is refused. A new ring is well-formed and empty.\<close>

theorem ring_capacity:
  "case new_SpscRingQueue c of
     Inl e \<Rightarrow> (e = CapacityBelowTwo \<and> c < 2) \<or> (e = CapacityNotRepresentable \<and> unat c > 2 ^ 63)
   | Inr q \<Rightarrow> rq_wf (q :: 'a SpscRingQueue) \<and> rq_contents q = [] \<and>
       (\<exists>k \<in> {1 ..< 64}. unat (rq_capacity q) = 2 ^ k \<and> 2 ^ (k - 1) < unat c \<and> unat c \<le> 2 ^ k)"
proof (cases "new_SpscRingQueue c :: ring_error + 'a SpscRingQueue")
  case (Inl e)
  then show ?thesis using normalize_capacity_cases [of c]
    by (auto simp: new_SpscRingQueue_def not_less not_le split: sum.splits if_splits)
next
  case (Inr q)
  then have n: "normalize_capacity c = Inr (rq_capacity q)" by (auto simp: new_SpscRingQueue_def split: sum.splits)
  then obtain k where "k \<in> {1 ..< 64}" "normalize_capacity c = Inr (2 ^ k)" "unat c \<le> 2 ^ k" "2 ^ (k - 1) < unat c"
    using normalize_capacity_cases [of c] by (metis Inl_Inr_False not_less)
  then show ?thesis using n rq_wf_new [OF Inr] Inr by (auto intro!: bexI [of _ k])
qed

text \<open>C29: The ring answers like a list of at most \<open>capacity\<close> elements, at every position of the free-running counters: for any sequence of
  pushes and pops a push is accepted exactly when fewer than \<open>capacity\<close> elements are queued and appends its value, a pop takes
  the first element and is empty exactly when there is none; and size and emptiness are those of the list.\<close>

theorem ring_fifo:
  assumes "rq_wf q" and "run_queue rq_push rq_try_pop ops q = (answers, q')"
  shows "run_bounded_list (unat (rq_capacity q)) ops (rq_contents q) = (answers, rq_contents q') \<and> rq_wf q' \<and> rq_capacity q' = rq_capacity q \<and>
    unat (rq_size_approx q') = length (rq_contents q') \<and> length (rq_contents q') \<le> unat (rq_capacity q) \<and>
    (rq_empty q' \<longleftrightarrow> rq_contents q' = [])"
proof -
  note run = rq.run_fifo [OF assms]
  have "unat (rq_size_approx q') = length (rq_contents q')" by (simp add: rq_size_approx_def rq_len_def)
  moreover from this have "rq_empty q' \<longleftrightarrow> rq_contents q' = []"
    unfolding rq_empty_def by (metis length_0_conv unat_eq_0)
  ultimately show ?thesis using run rq.wf_bound [of q'] by (simp add: word_unat_eq_iff)
qed

definition wrapping_ring :: "nat SpscRingQueue" where
  "wrapping_ring = \<lparr>rq_capacity = 2, rq_mask = 1, rq_buffer = [None, Some 7], rq_head = - 1, rq_tail = 0\<rparr>"

lemma wrapping_ring_wf: "rq_wf wrapping_ring" "rq_contents wrapping_ring = [7]"
  by (auto simp: wrapping_ring_def rq_wf_def rq_geom_def rq_len_def rq_at_def rq_slot_def rq_contents_def less_2_cases_iff
      intro!: bexI [of _ 1])

theorem ring_fifo_witness:
  "fst (run_queue rq_push rq_try_pop [Push 8, Push 9, Pop, Pop, Pop] wrapping_ring) = [Pushed True, Pushed False, Popped (Some 7), Popped (Some 8), Popped None]"
proof -
  obtain answers q' where run: "run_queue rq_push rq_try_pop [Push 8, Push 9, Pop, Pop, Pop] wrapping_ring = (answers, q')" by fastforce
  have "unat (rq_capacity wrapping_ring) = 2" by (simp add: wrapping_ring_def)
  with ring_fifo [OF wrapping_ring_wf(1) run] run wrapping_ring_wf(2) show ?thesis by (simp del: run_queue.simps)
qed

text \<open>\<open>drain\<close> takes the front of the queue, at most \<open>max_items\<close> elements and in order, leaves the rest and
  returns how many it took.\<close>

theorem ring_drain:
  assumes "rq_wf q" and "qf_drain rq_try_pop max_items q = (n, out, q')"
  shows "out = take (unat max_items) (rq_contents q) \<and> rq_contents q' = drop (unat max_items) (rq_contents q) \<and>
    rq_wf q' \<and> n = of_nat (length out)"
  using rq.drain_takes_front [OF assms] .

theorem ring_drain_witness:
  "fst (snd (qf_drain rq_try_pop 5 wrapping_ring)) = [7]"
  using ring_drain [OF wrapping_ring_wf(1), of 5] wrapping_ring_wf(2)
  by (cases "qf_drain rq_try_pop 5 wrapping_ring") auto

text \<open>One producer and one consumer that interleave at every atomic access: the popped values are, in order, an
  initial segment of the pushed ones (nothing lost, duplicated or reordered, and no pop returns an empty slot), what is in between is
  what the counters say and fits into the ring, and the two threads never access the same slot at the same time.\<close>

theorem spsc_interleaving_safe:
  assumes "new_SpscRingQueue c = Inr q" and "spsc_step\<^sup>*\<^sup>* (spsc_init q) s"
  shows "(\<exists>rest. map Some (sp_pushed s) = sp_popped s @ map Some rest \<and>
      length rest = unat (rq_tail (sp_ring s) - rq_head (sp_ring s)) \<and> length rest \<le> unat (rq_capacity (sp_ring s))) \<and>
    (\<forall>v t h. sp_prod s = PWrite v t \<and> sp_cons s = CTake h \<longrightarrow> rq_slot (sp_ring s) t \<noteq> rq_slot (sp_ring s) h)"
proof -
  obtain queue where inv: "spsc_inv queue s" using spsc_inv_reachable [OF assms(2)] rq_wf_new [OF assms(1)] by blast
  let ?q = "sp_ring s"
  have "rq_slot ?q t \<noteq> rq_slot ?q h" if "sp_prod s = PWrite v t" "sp_cons s = CTake h" for v t h
  proof -
    have "t = rq_head ?q + of_nat (rq_len ?q)" "rq_len ?q < unat (rq_capacity ?q)" "h = rq_head ?q" "0 < rq_len ?q" "rq_geom ?q"
      using inv that rq_tail_eq [of ?q] length_greater_0_conv [of queue] by (auto simp: spsc_inv_def prod_ok_def cons_ok_def)
    then show ?thesis using rq_slot_inject [of ?q "rq_len ?q" 0 "rq_head ?q"] by simp
  qed
  then show ?thesis using inv by (auto simp: spsc_inv_def rq_len_def)
qed

theorem spsc_interleaving_safe_witness:
  "\<exists>q s. new_SpscRingQueue 2 = Inr q \<and> spsc_step\<^sup>*\<^sup>* (spsc_init q) s \<and> sp_pushed s = [7 :: nat] \<and>
     (\<exists>rest. map Some (sp_pushed s) = sp_popped s @ map Some rest \<and> length rest \<le> 2)"
proof -
  let ?q = "\<lparr>rq_capacity = 2, rq_mask = 1, rq_buffer = [None, None], rq_head = 0, rq_tail = 0\<rparr> :: nat SpscRingQueue"
  have new: "new_SpscRingQueue 2 = Inr ?q"
    using replicate_Suc [of 1 "None :: nat option"] by (simp add: exec_simps flip: numeral_2_eq_2)
  have push: "rq_push 7 ?q = (True, ?q\<lparr>rq_buffer := [Some 7, None], rq_tail := 1\<rparr>)"
    by (simp add: rq_push_def rq_emplace_def rq_slot_def Let_def)
  obtain s where s: "spsc_step\<^sup>*\<^sup>* (spsc_init ?q) s" "sp_ring s = ?q\<lparr>rq_buffer := [Some 7, None], rq_tail := 1\<rparr>"
    "sp_pushed s = [7]"
    using spsc_push_alone [of "spsc_init ?q" 7] push by (auto simp: spsc_init_def)
  show ?thesis using spsc_interleaving_safe [OF new s(1)] new s by (intro exI [of _ ?q] exI [of _ s]) auto
qed

end
