(* ===== verification/Ring_Weak.thy ===== *)
theory Ring_Weak
  imports Ring_Queue
begin

unbundle bit_operations_syntax

text \<open>
  The ring of \<open>spsc_ring_queue.hpp\<close> under the release/acquire memory model of C++, with the memory orders of the source.

  An atomic variable is the list of the messages stored to it, in modification order. A load returns any message that is
  not older than what the thread knows of, so it may be stale. What a thread knows is, for each variable, the
  newest message it has to read from, and for each thread, how many of its slot accesses happened before. A release store attaches
  the knowledge of the storing thread to the message, an acquire load adds it to the knowledge of the loading thread, relaxed
  ones do neither. The slots are not atomic: an access to a slot that the other thread has accessed, without knowing of
  that access, is a data race, hence undefined behaviour (\<open>Inl DataRace\<close>).

  One thread runs \<open>push\<close>, another \<open>try_pop\<close>, a third one \<open>size_approx\<close>, in any interleaving and with any permitted
  choice of messages. \<open>wr_pushed\<close> and \<open>wr_popped\<close> record the values of completed operations and
  \<open>wr_sizes\<close> the results of \<open>size_approx\<close>; no step depends on them. Each of the two variables has one storing thread, so a store goes to the end of its list.
\<close>

section \<open>Memory\<close>

datatype memory_order = Relaxed | Acquire | Release

datatype ring_location = Head | Tail

datatype ring_thread = Producer | Consumer | Observer

record knowledge =
  kn_seen :: "ring_location \<Rightarrow> nat"
  kn_events :: "ring_thread \<Rightarrow> nat"

record message =
  ms_value :: u64
  ms_knowledge :: knowledge

definition no_knowledge :: knowledge where
  "no_knowledge = \<lparr>kn_seen = (\<lambda>_. 0), kn_events = (\<lambda>_. 0)\<rparr>"

definition join :: "knowledge \<Rightarrow> knowledge \<Rightarrow> knowledge" where
  "join k m = \<lparr>kn_seen = (\<lambda>l. max (kn_seen k l) (kn_seen m l)), kn_events = (\<lambda>t. max (kn_events k t) (kn_events m t))\<rparr>"

datatype observer_pc = OIdle | OHead u64

record 'a weak_ring =
  wr_capacity :: u64
  wr_mask :: u64
  wr_buffer :: "'a option list"
  wr_messages :: "ring_location \<Rightarrow> message list"
  wr_stamp :: "ring_thread \<Rightarrow> nat \<Rightarrow> nat"
  wr_knows :: "ring_thread \<Rightarrow> knowledge"
  wr_prod :: "'a producer_pc"
  wr_cons :: "'a consumer_pc"
  wr_obs :: observer_pc
  wr_pushed :: "'a list"
  wr_popped :: "'a option list"
  wr_sizes :: "u64 list"

datatype ring_fault = DataRace

text \<open>The choice \<open>j\<close> of a message that the model does not permit is no execution: \<open>None\<close>.\<close>

definition weak_load :: "memory_order \<Rightarrow> ring_location \<Rightarrow> nat \<Rightarrow> ring_thread \<Rightarrow> 'a weak_ring \<Rightarrow> (u64 \<times> 'a weak_ring) option" where
  "weak_load order l j t s =
     (let k = wr_knows s t in
      if kn_seen k l \<le> j \<and> j < length (wr_messages s l)
      then let m = wr_messages s l ! j; k' = k\<lparr>kn_seen := (kn_seen k)(l := j)\<rparr>
           in Some (ms_value m, s\<lparr>wr_knows := (wr_knows s)(t := if order = Acquire then join k' (ms_knowledge m) else k')\<rparr>)
      else None)"

definition weak_store :: "memory_order \<Rightarrow> ring_location \<Rightarrow> u64 \<Rightarrow> ring_thread \<Rightarrow> 'a weak_ring \<Rightarrow> 'a weak_ring" where
  "weak_store order l v t s =
     (let k = (wr_knows s t)\<lparr>kn_seen := (kn_seen (wr_knows s t))(l := length (wr_messages s l))\<rparr>
      in s\<lparr>wr_knows := (wr_knows s)(t := k),
           wr_messages := (wr_messages s)(l := wr_messages s l @ [\<lparr>ms_value = v, ms_knowledge = if order = Release then k else no_knowledge\<rparr>])\<rparr>)"

fun other :: "ring_thread \<Rightarrow> ring_thread" where
  "other Producer = Consumer"
| "other Consumer = Producer"
| "other Observer = Observer"

definition slot_access :: "ring_thread \<Rightarrow> nat \<Rightarrow> 'a weak_ring \<Rightarrow> ring_fault + 'a weak_ring" where
  "slot_access t i s =
     (let k = wr_knows s t; n = Suc (kn_events k t) in
      if wr_stamp s (other t) i \<le> kn_events k (other t)
      then Inr (s\<lparr>wr_knows := (wr_knows s)(t := k\<lparr>kn_events := (kn_events k)(t := n)\<rparr>),
                  wr_stamp := (wr_stamp s)(t := (wr_stamp s t)(i := n))\<rparr>)
      else Inl DataRace)"

section \<open>Operations\<close>

definition wr_slot :: "'a weak_ring \<Rightarrow> u64 \<Rightarrow> nat" where
  "wr_slot s index = unat (index AND wr_mask s)"

text \<open>\<open>emplace\<close>: the relaxed load of \<open>tail_\<close> begins the operation.\<close>

definition start_push :: "'a \<Rightarrow> nat \<Rightarrow> 'a weak_ring \<Rightarrow> 'a weak_ring" where
  "start_push v j s =
     (case wr_prod s of
        PIdle \<Rightarrow> (case weak_load Relaxed Tail j Producer s of None \<Rightarrow> s | Some (tail, s') \<Rightarrow> s'\<lparr>wr_prod := PTail v tail\<rparr>)
      | _ \<Rightarrow> s)"

definition step_push :: "nat \<Rightarrow> 'a weak_ring \<Rightarrow> ring_fault + 'a weak_ring" where
  "step_push j s =
     (case wr_prod s of
        PIdle \<Rightarrow> Inr s
      | PTail v tail \<Rightarrow> (case weak_load Acquire Head j Producer s of
            None \<Rightarrow> Inr s
          | Some (head, s') \<Rightarrow> Inr (s'\<lparr>wr_prod := if tail - head = wr_capacity s then PIdle else PWrite v tail\<rparr>))
      | PWrite v tail \<Rightarrow> (case slot_access Producer (wr_slot s tail) s of
            Inl e \<Rightarrow> Inl e
          | Inr s' \<Rightarrow> Inr (s'\<lparr>wr_buffer := (wr_buffer s)[wr_slot s tail := Some v], wr_prod := PPublish v tail\<rparr>))
      | PPublish v tail \<Rightarrow> Inr ((weak_store Release Tail (tail + 1) Producer s)\<lparr>wr_prod := PIdle, wr_pushed := wr_pushed s @ [v]\<rparr>))"

text \<open>\<open>try_pop_impl\<close>: the relaxed load of \<open>head_\<close> begins the operation; the move out of the slot and its reset are one access.\<close>

definition start_pop :: "nat \<Rightarrow> 'a weak_ring \<Rightarrow> 'a weak_ring" where
  "start_pop j s =
     (case wr_cons s of
        CIdle \<Rightarrow> (case weak_load Relaxed Head j Consumer s of None \<Rightarrow> s | Some (head, s') \<Rightarrow> s'\<lparr>wr_cons := CHead head\<rparr>)
      | _ \<Rightarrow> s)"

definition step_pop :: "nat \<Rightarrow> 'a weak_ring \<Rightarrow> ring_fault + 'a weak_ring" where
  "step_pop j s =
     (case wr_cons s of
        CIdle \<Rightarrow> Inr s
      | CHead head \<Rightarrow> (case weak_load Acquire Tail j Consumer s of
            None \<Rightarrow> Inr s
          | Some (tail, s') \<Rightarrow> Inr (s'\<lparr>wr_cons := if head = tail then CIdle else CTake head\<rparr>))
      | CTake head \<Rightarrow> (case slot_access Consumer (wr_slot s head) s of
            Inl e \<Rightarrow> Inl e
          | Inr s' \<Rightarrow> Inr (s'\<lparr>wr_buffer := (wr_buffer s)[wr_slot s head := None],
                             wr_cons := CRelease head (wr_buffer s ! wr_slot s head)\<rparr>))
      | CRelease head r \<Rightarrow> Inr ((weak_store Release Head (head + 1) Consumer s)\<lparr>wr_cons := CIdle, wr_popped := wr_popped s @ [r]\<rparr>))"

text \<open>\<open>size_approx_impl\<close> in a thread that neither pushes nor pops.\<close>

definition step_size :: "nat \<Rightarrow> 'a weak_ring \<Rightarrow> 'a weak_ring" where
  "step_size j s =
     (case wr_obs s of
        OIdle \<Rightarrow> (case weak_load Acquire Head j Observer s of None \<Rightarrow> s | Some (head, s') \<Rightarrow> s'\<lparr>wr_obs := OHead head\<rparr>)
      | OHead head \<Rightarrow> (case weak_load Acquire Tail j Observer s of
            None \<Rightarrow> s
          | Some (tail, s') \<Rightarrow> s'\<lparr>wr_obs := OIdle, wr_sizes := wr_sizes s @ [tail - head]\<rparr>))"

datatype 'a ring_action = StartPush 'a nat | StepPush nat | StartPop nat | StepPop nat | StepSize nat

fun weak_step :: "'a ring_action \<Rightarrow> 'a weak_ring \<Rightarrow> ring_fault + 'a weak_ring" where
  "weak_step (StartPush v j) s = Inr (start_push v j s)"
| "weak_step (StepPush j) s = step_push j s"
| "weak_step (StartPop j) s = Inr (start_pop j s)"
| "weak_step (StepPop j) s = step_pop j s"
| "weak_step (StepSize j) s = Inr (step_size j s)"

fun weak_run :: "'a ring_action list \<Rightarrow> 'a weak_ring \<Rightarrow> ring_fault + 'a weak_ring" where
  "weak_run [] s = Inr s"
| "weak_run (action # actions) s = (case weak_step action s of Inl e \<Rightarrow> Inl e | Inr s' \<Rightarrow> weak_run actions s')"

definition new_weak_ring :: "'a SpscRingQueue \<Rightarrow> 'a weak_ring" where
  "new_weak_ring q =
     \<lparr>wr_capacity = rq_capacity q, wr_mask = rq_mask q, wr_buffer = rq_buffer q,
      wr_messages = (\<lambda>l. [\<lparr>ms_value = case l of Head \<Rightarrow> rq_head q | Tail \<Rightarrow> rq_tail q, ms_knowledge = no_knowledge\<rparr>]),
      wr_stamp = (\<lambda>_ _. 0), wr_knows = (\<lambda>_. no_knowledge), wr_prod = PIdle, wr_cons = CIdle, wr_obs = OIdle,
      wr_pushed = [], wr_popped = [], wr_sizes = []\<rparr>"

section \<open>Invariant\<close>

text \<open>How many slot accesses each side has made: one per completed operation and one for an operation that has still to store its counter.\<close>

definition written :: "'a weak_ring \<Rightarrow> nat" where
  "written s = length (wr_pushed s) + (case wr_prod s of PPublish _ _ \<Rightarrow> 1 | _ \<Rightarrow> 0)"

definition taken :: "'a weak_ring \<Rightarrow> nat" where
  "taken s = length (wr_popped s) + (case wr_cons s of CRelease _ _ \<Rightarrow> 1 | _ \<Rightarrow> 0)"

fun position :: "'a weak_ring \<Rightarrow> ring_location \<Rightarrow> nat" where
  "position s Head = length (wr_popped s)"
| "position s Tail = length (wr_pushed s)"

lemma position_eqI: "wr_popped s' = wr_popped s \<Longrightarrow> wr_pushed s' = wr_pushed s \<Longrightarrow> position s' = position s"
proof
  show "wr_popped s' = wr_popped s \<Longrightarrow> wr_pushed s' = wr_pushed s \<Longrightarrow> position s' l = position s l" for l by (cases l) simp_all
qed

text \<open>What anybody can know: who has seen a message of \<open>tail_\<close> knows of the slot accesses before it, likewise for \<open>head_\<close>, and who has
  seen a message of \<open>head_\<close> has seen the message of \<open>tail_\<close> that the pop relied on.\<close>

definition knowledge_ok :: "'a weak_ring \<Rightarrow> knowledge \<Rightarrow> bool" where
  "knowledge_ok s k \<longleftrightarrow> kn_seen k Head \<le> position s Head \<and> kn_seen k Tail \<le> position s Tail \<and> kn_seen k Head \<le> kn_seen k Tail \<and>
     kn_seen k Tail \<le> kn_events k Producer \<and> kn_seen k Head \<le> kn_events k Consumer \<and>
     kn_events k Producer \<le> written s \<and> kn_events k Consumer \<le> taken s"

definition messages_ok :: "'a weak_ring \<Rightarrow> bool" where
  "messages_ok s \<longleftrightarrow> (\<forall>l. length (wr_messages s l) = Suc (position s l) \<and>
     (\<forall>i \<le> position s l. ms_value (wr_messages s l ! i) = of_nat i \<and> kn_seen (ms_knowledge (wr_messages s l ! i)) l = i \<and>
        knowledge_ok s (ms_knowledge (wr_messages s l ! i))))"

definition knows_ok :: "'a weak_ring \<Rightarrow> bool" where
  "knows_ok s \<longleftrightarrow> (\<forall>t. knowledge_ok s (wr_knows s t)) \<and>
     kn_seen (wr_knows s Producer) Tail = length (wr_pushed s) \<and> kn_seen (wr_knows s Consumer) Head = length (wr_popped s) \<and>
     kn_events (wr_knows s Producer) Producer = written s \<and> kn_events (wr_knows s Consumer) Consumer = taken s"

text \<open>Where the threads are: \<open>n\<close> is the own position, \<open>seen\<close> the newest message of the other counter.\<close>

fun prod_pc_ok :: "nat \<Rightarrow> nat \<Rightarrow> nat \<Rightarrow> 'a producer_pc \<Rightarrow> bool" where
  "prod_pc_ok c n seen PIdle = True"
| "prod_pc_ok c n seen (PTail v t) = (t = of_nat n)"
| "prod_pc_ok c n seen (PWrite v t) = (t = of_nat n \<and> n < seen + c)"
| "prod_pc_ok c n seen (PPublish v t) = (t = of_nat n \<and> n < seen + c)"

fun cons_pc_ok :: "'a list \<Rightarrow> nat \<Rightarrow> nat \<Rightarrow> 'a consumer_pc \<Rightarrow> bool" where
  "cons_pc_ok pushed n seen CIdle = True"
| "cons_pc_ok pushed n seen (CHead h) = (h = of_nat n)"
| "cons_pc_ok pushed n seen (CTake h) = (h = of_nat n \<and> n < seen)"
| "cons_pc_ok pushed n seen (CRelease h r) = (h = of_nat n \<and> n < seen \<and> r = Some (pushed ! n))"

fun obs_pc_ok :: "nat \<Rightarrow> observer_pc \<Rightarrow> bool" where
  "obs_pc_ok seen OIdle = True"
| "obs_pc_ok seen (OHead h) = (h = of_nat seen)"

definition pcs_ok :: "'a weak_ring \<Rightarrow> bool" where
  "pcs_ok s \<longleftrightarrow>
     prod_pc_ok (unat (wr_capacity s)) (length (wr_pushed s)) (kn_seen (wr_knows s Producer) Head) (wr_prod s) \<and>
     cons_pc_ok (wr_pushed s) (length (wr_popped s)) (kn_seen (wr_knows s Consumer) Tail) (wr_cons s) \<and>
     obs_pc_ok (kn_seen (wr_knows s Observer) Head) (wr_obs s) \<and>
     length (wr_pushed s) \<le> kn_seen (wr_knows s Producer) Head + unat (wr_capacity s)"

lemma pc_ok_mono:
  "seen \<le> seen' \<Longrightarrow> prod_pc_ok c n seen p \<Longrightarrow> prod_pc_ok c n seen' p"
  "seen \<le> seen' \<Longrightarrow> cons_pc_ok pushed n seen q \<Longrightarrow> cons_pc_ok pushed n seen' q"
  by (cases p; simp) (cases q; simp)

text \<open>The last access to a slot was at a position that maps to it, and a slot between the two sides holds its value.\<close>

definition stamp_ok :: "nat \<Rightarrow> nat \<Rightarrow> nat \<Rightarrow> nat \<Rightarrow> bool" where
  "stamp_ok c n r stamp \<longleftrightarrow> stamp = 0 \<or> (\<exists>p < n. stamp = Suc p \<and> p mod c = r)"

definition values_written :: "'a weak_ring \<Rightarrow> 'a list" where
  "values_written s = wr_pushed s @ (case wr_prod s of PPublish v _ \<Rightarrow> [v] | _ \<Rightarrow> [])"

definition ring_slots_ok :: "'a weak_ring \<Rightarrow> bool" where
  "ring_slots_ok s \<longleftrightarrow> (let c = unat (wr_capacity s) in length (wr_buffer s) = c \<and>
     (\<forall>r. stamp_ok c (written s) r (wr_stamp s Producer r) \<and> stamp_ok c (taken s) r (wr_stamp s Consumer r)) \<and>
     (\<forall>p. taken s \<le> p \<and> p < written s \<longrightarrow> wr_buffer s ! (p mod c) = Some (values_written s ! p)))"

definition geom_ok :: "'a weak_ring \<Rightarrow> bool" where
  "geom_ok s \<longleftrightarrow> (\<exists>k \<in> {1 ..< 64}. wr_capacity s = 2 ^ k \<and> wr_mask s = 2 ^ k - 1)"

definition results_ok :: "'a weak_ring \<Rightarrow> bool" where
  "results_ok s \<longleftrightarrow> wr_popped s = map Some (take (length (wr_popped s)) (wr_pushed s)) \<and>
     (\<forall>w \<in> set (wr_sizes s). unat w \<le> length (wr_pushed s))"

definition weak_inv :: "'a weak_ring \<Rightarrow> bool" where
  "weak_inv s \<longleftrightarrow> geom_ok s \<and> messages_ok s \<and> knows_ok s \<and> pcs_ok s \<and> ring_slots_ok s \<and> results_ok s"

lemmas weak_count_defs = written_def taken_def

lemma geom_okD:
  assumes "geom_ok s"
  shows "wr_slot s (of_nat p) = p mod unat (wr_capacity s)" "0 < unat (wr_capacity s)" "unat (wr_capacity s) < 2 ^ 64"
proof -
  obtain k where k: "k \<in> {1 ..< 64}" "wr_capacity s = 2 ^ k" "wr_mask s = 2 ^ k - 1" using assms by (auto simp: geom_ok_def)
  let ?q = "\<lparr>rq_capacity = wr_capacity s, rq_mask = wr_mask s, rq_buffer = replicate (2 ^ k) None, rq_head = 0, rq_tail = 0\<rparr>"
  have geom: "rq_geom ?q" using k by (auto simp: rq_geom_def)
  show "wr_slot s (of_nat p) = p mod unat (wr_capacity s)" using rq_slot_mod [OF geom, of 0 p] by (simp add: rq_slot_def wr_slot_def)
  show "0 < unat (wr_capacity s)" "unat (wr_capacity s) < 2 ^ 64" using rq_geom_facts [OF geom] by simp_all
qed

lemma weak_invD:
  assumes "weak_inv s"
  shows "geom_ok s" "messages_ok s" "knows_ok s" "pcs_ok s" "ring_slots_ok s" "results_ok s"
  using assms by (simp_all add: weak_inv_def)

lemma counts_ordered:
  assumes "weak_inv s"
  shows "length (wr_popped s) \<le> taken s" "taken s \<le> kn_seen (wr_knows s Consumer) Tail" "kn_seen (wr_knows s Consumer) Tail \<le> length (wr_pushed s)"
    "length (wr_pushed s) \<le> written s" "kn_seen (wr_knows s Producer) Head \<le> length (wr_popped s)"
    "written s \<le> kn_seen (wr_knows s Producer) Head + unat (wr_capacity s)"
proof -
  have k: "knowledge_ok s (wr_knows s t)" for t using weak_invD(3) [OF assms] by (simp add: knows_ok_def)
  have c: "kn_seen (wr_knows s Consumer) Head = length (wr_popped s)" using weak_invD(3) [OF assms] by (simp add: knows_ok_def)
  show "length (wr_popped s) \<le> taken s" "length (wr_pushed s) \<le> written s" by (simp_all add: taken_def written_def)
  show "taken s \<le> kn_seen (wr_knows s Consumer) Tail"
    using weak_invD(4) [OF assms] k [of Consumer] c by (auto simp: taken_def pcs_ok_def knowledge_ok_def split: consumer_pc.splits)
  have at: "kn_seen (wr_knows s t) l \<le> position s l" for t l using k [of t] by (cases l) (simp_all add: knowledge_ok_def)
  show "kn_seen (wr_knows s Consumer) Tail \<le> length (wr_pushed s)" "kn_seen (wr_knows s Producer) Head \<le> length (wr_popped s)"
    using at [of Consumer Tail] at [of Producer Head] by simp_all
  show "written s \<le> kn_seen (wr_knows s Producer) Head + unat (wr_capacity s)"
    using weak_invD(4) [OF assms] by (auto simp: written_def pcs_ok_def split: producer_pc.splits)
qed

section \<open>Loads\<close>

lemma weak_load_choice:
  assumes "messages_ok s" "weak_load order l j t s = Some (v, s')"
  shows "v = of_nat j" "kn_seen (wr_knows s t) l \<le> j" "j \<le> position s l"
  using assms by (auto simp: weak_load_def messages_ok_def Let_def less_Suc_eq_le split: if_splits)

text \<open>A relaxed load of a thread's own counter returns the counter and teaches nothing.\<close>

lemma own_load:
  assumes "messages_ok s" "kn_seen (wr_knows s t) l = position s l" "weak_load Relaxed l j t s = Some (v, s')"
  shows "v = of_nat (position s l)" "s' = s"
proof -
  have j: "j = position s l" using weak_load_choice [OF assms(1,3)] assms(2) by simp
  then show "v = of_nat (position s l)" using weak_load_choice [OF assms(1,3)] by simp
  have "(kn_seen (wr_knows s t))(l := j) = kn_seen (wr_knows s t)" using assms(2) j by (simp add: fun_eq_iff)
  then show "s' = s" using assms(3) by (auto simp: weak_load_def Let_def split: if_splits)
qed

lemma knowledge_ok_join:
  assumes "knowledge_ok s k" "knowledge_ok s m" "kn_seen m l = j" "kn_seen k l \<le> j"
  shows "knowledge_ok s (join (k\<lparr>kn_seen := (kn_seen k)(l := j)\<rparr>) m)"
  using assms by (cases l) (auto simp: knowledge_ok_def join_def)

lemma acquire_load:
  assumes "messages_ok s" "knowledge_ok s (wr_knows s t)" "weak_load Acquire l j t s = Some (v, s')"
  obtains k where "s' = s\<lparr>wr_knows := (wr_knows s)(t := k)\<rparr>" "knowledge_ok s k" "kn_seen k l = j"
    "\<And>l. kn_seen (wr_knows s t) l \<le> kn_seen k l" "\<And>u. kn_events (wr_knows s t) u \<le> kn_events k u"
proof -
  let ?m = "ms_knowledge (wr_messages s l ! j)" and ?k = "wr_knows s t"
  note choice = weak_load_choice [OF assms(1,3)]
  have m: "knowledge_ok s ?m" "kn_seen ?m l = j" using assms(1) choice(3) by (auto simp: messages_ok_def)
  show thesis
  proof (rule that)
    show "s' = s\<lparr>wr_knows := (wr_knows s)(t := join (?k\<lparr>kn_seen := (kn_seen ?k)(l := j)\<rparr>) ?m)\<rparr>"
      using assms(3) by (auto simp: weak_load_def Let_def split: if_splits)
    show "knowledge_ok s (join (?k\<lparr>kn_seen := (kn_seen ?k)(l := j)\<rparr>) ?m)"
      by (rule knowledge_ok_join [OF assms(2) m choice(2)])
  qed (use m choice in \<open>auto simp: join_def\<close>)
qed

lemma knowledge_ok_mono:
  assumes "knowledge_ok s k" "\<And>l. position s l \<le> position s' l" "written s \<le> written s'" "taken s \<le> taken s'"
  shows "knowledge_ok s' k"
  using assms(1,3,4) assms(2) [of Head] assms(2) [of Tail] by (simp add: knowledge_ok_def)

lemma messages_ok_mono:
  assumes "messages_ok s" "wr_messages s' = wr_messages s" "position s' = position s" "written s \<le> written s'" "taken s \<le> taken s'"
  shows "messages_ok s'"
  using assms knowledge_ok_mono [of s _ s'] by (simp add: messages_ok_def)

text \<open>Learning something, while not in the middle of \<open>size_approx\<close>, keeps the invariant.\<close>

lemma weak_inv_learn:
  assumes "weak_inv s" "knowledge_ok s k" "\<And>l. kn_seen (wr_knows s t) l \<le> kn_seen k l" "\<And>u. kn_events (wr_knows s t) u \<le> kn_events k u"
    and "t = Observer \<Longrightarrow> wr_obs s = OIdle"
  shows "weak_inv (s\<lparr>wr_knows := (wr_knows s)(t := k)\<rparr>)" (is "weak_inv ?s")
proof -
  note inv = weak_invD [OF assms(1)]
  have counts: "written ?s = written s" "taken ?s = taken s" "position ?s = position s"
    by (simp_all add: weak_count_defs) (rule position_eqI; simp)
  have ok: "knowledge_ok ?s = knowledge_ok s" by (simp add: fun_eq_iff knowledge_ok_def counts)
  have "messages_ok ?s" using inv(2) by (rule messages_ok_mono) (simp_all add: counts)
  moreover have "knows_ok ?s"
    unfolding knows_ok_def ok counts
    using inv(3) assms(2) assms(3) [of Tail] assms(3) [of Head] assms(4) [of Producer] assms(4) [of Consumer]
    by (cases t) (auto simp: knows_ok_def knowledge_ok_def intro: le_antisym)
  moreover have "pcs_ok ?s"
    using inv(4) assms(3) [of Head] assms(3) [of Tail] assms(5) by (cases t) (auto simp: pcs_ok_def intro: pc_ok_mono)
  moreover have "ring_slots_ok ?s" using inv(5) by (simp add: ring_slots_ok_def counts values_written_def)
  ultimately show ?thesis using inv(1,6) by (simp add: weak_inv_def geom_ok_def results_ok_def)
qed

text \<open>Moving on without a slot access and without a store.\<close>

definition between_accesses :: "'a producer_pc \<Rightarrow> 'a consumer_pc \<Rightarrow> bool" where
  "between_accesses p c = ((case p of PPublish _ _ \<Rightarrow> False | _ \<Rightarrow> True) \<and> (case c of CRelease _ _ \<Rightarrow> False | _ \<Rightarrow> True))"

lemma weak_inv_moves:
  assumes "weak_inv s" "pcs_ok (s\<lparr>wr_prod := p, wr_cons := c, wr_obs := ob\<rparr>)" "\<forall>w \<in> set new. unat w \<le> length (wr_pushed s)"
    and "p = wr_prod s \<or> between_accesses p CIdle \<and> between_accesses (wr_prod s) CIdle"
    and "c = wr_cons s \<or> between_accesses PIdle c \<and> between_accesses PIdle (wr_cons s)"
  shows "weak_inv (s\<lparr>wr_prod := p, wr_cons := c, wr_obs := ob, wr_sizes := wr_sizes s @ new\<rparr>)" (is "weak_inv ?s")
proof -
  note inv = weak_invD [OF assms(1)]
  have pos: "position ?s = position s" by (rule position_eqI) simp_all
  have counts: "written ?s = written s" "taken ?s = taken s" "values_written ?s = values_written s"
    using assms(4,5) by (auto simp: weak_count_defs values_written_def between_accesses_def split: producer_pc.splits consumer_pc.splits)
  have ok: "knowledge_ok ?s = knowledge_ok s" by (simp add: fun_eq_iff knowledge_ok_def counts pos)
  have "messages_ok ?s" using inv(2) by (rule messages_ok_mono) (simp_all add: counts pos)
  moreover have "knows_ok ?s" using inv(3) by (simp add: knows_ok_def ok counts)
  moreover have "pcs_ok ?s" using assms(2) by (simp add: pcs_ok_def)
  moreover have "ring_slots_ok ?s" using inv(5) by (simp add: ring_slots_ok_def counts)
  moreover have "results_ok ?s" using inv(6) assms(3) by (auto simp: results_ok_def)
  ultimately show ?thesis using inv(1) by (simp add: weak_inv_def geom_ok_def)
qed

section \<open>The steps keep the invariant\<close>

lemma of_nat_u64_diff:
  assumes "j \<le> n" "n - j \<le> c" "c < 2 ^ 64"
  shows "unat (of_nat n - of_nat j :: u64) = n - j"
proof -
  have "of_nat n - of_nat j = (of_nat (n - j) :: u64)" using assms(1) by (simp add: of_nat_diff)
  moreover have "(n - j) mod 2 ^ 64 = n - j" using assms by simp
  ultimately show ?thesis by (simp add: unat_of_nat)
qed

lemma weak_inv_start_push:
  assumes "weak_inv s"
  shows "weak_inv (start_push v j s)"
proof (cases "wr_prod s = PIdle \<and> weak_load Relaxed Tail j Producer s \<noteq> None")
  case True
  then obtain w s' where load: "weak_load Relaxed Tail j Producer s = Some (w, s')" by auto
  note inv = weak_invD [OF assms]
  have "w = of_nat (length (wr_pushed s))" "s' = s"
    using own_load [OF inv(2) _ load] inv(3) by (simp_all add: knows_ok_def)
  moreover have "weak_inv (s\<lparr>wr_prod := PTail v (of_nat (length (wr_pushed s))), wr_cons := wr_cons s, wr_obs := wr_obs s, wr_sizes := wr_sizes s @ []\<rparr>)"
    using inv(4) True by (intro weak_inv_moves [OF assms]) (auto simp: pcs_ok_def between_accesses_def)
  ultimately show ?thesis using True load by (simp add: start_push_def)
qed (use assms in \<open>auto simp: start_push_def split: producer_pc.splits option.splits\<close>)

lemma weak_inv_start_pop:
  assumes "weak_inv s"
  shows "weak_inv (start_pop j s)"
proof (cases "wr_cons s = CIdle \<and> weak_load Relaxed Head j Consumer s \<noteq> None")
  case True
  then obtain w s' where load: "weak_load Relaxed Head j Consumer s = Some (w, s')" by auto
  note inv = weak_invD [OF assms]
  have "w = of_nat (length (wr_popped s))" "s' = s"
    using own_load [OF inv(2) _ load] inv(3) by (simp_all add: knows_ok_def)
  moreover have "weak_inv (s\<lparr>wr_prod := wr_prod s, wr_cons := CHead (of_nat (length (wr_popped s))), wr_obs := wr_obs s, wr_sizes := wr_sizes s @ []\<rparr>)"
    using inv(4) True by (intro weak_inv_moves [OF assms]) (auto simp: pcs_ok_def between_accesses_def)
  ultimately show ?thesis using True load by (simp add: start_pop_def)
qed (use assms in \<open>auto simp: start_pop_def split: consumer_pc.splits option.splits\<close>)

lemma weak_inv_learn_load:
  assumes "weak_inv s" "weak_load Acquire l j t s = Some (v, s')" "t = Observer \<Longrightarrow> wr_obs s = OIdle"
  shows "weak_inv s'" "v = of_nat j" "kn_seen (wr_knows s' t) l = j" "wr_prod s' = wr_prod s" "wr_cons s' = wr_cons s" "wr_obs s' = wr_obs s"
    "wr_pushed s' = wr_pushed s" "wr_popped s' = wr_popped s" "wr_sizes s' = wr_sizes s" "wr_capacity s' = wr_capacity s"
proof -
  note inv = weak_invD [OF assms(1)]
  have "knowledge_ok s (wr_knows s t)" using inv(3) by (simp add: knows_ok_def)
  then obtain k where k: "s' = s\<lparr>wr_knows := (wr_knows s)(t := k)\<rparr>" "knowledge_ok s k" "kn_seen k l = j"
    "\<And>l. kn_seen (wr_knows s t) l \<le> kn_seen k l" "\<And>u. kn_events (wr_knows s t) u \<le> kn_events k u"
    using acquire_load [OF inv(2) _ assms(2)] by blast
  then show "weak_inv s'" using weak_inv_learn [OF assms(1) k(2,4,5) assms(3)] by simp
  show "v = of_nat j" by (rule weak_load_choice(1) [OF inv(2) assms(2)])
  show "kn_seen (wr_knows s' t) l = j" "wr_prod s' = wr_prod s" "wr_cons s' = wr_cons s" "wr_obs s' = wr_obs s" "wr_pushed s' = wr_pushed s"
    "wr_popped s' = wr_popped s" "wr_sizes s' = wr_sizes s" "wr_capacity s' = wr_capacity s" using k(1,3) by simp_all
qed

lemma weak_inv_push_load:
  assumes "weak_inv s" "wr_prod s = PTail v tail" "weak_load Acquire Head j Producer s = Some (head, s')"
  shows "weak_inv (s'\<lparr>wr_prod := if tail - head = wr_capacity s then PIdle else PWrite v tail\<rparr>)"
proof -
  note l = weak_inv_learn_load [OF assms(1,3), simplified]
  let ?n = "length (wr_pushed s)" and ?c = "unat (wr_capacity s)"
  have c: "?c < 2 ^ 64" using geom_okD(3) weak_invD(1) [OF assms(1)] by blast
  have ok: "tail = of_nat ?n" "?n \<le> j + ?c" "j \<le> ?n"
    using weak_invD(4) [OF l(1)] counts_ordered(1,2,3,5) [OF l(1)] l(2-) assms(2) by (auto simp: pcs_ok_def)
  have "unat (tail - head) = ?n - j" unfolding ok(1) l(2) using ok(2,3) c by (intro of_nat_u64_diff) simp_all
  then have "tail - head = wr_capacity s \<longleftrightarrow> ?n - j = ?c" by (simp only: word_unat_eq_iff)
  then have "?n < j + ?c" if "tail - head \<noteq> wr_capacity s" using that ok(2,3) by linarith
  then have "pcs_ok (s'\<lparr>wr_prod := if tail - head = wr_capacity s then PIdle else PWrite v tail, wr_cons := wr_cons s', wr_obs := wr_obs s'\<rparr>)"
    using weak_invD(4) [OF l(1)] l(2-) ok(1) by (simp add: pcs_ok_def)
  from weak_inv_moves [OF l(1) this, of "[]"] show ?thesis using l(4) assms(2) by (simp add: between_accesses_def)
qed

lemma weak_inv_pop_load:
  assumes "weak_inv s" "wr_cons s = CHead head" "weak_load Acquire Tail j Consumer s = Some (tail, s')"
  shows "weak_inv (s'\<lparr>wr_cons := if head = tail then CIdle else CTake head\<rparr>)"
proof -
  note l = weak_inv_learn_load [OF assms(1,3), simplified]
  let ?n = "length (wr_popped s)"
  have ok: "head = of_nat ?n" "?n \<le> j"
    using weak_invD(4) [OF l(1)] counts_ordered(1,2) [OF l(1)] l(2-) assms(2) by (auto simp: pcs_ok_def)
  then have "?n < j" if "head \<noteq> tail" using that l(2) by (metis le_neq_implies_less)
  then have "pcs_ok (s'\<lparr>wr_prod := wr_prod s', wr_cons := if head = tail then CIdle else CTake head, wr_obs := wr_obs s'\<rparr>)"
    using weak_invD(4) [OF l(1)] l(2-) ok(1) by (simp add: pcs_ok_def)
  from weak_inv_moves [OF l(1) this, of "[]"] show ?thesis using l(5) assms(2) by (simp add: between_accesses_def)
qed

lemma weak_inv_step_size:
  assumes "weak_inv s"
  shows "weak_inv (step_size j s)"
proof (cases "wr_obs s")
  case OIdle
  show ?thesis
  proof (cases "weak_load Acquire Head j Observer s")
    case (Some p)
    then obtain head s' where load: "weak_load Acquire Head j Observer s = Some (head, s')" by (cases p) simp
    note l = weak_inv_learn_load [OF assms load OIdle]
    have "pcs_ok (s'\<lparr>wr_prod := wr_prod s', wr_cons := wr_cons s', wr_obs := OHead head\<rparr>)" using weak_invD(4) [OF l(1)] l(2,3) by (simp add: pcs_ok_def)
    from weak_inv_moves [OF l(1) this, of "[]"] show ?thesis using load OIdle by (simp add: step_size_def)
  qed (use assms OIdle in \<open>simp add: step_size_def\<close>)
next
  case (OHead head)
  let ?s = "s\<lparr>wr_obs := OIdle\<rparr>"
  show ?thesis
  proof (cases "weak_load Acquire Tail j Observer s")
    case (Some p)
    then obtain tail s' where load: "weak_load Acquire Tail j Observer s = Some (tail, s')" by (cases p) simp
    note inv = weak_invD [OF assms] and choice = weak_load_choice [OF weak_invD(2) [OF assms] load]
    let ?h = "kn_seen (wr_knows s Observer) Head"
    have h: "head = of_nat ?h" "?h \<le> j" "j \<le> length (wr_pushed s)"
      using inv(3,4) OHead choice(2,3) by (auto simp: pcs_ok_def knows_ok_def knowledge_ok_def intro: order.trans)
    have "unat (tail - head) \<le> j - ?h"
      unfolding choice(1) h(1) using h(2) by (simp add: unat_of_nat flip: of_nat_diff)
    then have size: "unat (tail - head) \<le> length (wr_pushed s)" using h(3) by simp
    have "pcs_ok (s\<lparr>wr_prod := wr_prod s, wr_cons := wr_cons s, wr_obs := OIdle\<rparr>)" using inv(4) by (simp add: pcs_ok_def)
    from weak_inv_moves [OF assms this, of "[tail - head]"] size
    have "weak_inv (s\<lparr>wr_obs := OIdle, wr_sizes := wr_sizes s @ [tail - head]\<rparr>)" by simp
    moreover have "weak_load Acquire Tail j Observer (s\<lparr>wr_obs := OIdle, wr_sizes := wr_sizes s @ [tail - head]\<rparr>) =
        Some (tail, s'\<lparr>wr_obs := OIdle, wr_sizes := wr_sizes s @ [tail - head]\<rparr>)"
      using load by (auto simp: weak_load_def Let_def split: if_splits)
    ultimately show ?thesis using weak_inv_learn_load(1) load OHead by (fastforce simp: step_size_def)
  qed (use assms OHead in \<open>simp add: step_size_def\<close>)
qed

subsection \<open>Slot accesses\<close>

lemma mod_gap: "p < n \<Longrightarrow> p mod c = n mod c \<Longrightarrow> p + c \<le> (n :: nat)"
proof -
  assume "p < n" "p mod c = n mod c"
  then have "c dvd n - p" using mod_eq_dvd_iff_nat [of p n c] by simp
  then have "c \<le> n - p" using \<open>p < n\<close> by (simp add: dvd_imp_le)
  then show ?thesis using \<open>p < n\<close> by simp
qed

lemma stamp_ok_bound:
  assumes "stamp_ok c n (p mod c) stamp" "n \<le> p + c"
  shows "stamp \<le> Suc p"
proof (cases "stamp = 0")
  case False
  then obtain p' where p': "p' < n" "stamp = Suc p'" "p' mod c = p mod c" using assms(1) by (auto simp: stamp_ok_def)
  then have "\<not> p < p'" using mod_gap [of p p' c] assms(2) by fastforce
  then show ?thesis using p'(2) by simp
qed simp

lemma stamp_ok_bound_below:
  assumes "stamp_ok c n (p mod c) stamp" "n \<le> p" "p < m + c"
  shows "stamp \<le> m"
proof (cases "stamp = 0")
  case False
  then obtain p' where p': "p' < n" "stamp = Suc p'" "p' mod c = p mod c" using assms(1) by (auto simp: stamp_ok_def)
  then show ?thesis using mod_gap [of p' p c] assms(2,3) by simp
qed simp

lemma stamp_ok_upd: "stamp_ok c n r stamp \<Longrightarrow> stamp_ok c (Suc n) r (if r = n mod c then Suc n else stamp)"
  by (auto simp: stamp_ok_def less_Suc_eq)

text \<open>The producer writes a slot only after it knows of the pop that emptied it, and the write does not touch a value that is still to be popped.\<close>

lemma weak_inv_push_write:
  assumes "weak_inv s" "wr_prod s = PWrite v tail"
  shows "\<exists>s'. step_push j s = Inr s' \<and> weak_inv s'"
proof -
  note inv = weak_invD [OF assms(1)] and counts = counts_ordered [OF assms(1)]
  let ?n = "length (wr_pushed s)" and ?c = "unat (wr_capacity s)" and ?k = "wr_knows s Producer"
  have tail: "tail = of_nat ?n" "?n < kn_seen ?k Head + ?c" and w: "written s = ?n"
    using inv(4) assms(2) by (auto simp: pcs_ok_def written_def)
  have slot: "wr_slot s tail = ?n mod ?c" unfolding tail(1) by (rule geom_okD(1) [OF inv(1)])
  have k: "kn_events ?k Producer = ?n" "kn_seen ?k Head \<le> kn_events ?k Consumer" using inv(3) w by (auto simp: knows_ok_def knowledge_ok_def)
  have stamps: "stamp_ok ?c ?n r (wr_stamp s Producer r)" "stamp_ok ?c (taken s) r (wr_stamp s Consumer r)" for r
    using inv(5) w by (simp_all add: ring_slots_ok_def Let_def)
  have "wr_stamp s Consumer (?n mod ?c) \<le> kn_events ?k Consumer"
    using stamp_ok_bound_below [OF stamps(2) _ tail(2)] counts(2,3) k(2) by simp
  then have step: "step_push j s = Inr (s\<lparr>wr_knows := (wr_knows s)(Producer := ?k\<lparr>kn_events := (kn_events ?k)(Producer := Suc ?n)\<rparr>),
      wr_stamp := (wr_stamp s)(Producer := (wr_stamp s Producer)(?n mod ?c := Suc ?n)),
      wr_buffer := (wr_buffer s)[?n mod ?c := Some v], wr_prod := PPublish v tail\<rparr>)" (is "_ = Inr ?s")
    using assms(2) slot k(1) by (simp add: step_push_def slot_access_def Let_def)
  have new: "written ?s = Suc ?n" "taken ?s = taken s" "position ?s = position s"
    by (simp_all add: weak_count_defs) (rule position_eqI; simp)
  have old: "knowledge_ok s (wr_knows s t)" for t using inv(3) by (simp add: knows_ok_def)
  then have more: "knowledge_ok ?s (wr_knows s t)" for t using w by (rule_tac knowledge_ok_mono [of s]) (simp_all add: new)
  have kt: "knowledge_ok ?s (wr_knows ?s t)" for t using old [of t] more [of t] by (cases t) (simp_all add: knowledge_ok_def new)
  have "messages_ok ?s" using inv(2) w by (rule_tac messages_ok_mono [of s]) (simp_all add: new)
  moreover have "knows_ok ?s" using inv(3) kt w by (simp add: knows_ok_def new)
  moreover have "pcs_ok ?s" using inv(4) tail by (simp add: pcs_ok_def)
  moreover have "wr_buffer ?s ! (p mod ?c) = Some (values_written ?s ! p)" if p: "taken s \<le> p" "p < Suc ?n" for p
  proof (cases "p = ?n")
    case True
    then show ?thesis using inv(5) geom_okD(2) [OF inv(1)] by (simp add: values_written_def ring_slots_ok_def Let_def)
  next
    case False
    then have "p mod ?c \<noteq> ?n mod ?c" using mod_gap [of p ?n ?c] p tail(2) counts(1,2,5) by fastforce
    then show ?thesis using False p inv(5) assms(2) w by (simp add: values_written_def nth_append ring_slots_ok_def Let_def)
  qed
  then have "ring_slots_ok ?s" using inv(5) stamps stamp_ok_upd [OF stamps(1)] by (simp add: ring_slots_ok_def Let_def new if_distrib)
  ultimately show ?thesis using inv(1,6) step by (simp add: weak_inv_def geom_ok_def results_ok_def)
qed

lemma weak_inv_pop_take:
  assumes "weak_inv s" "wr_cons s = CTake head"
  shows "\<exists>s'. step_pop j s = Inr s' \<and> weak_inv s'"
proof -
  note inv = weak_invD [OF assms(1)] and counts = counts_ordered [OF assms(1)]
  let ?n = "length (wr_popped s)" and ?c = "unat (wr_capacity s)" and ?k = "wr_knows s Consumer"
  have head: "head = of_nat ?n" "?n < kn_seen ?k Tail" and w: "taken s = ?n"
    using inv(4) assms(2) by (auto simp: pcs_ok_def taken_def)
  have slot: "wr_slot s head = ?n mod ?c" unfolding head(1) by (rule geom_okD(1) [OF inv(1)])
  have k: "kn_events ?k Consumer = ?n" "kn_seen ?k Tail \<le> kn_events ?k Producer" using inv(3) w by (auto simp: knows_ok_def knowledge_ok_def)
  have stamps: "stamp_ok ?c (written s) r (wr_stamp s Producer r)" "stamp_ok ?c ?n r (wr_stamp s Consumer r)" for r
    using inv(5) w by (simp_all add: ring_slots_ok_def Let_def)
  have buffer: "wr_buffer s ! (p mod ?c) = Some (values_written s ! p)" if "?n \<le> p" "p < written s" for p
    using inv(5) w that by (simp add: ring_slots_ok_def Let_def)
  have front: "wr_buffer s ! (?n mod ?c) = Some (wr_pushed s ! ?n)"
    using buffer [of ?n] head(2) counts(3,4) by (simp add: values_written_def nth_append)
  have "wr_stamp s Producer (?n mod ?c) \<le> kn_events ?k Producer"
    using stamp_ok_bound [OF stamps(1), of ?n] counts(5,6) head(2) k(2) by linarith
  then have step: "step_pop j s = Inr (s\<lparr>wr_knows := (wr_knows s)(Consumer := ?k\<lparr>kn_events := (kn_events ?k)(Consumer := Suc ?n)\<rparr>),
      wr_stamp := (wr_stamp s)(Consumer := (wr_stamp s Consumer)(?n mod ?c := Suc ?n)),
      wr_buffer := (wr_buffer s)[?n mod ?c := None], wr_cons := CRelease head (Some (wr_pushed s ! ?n))\<rparr>)" (is "_ = Inr ?s")
    using assms(2) slot k(1) front by (simp add: step_pop_def slot_access_def Let_def)
  have new: "taken ?s = Suc ?n" "written ?s = written s" "position ?s = position s" "values_written ?s = values_written s"
    by (simp_all add: weak_count_defs values_written_def) (rule position_eqI; simp)
  have old: "knowledge_ok s (wr_knows s t)" for t using inv(3) by (simp add: knows_ok_def)
  then have more: "knowledge_ok ?s (wr_knows s t)" for t using w by (rule_tac knowledge_ok_mono [of s]) (simp_all add: new)
  have kt: "knowledge_ok ?s (wr_knows ?s t)" for t using old [of t] more [of t] by (cases t) (simp_all add: knowledge_ok_def new)
  have "messages_ok ?s" using inv(2) w by (rule_tac messages_ok_mono [of s]) (simp_all add: new)
  moreover have "knows_ok ?s" using inv(3) kt w by (simp add: knows_ok_def new)
  moreover have "pcs_ok ?s" using inv(4) head by (simp add: pcs_ok_def)
  moreover have "wr_buffer ?s ! (p mod ?c) = Some (values_written s ! p)" if p: "Suc ?n \<le> p" "p < written s" for p
  proof -
    have "p mod ?c \<noteq> ?n mod ?c" using mod_gap [of ?n p ?c] p counts(5,6) by fastforce
    then show ?thesis using buffer [of p] p by simp
  qed
  then have "ring_slots_ok ?s" using inv(5) stamps stamp_ok_upd [OF stamps(2)] by (simp add: ring_slots_ok_def Let_def new if_distrib)
  ultimately show ?thesis using inv(1,6) step by (simp add: weak_inv_def geom_ok_def results_ok_def)
qed

subsection \<open>Stores\<close>

text \<open>A release store of a counter by the thread that owns it.\<close>

lemma messages_ok_append:
  assumes "messages_ok s" "wr_messages s' = (wr_messages s)(l := wr_messages s l @ [m])"
    and "position s' = (position s)(l := Suc (position s l))" "written s' = written s" "taken s' = taken s"
    and "ms_value m = of_nat (Suc (position s l))" "kn_seen (ms_knowledge m) l = Suc (position s l)" "knowledge_ok s' (ms_knowledge m)"
  shows "messages_ok s'"
proof -
  have mono: "knowledge_ok s k \<Longrightarrow> knowledge_ok s' k" for k by (erule knowledge_ok_mono) (simp_all add: assms)
  have "length (wr_messages s' x) = Suc (position s' x)" for x using assms(1-3) by (simp add: messages_ok_def)
  moreover have "ms_value (wr_messages s' x ! i) = of_nat i \<and> kn_seen (ms_knowledge (wr_messages s' x ! i)) x = i \<and>
      knowledge_ok s' (ms_knowledge (wr_messages s' x ! i))" if i: "i \<le> position s' x" for x i
  proof (cases "x = l \<and> i = Suc (position s l)")
    case True
    have "length (wr_messages s l) = Suc (position s l)" using assms(1) by (simp add: messages_ok_def)
    then show ?thesis using True assms(2,6-8) by (simp add: nth_append)
  next
    case False
    then have "i \<le> position s x" "wr_messages s' x ! i = wr_messages s x ! i"
      using i assms(1-3) by (auto simp: messages_ok_def nth_append split: if_splits)
    then show ?thesis using assms(1) mono by (simp add: messages_ok_def)
  qed
  ultimately show ?thesis by (simp add: messages_ok_def)
qed

lemma weak_inv_push_store:
  assumes "weak_inv s" "wr_prod s = PPublish v tail"
  shows "\<exists>s'. step_push j s = Inr s' \<and> weak_inv s'"
proof -
  note inv = weak_invD [OF assms(1)] and counts = counts_ordered [OF assms(1)]
  let ?n = "length (wr_pushed s)" and ?k = "wr_knows s Producer"
  let ?k' = "?k\<lparr>kn_seen := (kn_seen ?k)(Tail := Suc ?n)\<rparr>"
  have tail: "tail = of_nat ?n" "?n < kn_seen ?k Head + unat (wr_capacity s)" and w: "written s = Suc ?n"
    using inv(4) assms(2) by (auto simp: pcs_ok_def written_def)
  have len: "length (wr_messages s Tail) = Suc ?n" using inv(2) by (simp add: messages_ok_def)
  have step: "step_push j s = Inr (s\<lparr>wr_knows := (wr_knows s)(Producer := ?k'),
      wr_messages := (wr_messages s)(Tail := wr_messages s Tail @ [\<lparr>ms_value = tail + 1, ms_knowledge = ?k'\<rparr>]),
      wr_prod := PIdle, wr_pushed := wr_pushed s @ [v]\<rparr>)" (is "_ = Inr ?s")
    using assms(2) len by (simp add: step_push_def weak_store_def Let_def)
  have new: "written ?s = written s" "taken ?s = taken s" "values_written ?s = values_written s"
    using assms(2) by (simp_all add: weak_count_defs values_written_def)
  have pos: "position ?s = (position s)(Tail := Suc ?n)"
  proof
    show "position ?s l = ((position s)(Tail := Suc ?n)) l" for l by (cases l) simp_all
  qed
  have old: "knowledge_ok s (wr_knows s t)" for t using inv(3) by (simp add: knows_ok_def)
  have own: "kn_events ?k Producer = Suc ?n" "kn_seen ?k Tail = ?n" using inv(3) w by (simp_all add: knows_ok_def)
  have mine: "knowledge_ok ?s ?k'" using old [of Producer] own w by (simp add: knowledge_ok_def new)
  have "knowledge_ok ?s (wr_knows s t)" for t using old by (rule knowledge_ok_mono) (simp_all add: new pos)
  then have kt: "knowledge_ok ?s (wr_knows ?s t)" for t using mine by (cases t) simp_all
  have "messages_ok ?s"
  proof (rule messages_ok_append [OF inv(2)])
    show "wr_messages ?s = (wr_messages s)(Tail := wr_messages s Tail @ [\<lparr>ms_value = tail + 1, ms_knowledge = ?k'\<rparr>])" by simp
    show "position ?s = (position s)(Tail := Suc (position s Tail))" using pos by simp
    show "ms_value \<lparr>ms_value = tail + 1, ms_knowledge = ?k'\<rparr> = of_nat (Suc (position s Tail))" using tail(1) by simp
  qed (use mine in \<open>simp_all add: new\<close>)
  moreover have "knows_ok ?s" unfolding knows_ok_def new using inv(3) kt w by (simp add: knows_ok_def)
  moreover have "pcs_ok ?s"
    using inv(4) tail counts(3) by (cases "wr_cons s") (auto simp: pcs_ok_def nth_append)
  moreover have "ring_slots_ok ?s" using inv(5) by (simp add: ring_slots_ok_def new)
  moreover have "results_ok ?s" using inv(6) counts(1-3) by (auto simp: results_ok_def)
  ultimately show ?thesis using inv(1) step by (simp add: weak_inv_def geom_ok_def)
qed

lemma weak_inv_pop_store:
  assumes "weak_inv s" "wr_cons s = CRelease head r"
  shows "\<exists>s'. step_pop j s = Inr s' \<and> weak_inv s'"
proof -
  note inv = weak_invD [OF assms(1)] and counts = counts_ordered [OF assms(1)]
  let ?n = "length (wr_popped s)" and ?k = "wr_knows s Consumer"
  let ?k' = "?k\<lparr>kn_seen := (kn_seen ?k)(Head := Suc ?n)\<rparr>"
  have head: "head = of_nat ?n" "?n < kn_seen ?k Tail" "r = Some (wr_pushed s ! ?n)" and w: "taken s = Suc ?n"
    using inv(4) assms(2) by (auto simp: pcs_ok_def taken_def)
  have len: "length (wr_messages s Head) = Suc ?n" using inv(2) by (simp add: messages_ok_def)
  have step: "step_pop j s = Inr (s\<lparr>wr_knows := (wr_knows s)(Consumer := ?k'),
      wr_messages := (wr_messages s)(Head := wr_messages s Head @ [\<lparr>ms_value = head + 1, ms_knowledge = ?k'\<rparr>]),
      wr_cons := CIdle, wr_popped := wr_popped s @ [r]\<rparr>)" (is "_ = Inr ?s")
    using assms(2) len by (simp add: step_pop_def weak_store_def Let_def)
  have new: "written ?s = written s" "taken ?s = taken s" "values_written ?s = values_written s"
    using assms(2) by (simp_all add: weak_count_defs values_written_def)
  have pos: "position ?s = (position s)(Head := Suc ?n)"
  proof
    show "position ?s l = ((position s)(Head := Suc ?n)) l" for l by (cases l) simp_all
  qed
  have old: "knowledge_ok s (wr_knows s t)" for t using inv(3) by (simp add: knows_ok_def)
  have own: "kn_events ?k Consumer = Suc ?n" "kn_seen ?k Head = ?n" using inv(3) w by (simp_all add: knows_ok_def)
  have mine: "knowledge_ok ?s ?k'" using old [of Consumer] own w head(2) by (simp add: knowledge_ok_def new)
  have "knowledge_ok ?s (wr_knows s t)" for t using old by (rule knowledge_ok_mono) (simp_all add: new pos)
  then have kt: "knowledge_ok ?s (wr_knows ?s t)" for t using mine by (cases t) simp_all
  have "messages_ok ?s"
  proof (rule messages_ok_append [OF inv(2)])
    show "wr_messages ?s = (wr_messages s)(Head := wr_messages s Head @ [\<lparr>ms_value = head + 1, ms_knowledge = ?k'\<rparr>])" by simp
    show "position ?s = (position s)(Head := Suc (position s Head))" using pos by simp
    show "ms_value \<lparr>ms_value = head + 1, ms_knowledge = ?k'\<rparr> = of_nat (Suc (position s Head))" using head(1) by simp
  qed (use mine in \<open>simp_all add: new\<close>)
  moreover have "knows_ok ?s" unfolding knows_ok_def new using inv(3) kt w by (simp add: knows_ok_def)
  moreover have "pcs_ok ?s" using inv(4) by (simp add: pcs_ok_def)
  moreover have "ring_slots_ok ?s" using inv(5) by (simp add: ring_slots_ok_def new)
  moreover have "results_ok ?s" using inv(6) head(2,3) counts(3) by (auto simp: results_ok_def take_Suc_conv_app_nth)
  ultimately show ?thesis using inv(1) step by (simp add: weak_inv_def geom_ok_def)
qed

section \<open>Runs\<close>

lemma weak_inv_step_push:
  assumes "weak_inv s"
  shows "\<exists>s'. step_push j s = Inr s' \<and> weak_inv s'"
proof (cases "wr_prod s")
  case (PTail v tail)
  then show ?thesis using weak_inv_push_load [OF assms PTail] assms
    by (cases "weak_load Acquire Head j Producer s") (auto simp: step_push_def)
qed (use assms weak_inv_push_write [OF assms] weak_inv_push_store [OF assms] in \<open>auto simp: step_push_def [of _ s] split: producer_pc.splits\<close>)

lemma weak_inv_step_pop:
  assumes "weak_inv s"
  shows "\<exists>s'. step_pop j s = Inr s' \<and> weak_inv s'"
proof (cases "wr_cons s")
  case (CHead head)
  then show ?thesis using weak_inv_pop_load [OF assms CHead] assms
    by (cases "weak_load Acquire Tail j Consumer s") (auto simp: step_pop_def)
next
  case CIdle
  then show ?thesis using assms by (simp add: step_pop_def)
next
  case (CTake head)
  then show ?thesis by (rule weak_inv_pop_take [OF assms])
next
  case (CRelease head r)
  then show ?thesis by (rule weak_inv_pop_store [OF assms])
qed

lemma weak_inv_step: "weak_inv s \<Longrightarrow> \<exists>s'. weak_step action s = Inr s' \<and> weak_inv s'"
  by (cases action) (simp_all add: weak_inv_start_push weak_inv_start_pop weak_inv_step_size weak_inv_step_push weak_inv_step_pop)

lemma weak_inv_run: "weak_inv s \<Longrightarrow> \<exists>s'. weak_run actions s = Inr s' \<and> weak_inv s'"
proof (induction actions arbitrary: s)
  case (Cons action actions)
  then obtain s1 where "weak_step action s = Inr s1" "weak_inv s1" using weak_inv_step by blast
  then show ?case using Cons.IH by auto
qed simp

lemma weak_inv_new:
  assumes "new_SpscRingQueue c = Inr q"
  shows "weak_inv (new_weak_ring q)"
proof -
  obtain m where m: "normalize_capacity c = Inr m" and q: "q = \<lparr>rq_capacity = m, rq_mask = m - 1, rq_buffer = replicate (unat m) None,
      rq_head = 0, rq_tail = 0\<rparr>" using assms by (auto simp: new_SpscRingQueue_def split: sum.splits)
  have "geom_ok (new_weak_ring q)" using rq_wf_new(1) [OF assms] by (auto simp: geom_ok_def new_weak_ring_def rq_wf_def rq_geom_def)
  moreover have "messages_ok (new_weak_ring q)"
    using q by (auto simp: messages_ok_def knowledge_ok_def new_weak_ring_def no_knowledge_def split: ring_location.splits)
  ultimately show ?thesis
    using q by (simp add: weak_inv_def knows_ok_def knowledge_ok_def pcs_ok_def ring_slots_ok_def results_ok_def stamp_ok_def
        written_def taken_def new_weak_ring_def no_knowledge_def)
qed

lemma weak_load_capacity: "weak_load order l j t s = Some (v, s') \<Longrightarrow> wr_capacity s' = wr_capacity s"
  by (auto simp: weak_load_def Let_def split: if_splits)

lemma weak_step_capacity: "weak_step action s = Inr s' \<Longrightarrow> wr_capacity s' = wr_capacity s"
  by (cases action)
     (auto simp: start_push_def step_push_def start_pop_def step_pop_def step_size_def slot_access_def weak_store_def Let_def
       dest: weak_load_capacity split: producer_pc.splits consumer_pc.splits observer_pc.splits option.splits if_splits)

lemma weak_run_capacity: "weak_run actions s = Inr s' \<Longrightarrow> wr_capacity s' = wr_capacity s"
proof (induction actions arbitrary: s)
  case (Cons action actions)
  then obtain s1 where "weak_step action s = Inr s1" "weak_run actions s1 = Inr s'" by (auto split: sum.splits)
  then show ?case using Cons.IH weak_step_capacity by metis
qed simp

section \<open>Property\<close>

text \<open>C28: The ring is safe with the memory orders it uses: one thread pushes, one pops and one asks for the size, interleaved in any way and with
  every stale value the release/acquire model lets a load return. No access to a slot is a data race; the popped values are, in order, an
  initial segment of the pushed ones and at most \<open>capacity_\<close> values are in between; a size is never a wrapped-around negative
  number but at most the number of values pushed so far.\<close>

theorem spsc_release_acquire_safe:
  assumes "new_SpscRingQueue c = Inr q"
  shows "\<exists>s. weak_run actions (new_weak_ring q) = Inr s \<and>
    (\<exists>rest. map Some (wr_pushed s) = wr_popped s @ map Some rest \<and> length rest \<le> unat (rq_capacity q)) \<and>
    (\<forall>w \<in> set (wr_sizes s). unat w \<le> length (wr_pushed s))"
proof -
  obtain s where s: "weak_run actions (new_weak_ring q) = Inr s" "weak_inv s" using weak_inv_run [OF weak_inv_new [OF assms]] by blast
  let ?rest = "drop (length (wr_popped s)) (wr_pushed s)"
  have "map Some (wr_pushed s) = wr_popped s @ map Some ?rest"
    using weak_invD(6) [OF s(2)] by (metis append_take_drop_id map_append results_ok_def)
  moreover have "length ?rest \<le> unat (rq_capacity q)"
    using counts_ordered(4-6) [OF s(2)] weak_run_capacity [OF s(1)] by (simp add: new_weak_ring_def)
  ultimately show ?thesis using s weak_invD(6) [OF s(2)] by (auto simp: results_ok_def)
qed

text \<open>The first pop reads the initial message of \<open>tail_\<close> and finds the ring empty, although two values have been pushed.\<close>

definition stale_schedule :: "nat ring_action list" where
  "stale_schedule =
     [StartPush 7 0, StepPush 0, StepPush 0, StepPush 0, StartPush 8 1, StepPush 0, StepPush 0, StepPush 0,
      StartPop 0, StepPop 0, StartPop 0, StepPop 2, StepPop 0, StepPop 0, StepSize 1, StepSize 2]"

theorem spsc_release_acquire_safe_witness:
  "\<exists>q s. new_SpscRingQueue 2 = Inr q \<and> weak_run stale_schedule (new_weak_ring q) = Inr s \<and> wr_pushed s = [7, 8] \<and> wr_popped s = [Some 7] \<and>
     wr_sizes s = [1] \<and> (\<exists>rest. map Some (wr_pushed s) = wr_popped s @ map Some rest \<and> length rest \<le> 2)"
proof -
  let ?q = "\<lparr>rq_capacity = 2, rq_mask = 1, rq_buffer = [None, None], rq_head = 0, rq_tail = 0\<rparr> :: nat SpscRingQueue"
  have new: "new_SpscRingQueue 2 = Inr ?q"
    using replicate_Suc [of 1 "None :: nat option"] by (simp add: exec_simps flip: numeral_2_eq_2)
  have run: "case weak_run stale_schedule (new_weak_ring ?q) of Inl _ \<Rightarrow> False
      | Inr s \<Rightarrow> wr_pushed s = [7, 8] \<and> wr_popped s = [Some 7] \<and> wr_sizes s = [1]" by code_simp
  obtain s where "weak_run stale_schedule (new_weak_ring ?q) = Inr s" "\<exists>rest. map Some (wr_pushed s) = wr_popped s @ map Some rest \<and> length rest \<le> 2"
    using spsc_release_acquire_safe [OF new, of stale_schedule] by auto
  then show ?thesis using new run by (intro exI [of _ ?q] exI [of _ s]) simp
qed

end
