(* ===== verification/Binary64.thy ===== *)
theory Binary64
  imports Prelude
begin

text \<open>
  The C++ type \<open>double\<close> as the sources use it: IEEE-754 binary64 with round to nearest, ties to
  even. A value is NaN, an infinity or a rational that binary64 represents; every operation computes
  the exact rational result and rounds it (\<open>fp_round\<close>), overflow gives an infinity and the
  comparisons are false on NaN, as in C++. The two zeros are one value here: the sources compare
  zeros and never divide by one, so only the printed sign of a zero could differ.

  The rounding facts the components rest on are proved from the definition: a representable
  value is its own rounding (\<open>round_rat_exact\<close>), rounding is idempotent and monotone
  (\<open>round_rat_idem\<close>, \<open>round_rat_mono\<close>). From them come the order facts on \<open>double\<close> (a
  difference of ordered values is non-negative and no larger than the first, \<open>diff_between\<close>) and
  the exact arithmetic of integers up to \<open>2 ^ 53\<close> (\<open>dint\<close>).
\<close>

section \<open>Rounding\<close>

text \<open>The number of binary digits of an integer, and from it the binary exponent of a rational.\<close>

function bit_length :: "int \<Rightarrow> int" where
  "bit_length n = (if n \<le> 0 then 0 else 1 + bit_length (n div 2))"
  by pat_completeness auto
termination
  by (relation "measure nat") auto

declare bit_length.simps [simp del]

lemma bit_length_nonneg: "0 \<le> bit_length n"
  by (induction n rule: bit_length.induct) (subst bit_length.simps, auto)

lemma bit_length_bounds:
  "0 < n \<Longrightarrow> 2 ^ nat (bit_length n - 1) \<le> n \<and> n < 2 ^ nat (bit_length n)"
proof (induction n rule: bit_length.induct)
  case (1 n)
  show ?case
  proof (cases "n = 1")
    case True
    then show ?thesis by (simp add: bit_length.simps)
  next
    case False
    with 1 have *: "2 ^ nat (bit_length (n div 2) - 1) \<le> n div 2" "n div 2 < 2 ^ nat (bit_length (n div 2))"
      by auto
    have bl: "bit_length n = 1 + bit_length (n div 2)"
      using 1 by (subst bit_length.simps) auto
    have pos: "1 \<le> bit_length (n div 2)"
      using False 1 bit_length_nonneg [of "n div 2 div 2"] by (subst bit_length.simps) auto
    define k where "k = nat (bit_length (n div 2) - 1)"
    have k: "nat (bit_length (n div 2)) = Suc k" "nat (bit_length n - 1) = Suc k" "nat (bit_length n) = Suc (Suc k)"
      using pos bl by (auto simp: k_def)
    from * have "2 ^ k \<le> n div 2" "n div 2 < 2 ^ Suc k" by (auto simp: k k_def)
    then show ?thesis unfolding k by auto
  qed
qed

definition ilog2 :: "rat \<Rightarrow> int" where
  "ilog2 q = (let (n, d) = quotient_of q; k = bit_length n - bit_length d
              in if 2 powi k \<le> q then k else k - 1)"

lemma ilog2_bounds:
  assumes "0 < q"
  shows "2 powi ilog2 q \<le> q \<and> q < 2 powi (ilog2 q + 1)"
proof -
  obtain n d where nd: "quotient_of q = (n, d)" by fastforce
  have d: "0 < d" using quotient_of_denom_pos [OF nd] .
  have q: "q = of_int n / of_int d" using quotient_of_div [OF nd] .
  have n: "0 < n" using assms d by (simp add: q zero_less_divide_iff)
  let ?a = "bit_length n" and ?b = "bit_length d"
  have *: "1 \<le> ?a" "1 \<le> ?b"
    using n d by (subst bit_length.simps; simp add: bit_length_nonneg)+
  have i: "of_int (2 ^ nat (?a - 1)) \<le> (of_int n :: rat)" "of_int n < (of_int (2 ^ nat ?a) :: rat)"
    "of_int (2 ^ nat (?b - 1)) \<le> (of_int d :: rat)" "of_int d < (of_int (2 ^ nat ?b) :: rat)"
    using bit_length_bounds [OF n] bit_length_bounds [OF d] by (simp_all only: of_int_le_iff of_int_less_iff)
  have p: "of_int (2 ^ nat k) = (2 powi k :: rat)" if "0 \<le> k" for k
    using that by (simp add: power_int_def)
  have b: "2 powi (?a - 1) \<le> (of_int n :: rat)" "of_int n < (2 powi ?a :: rat)"
    "2 powi (?b - 1) \<le> (of_int d :: rat)" "of_int d < (2 powi ?b :: rat)"
    using i * unfolding p [of "?a - 1", simplified] by (simp_all only: p diff_ge_0_iff_ge order_trans [OF zero_le_one])
  have up: "q < 2 powi (?a - ?b + 1)"
  proof -
    have "q < 2 powi ?a / 2 powi (?b - 1)"
      unfolding q using b d n by (intro frac_less) auto
    also have "\<dots> = 2 powi (?a - (?b - 1))"
      by (subst power_int_diff) auto
    also have "?a - (?b - 1) = ?a - ?b + 1" by simp
    finally show ?thesis .
  qed
  have lo: "2 powi (?a - ?b - 1) \<le> q"
  proof -
    have "?a - ?b - 1 = (?a - 1) - ?b" by simp
    then have "2 powi (?a - ?b - 1) = 2 powi (?a - 1) / (2 powi ?b :: rat)"
      by (simp only:) (subst power_int_diff, auto)
    also have "\<dots> \<le> q"
      unfolding q using b d n by (intro frac_le) auto
    finally show ?thesis .
  qed
  show ?thesis
    using up lo by (auto simp: ilog2_def nd Let_def)
qed

text \<open>Rounding a rational to an integer, ties to the even neighbour.\<close>

definition round_half_even :: "rat \<Rightarrow> int" where
  "round_half_even q =
     (let f = floor q; r = q - of_int f
      in if r < 1 / 2 then f else if 1 / 2 < r then f + 1 else if even f then f else f + 1)"

lemma round_half_even_of_int [simp]: "round_half_even (of_int n) = n"
  by (simp add: round_half_even_def)

lemma round_half_even_bounds: "floor q \<le> round_half_even q \<and> round_half_even q \<le> floor q + 1"
  by (simp add: round_half_even_def Let_def)

lemma round_half_even_mono:
  assumes "p \<le> q"
  shows "round_half_even p \<le> round_half_even q"
proof (cases "floor p = floor q")
  case True
  with assms show ?thesis by (auto simp: round_half_even_def Let_def)
next
  case False
  then have "floor p + 1 \<le> floor q" using assms floor_mono [OF assms] by linarith
  then show ?thesis using round_half_even_bounds [of p] round_half_even_bounds [of q] by linarith
qed

lemma round_half_even_minus: "round_half_even (- q) = - round_half_even q"
proof (cases "q \<in> \<int>")
  case True
  then obtain n where "q = of_int n" by (auto elim: Ints_cases)
  then show ?thesis using round_half_even_of_int [of "- n"] by simp
next
  case False
  then have "floor (- q) = - floor q - 1" "q \<noteq> of_int (floor q)"
    by (metis Ints_of_int add.commute ceiling_altdef floor_minus minus_add_distrib uminus_add_conv_diff)
      (metis False Ints_of_int)
  then show ?thesis by (auto simp: round_half_even_def Let_def)
qed

text \<open>
  The exponent of the last place of a value: 53 significant bits, and never below the exponent
  \<open>- 1074\<close> of the subnormal numbers. \<open>round_rat\<close> rounds to a multiple of that place.
\<close>

definition ulp_exponent :: "rat \<Rightarrow> int" where
  "ulp_exponent q = max (ilog2 \<bar>q\<bar> - 52) (- 1074)"

definition round_rat :: "rat \<Rightarrow> rat" where
  "round_rat q = (if q = 0 then 0
     else let u = 2 powi ulp_exponent q in of_int (round_half_even (q / u)) * u)"

lemma round_rat_0 [simp]: "round_rat 0 = 0"
  by (simp add: round_rat_def)

lemma round_rat_minus: "round_rat (- q) = - round_rat q"
  by (simp add: round_rat_def ulp_exponent_def Let_def round_half_even_minus)

lemma two_powi_split: "2 powi (e :: int) = (of_int (2 ^ nat (e - d)) * 2 powi d :: rat)" if "d \<le> e"
proof -
  have "2 powi e = (2 powi ((e - d) + d) :: rat)" by simp
  also have "\<dots> = 2 powi (e - d) * 2 powi d" by (subst power_int_add) auto
  also have "2 powi (e - d) = (of_int (2 ^ nat (e - d)) :: rat)" using that by (simp add: power_int_def)
  finally show ?thesis .
qed

lemma round_rat_multiple:
  assumes "q \<noteq> 0" and "q = of_int m * 2 powi e" and "ulp_exponent q \<le> e"
  shows "round_rat q = q"
proof -
  let ?u = "ulp_exponent q"
  have "q = of_int (m * 2 ^ nat (e - ?u)) * 2 powi ?u"
    using assms(2) two_powi_split [OF assms(3)] by simp
  then have "q / 2 powi ?u = of_int (m * 2 ^ nat (e - ?u))" by (simp add: field_simps)
  then have "round_half_even (q / 2 powi ?u) = m * 2 ^ nat (e - ?u)" by (simp only: round_half_even_of_int)
  then show ?thesis
    using assms(1) \<open>q = of_int (m * 2 ^ nat (e - ?u)) * 2 powi ?u\<close> by (simp add: round_rat_def Let_def)
qed

lemma ilog2_less:
  assumes "0 < q" "q < 2 powi k" shows "ilog2 q < k"
proof (rule ccontr)
  assume "\<not> ilog2 q < k"
  then have "(2::rat) powi k \<le> 2 powi ilog2 q" by (intro power_int_increasing) auto
  with ilog2_bounds [OF assms(1)] assms(2) show False by simp
qed

lemma ilog2_ge:
  assumes "2 powi k \<le> q" shows "k \<le> ilog2 q"
proof (rule ccontr)
  have "(0::rat) < 2 powi k" by simp
  then have "0 < q" using assms by (rule less_le_trans)
  assume "\<not> k \<le> ilog2 q"
  then have "(2::rat) powi (ilog2 q + 1) \<le> 2 powi k" by (intro power_int_increasing) auto
  with ilog2_bounds [OF \<open>0 < q\<close>] assms show False by simp
qed

lemma round_rat_exact:
  assumes q: "q = of_int m * 2 powi e" and m: "\<bar>m\<bar> \<le> 2 ^ 53" and e: "- 1074 \<le> e"
  shows "round_rat q = q"
proof (cases "\<bar>m\<bar> = 2 ^ 53 \<or> m = 0")
  case False
  then have m': "m \<noteq> 0" "\<bar>m\<bar> < 2 ^ 53" using m by auto
  have "\<bar>q\<bar> = of_int \<bar>m\<bar> * 2 powi e" by (simp add: q abs_mult)
  also have "\<dots> < of_int (2 ^ 53) * 2 powi e"
    using m' by (intro mult_strict_right_mono) (simp_all only: of_int_less_iff, simp)
  also have "\<dots> = 2 powi (e + 53)" by (simp add: power_int_add)
  finally have "ilog2 \<bar>q\<bar> < e + 53" using m' by (intro ilog2_less) (auto simp: q)
  then have "ulp_exponent q \<le> e" using e by (simp add: ulp_exponent_def)
  then show ?thesis using m' q by (intro round_rat_multiple) auto
next
  case True
  show ?thesis
  proof (cases "m = 0")
    case False
    with True have "\<bar>m\<bar> = 2 ^ 53" by simp
    then have q': "q = of_int (sgn m * 2 ^ 52) * 2 powi (e + 1)"
      by (simp add: q power_int_add abs_if sgn_if split: if_splits)
    have "\<bar>q\<bar> = of_int \<bar>m\<bar> * 2 powi e" by (simp add: q abs_mult)
    also have "\<dots> = 2 powi (e + 53)" using \<open>\<bar>m\<bar> = 2 ^ 53\<close> by (simp add: power_int_add)
    finally have "ilog2 \<bar>q\<bar> < e + 54" by (intro ilog2_less) (auto simp: power_int_strict_increasing)
    then have "ulp_exponent q \<le> e + 1" using e by (simp add: ulp_exponent_def)
    then show ?thesis using False by (intro round_rat_multiple [OF _ q']) (auto simp: q)
  qed (simp add: q)
qed

lemma round_rat_nonneg: "0 \<le> q \<Longrightarrow> 0 \<le> round_rat q"
  using round_half_even_mono [of 0 "q / 2 powi ulp_exponent q"] round_half_even_of_int [of 0]
  by (simp add: round_rat_def Let_def)

lemma round_rat_le_multiple:
  assumes "0 < q" "q \<le> 2 powi k" "ulp_exponent q \<le> k"
  shows "round_rat q \<le> 2 powi k"
proof -
  let ?u = "ulp_exponent q"
  have eq: "2 powi k = (of_int (2 ^ nat (k - ?u)) * 2 powi ?u :: rat)"
    by (rule two_powi_split [OF assms(3)])
  have "q / 2 powi ?u \<le> of_int (2 ^ nat (k - ?u))"
    using assms(2) unfolding eq by (simp add: field_simps)
  then have "round_half_even (q / 2 powi ?u) \<le> 2 ^ nat (k - ?u)"
    using round_half_even_mono round_half_even_of_int by metis
  then have "of_int (round_half_even (q / 2 powi ?u)) \<le> (of_int (2 ^ nat (k - ?u)) :: rat)"
    by (simp only: of_int_le_iff)
  then show ?thesis
    using assms(1) unfolding eq by (simp add: round_rat_def Let_def mult_right_mono)
qed

lemma round_rat_ge_power:
  assumes "2 powi k \<le> q" "- 1074 \<le> k"
  shows "2 powi k \<le> round_rat q"
proof -
  let ?u = "ulp_exponent q"
  have "(0::rat) < 2 powi k" by simp
  then have q: "0 < q" using assms(1) by linarith
  show ?thesis
  proof (cases "?u \<le> k")
    case True
    have eq: "2 powi k = (of_int (2 ^ nat (k - ?u)) * 2 powi ?u :: rat)"
      by (rule two_powi_split [OF True])
    have "of_int (2 ^ nat (k - ?u)) \<le> q / 2 powi ?u"
      using assms(1) unfolding eq by (simp add: field_simps)
    then have "2 ^ nat (k - ?u) \<le> round_half_even (q / 2 powi ?u)"
      using round_half_even_mono round_half_even_of_int by metis
    then have "(of_int (2 ^ nat (k - ?u)) :: rat) \<le> of_int (round_half_even (q / 2 powi ?u))"
      by (simp only: of_int_le_iff)
    then show ?thesis
      using q unfolding eq by (simp add: round_rat_def Let_def mult_right_mono)
  next
    case False
    have "2 powi ?u \<le> q"
    proof -
      have "2 powi ?u \<le> (2 powi ilog2 q :: rat)"
        using False assms(2) ilog2_ge [OF assms(1)] q
        by (intro power_int_increasing) (auto simp: ulp_exponent_def max_def split: if_splits)
      then show ?thesis using ilog2_bounds [OF q] by linarith
    qed
    then have "1 \<le> q / 2 powi ?u" by (simp add: field_simps)
    then have "1 \<le> round_half_even (q / 2 powi ?u)"
      using round_half_even_mono [of 1] round_half_even_of_int [of 1] by simp
    then have "2 powi ?u \<le> round_rat q"
      using q by (simp add: round_rat_def Let_def)
    moreover have "2 powi k \<le> (2 powi ?u :: rat)"
      using False by (intro power_int_increasing) auto
    ultimately show ?thesis by linarith
  qed
qed

lemma round_rat_mono_pos:
  assumes "0 < p" "p \<le> q"
  shows "round_rat p \<le> round_rat q"
proof (cases "ulp_exponent p = ulp_exponent q")
  case True
  then show ?thesis
    using assms round_half_even_mono [of "p / 2 powi ulp_exponent q" "q / 2 powi ulp_exponent q"]
    by (simp add: round_rat_def Let_def divide_right_mono)
next
  case False
  have q: "0 < q" using assms by linarith
  have "ilog2 p \<le> ilog2 q"
    using ilog2_bounds [OF assms(1)] assms(2) by (intro ilog2_ge) linarith
  with False have lt: "ilog2 p + 1 \<le> ilog2 q" "- 1074 \<le> ilog2 q" "ulp_exponent p \<le> ilog2 q"
    using assms q by (auto simp: ulp_exponent_def max_def split: if_splits)
  have "p \<le> 2 powi ilog2 q"
  proof -
    have "(2::rat) powi (ilog2 p + 1) \<le> 2 powi ilog2 q" using lt by (intro power_int_increasing) auto
    then show ?thesis using ilog2_bounds [OF assms(1)] by linarith
  qed
  then have "round_rat p \<le> 2 powi ilog2 q" using assms(1) lt by (intro round_rat_le_multiple) auto
  also have "\<dots> \<le> round_rat q" using ilog2_bounds [OF q] lt by (intro round_rat_ge_power) auto
  finally show ?thesis .
qed

lemma round_rat_mono:
  assumes "p \<le> q"
  shows "round_rat p \<le> round_rat q"
proof -
  consider "0 < p" | "p \<le> 0" "0 \<le> q" | "q < 0" using assms by linarith
  then show ?thesis
  proof cases
    case 1
    then show ?thesis using assms by (rule round_rat_mono_pos)
  next
    case 2
    then show ?thesis using round_rat_nonneg [of "- p"] round_rat_nonneg [of q]
      by (simp add: round_rat_minus)
  next
    case 3
    then show ?thesis using round_rat_mono_pos [of "- q" "- p"] assms by (simp add: round_rat_minus)
  qed
qed

lemma round_rat_idem: "round_rat (round_rat q) = round_rat q"
proof (cases "q = 0")
  case False
  let ?u = "ulp_exponent q" and ?m = "round_half_even (q / 2 powi ulp_exponent q)"
  have "\<bar>q\<bar> \<le> 2 powi (?u + 53)"
  proof -
    have "(2::rat) powi (ilog2 \<bar>q\<bar> + 1) \<le> 2 powi (?u + 53)"
      by (intro power_int_increasing) (auto simp: ulp_exponent_def)
    then show ?thesis using ilog2_bounds [of "\<bar>q\<bar>"] False by linarith
  qed
  then have "\<bar>q / 2 powi ?u\<bar> \<le> of_int (2 ^ 53)" by (simp add: power_int_add field_simps)
  then have *: "q / 2 powi ?u \<le> of_int (2 ^ 53)" "of_int (- (2 ^ 53)) \<le> q / 2 powi ?u"
    by (simp_all only: abs_le_iff of_int_minus minus_le_iff)
  have "\<bar>?m\<bar> \<le> 2 ^ 53"
    using round_half_even_mono [OF *(1)] round_half_even_mono [OF *(2)]
    by (simp only: round_half_even_of_int)
  moreover have "round_rat q = of_int ?m * 2 powi ?u" using False by (simp add: round_rat_def Let_def)
  moreover have "- 1074 \<le> ?u" by (simp add: ulp_exponent_def)
  ultimately show ?thesis using round_rat_exact by metis
qed simp

section \<open>Values and operations\<close>

text \<open>
  \<open>fpval\<close> holds the raw values; the type \<open>double\<close> below is the subset of those that binary64
  has, so representability never needs to be a hypothesis.
\<close>

datatype fpval = NaN | PInf | NInf | Fin rat

definition fp_limit :: rat where
  "fp_limit = 2 powi 1024"

lemma fp_limit_pos [simp]: "0 < fp_limit"
  by (simp add: fp_limit_def del: power_int_numeral)

lemma fp_limit_le_imp_pos: "fp_limit \<le> r \<Longrightarrow> 0 < r"
  using fp_limit_pos by linarith

definition fp_round :: "rat \<Rightarrow> fpval" where
  "fp_round q = (let r = round_rat q
     in if fp_limit \<le> r then PInf else if r \<le> - fp_limit then NInf else Fin r)"

fun fp_neg :: "fpval \<Rightarrow> fpval" where
  "fp_neg NaN = NaN"
| "fp_neg PInf = NInf"
| "fp_neg NInf = PInf"
| "fp_neg (Fin a) = Fin (- a)"

fun fp_add :: "fpval \<Rightarrow> fpval \<Rightarrow> fpval" where
  "fp_add NaN b = NaN"
| "fp_add a NaN = NaN"
| "fp_add PInf NInf = NaN"
| "fp_add NInf PInf = NaN"
| "fp_add PInf b = PInf"
| "fp_add NInf b = NInf"
| "fp_add (Fin a) PInf = PInf"
| "fp_add (Fin a) NInf = NInf"
| "fp_add (Fin a) (Fin b) = fp_round (a + b)"

definition fp_inf_of_sign :: "rat \<Rightarrow> fpval" where
  "fp_inf_of_sign s = (if s = 0 then NaN else if 0 < s then PInf else NInf)"

fun fp_sign :: "fpval \<Rightarrow> rat" where
  "fp_sign NaN = 0"
| "fp_sign PInf = 1"
| "fp_sign NInf = - 1"
| "fp_sign (Fin a) = sgn a"

fun fp_mul :: "fpval \<Rightarrow> fpval \<Rightarrow> fpval" where
  "fp_mul (Fin a) (Fin b) = fp_round (a * b)"
| "fp_mul a b = fp_inf_of_sign (fp_sign a * fp_sign b)"

fun fp_div :: "fpval \<Rightarrow> fpval \<Rightarrow> fpval" where
  "fp_div (Fin a) (Fin b) = (if b = 0 then fp_inf_of_sign a else fp_round (a / b))"
| "fp_div (Fin a) b = (if b = NaN then NaN else Fin 0)"
| "fp_div a (Fin b) = (if b = 0 then a else fp_inf_of_sign (fp_sign a * sgn b))"
| "fp_div a b = NaN"

fun fp_le :: "fpval \<Rightarrow> fpval \<Rightarrow> bool" where
  "fp_le NaN b = False"
| "fp_le a NaN = False"
| "fp_le NInf b = True"
| "fp_le a PInf = True"
| "fp_le (Fin a) (Fin b) = (a \<le> b)"
| "fp_le a b = False"

fun fp_less :: "fpval \<Rightarrow> fpval \<Rightarrow> bool" where
  "fp_less NaN b = False"
| "fp_less a NaN = False"
| "fp_less a NInf = False"
| "fp_less PInf b = False"
| "fp_less (Fin a) (Fin b) = (a < b)"
| "fp_less a b = True"

fun fp_abs :: "fpval \<Rightarrow> fpval" where
  "fp_abs NaN = NaN"
| "fp_abs PInf = PInf"
| "fp_abs NInf = PInf"
| "fp_abs (Fin a) = Fin \<bar>a\<bar>"

fun fp_wf :: "fpval \<Rightarrow> bool" where
  "fp_wf (Fin r) = (round_rat r = r \<and> \<bar>r\<bar> < fp_limit)"
| "fp_wf v = True"

fun fp_finite :: "fpval \<Rightarrow> bool" where
  "fp_finite (Fin r) = True"
| "fp_finite v = False"

fun fp_val :: "fpval \<Rightarrow> rat" where
  "fp_val (Fin r) = r"
| "fp_val v = 0"

lemma fp_wf_round [simp]: "fp_wf (fp_round q)"
  by (auto simp: fp_round_def Let_def round_rat_idem)

lemma fp_round_eq: "round_rat q = q \<Longrightarrow> \<bar>q\<bar> < fp_limit \<Longrightarrow> fp_round q = Fin q"
  by (auto simp: fp_round_def Let_def)

lemma fp_wf_inf_of_sign [simp]: "fp_wf (fp_inf_of_sign s)"
  by (simp add: fp_inf_of_sign_def)

section \<open>The type double\<close>

typedef double = "{v. fp_wf v}"
  morphisms fp_of Double
  by (rule exI [of _ NaN]) simp

setup_lifting type_definition_double

lift_definition dbl :: "rat \<Rightarrow> double" is fp_round by simp

lift_definition is_finite :: "double \<Rightarrow> bool" is fp_finite .

lift_definition is_nan :: "double \<Rightarrow> bool" is "\<lambda>v. v = NaN" .

lift_definition val :: "double \<Rightarrow> rat" is fp_val .

instantiation double :: "{zero, one, plus, uminus, minus, times, inverse, abs, ord, equal}"
begin

lift_definition zero_double :: double is "Fin 0" by simp

lift_definition one_double :: double is "fp_round 1" by simp

lift_definition uminus_double :: "double \<Rightarrow> double" is fp_neg
  subgoal for v by (cases v) (auto simp: round_rat_minus) done

lift_definition plus_double :: "double \<Rightarrow> double \<Rightarrow> double" is fp_add
  subgoal for a b by (cases a; cases b) auto done

lift_definition minus_double :: "double \<Rightarrow> double \<Rightarrow> double" is "\<lambda>a b. fp_add a (fp_neg b)"
  subgoal for a b by (cases a; cases b) auto done

lift_definition times_double :: "double \<Rightarrow> double \<Rightarrow> double" is fp_mul
  subgoal for a b by (cases a; cases b) auto done

lift_definition divide_double :: "double \<Rightarrow> double \<Rightarrow> double" is fp_div
  subgoal for a b by (cases a; cases b) auto done

lift_definition inverse_double :: "double \<Rightarrow> double" is "fp_div (fp_round 1)"
  subgoal for b by (cases b; cases "fp_round 1") auto done

lift_definition abs_double :: "double \<Rightarrow> double" is fp_abs
  subgoal for v by (cases v) (auto simp: abs_if round_rat_minus) done

lift_definition less_eq_double :: "double \<Rightarrow> double \<Rightarrow> bool" is fp_le .

lift_definition less_double :: "double \<Rightarrow> double \<Rightarrow> bool" is fp_less .

lift_definition equal_double :: "double \<Rightarrow> double \<Rightarrow> bool" is "(=)" .

instance by standard (transfer, simp)

end


text \<open>C++ equality: NaN is different from itself. \<open>std::min\<close> and \<open>std::max\<close> return their first argument on a tie.\<close>

definition double_eq :: "double \<Rightarrow> double \<Rightarrow> bool" where
  "double_eq a b \<longleftrightarrow> \<not> is_nan a \<and> a = b"

definition std_min :: "double \<Rightarrow> double \<Rightarrow> double" where
  "std_min a b = (if b < a then b else a)"

definition std_max :: "double \<Rightarrow> double \<Rightarrow> double" where
  "std_max a b = (if a < b then b else a)"

section \<open>Code equations\<close>

text \<open>Integer-only equations for rounding, so that \<open>code_simp\<close> evaluates arithmetic quickly.\<close>

fun two_pow :: "nat \<Rightarrow> int" where
  "two_pow 0 = 1"
| "two_pow (Suc n) = 2 * two_pow n"

lemma two_pow_eq: "two_pow n = 2 ^ n"
  by (induction n) auto

definition div_half_even :: "int \<Rightarrow> int \<Rightarrow> int" where
  "div_half_even n d = (let f = n div d; r = 2 * (n mod d)
     in if r < d then f else if d < r then f + 1 else if even f then f else f + 1)"

lemma div_half_even_eq: "0 < d \<Longrightarrow> round_half_even (of_int n / of_int d) = div_half_even n d"
proof -
  assume d: "0 < d"
  have f: "floor (of_int n / of_int d :: rat) = n div d" by (simp add: floor_divide_of_int_eq)
  have "of_int n = (of_int d * of_int (n div d) + of_int (n mod d) :: rat)"
    by (simp flip: of_int_mult of_int_add)
  then have r: "of_int n / of_int d - of_int (n div d) = (of_int (n mod d) / of_int d :: rat)"
    using d by (simp add: field_simps)
  have lt: "(of_int (n mod d) / of_int d < (1 / 2 :: rat)) = (2 * (n mod d) < d)"
  proof -
    have "(of_int (n mod d) / of_int d < (1 / 2 :: rat)) = (of_int (2 * (n mod d)) < (of_int d :: rat))"
      using d by (simp add: field_simps)
    then show ?thesis by (simp only: of_int_less_iff)
  qed
  have gt: "((1 / 2 :: rat) < of_int (n mod d) / of_int d) = (d < 2 * (n mod d))"
  proof -
    have "((1 / 2 :: rat) < of_int (n mod d) / of_int d) = ((of_int d :: rat) < of_int (2 * (n mod d)))"
      using d by (simp add: field_simps)
    then show ?thesis by (simp only: of_int_less_iff)
  qed
  show ?thesis by (simp only: round_half_even_def div_half_even_def Let_def f r lt gt)
qed

lemma ilog2_code [code]:
  "ilog2 q = (let (n, d) = quotient_of q; k = bit_length n - bit_length d
     in if (if 0 \<le> k then two_pow (nat k) * d \<le> n else d \<le> n * two_pow (nat (- k))) then k else k - 1)"
proof -
  obtain n d where nd: "quotient_of q = (n, d)" by fastforce
  have d: "0 < d" using quotient_of_denom_pos [OF nd] .
  have q: "q = of_int n / of_int d" using quotient_of_div [OF nd] .
  define k where "k = bit_length n - bit_length d"
  have "(2 powi k \<le> q) = (if 0 \<le> k then two_pow (nat k) * d \<le> n else d \<le> n * two_pow (nat (- k)))"
  proof (cases "0 \<le> k")
    case True
    then have "(2 powi k \<le> q) = ((of_int (2 ^ nat k * d) :: rat) \<le> of_int n)"
      using d by (simp add: q power_int_def field_simps)
    then show ?thesis using True by (simp only: of_int_le_iff two_pow_eq if_True)
  next
    case False
    then have "(2 powi k \<le> q) = ((of_int d :: rat) \<le> of_int (n * 2 ^ nat (- k)))"
      using d by (simp add: q power_int_def field_simps)
    then show ?thesis using False by (simp only: of_int_le_iff two_pow_eq if_False)
  qed
  then show ?thesis by (simp add: ilog2_def nd Let_def k_def)
qed

lemma round_rat_code [code]:
  "round_rat q = (let (n, d) = quotient_of q in if n = 0 then 0
     else let e = ulp_exponent q
       in if 0 \<le> e then of_int (let p = two_pow (nat e) in div_half_even n (d * p) * p)
          else let p = two_pow (nat (- e)) in Fract (div_half_even (n * p) d) p)"
proof -
  obtain n d where nd: "quotient_of q = (n, d)" by fastforce
  have d: "0 < d" using quotient_of_denom_pos [OF nd] .
  have q: "q = of_int n / of_int d" using quotient_of_div [OF nd] .
  define e where "e = ulp_exponent q"
  have n0: "n = 0 \<longleftrightarrow> q = 0" using d by (simp add: q)
  have "round_half_even (q / 2 powi e) = div_half_even n (d * two_pow (nat e))" if "0 \<le> e"
  proof -
    have "q / 2 powi e = of_int n / of_int (d * two_pow (nat e))"
      using that by (simp add: q power_int_def two_pow_eq)
    then show ?thesis using d by (simp only: div_half_even_eq two_pow_eq zero_less_mult_iff zero_less_power simp_thms)
  qed
  moreover have "round_half_even (q / 2 powi e) = div_half_even (n * two_pow (nat (- e))) d" if "\<not> 0 \<le> e"
  proof -
    have "q / 2 powi e = of_int (n * two_pow (nat (- e))) / of_int d"
      using that by (simp add: q power_int_def two_pow_eq field_simps)
    then show ?thesis using d by (simp only: div_half_even_eq)
  qed
  ultimately show ?thesis
    using n0 by (auto simp: round_rat_def nd Let_def Fract_of_int_quotient power_int_def two_pow_eq field_simps
        simp flip: e_def)
qed

lemma fp_round_code [code]:
  "fp_round q = (let r = round_rat q
     in if ilog2 \<bar>r\<bar> < 1024 then Fin r else if 0 < r then PInf else if r = 0 then Fin 0 else NInf)"
proof (cases "round_rat q = 0")
  case False
  have "fp_limit \<le> \<bar>round_rat q\<bar> \<longleftrightarrow> 1024 \<le> ilog2 \<bar>round_rat q\<bar>"
    using ilog2_ge [of 1024 "\<bar>round_rat q\<bar>"] ilog2_less [of "\<bar>round_rat q\<bar>" 1024] False
    unfolding fp_limit_def by (metis not_le not_less zero_less_abs_iff)
  then show ?thesis using False 
    by (auto simp: fp_round_def Let_def abs_if split: if_splits dest: fp_limit_le_imp_pos)
qed (simp add: fp_round_def not_le)


section \<open>Order and arithmetic of finite values\<close>

lemma finite_not_nan: "is_finite a \<Longrightarrow> \<not> is_nan a"
  by transfer (case_tac a; simp)

lemma val_round: "is_finite a \<Longrightarrow> round_rat (val a) = val a"
  by transfer (case_tac a; simp)

lemma le_iff_val: "is_finite a \<Longrightarrow> is_finite b \<Longrightarrow> a \<le> b \<longleftrightarrow> val a \<le> val b"
  by transfer (case_tac a; case_tac b; simp)

lemma less_iff_val: "is_finite a \<Longrightarrow> is_finite b \<Longrightarrow> a < b \<longleftrightarrow> val a < val b"
  by transfer (case_tac a; case_tac b; simp)

lemma eq_iff_val: "is_finite a \<Longrightarrow> is_finite b \<Longrightarrow> a = b \<longleftrightarrow> val a = val b"
  by transfer (case_tac a; case_tac b; simp)

lemma double_order_trans: "(a :: double) \<le> b \<Longrightarrow> b \<le> c \<Longrightarrow> a \<le> c"
  by transfer (case_tac a; case_tac b; case_tac c; simp)

lemma double_less_trans: "(a :: double) < b \<Longrightarrow> b < c \<Longrightarrow> a < c"
  by transfer (case_tac a; case_tac b; case_tac c; simp)

lemma double_le_less_trans: "(a :: double) \<le> b \<Longrightarrow> b < c \<Longrightarrow> a < c"
  by transfer (case_tac a; case_tac b; case_tac c; simp)

lemma double_less_le_trans: "(a :: double) < b \<Longrightarrow> b \<le> c \<Longrightarrow> a < c"
  by transfer (case_tac a; case_tac b; case_tac c; simp)

lemma double_less_imp_le: "(a :: double) < b \<Longrightarrow> a \<le> b"
  by transfer (case_tac a; case_tac b; simp)

lemma double_less_irrefl [simp]: "\<not> (a :: double) < a"
  by transfer (case_tac a; simp)

lemma double_less_asym: "(a :: double) < b \<Longrightarrow> \<not> b < a"
  by transfer (case_tac a; case_tac b; simp)

lemma double_antisym: "(a :: double) \<le> b \<Longrightarrow> b \<le> a \<Longrightarrow> a = b"
  by transfer (case_tac a; case_tac b; simp)

lemma double_le_refl [simp]: "(a :: double) \<le> a \<longleftrightarrow> \<not> is_nan a"
  by transfer (case_tac a; simp)

lemma double_linear: "\<not> is_nan a \<Longrightarrow> \<not> is_nan b \<Longrightarrow> \<not> a \<le> b \<longleftrightarrow> b < a"
  by transfer (case_tac a; case_tac b; simp add: not_le)

lemma double_not_less: "\<not> is_nan a \<Longrightarrow> \<not> is_nan b \<Longrightarrow> \<not> a < b \<longleftrightarrow> b \<le> a"
  by transfer (case_tac a; case_tac b; simp add: not_less)

lemma double_total: "\<not> is_nan a \<Longrightarrow> \<not> is_nan b \<Longrightarrow> a = b \<or> a < b \<or> b < a"
  by transfer (case_tac a; case_tac b; auto)

lemma le_not_nan: "(a :: double) \<le> b \<Longrightarrow> \<not> is_nan a \<and> \<not> is_nan b"
  by transfer (case_tac a; case_tac b; simp)

lemma less_not_nan: "(a :: double) < b \<Longrightarrow> \<not> is_nan a \<and> \<not> is_nan b"
  by transfer (case_tac a; case_tac b; simp)

lemma finite_between: "is_finite a \<Longrightarrow> is_finite c \<Longrightarrow> a \<le> b \<Longrightarrow> b \<le> c \<Longrightarrow> is_finite b"
  by transfer (case_tac a; case_tac b; case_tac c; simp)

lemma finite_zero [simp]: "is_finite 0"
  by transfer simp

lemma val_zero [simp]: "val 0 = 0"
  by transfer simp

lemma not_nan_zero [simp]: "\<not> is_nan 0"
  by (simp add: finite_not_nan)

subsection \<open>Sums and differences\<close>

lemma double_minus_eq: "(a :: double) - b = a + - b"
  by transfer simp

lemma double_add_0 [simp]: "(a :: double) + 0 = a"
  by transfer (case_tac a; simp add: fp_round_eq)

lemma double_0_add [simp]: "0 + (a :: double) = a"
  by transfer (case_tac a; simp add: fp_round_eq)

lemma double_diff_0 [simp]: "(a :: double) - 0 = a"
  by transfer (case_tac a; simp add: fp_round_eq)

lemma double_add_commute: "(a :: double) + b = b + a"
  by transfer (case_tac a; case_tac b; simp add: add.commute)

lemma double_diff_self: "is_finite a \<Longrightarrow> a - a = 0"
  by transfer (case_tac a; simp add: fp_round_eq)

lemma double_minus_0 [simp]: "- (0 :: double) = 0"
  by transfer simp

lemma fp_round_between:
  assumes "lo \<le> q" "q \<le> hi" "fp_wf (Fin lo)" "fp_wf (Fin hi)"
  shows "fp_round q = Fin (round_rat q) \<and> lo \<le> round_rat q \<and> round_rat q \<le> hi"
  using round_rat_mono [OF assms(1)] round_rat_mono [OF assms(2)] assms(3,4)
  by (auto simp: fp_round_def Let_def)

lemma diff_between:
  assumes "is_finite a" "0 \<le> b" "b \<le> a"
  shows "is_finite (a - b) \<and> 0 \<le> a - b \<and> a - b \<le> a"
  using assms
proof transfer
  fix a b assume *: "fp_wf a" "fp_wf b" "fp_finite a" "fp_le (Fin 0) b" "fp_le b a"
  then obtain x y where [simp]: "a = Fin x" "b = Fin y" by (cases a; cases b; simp)
  have "fp_round (x - y) = Fin (round_rat (x - y)) \<and> 0 \<le> round_rat (x - y) \<and> round_rat (x - y) \<le> x"
    using * by (intro fp_round_between) auto
  then show "fp_finite (fp_add a (fp_neg b)) \<and> fp_le (Fin 0) (fp_add a (fp_neg b)) \<and> fp_le (fp_add a (fp_neg b)) a"
    by simp
qed

lemma fp_round_nonneg: "0 \<le> q \<Longrightarrow> fp_le (Fin 0) (fp_round q)"
  using round_rat_nonneg [of q] by (simp add: fp_round_def Let_def)

lemma fp_round_ge: "x \<le> q \<Longrightarrow> fp_wf (Fin x) \<Longrightarrow> fp_le (Fin x) (fp_round q)"
  using round_rat_mono [of x q] by (auto simp: fp_round_def Let_def)

lemma diff_nonneg: "is_finite b \<Longrightarrow> b \<le> a \<Longrightarrow> 0 \<le> a - b"
  by transfer (case_tac a; case_tac b; simp add: fp_round_nonneg)

lemma add_nonneg: "0 \<le> a \<Longrightarrow> 0 \<le> b \<Longrightarrow> 0 \<le> a + (b :: double)"
  by transfer (case_tac a; case_tac b; simp add: fp_round_nonneg)

lemma add_ge_left: "\<not> is_nan a \<Longrightarrow> 0 \<le> b \<Longrightarrow> b < x \<Longrightarrow> a \<le> a + (b :: double)"
  by transfer (case_tac a; case_tac b; case_tac x; simp add: fp_round_ge)

lemma add_ge_nonneg: "0 \<le> a \<Longrightarrow> 0 \<le> b \<Longrightarrow> a \<le> a + (b :: double)"
  by transfer (case_tac a; case_tac b; simp add: fp_round_ge)

lemma mult_nonneg: "0 \<le> a \<Longrightarrow> 0 \<le> b \<Longrightarrow> is_finite a \<Longrightarrow> is_finite b \<Longrightarrow> 0 \<le> a * (b :: double)"
  by transfer (case_tac a; case_tac b; simp add: fp_round_nonneg)

lemma divide_nonneg: "0 \<le> a \<Longrightarrow> 0 < b \<Longrightarrow> is_finite a \<Longrightarrow> is_finite b \<Longrightarrow> 0 \<le> a / (b :: double)"
  by transfer (case_tac a; case_tac b; simp add: fp_round_nonneg)

lemma diff_pos_less:
  assumes "0 \<le> e" "e < b - a"
  shows "a < (b :: double)"
  using assms
proof transfer
  fix e b a assume *: "fp_wf e" "fp_wf b" "fp_wf a" "fp_le (Fin 0) e" "fp_less e (fp_add b (fp_neg a))"
  have "fp_less (Fin x) (Fin y)" if "b = Fin y" "a = Fin x" for x y
  proof (rule ccontr)
    assume "\<not> fp_less (Fin x) (Fin y)"
    then have "round_rat (y - x) \<le> 0" using round_rat_mono [of "y - x" 0] by simp
    then show False using * that by (cases e) (auto simp: fp_round_def Let_def split: if_splits)
  qed
  then show "fp_less a b" using * by (cases a; cases b; cases e; simp)
qed

subsection \<open>Exact arithmetic on integers below \<open>2 ^ 53\<close>\<close>

definition dint :: "int \<Rightarrow> double" where
  "dint n = dbl (of_int n)"

definition exact :: "int \<Rightarrow> bool" where
  "exact n \<longleftrightarrow> \<bar>n\<bar> \<le> 9007199254740992"

lemma fp_round_int: "exact n \<Longrightarrow> fp_round (of_int n) = Fin (of_int n)"
proof -
  assume n: "exact n"
  have "round_rat (of_int n) = of_int n"
    by (rule round_rat_exact [of _ n 0]) (use n in \<open>auto simp: exact_def\<close>)
  moreover have "\<bar>of_int n :: rat\<bar> < fp_limit"
  proof -
    have "\<bar>of_int n :: rat\<bar> \<le> of_int 9007199254740992"
      using n unfolding exact_def of_int_abs [symmetric] of_int_le_iff .
    also have "\<dots> = 2 powi 53" by simp
    also have "\<dots> < fp_limit" unfolding fp_limit_def by (rule power_int_strict_increasing) auto
    finally show ?thesis .
  qed
  ultimately show ?thesis by (rule fp_round_eq)
qed

lemma dint_0 [simp]: "dint 0 = 0"
  unfolding dint_def by transfer (simp add: fp_round_eq)

lemma finite_dint [simp]: "exact n \<Longrightarrow> is_finite (dint n)"
  unfolding dint_def by transfer (simp add: fp_round_int)

lemma val_dint [simp]: "exact n \<Longrightarrow> val (dint n) = of_int n"
  unfolding dint_def by transfer (simp add: fp_round_int)

lemma dint_add [simp]: "exact a \<Longrightarrow> exact b \<Longrightarrow> dint a + dint b = dint (a + b)"
  unfolding dint_def by transfer (simp add: fp_round_int)

lemma dint_diff [simp]: "exact a \<Longrightarrow> exact b \<Longrightarrow> dint a - dint b = dint (a - b)"
  unfolding dint_def by transfer (simp add: fp_round_int)

lemma dint_mult [simp]: "exact a \<Longrightarrow> exact b \<Longrightarrow> dint a * dint b = dint (a * b)"
  unfolding dint_def by transfer (simp add: fp_round_int)

lemma dint_minus [simp]: "exact a \<Longrightarrow> - dint a = dint (- a)"
  unfolding dint_def by transfer (simp add: fp_round_int fp_round_int [of "- _", simplified of_int_minus] exact_def)

lemma dint_divide [simp]: "exact a \<Longrightarrow> exact b \<Longrightarrow> b \<noteq> 0 \<Longrightarrow> b dvd a \<Longrightarrow> dint a / dint b = dint (a div b)"
  unfolding dint_def by transfer (simp add: fp_round_int of_int_div)

lemma dint_le [simp]: "exact a \<Longrightarrow> exact b \<Longrightarrow> dint a \<le> dint b \<longleftrightarrow> a \<le> b"
  by (simp add: le_iff_val)

lemma dint_less [simp]: "exact a \<Longrightarrow> exact b \<Longrightarrow> dint a < dint b \<longleftrightarrow> a < b"
  by (simp add: less_iff_val)

lemma dint_eq [simp]: "exact a \<Longrightarrow> exact b \<Longrightarrow> dint a = dint b \<longleftrightarrow> a = b"
  by (simp add: eq_iff_val)

lemma exact_0 [simp]: "exact 0"
  by (simp add: exact_def)

lemma dint_zero_cmp [simp]:
  assumes "exact a"
  shows "0 \<le> dint a \<longleftrightarrow> 0 \<le> a" "0 < dint a \<longleftrightarrow> 0 < a" "dint a \<le> 0 \<longleftrightarrow> a \<le> 0"
    "dint a < 0 \<longleftrightarrow> a < 0" "dint a = 0 \<longleftrightarrow> a = 0"
  using assms dint_le [of 0 a] dint_less [of 0 a] dint_le [of a 0] dint_less [of a 0] dint_eq [of a 0]
  by simp_all

lemma exact_numeral [simp]:
  "exact 1" "exact (numeral n) \<longleftrightarrow> numeral n \<le> (9007199254740992 :: int)"
  "exact (- 1)" "exact (- numeral n) \<longleftrightarrow> numeral n \<le> (9007199254740992 :: int)"
  by (simp_all add: exact_def)

section \<open>Keys of ordered maps\<close>

text \<open>\<open>std::less<double>\<close> and \<open>std::greater<double>\<close> order the prices of a book.\<close>

abbreviation (input) double_greater :: "double \<Rightarrow> double \<Rightarrow> bool" where
  "double_greater \<equiv> (\<lambda>a b. b < a)"

abbreviation not_nan :: "double \<Rightarrow> bool" where
  "not_nan \<equiv> (\<lambda>a. \<not> is_nan a)"

interpretation asc: ordered_keys "(<) :: double \<Rightarrow> double \<Rightarrow> bool" not_nan
  by unfold_locales (auto intro: double_less_trans dest: double_total)

interpretation desc: ordered_keys double_greater not_nan
  by unfold_locales (auto intro: double_less_trans dest: double_total)

end
