(* ===== verification/Depth_Book.thy ===== *)
theory Depth_Book
  imports Binary64
begin

text \<open>
  The aggregated depth book of \<open>infrastructure/market-data-push-system\<close>: the shared market types
  (\<open>market_types.hpp\<close>) and the class \<open>DepthBook\<close> (\<open>depth_book.hpp\<close>). The two sides are
  \<open>std::map\<close>s from price to quantity, bids in descending and asks in ascending order.

  The lemmas show that an update is an update of the finite map from prices to quantities, that the
  sides stay in price order with positive quantities, and what a snapshot returns.
\<close>

section \<open>Market types\<close>

datatype md_Side = kBid | kAsk

record md_Trade =
  mt_symbol :: string
  mt_price :: double
  mt_quantity :: double
  mt_event_time_ms :: u64

record Candle =
  cd_symbol :: string
  cd_open_time_ms :: u64
  cd_close_time_ms :: u64
  cd_open :: double
  cd_high :: double
  cd_low :: double
  cd_close :: double
  cd_volume :: double

record BookLevel =
  bl_price :: double
  bl_quantity :: double

record DepthSnapshot =
  ds_symbol :: string
  ds_bids :: "BookLevel list"
  ds_asks :: "BookLevel list"

record DepthDelta =
  dd_side :: md_Side
  dd_price :: double
  dd_quantity :: double

record BroadcastMessage =
  bm_sequence :: u64
  bm_topic :: string
  bm_payload :: string

section \<open>The book\<close>

record DepthBook =
  db_symbol :: string
  db_bids :: "(double \<times> double) list"
  db_asks :: "(double \<times> double) list"

definition new_DepthBook :: "string \<Rightarrow> DepthBook" where
  "new_DepthBook symbol = \<lparr>db_symbol = symbol, db_bids = [], db_asks = []\<rparr>"

definition apply_update ::
  "(double \<Rightarrow> double \<Rightarrow> bool) \<Rightarrow> double \<Rightarrow> double \<Rightarrow> (double \<times> double) list \<Rightarrow> (double \<times> double) list" where
  "apply_update lt price quantity book =
     (if quantity \<le> 0 then omap_erase lt price book else omap_put lt price quantity book)"

definition db_update :: "md_Side \<Rightarrow> double \<Rightarrow> double \<Rightarrow> DepthBook \<Rightarrow> DepthDelta \<times> DepthBook" where
  "db_update side price quantity b =
     (let b' = (if side = kBid
                then b\<lparr>db_bids := apply_update double_greater price quantity (db_bids b)\<rparr>
                else b\<lparr>db_asks := apply_update (<) price quantity (db_asks b)\<rparr>)
      in (\<lparr>dd_side = side, dd_price = price, dd_quantity = quantity\<rparr>, b'))"

fun append_levels :: "(double \<times> double) list \<Rightarrow> nat \<Rightarrow> nat \<Rightarrow> BookLevel list \<Rightarrow> BookLevel list" where
  "append_levels [] depth count out = out"
| "append_levels ((price, quantity) # book) depth count out =
     (let out' = out @ [\<lparr>bl_price = price, bl_quantity = quantity\<rparr>];
          count' = Suc count
      in if count' = depth then out' else append_levels book depth count' out')"

definition db_snapshot :: "nat \<Rightarrow> DepthBook \<Rightarrow> DepthSnapshot" where
  "db_snapshot depth b =
     \<lparr>ds_symbol = db_symbol b,
      ds_bids = append_levels (db_bids b) depth 0 [],
      ds_asks = append_levels (db_asks b) depth 0 []\<rparr>"

section \<open>Well-formed books\<close>

definition side_wf :: "(double \<Rightarrow> double \<Rightarrow> bool) \<Rightarrow> (double \<times> double) list \<Rightarrow> bool" where
  "side_wf lt m \<longleftrightarrow> omap_wf lt not_nan m \<and> (\<forall>(p, q) \<in> set m. 0 < q)"

definition depth_wf :: "DepthBook \<Rightarrow> bool" where
  "depth_wf b \<longleftrightarrow> side_wf double_greater (db_bids b) \<and> side_wf (<) (db_asks b)"

text \<open>The specification: each side is a finite map from prices to quantities.\<close>

definition depth_at :: "md_Side \<Rightarrow> DepthBook \<Rightarrow> double \<rightharpoonup> double" where
  "depth_at side b = map_of (if side = kBid then db_bids b else db_asks b)"

lemma new_DepthBook_wf [simp]: "depth_wf (new_DepthBook s)"
  by (simp add: depth_wf_def side_wf_def new_DepthBook_def)

text \<open>The facts on one side hold for any comparator that orders the prices.\<close>

locale price_order = ordered_keys lt not_nan for lt :: "double \<Rightarrow> double \<Rightarrow> bool"
begin

lemma apply_update_wf:
  assumes "side_wf lt m" "\<not> is_nan price" "\<not> is_nan quantity"
  shows "side_wf lt (apply_update lt price quantity m)"
proof (cases "quantity \<le> 0")
  case True
  then show ?thesis
    using assms wf_erase keys_erase by (fastforce simp: side_wf_def apply_update_def)
next
  case False
  then have "0 < quantity" using assms(3) by (simp add: double_linear)
  moreover have "map_of (omap_put lt price quantity m) = (map_of m)(price \<mapsto> quantity)"
    using assms by (intro map_of_put) (auto simp: side_wf_def)
  moreover have wf: "omap_wf lt not_nan (omap_put lt price quantity m)"
    using assms by (intro wf_put) (auto simp: side_wf_def)
  ultimately show ?thesis
    using assms(1) False by (auto simp: side_wf_def apply_update_def mem_iff split: if_splits)
qed

lemma map_of_apply_update:
  assumes "side_wf lt m" "\<not> is_nan price"
  shows "map_of (apply_update lt price quantity m) =
    (map_of m)(price := if quantity \<le> 0 then None else Some quantity)"
  using assms map_of_erase map_of_put by (auto simp: side_wf_def apply_update_def)

lemma snapshot_best:
  fixes m depth
  defines "s \<equiv> map (\<lambda>(p, q). \<lparr>bl_price = p, bl_quantity = q\<rparr>) (take depth m)"
  assumes wf: "side_wf lt m"
  shows "sorted_wrt (\<lambda>x y. lt (bl_price x) (bl_price y)) s"
    and "length s = min depth (card (dom (map_of m)))"
    and "l \<in> set s \<Longrightarrow> map_of m (bl_price l) = Some (bl_quantity l)"
    and "l \<in> set s \<Longrightarrow> p \<in> dom (map_of m) \<Longrightarrow> p \<notin> bl_price ` set s \<Longrightarrow> lt (bl_price l) p"
proof -
  have o: "omap_wf lt not_nan m" using wf by (simp add: side_wf_def)
  then have sorted: "sorted_wrt lt (map fst m)" by (simp add: omap_wf_def)
  have d: "distinct (map fst m)" using o by (rule distinct_keys)
  have s: "map bl_price s = take depth (map fst m)"
    by (simp add: s_def case_prod_beta comp_def take_map)
  have "sorted_wrt lt (map bl_price s)"
    unfolding s using sorted by (rule sorted_wrt_take)
  then show "sorted_wrt (\<lambda>x y. lt (bl_price x) (bl_price y)) s" by (simp add: sorted_wrt_map)
  have "card (dom (map_of m)) = length m"
    using d by (simp add: dom_map_of_conv_image_fst distinct_card flip: set_map)
  then show "length s = min depth (card (dom (map_of m)))" by (simp add: s_def)
  show "map_of m (bl_price l) = Some (bl_quantity l)" if "l \<in> set s"
    using that o by (auto simp: s_def mem_iff [symmetric] dest: in_set_takeD)
  show "lt (bl_price l) p" if "l \<in> set s" "p \<in> dom (map_of m)" "p \<notin> bl_price ` set s"
  proof -
    have "p \<in> set (map fst m)" using that(2) by (simp add: dom_map_of_conv_image_fst)
    moreover have "p \<notin> set (take depth (map fst m))" using that(3) s by (metis set_map)
    ultimately have "p \<in> set (drop depth (map fst m))"
      by (metis Un_iff append_take_drop_id set_append)
    moreover have "bl_price l \<in> set (take depth (map fst m))" using that(1) s by (metis imageI set_map)
    moreover have "sorted_wrt lt (take depth (map fst m) @ drop depth (map fst m))" using sorted by simp
    ultimately show ?thesis unfolding sorted_wrt_append by blast
  qed
qed

end

interpretation bid_side: price_order double_greater
  by unfold_locales

interpretation ask_side: price_order "(<)"
  by unfold_locales

lemma db_update_wf:
  assumes "depth_wf b" "\<not> is_nan price" "\<not> is_nan quantity"
  shows "depth_wf (snd (db_update side price quantity b))"
  using assms bid_side.apply_update_wf ask_side.apply_update_wf
  by (auto simp: depth_wf_def db_update_def Let_def)

lemma depth_at_update:
  assumes "depth_wf b" "\<not> is_nan price"
  shows "depth_at s (snd (db_update side price quantity b)) =
    (if s = side then (depth_at s b)(price := if quantity \<le> 0 then None else Some quantity)
     else depth_at s b)"
  using assms bid_side.map_of_apply_update ask_side.map_of_apply_update
  by (cases s; cases side) (simp_all add: depth_wf_def depth_at_def db_update_def)

lemma append_levels_take:
  "count < depth \<or> depth = 0 \<Longrightarrow>
   append_levels book depth count out =
     out @ map (\<lambda>(p, q). \<lparr>bl_price = p, bl_quantity = q\<rparr>)
       (if depth = 0 then book else take (depth - count) book)"
proof (induction book depth count out rule: append_levels.induct)
  case (2 price quantity book depth count out)
  show ?case
  proof (cases "Suc count = depth")
    case True
    then have "depth - count = Suc 0" by simp
    then show ?thesis using True by simp
  next
    case False
    with 2 have "Suc count < depth \<or> depth = 0" by linarith
    with 2 False have "append_levels book depth (Suc count) (out @ [\<lparr>bl_price = price, bl_quantity = quantity\<rparr>]) =
      (out @ [\<lparr>bl_price = price, bl_quantity = quantity\<rparr>]) @ map (\<lambda>(p, q). \<lparr>bl_price = p, bl_quantity = q\<rparr>)
       (if depth = 0 then book else take (depth - Suc count) book)" by simp
    moreover have "depth = 0 \<or> depth - count = Suc (depth - Suc count)" using 2 by linarith
    ultimately show ?thesis using False by auto
  qed
qed simp

lemma db_snapshot_levels:
  "ds_bids (db_snapshot depth b) =
     map (\<lambda>(p, q). \<lparr>bl_price = p, bl_quantity = q\<rparr>) (if depth = 0 then db_bids b else take depth (db_bids b))"
  "ds_asks (db_snapshot depth b) =
     map (\<lambda>(p, q). \<lparr>bl_price = p, bl_quantity = q\<rparr>) (if depth = 0 then db_asks b else take depth (db_asks b))"
  by (simp_all add: db_snapshot_def append_levels_take del: append_levels.simps)

lemma db_snapshot_bids_Nil [simp]: "ds_bids (db_snapshot depth b) = [] \<longleftrightarrow> db_bids b = []"
  by (simp add: db_snapshot_levels)

lemma db_snapshot_asks_Nil [simp]: "ds_asks (db_snapshot depth b) = [] \<longleftrightarrow> db_asks b = []"
  by (simp add: db_snapshot_levels)

section \<open>Properties\<close>

text \<open>\<open>DepthBook::update\<close> implements the map specification of a depth book: it sets the price to the
  given quantity on the given side, removes the price when the quantity is not positive, leaves every other price
  and the other side alone, and keeps both sides in price order with positive quantities.\<close>

theorem depth_update_refines:
  assumes "depth_wf b" and "\<not> is_nan price" and "\<not> is_nan quantity"
  shows "depth_wf (snd (db_update side price quantity b)) \<and>
    depth_at s (snd (db_update side price quantity b)) =
      (if s = side then (depth_at s b)(price := if quantity \<le> 0 then None else Some quantity)
       else depth_at s b)"
  using db_update_wf [OF assms] depth_at_update [OF assms(1,2)] by blast

theorem depth_update_refines_witness:
  "depth_at kBid (snd (db_update kBid (dint 101) (dint 3)
     \<lparr>db_symbol = ''BTC'', db_bids = [(dint 100, dint 2)], db_asks = []\<rparr>)) (dint 101) = Some (dint 3)"
  using depth_update_refines [of "\<lparr>db_symbol = ''BTC'', db_bids = [(dint 100, dint 2)], db_asks = []\<rparr>"
      "dint 101" "dint 3" kBid kBid]
  by (simp add: depth_wf_def side_wf_def omap_wf_def finite_not_nan)

text \<open>A snapshot of positive depth holds the best prices of each side, best first: bids strictly descending,
  asks strictly ascending, exactly \<open>min depth n\<close> of the side's \<open>n\<close> levels, with the book's quantities, and every
  level that is left out is worse than every level that is returned.\<close>

theorem depth_snapshot_best:
  assumes "depth_wf b" and "0 < depth"
  shows "sorted_wrt (\<lambda>x y. bl_price y < bl_price x) (ds_bids (db_snapshot depth b)) \<and>
    sorted_wrt (\<lambda>x y. bl_price x < bl_price y) (ds_asks (db_snapshot depth b)) \<and>
    length (ds_bids (db_snapshot depth b)) = min depth (card (dom (depth_at kBid b))) \<and>
    length (ds_asks (db_snapshot depth b)) = min depth (card (dom (depth_at kAsk b))) \<and>
    (\<forall>l \<in> set (ds_bids (db_snapshot depth b)). depth_at kBid b (bl_price l) = Some (bl_quantity l) \<and>
       (\<forall>p \<in> dom (depth_at kBid b) - bl_price ` set (ds_bids (db_snapshot depth b)). p < bl_price l)) \<and>
    (\<forall>l \<in> set (ds_asks (db_snapshot depth b)). depth_at kAsk b (bl_price l) = Some (bl_quantity l) \<and>
       (\<forall>p \<in> dom (depth_at kAsk b) - bl_price ` set (ds_asks (db_snapshot depth b)). bl_price l < p))"
  using assms bid_side.snapshot_best [where m = "db_bids b" and depth = depth]
    ask_side.snapshot_best [where m = "db_asks b" and depth = depth]
  by (simp add: depth_wf_def depth_at_def db_snapshot_levels)

theorem depth_snapshot_best_witness:
  "length (ds_bids (db_snapshot 1
     \<lparr>db_symbol = ''BTC'', db_bids = [(dint 101, dint 2), (dint 100, dint 5)], db_asks = []\<rparr>)) = 1"
  using depth_snapshot_best [of "\<lparr>db_symbol = ''BTC'', db_bids = [(dint 101, dint 2), (dint 100, dint 5)], db_asks = []\<rparr>" 1]
  by (simp add: depth_wf_def side_wf_def omap_wf_def finite_not_nan depth_at_def card_insert_if)

text \<open>A snapshot of depth 0 is not empty: the loop tests the count after it has appended a level, so the limit
  0 is never met and the whole book is returned.\<close>

theorem depth_snapshot_zero_is_whole_book:
  "map bl_price (ds_bids (db_snapshot 0 b)) = map fst (db_bids b) \<and>
   map bl_price (ds_asks (db_snapshot 0 b)) = map fst (db_asks b)"
  by (simp add: db_snapshot_levels case_prod_beta comp_def)

end
