(* ===== verification/Cxx_Text.thy ===== *)
theory Cxx_Text
  imports Binary64
begin

text \<open>
  The text the sources produce: \<open>std::to_string\<close> of an unsigned integer, and \<open>operator<<\<close> of a
  \<open>double\<close> on a stream with the default flags, that is \<open>printf\<close>'s \<open>%g\<close> with six significant digits.
  A NaN is printed without a sign.

  \<open>show_nat\<close> is injective and yields digits only (\<open>show_nat_inject\<close>, \<open>show_nat_digits\<close>), which
  makes the string keys built from it unambiguous.
\<close>

section \<open>Integers\<close>

definition digit_char :: "int \<Rightarrow> char" where
  "digit_char d = ''0123456789'' ! nat d"

function show_int_digits :: "int \<Rightarrow> string" where
  "show_int_digits n =
     (if n < 10 then [digit_char n] else show_int_digits (n div 10) @ [digit_char (n mod 10)])"
  by pat_completeness auto
termination
  by (relation "measure nat") auto

declare show_int_digits.simps [simp del]

definition show_nat :: "nat \<Rightarrow> string" where
  "show_nat n = show_int_digits (int n)"

definition show_u64 :: "u64 \<Rightarrow> string" where
  "show_u64 w = show_int_digits (uint w)"

lemma digit_cases: "0 \<le> d \<Longrightarrow> d < 10 \<Longrightarrow> d \<in> {0, 1, 2, 3, 4, 5, 6, 7, 8, 9 :: int}"
  unfolding insert_iff empty_iff by presburger

lemma digit_char_mem: "0 \<le> d \<Longrightarrow> d < 10 \<Longrightarrow> digit_char d \<in> set ''0123456789''"
  using digit_cases [of d] by (auto simp: digit_char_def)

lemma digit_char_inject: "0 \<le> d \<Longrightarrow> d < 10 \<Longrightarrow> 0 \<le> e \<Longrightarrow> e < 10 \<Longrightarrow> digit_char d = digit_char e \<longleftrightarrow> d = e"
  using digit_cases [of d] digit_cases [of e] by (auto simp: digit_char_def)

lemma show_int_digits_Nil [simp]: "show_int_digits n \<noteq> []"
  by (subst show_int_digits.simps) simp

lemma show_int_digits_set: "0 \<le> n \<Longrightarrow> set (show_int_digits n) \<subseteq> set ''0123456789''"
proof (induction n rule: show_int_digits.induct)
  case (1 n)
  show ?case
  proof (cases "n < 10")
    case True
    then show ?thesis using 1 digit_char_mem [of n] by (subst show_int_digits.simps) simp
  next
    case False
    then show ?thesis using 1 digit_char_mem [of "n mod 10"] by (subst show_int_digits.simps) simp
  qed
qed

lemma show_int_digits_inject:
  "0 \<le> n \<Longrightarrow> 0 \<le> m \<Longrightarrow> show_int_digits n = show_int_digits m \<Longrightarrow> n = m"
proof (induction n arbitrary: m rule: show_int_digits.induct)
  case (1 n)
  have step: "show_int_digits k = (if k < 10 then [] else show_int_digits (k div 10)) @ [digit_char (k mod 10)]"
    if "0 \<le> k" for k
    using that by (subst show_int_digits.simps) simp
  from 1 have "digit_char (n mod 10) = digit_char (m mod 10)"
    and pre: "(if n < 10 then [] else show_int_digits (n div 10)) = (if m < 10 then [] else show_int_digits (m div 10))"
    using step [of n] step [of m] by auto
  then have mod: "n mod 10 = m mod 10" by (simp add: digit_char_inject)
  show ?case
  proof (cases "n < 10")
    case True
    with pre have "m < 10" by (simp split: if_splits) (metis show_int_digits_Nil)
    with True mod 1 show ?thesis by simp
  next
    case False
    with pre have "\<not> m < 10" by (simp split: if_splits)
    with False pre have "show_int_digits (n div 10) = show_int_digits (m div 10)" by simp
    with 1 False \<open>\<not> m < 10\<close> have "n div 10 = m div 10" by simp
    with mod show ?thesis by (metis div_mult_mod_eq)
  qed
qed

lemma show_nat_inject [simp]: "show_nat n = show_nat m \<longleftrightarrow> n = m"
  using show_int_digits_inject [of "int n" "int m"] by (auto simp: show_nat_def)

lemma show_nat_digits: "c \<in> set (show_nat n) \<Longrightarrow> c \<in> set ''0123456789''"
  using subsetD [OF show_int_digits_set [OF of_nat_0_le_iff]] unfolding show_nat_def .

lemma show_u64_inject [simp]: "show_u64 v = show_u64 w \<longleftrightarrow> v = w"
  using show_int_digits_inject [of "uint v" "uint w"] by (auto simp: show_u64_def word_uint_eq_iff)

lemma show_u64_digits: "c \<in> set (show_u64 w) \<Longrightarrow> c \<in> set ''0123456789''"
  using subsetD [OF show_int_digits_set [OF uint_ge_0]] unfolding show_u64_def .

lemma append_sep_inject:
  assumes "a @ c # u = b @ c # v" "c \<notin> set u" "c \<notin> set v"
  shows "a = b \<and> u = v"
proof -
  have "rev u @ c # rev a = rev v @ c # rev b" using assms(1) by (metis append_Cons append_Nil append_assoc rev.simps(2) rev_append)
  then have "takeWhile (\<lambda>x. x \<noteq> c) (rev u @ c # rev a) = takeWhile (\<lambda>x. x \<noteq> c) (rev v @ c # rev b)" by simp
  moreover have "takeWhile (\<lambda>x. x \<noteq> c) (rev w @ c # z) = rev w" if "c \<notin> set w" for w z
    using that by (subst takeWhile_append2) auto
  ultimately have "rev u = rev v" using assms(2,3) by simp
  then show ?thesis using assms(1) by simp
qed

section \<open>Floating-point values\<close>

text \<open>The number of decimal digits of a positive integer, 0 for 0.\<close>

definition decimal_length :: "int \<Rightarrow> int" where
  "decimal_length n = (if n \<le> 0 then 0 else int (length (show_int_digits n)))"

text \<open>The decimal exponent of a positive rational: \<open>floor (log10 q)\<close>.\<close>

definition ilog10 :: "rat \<Rightarrow> int" where
  "ilog10 q = (if 1 \<le> q then decimal_length (floor q) - 1 else - decimal_length (ceiling (1 / q) - 1))"

fun strip_zeros :: "string \<Rightarrow> string" where
  "strip_zeros s = rev (dropWhile (\<lambda>c. c = CHR ''0'') (rev s))"

definition with_fraction :: "string \<Rightarrow> string \<Rightarrow> string" where
  "with_fraction whole part = (let f = strip_zeros part in if f = [] then whole else whole @ ''.'' @ f)"

definition show_exponent :: "int \<Rightarrow> string" where
  "show_exponent x = (if x < 0 then ''e-'' else ''e+'') @
     (let d = show_int_digits \<bar>x\<bar> in if length d < 2 then ''0'' @ d else d)"

definition show_positive :: "rat \<Rightarrow> string" where
  "show_positive q =
     (let x0 = ilog10 q;
          d0 = round_half_even (q * 10 powi (5 - x0));
          x = (if d0 = 1000000 then x0 + 1 else x0);
          digits = show_int_digits (if d0 = 1000000 then 100000 else d0)
      in if x < - 4 \<or> 6 \<le> x then with_fraction (take 1 digits) (drop 1 digits) @ show_exponent x
         else if x < 0 then with_fraction ''0'' (replicate (nat (- x - 1)) CHR ''0'' @ digits)
         else with_fraction (take (nat (x + 1)) digits) (drop (nat (x + 1)) digits))"

fun show_fpval :: "fpval \<Rightarrow> string" where
  "show_fpval NaN = ''nan''"
| "show_fpval PInf = ''inf''"
| "show_fpval NInf = ''-inf''"
| "show_fpval (Fin q) =
     (if q = 0 then ''0'' else if q < 0 then ''-'' @ show_positive (- q) else show_positive q)"

definition show_double :: "double \<Rightarrow> string" where
  "show_double d = show_fpval (fp_of d)"

end
