(* ===== verification/Broadcaster.thy ===== *)
theory Broadcaster
  imports Depth_Book
begin

text \<open>
  The topic broadcaster of \<open>infrastructure/market-data-push-system/broadcaster.hpp\<close>. Every public
  operation holds \<open>mutex_\<close> from its first to its last access, so an operation is one step of the
  state and a concurrent execution is a sequence of such steps. Sequence numbers are 64-bit words;
  the invariant \<open>bc_inv\<close> ties each topic's history to the counter as long as the counter has not wrapped.
\<close>

record SubscriptionState =
  ss_topic :: string
  ss_next_sequence :: u64

record MarketDataBroadcaster =
  bc_next_sequence :: u64
  bc_next_subscriber_id :: u64
  bc_history :: "string \<rightharpoonup> BroadcastMessage list"
  bc_subscribers :: "u64 \<rightharpoonup> SubscriptionState"

definition new_MarketDataBroadcaster :: MarketDataBroadcaster where
  "new_MarketDataBroadcaster =
     \<lparr>bc_next_sequence = 0, bc_next_subscriber_id = 0, bc_history = Map.empty, bc_subscribers = Map.empty\<rparr>"

definition bc_subscribe :: "string \<Rightarrow> MarketDataBroadcaster \<Rightarrow> u64 \<times> MarketDataBroadcaster" where
  "bc_subscribe topic b =
     (let subscriber_id = bc_next_subscriber_id b + 1;
          b' = b\<lparr>bc_next_subscriber_id := subscriber_id\<rparr>
      in (subscriber_id,
          case bc_subscribers b subscriber_id of
            Some _ \<Rightarrow> b'
          | None \<Rightarrow> b'\<lparr>bc_subscribers := (bc_subscribers b)(subscriber_id \<mapsto> \<lparr>ss_topic = topic, ss_next_sequence = 1\<rparr>)\<rparr>))"

definition topic_history :: "MarketDataBroadcaster \<Rightarrow> string \<Rightarrow> BroadcastMessage list" where
  "topic_history b topic = (case bc_history b topic of None \<Rightarrow> [] | Some h \<Rightarrow> h)"

definition bc_publish :: "string \<Rightarrow> string \<Rightarrow> MarketDataBroadcaster \<Rightarrow> BroadcastMessage \<times> MarketDataBroadcaster" where
  "bc_publish topic payload b =
     (let message = \<lparr>bm_sequence = bc_next_sequence b + 1, bm_topic = topic, bm_payload = payload\<rparr>
      in (message, b\<lparr>bc_next_sequence := bc_next_sequence b + 1,
                     bc_history := (bc_history b)(topic \<mapsto> topic_history b topic @ [message])\<rparr>))"

fun poll_loop :: "BroadcastMessage list \<Rightarrow> nat \<Rightarrow> u64 \<Rightarrow> BroadcastMessage list \<Rightarrow> BroadcastMessage list \<times> u64" where
  "poll_loop [] max_items next_sequence batch = (batch, next_sequence)"
| "poll_loop (message # rest) max_items next_sequence batch =
     (if bm_sequence message < next_sequence then poll_loop rest max_items next_sequence batch
      else let batch' = batch @ [message]; next' = bm_sequence message + 1
           in if length batch' = max_items then (batch', next')
              else poll_loop rest max_items next' batch')"

definition bc_poll :: "u64 \<Rightarrow> nat \<Rightarrow> MarketDataBroadcaster \<Rightarrow> BroadcastMessage list \<times> MarketDataBroadcaster" where
  "bc_poll subscriber_id max_items b =
     (case bc_subscribers b subscriber_id of
        None \<Rightarrow> ([], b)
      | Some subscriber \<Rightarrow>
          (case bc_history b (ss_topic subscriber) of
             None \<Rightarrow> ([], b)
           | Some messages \<Rightarrow>
               (let (batch, next) = poll_loop messages max_items (ss_next_sequence subscriber) []
                in (batch, b\<lparr>bc_subscribers :=
                      (bc_subscribers b)(subscriber_id \<mapsto> subscriber\<lparr>ss_next_sequence := next\<rparr>)\<rparr>))))"

definition bc_replay :: "string \<Rightarrow> u64 \<Rightarrow> MarketDataBroadcaster \<Rightarrow> BroadcastMessage list" where
  "bc_replay topic sequence_after b =
     (case bc_history b topic of
        None \<Rightarrow> []
      | Some messages \<Rightarrow> filter (\<lambda>message. sequence_after < bm_sequence message) messages)"

section \<open>Invariant\<close>

text \<open>
  Each history is in strictly increasing sequence order, its messages carry the topic they are
  filed under, and no sequence number is 0 or beyond the counter.
\<close>

definition seqs_ok :: "u64 \<Rightarrow> BroadcastMessage list \<Rightarrow> bool" where
  "seqs_ok cnt ms \<longleftrightarrow> sorted_wrt (<) (map bm_sequence ms) \<and> (\<forall>m \<in> set ms. 0 < bm_sequence m \<and> bm_sequence m \<le> cnt)"

definition bc_inv :: "MarketDataBroadcaster \<Rightarrow> bool" where
  "bc_inv b \<longleftrightarrow> (\<forall>t ms. bc_history b t = Some ms \<longrightarrow> seqs_ok (bc_next_sequence b) ms \<and> (\<forall>m \<in> set ms. bm_topic m = t))"

lemma new_broadcaster_inv [simp]: "bc_inv new_MarketDataBroadcaster"
  by (simp add: bc_inv_def new_MarketDataBroadcaster_def)

lemma topic_history_le: "bc_inv b \<Longrightarrow> x \<in> set (topic_history b t) \<Longrightarrow> bm_sequence x \<le> bc_next_sequence b"
  by (cases "bc_history b t") (simp_all add: bc_inv_def seqs_ok_def topic_history_def)

lemma seqs_ok_publish:
  assumes "seqs_ok cnt ms" "cnt \<noteq> - 1"
  shows "seqs_ok (cnt + 1) ms" "seqs_ok (cnt + 1) (ms @ [\<lparr>bm_sequence = cnt + 1, bm_topic = t, bm_payload = p\<rparr>])"
proof -
  have lt: "cnt < cnt + 1" using assms(2) by (intro u64_less_inc) auto
  then have "m \<in> set ms \<Longrightarrow> bm_sequence m < cnt + 1" for m using assms(1) by (auto simp: seqs_ok_def)
  then show "seqs_ok (cnt + 1) ms" "seqs_ok (cnt + 1) (ms @ [\<lparr>bm_sequence = cnt + 1, bm_topic = t, bm_payload = p\<rparr>])"
    using assms(1) lt by (auto simp: seqs_ok_def sorted_wrt_append less_imp_le intro: le_less_trans [OF word_zero_le])
qed

lemma bc_publish_inv:
  assumes "bc_inv b" "bc_next_sequence b \<noteq> - 1"
  shows "bc_inv (snd (bc_publish topic payload b))"
proof -
  have "seqs_ok (bc_next_sequence b) (topic_history b topic)" "\<forall>m \<in> set (topic_history b topic). bm_topic m = topic"
    using assms(1) by (cases "bc_history b topic"; simp add: bc_inv_def topic_history_def seqs_ok_def)+
  then show ?thesis
    using assms seqs_ok_publish by (auto simp: bc_inv_def bc_publish_def Let_def)
qed

section \<open>Polling\<close>

text \<open>The messages a subscriber has not received yet, in publication order.\<close>

definition undelivered :: "MarketDataBroadcaster \<Rightarrow> u64 \<Rightarrow> BroadcastMessage list" where
  "undelivered b i =
     (case bc_subscribers b i of
        None \<Rightarrow> []
      | Some s \<Rightarrow> filter (\<lambda>m. ss_next_sequence s \<le> bm_sequence m) (topic_history b (ss_topic s)))"

lemma poll_loop_spec:
  assumes "seqs_ok cnt ms" "cnt \<noteq> - 1" "length batch < max_items"
  shows "poll_loop ms max_items nxt batch = (batch', nxt') \<Longrightarrow>
    batch' = batch @ take (max_items - length batch) (filter (\<lambda>m. nxt \<le> bm_sequence m) ms) \<and>
    nxt \<le> nxt' \<and> filter (\<lambda>m. nxt' \<le> bm_sequence m) ms = drop (max_items - length batch) (filter (\<lambda>m. nxt \<le> bm_sequence m) ms)"
  using assms
proof (induction ms max_items nxt batch rule: poll_loop.induct)
  case (2 m rest max_items nxt batch)
  have rest: "seqs_ok cnt rest" and later: "\<forall>x \<in> set rest. bm_sequence m < bm_sequence x"
    and cnt: "bm_sequence m \<le> cnt"
    using "2.prems" by (auto simp: seqs_ok_def)
  have inc: "x \<le> cnt \<Longrightarrow> x < x + 1" for x :: u64
    using "2.prems"(3) by (rule u64_less_inc [rotated])
  show ?case
  proof (cases "bm_sequence m < nxt")
    case True
    then show ?thesis
      using "2.IH"(1) [OF True] "2.prems" rest by (auto simp: not_le dest: less_le_trans)
  next
    case False
    let ?n = "bm_sequence m + 1"
    have all: "filter (\<lambda>x. nxt \<le> bm_sequence x) rest = rest" "filter (\<lambda>x. ?n \<le> bm_sequence x) rest = rest"
      using later False inc [OF cnt] by (auto simp: filter_id_conv not_less less_imp_le u64_inc_le intro: order_trans)
    have m: "\<not> ?n \<le> bm_sequence m" "nxt \<le> ?n" using inc [OF cnt] False by auto
    have len: "max_items - length batch = Suc (max_items - Suc (length batch))" using "2.prems"(4) by simp
    show ?thesis
    proof (cases "Suc (length batch) = max_items")
      case True
      then show ?thesis using "2.prems"(1) False all m len by (auto simp: not_less)
    next
      case neq: False
      then have "poll_loop rest max_items ?n (batch @ [m]) = (batch', nxt')"
        using "2.prems"(1) False by (simp add: Let_def)
      from "2.IH"(2) [OF False refl refl _ this rest "2.prems"(3)] neq "2.prems"(4)
      have "batch' = (batch @ [m]) @ take (max_items - Suc (length batch)) rest" "?n \<le> nxt'"
        "filter (\<lambda>x. nxt' \<le> bm_sequence x) rest = drop (max_items - Suc (length batch)) rest"
        by (auto simp: all)
      then show ?thesis using False m all len by (auto simp: not_less)
    qed
  qed
qed simp

lemma bc_poll_undelivered:
  assumes "bc_inv b" "bc_next_sequence b \<noteq> - 1" "0 < max_items" "bc_poll i max_items b = (batch, b')"
  shows "batch = take max_items (undelivered b i) \<and> undelivered b' i = drop max_items (undelivered b i)"
proof (cases "bc_subscribers b i")
  case None
  then show ?thesis using assms(4) by (simp add: bc_poll_def undelivered_def)
next
  case (Some s)
  show ?thesis
  proof (cases "bc_history b (ss_topic s)")
    case None
    then show ?thesis using Some assms(4) by (simp add: bc_poll_def undelivered_def topic_history_def)
  next
    case h: (Some ms)
    obtain nxt where loop: "poll_loop ms max_items (ss_next_sequence s) [] = (batch, nxt)"
      and b': "b' = b\<lparr>bc_subscribers := (bc_subscribers b)(i \<mapsto> s\<lparr>ss_next_sequence := nxt\<rparr>)\<rparr>"
      using Some h assms(4) by (auto simp: bc_poll_def split: prod.splits)
    have "seqs_ok (bc_next_sequence b) ms" using assms(1) h by (simp add: bc_inv_def)
    from poll_loop_spec [OF this assms(2) _ loop] assms(3)
    show ?thesis using Some h by (simp add: undelivered_def topic_history_def b')
  qed
qed

section \<open>Properties\<close>

text \<open>C37: Exactly-once, in-order delivery: with a positive limit, \<open>poll\<close> returns the first \<open>max_items\<close> messages of
  the subscriber's topic that it has not received, in publication order, and afterwards exactly the others are still
  undelivered; a message published to the topic in between is queued behind them.\<close>

theorem poll_exactly_once:
  assumes "bc_inv b" and "bc_next_sequence b \<noteq> - 1" and "0 < max_items"
    and "bc_poll i max_items b = (batch, b')"
  shows "batch @ undelivered b' i = undelivered b i \<and> length batch = min max_items (length (undelivered b i)) \<and>
    bc_inv b' \<and>
    (\<forall>s payload. bc_subscribers b' i = Some s \<and> ss_next_sequence s \<le> bc_next_sequence b' + 1 \<longrightarrow>
       undelivered (snd (bc_publish (ss_topic s) payload b')) i =
         undelivered b' i @ [fst (bc_publish (ss_topic s) payload b')])"
proof -
  have "bc_history b' = bc_history b" "bc_next_sequence b' = bc_next_sequence b"
    using assms(4) by (auto simp: bc_poll_def split: option.splits prod.splits)
  then have "bc_inv b'" using assms(1) by (simp add: bc_inv_def)
  moreover have "undelivered (snd (bc_publish (ss_topic s) payload b')) i =
      undelivered b' i @ [fst (bc_publish (ss_topic s) payload b')]"
    if "bc_subscribers b' i = Some s" "ss_next_sequence s \<le> bc_next_sequence b' + 1" for s payload
    using that by (simp add: undelivered_def bc_publish_def topic_history_def Let_def)
  ultimately show ?thesis using bc_poll_undelivered [OF assms] by (auto simp: min.commute)
qed

definition demo_broadcaster :: MarketDataBroadcaster where
  "demo_broadcaster = snd (bc_publish ''t'' ''b'' (snd (bc_publish ''t'' ''a'' (snd (bc_subscribe ''t'' new_MarketDataBroadcaster)))))"

lemma demo_broadcaster_inv: "bc_inv demo_broadcaster"
  by (simp add: demo_broadcaster_def bc_subscribe_def bc_publish_def new_MarketDataBroadcaster_def bc_inv_def
      seqs_ok_def topic_history_def Let_def)

theorem poll_exactly_once_witness:
  "fst (bc_poll 1 1 demo_broadcaster) @ undelivered (snd (bc_poll 1 1 demo_broadcaster)) 1 = undelivered demo_broadcaster 1 \<and>
   length (undelivered demo_broadcaster 1) = 2"
  using poll_exactly_once [OF demo_broadcaster_inv, of 1 1 "fst (bc_poll 1 1 demo_broadcaster)" "snd (bc_poll 1 1 demo_broadcaster)"]
  by (simp add: demo_broadcaster_def bc_subscribe_def bc_publish_def new_MarketDataBroadcaster_def undelivered_def topic_history_def
      bc_poll_def Let_def)

text \<open>Publication is totally ordered and replayable: a published message gets a sequence number larger than that
  of every earlier message on any topic, the history stays ordered, and a replay after any earlier sequence number returns
  the older messages beyond it followed by the new one, while other topics replay as before.\<close>

theorem publish_then_replay:
  assumes "bc_inv b" and "bc_next_sequence b \<noteq> - 1" and "after \<le> bc_next_sequence b"
    and "bc_publish topic payload b = (m, b')"
  shows "bc_inv b' \<and> (\<forall>t. \<forall>x \<in> set (topic_history b t). bm_sequence x < bm_sequence m) \<and>
    bc_replay topic after b' = bc_replay topic after b @ [m] \<and>
    (\<forall>t. t \<noteq> topic \<longrightarrow> bc_replay t after b' = bc_replay t after b)"
proof -
  have inc: "bc_next_sequence b < bc_next_sequence b + 1" using assms(2) by (intro u64_less_inc) auto
  have "bc_inv b'" using bc_publish_inv [OF assms(1,2), of topic payload] assms(4) by simp
  moreover have "bm_sequence x < bm_sequence m" if "x \<in> set (topic_history b t)" for t x
    using le_less_trans [OF topic_history_le [OF assms(1) that] inc] assms(4) by (auto simp: bc_publish_def Let_def)
  moreover have "bc_replay topic after b' = bc_replay topic after b @ [m]"
    using assms(3,4) inc le_less_trans [OF assms(3) inc]
    by (auto simp: bc_replay_def bc_publish_def topic_history_def Let_def split: option.splits)
  moreover have "bc_replay t after b' = bc_replay t after b" if "t \<noteq> topic" for t
    using that assms(4) by (auto simp: bc_replay_def bc_publish_def Let_def)
  ultimately show ?thesis by blast
qed

theorem publish_then_replay_witness:
  "map bm_payload (bc_replay ''t'' 1 (snd (bc_publish ''t'' ''c'' demo_broadcaster))) = [''b'', ''c'']"
  using publish_then_replay [OF demo_broadcaster_inv, of 1 "''t''" "''c''" "fst (bc_publish ''t'' ''c'' demo_broadcaster)"
      "snd (bc_publish ''t'' ''c'' demo_broadcaster)"]
  by (simp add: demo_broadcaster_def bc_subscribe_def bc_publish_def new_MarketDataBroadcaster_def bc_replay_def topic_history_def Let_def)

end
