(* ===== verification/Block_Pool.thy ===== *)
theory Block_Pool
  imports Prelude
begin

text \<open>
  The memory pool of \<open>infrastructure/memory-pool\<close>: \<open>FixedBlockPool\<close> (\<open>fixed_block_pool.hpp\<close>) and
  the typed \<open>ObjectPool\<close> above it (\<open>object_pool.hpp\<close>).

  A block is the number of its slab and the byte offset in it, so blocks of one slab overlap or not as
  their byte ranges say. The thread-local caches are a function from threads to vectors of blocks. The
  atomic counters are 64-bit. What \<open>operator new\<close> returns is a fresh slab; its running out of memory
  is not modelled.

  The lemmas keep a partition of the blocks of all slabs into the global list, the caches and the blocks handed out;
  from it an allocation never overlaps a live block.
\<close>

section \<open>Fixed-size blocks\<close>

type_synonym block = "nat \<times> u64"
type_synonym thread = nat

record FixedBlockPool =
  fp_block_size :: u64
  fp_blocks_per_slab :: u64
  fp_local_cache_limit :: u64
  fp_slabs :: "u64 list"
  fp_global_free_blocks :: "block list"
  fp_outstanding_blocks :: u64
  fp_local_cache_hits :: u64
  fp_global_cache_hits :: u64
  fp_slab_refills :: u64
  fp_local_caches :: "thread \<Rightarrow> block list"

record PoolStats =
  ps_block_size :: u64
  ps_blocks_per_slab :: u64
  ps_slabs_allocated :: u64
  ps_total_blocks :: u64
  ps_global_free_blocks :: u64
  ps_outstanding_blocks :: u64
  ps_local_cache_hits :: u64
  ps_global_cache_hits :: u64
  ps_slab_refills :: u64

datatype pool_error = PoolZeroSize | PoolBadAlloc

definition new_FixedBlockPool :: "u64 \<Rightarrow> u64 \<Rightarrow> u64 \<Rightarrow> pool_error + FixedBlockPool" where
  "new_FixedBlockPool block_size blocks_per_slab local_cache_limit =
     (if blocks_per_slab = 0 \<or> local_cache_limit = 0 then Inl PoolZeroSize
      else Inr \<lparr>fp_block_size = max block_size 8, fp_blocks_per_slab = blocks_per_slab,
        fp_local_cache_limit = local_cache_limit, fp_slabs = [], fp_global_free_blocks = [],
        fp_outstanding_blocks = 0, fp_local_cache_hits = 0, fp_global_cache_hits = 0, fp_slab_refills = 0,
        fp_local_caches = (\<lambda>_. [])\<rparr>)"

definition allocate_slab :: "FixedBlockPool \<Rightarrow> FixedBlockPool" where
  "allocate_slab p =
     (let slab_bytes = fp_block_size p * fp_blocks_per_slab p;
          slab = length (fp_slabs p);
          blocks = map (\<lambda>offset. (slab, of_nat offset * fp_block_size p)) [0 ..< unat (fp_blocks_per_slab p)]
      in p\<lparr>fp_global_free_blocks := fp_global_free_blocks p @ blocks,
           fp_slabs := fp_slabs p @ [slab_bytes],
           fp_slab_refills := fp_slab_refills p + 1\<rparr>)"

text \<open>Moves \<open>n\<close> elements from the back of the first vector to the back of the second.\<close>

fun move_back :: "nat \<Rightarrow> 'b list \<Rightarrow> 'b list \<Rightarrow> 'b list \<times> 'b list" where
  "move_back 0 from_v to_v = (from_v, to_v)"
| "move_back (Suc n) from_v to_v = move_back n (butlast from_v) (to_v @ [last from_v])"

definition refill_local_cache :: "thread \<Rightarrow> FixedBlockPool \<Rightarrow> FixedBlockPool" where
  "refill_local_cache t p =
     (let refill_target = max (fp_local_cache_limit p div 2) 1;
          p1 = (if fp_global_free_blocks p = [] then allocate_slab p else p);
          transfer_count = min (unat refill_target) (length (fp_global_free_blocks p1));
          (global, cache) = move_back transfer_count (fp_global_free_blocks p1) (fp_local_caches p1 t)
      in p1\<lparr>fp_global_free_blocks := global, fp_local_caches := (fp_local_caches p1)(t := cache),
            fp_global_cache_hits := fp_global_cache_hits p1 + of_nat transfer_count\<rparr>)"

definition flush_local_cache :: "thread \<Rightarrow> u64 \<Rightarrow> FixedBlockPool \<Rightarrow> FixedBlockPool" where
  "flush_local_cache t retain_count p =
     (let (cache, global) = move_back (length (fp_local_caches p t) - unat retain_count)
            (fp_local_caches p t) (fp_global_free_blocks p)
      in p\<lparr>fp_global_free_blocks := global, fp_local_caches := (fp_local_caches p)(t := cache)\<rparr>)"

definition fp_allocate :: "thread \<Rightarrow> FixedBlockPool \<Rightarrow> pool_error + block \<times> FixedBlockPool" where
  "fp_allocate t p =
     (if fp_local_caches p t \<noteq> []
      then Inr (last (fp_local_caches p t),
            p\<lparr>fp_local_caches := (fp_local_caches p)(t := butlast (fp_local_caches p t)),
              fp_local_cache_hits := fp_local_cache_hits p + 1,
              fp_outstanding_blocks := fp_outstanding_blocks p + 1\<rparr>)
      else let p1 = refill_local_cache t p in
           if fp_local_caches p1 t = [] then Inl PoolBadAlloc
           else Inr (last (fp_local_caches p1 t),
                 p1\<lparr>fp_local_caches := (fp_local_caches p1)(t := butlast (fp_local_caches p1 t)),
                    fp_outstanding_blocks := fp_outstanding_blocks p1 + 1\<rparr>))"

definition fp_deallocate :: "thread \<Rightarrow> block option \<Rightarrow> FixedBlockPool \<Rightarrow> FixedBlockPool" where
  "fp_deallocate t block p =
     (case block of
        None \<Rightarrow> p
      | Some b \<Rightarrow>
          let p1 = p\<lparr>fp_local_caches := (fp_local_caches p)(t := fp_local_caches p t @ [b]),
                     fp_outstanding_blocks := fp_outstanding_blocks p - 1\<rparr>
          in if length (fp_local_caches p1 t) \<ge> unat (fp_local_cache_limit p1)
             then flush_local_cache t (fp_local_cache_limit p1 div 2) p1 else p1)"

text \<open>The destructor erases the cache of the calling thread; the slabs are freed. What is left are the caches the other threads keep in their
  thread-local maps under the address of the pool, and a pool that is constructed at that address later finds them.\<close>

definition destroy_FixedBlockPool :: "thread \<Rightarrow> FixedBlockPool \<Rightarrow> thread \<Rightarrow> block list" where
  "destroy_FixedBlockPool t p = (fp_local_caches p)(t := [])"

definition at_same_address :: "(thread \<Rightarrow> block list) \<Rightarrow> FixedBlockPool \<Rightarrow> FixedBlockPool" where
  "at_same_address caches p = p\<lparr>fp_local_caches := caches\<rparr>"

definition fp_stats :: "FixedBlockPool \<Rightarrow> PoolStats" where
  "fp_stats p = \<lparr>ps_block_size = fp_block_size p, ps_blocks_per_slab = fp_blocks_per_slab p,
     ps_slabs_allocated = of_nat (length (fp_slabs p)),
     ps_total_blocks = of_nat (length (fp_slabs p)) * fp_blocks_per_slab p,
     ps_global_free_blocks = of_nat (length (fp_global_free_blocks p)),
     ps_outstanding_blocks = fp_outstanding_blocks p, ps_local_cache_hits = fp_local_cache_hits p,
     ps_global_cache_hits = fp_global_cache_hits p, ps_slab_refills = fp_slab_refills p\<rparr>"

section \<open>Typed objects\<close>

text \<open>\<open>ObjectPool<T>\<close>: the block store and the constructed objects, by address. Constructors do not throw in this
  program (they initialise an aggregate), so \<open>create\<close>'s handler is not reached.\<close>

record 'a ObjectPool =
  op_storage :: FixedBlockPool
  op_objects :: "block \<rightharpoonup> 'a"

definition new_ObjectPool :: "u64 \<Rightarrow> u64 \<Rightarrow> u64 \<Rightarrow> pool_error + 'a ObjectPool" where
  "new_ObjectPool object_size blocks_per_slab local_cache_limit =
     (case new_FixedBlockPool object_size blocks_per_slab local_cache_limit of
        Inl e \<Rightarrow> Inl e
      | Inr s \<Rightarrow> Inr \<lparr>op_storage = s, op_objects = Map.empty\<rparr>)"

declare new_FixedBlockPool_def [exec_simps] new_ObjectPool_def [exec_simps]

definition op_create :: "thread \<Rightarrow> 'a \<Rightarrow> 'a ObjectPool \<Rightarrow> pool_error + block \<times> 'a ObjectPool" where
  "op_create t x p =
     (case fp_allocate t (op_storage p) of
        Inl e \<Rightarrow> Inl e
      | Inr (b, s) \<Rightarrow> Inr (b, p\<lparr>op_storage := s, op_objects := (op_objects p)(b \<mapsto> x)\<rparr>))"

definition op_destroy :: "thread \<Rightarrow> block option \<Rightarrow> 'a ObjectPool \<Rightarrow> 'a ObjectPool" where
  "op_destroy t instance_ptr p =
     (case instance_ptr of
        None \<Rightarrow> p
      | Some b \<Rightarrow> p\<lparr>op_objects := (op_objects p)(b := None), op_storage := fp_deallocate t (Some b) (op_storage p)\<rparr>)"

definition op_stats :: "'a ObjectPool \<Rightarrow> PoolStats" where
  "op_stats p = fp_stats (op_storage p)"

section \<open>The partition of the blocks\<close>

definition parts :: "'b list \<Rightarrow> (thread \<Rightarrow> 'b list) \<Rightarrow> 'b set \<Rightarrow> 'b set \<Rightarrow> bool" where
  "parts G C L U \<longleftrightarrow> distinct G \<and> (\<forall>t. distinct (C t)) \<and> (\<forall>b. b \<in> set G \<longrightarrow> b \<notin> L) \<and>
     (\<forall>t b. b \<in> set (C t) \<longrightarrow> b \<notin> set G \<and> b \<notin> L \<and> (\<forall>t'. b \<in> set (C t') \<longrightarrow> t' = t)) \<and>
     (\<forall>b. b \<in> U \<longleftrightarrow> b \<in> set G \<or> b \<in> L \<or> (\<exists>t. b \<in> set (C t)))"

lemma parts_cache_step: "parts G (C(t := c @ [b])) L U \<longleftrightarrow> b \<notin> L \<and> parts G (C(t := c)) (insert b L) U"
proof -
  have member: "x \<in> set ((C(t := c @ [b])) u) \<longleftrightarrow> x \<in> set ((C(t := c)) u) \<or> u = t \<and> x = b" for x u by auto
  have distinct: "(\<forall>u. distinct ((C(t := c @ [b])) u)) \<longleftrightarrow> (\<forall>u. distinct ((C(t := c)) u)) \<and> b \<notin> set ((C(t := c)) t)" by auto
  show ?thesis unfolding parts_def member distinct by blast
qed

lemma parts_global_step: "parts (G @ [b]) C L U \<longleftrightarrow> b \<notin> L \<and> parts G C (insert b L) U"
  unfolding parts_def by auto

lemma parts_move: "parts (G @ N) (C(t := c)) L U \<longleftrightarrow> parts G (C(t := c @ rev N)) L U"
proof (induction N arbitrary: c rule: rev_induct)
  case (snoc b N)
  have "parts ((G @ N) @ [b]) (C(t := c)) L U \<longleftrightarrow> parts (G @ N) (C(t := c @ [b])) L U"
    by (simp only: parts_global_step parts_cache_step)
  with snoc [of "c @ [b]"] show ?case by (simp add: fun_upd_def)
qed simp

lemma parts_live: "parts G C L U \<Longrightarrow> L \<subseteq> U"
  unfolding parts_def by blast

lemma parts_new_blocks: "parts G C L U \<Longrightarrow> distinct N \<Longrightarrow> set N \<inter> U = {} \<Longrightarrow> parts (G @ N) C L (U \<union> set N)"
  unfolding parts_def by (auto simp: disjoint_iff)

lemma move_back_eq:
  "n \<le> length xs \<Longrightarrow> move_back n xs ys = (take (length xs - n) xs, ys @ rev (drop (length xs - n) xs))"
proof (induction n arbitrary: xs ys)
  case (Suc n)
  then obtain zs z where xs: "xs = zs @ [z]" by (cases xs rule: rev_exhaust) auto
  with Suc show ?case by auto
qed simp

definition pool_blocks :: "FixedBlockPool \<Rightarrow> block set" where
  "pool_blocks p = {(i, of_nat k * fp_block_size p) |i k. i < length (fp_slabs p) \<and> k < unat (fp_blocks_per_slab p)}"

definition pool_geom :: "FixedBlockPool \<Rightarrow> bool" where
  "pool_geom p \<longleftrightarrow> 0 < fp_blocks_per_slab p \<and> 0 < fp_local_cache_limit p \<and> 8 \<le> fp_block_size p \<and>
     unat (fp_block_size p) * unat (fp_blocks_per_slab p) < 2 ^ 64 \<and>
     (\<forall>n \<in> set (fp_slabs p). n = fp_block_size p * fp_blocks_per_slab p)"

text \<open>\<open>pool_inv L p\<close>: the blocks in \<open>L\<close> are handed out, all others are in the global list or in one cache.\<close>

definition pool_inv :: "block set \<Rightarrow> FixedBlockPool \<Rightarrow> bool" where
  "pool_inv L p \<longleftrightarrow> pool_geom p \<and> parts (fp_global_free_blocks p) (fp_local_caches p) L (pool_blocks p) \<and>
     fp_outstanding_blocks p = of_nat (card L) \<and> fp_slab_refills p = of_nat (length (fp_slabs p)) \<and>
     (\<forall>t. length (fp_local_caches p t) < unat (fp_local_cache_limit p))"

text \<open>The bytes of a block.\<close>

definition block_bytes :: "FixedBlockPool \<Rightarrow> block \<Rightarrow> (nat \<times> nat) set" where
  "block_bytes p b = {fst b} \<times> {unat (snd b) ..< unat (snd b) + unat (fp_block_size p)}"

lemma block_offset:
  assumes "pool_geom p" "k < unat (fp_blocks_per_slab p)"
  shows "unat (of_nat k * fp_block_size p) = k * unat (fp_block_size p)"
proof -
  have "Suc k * unat (fp_block_size p) \<le> unat (fp_blocks_per_slab p) * unat (fp_block_size p)"
    using assms(2) by (intro mult_right_mono) auto
  then have "k * unat (fp_block_size p) < 2 ^ 64" using assms(1) by (simp add: pool_geom_def mult.commute)
  moreover have "unat (of_nat k :: u64) = k"
    using assms(2) unsigned_less [of "fp_blocks_per_slab p", where 'a = nat] by (simp add: unat_of_nat)
  ultimately show ?thesis by (simp add: unat_word_ariths)
qed

lemma block_size_pos: "pool_geom p \<Longrightarrow> 0 < unat (fp_block_size p)"
  by (auto simp: pool_geom_def word_le_nat_alt)

lemma block_bytes_disjoint:
  assumes "pool_geom p" "b \<in> pool_blocks p" "c \<in> pool_blocks p" "b \<noteq> c"
  shows "block_bytes p b \<inter> block_bytes p c = {}"
proof -
  have *: "j = k" if "j * n \<le> x" "x < j * n + n" "k * n \<le> x" "x < k * n + n" for j k n x :: nat
  proof -
    have "x div n = j" "x div n = k" using that by (auto intro!: div_nat_eqI simp: mult.commute)
    then show ?thesis by simp
  qed
  show ?thesis using assms * by (fastforce simp: pool_blocks_def block_bytes_def block_offset disjoint_iff)
qed

lemma block_bytes_in_slab:
  assumes "pool_geom p" "b \<in> pool_blocks p"
  shows "fst b < length (fp_slabs p) \<and> unat (snd b) + unat (fp_block_size p) \<le> unat (fp_slabs p ! fst b)"
proof -
  obtain i k where b: "b = (i, of_nat k * fp_block_size p)" "i < length (fp_slabs p)" "k < unat (fp_blocks_per_slab p)"
    using assms(2) by (auto simp: pool_blocks_def)
  have "Suc k * unat (fp_block_size p) \<le> unat (fp_blocks_per_slab p) * unat (fp_block_size p)"
    using b(3) by (intro mult_right_mono) auto
  moreover have "unat (fp_slabs p ! i) = unat (fp_block_size p) * unat (fp_blocks_per_slab p)"
    using assms(1) b(2) nth_mem by (fastforce simp: pool_geom_def unat_word_ariths)
  ultimately show ?thesis using b block_offset [OF assms(1) b(3)] by (simp add: algebra_simps)
qed

lemma finite_pool_blocks: "finite (pool_blocks p)"
  unfolding pool_blocks_def by (rule finite_subset [of _ "{..< length (fp_slabs p)} \<times> UNIV"]) auto

lemma pool_inv_live: "pool_inv L p \<Longrightarrow> finite L \<and> L \<subseteq> pool_blocks p"
  using finite_subset [OF _ finite_pool_blocks] by (auto simp: pool_inv_def dest: parts_live)

section \<open>The operations keep the partition\<close>

lemma pool_inv_allocate_slab:
  assumes "pool_inv L p"
  shows "pool_inv L (allocate_slab p) \<and> fp_global_free_blocks (allocate_slab p) \<noteq> []"
proof -
  let ?n = "length (fp_slabs p)" and ?bs = "fp_block_size p"
  let ?N = "map (\<lambda>k. (?n, of_nat k * ?bs)) [0 ..< unat (fp_blocks_per_slab p)]"
  have geom: "pool_geom p" using assms by (simp add: pool_inv_def)
  have inj: "inj_on (\<lambda>k. (?n, of_nat k * ?bs)) {0 ..< unat (fp_blocks_per_slab p)}"
    using block_offset [OF geom] block_size_pos [OF geom] by (intro inj_onI) (metis Pair_inject atLeastLessThan_iff mult_right_cancel nat_neq_iff)
  have "parts (fp_global_free_blocks p @ ?N) (fp_local_caches p) L (pool_blocks p \<union> set ?N)"
    using assms inj by (intro parts_new_blocks) (auto simp: pool_inv_def distinct_map pool_blocks_def)
  moreover have "pool_blocks (allocate_slab p) = pool_blocks p \<union> set ?N"
    by (auto simp: pool_blocks_def allocate_slab_def Let_def less_Suc_eq)
  ultimately show ?thesis
    using assms by (auto simp: pool_inv_def pool_geom_def allocate_slab_def Let_def word_neq_0_conv unat_gt_0)
qed

lemma cache_limit_pos: "pool_inv L p \<Longrightarrow> 0 < unat (fp_local_cache_limit p)"
  by (simp add: pool_inv_def pool_geom_def word_less_nat_alt)

text \<open>After a refill the cache has something to take, and less than its limit once that is taken.\<close>

lemma refill_local_cache_parts:
  assumes "pool_inv L p" "fp_local_caches p t = []"
  obtains p1 c b where "refill_local_cache t p = p1" "fp_local_caches p1 t = c @ [b]" "pool_geom p1"
    "parts (fp_global_free_blocks p1) (fp_local_caches p1) L (pool_blocks p1)"
    "fp_outstanding_blocks p1 = of_nat (card L)" "fp_slab_refills p1 = of_nat (length (fp_slabs p1))"
    "\<forall>t'. t' \<noteq> t \<longrightarrow> length (fp_local_caches p1 t') < unat (fp_local_cache_limit p1)"
    "length c < unat (fp_local_cache_limit p1)"
proof -
  define p0 where "p0 = (if fp_global_free_blocks p = [] then allocate_slab p else p)"
  have p0: "pool_inv L p0" "fp_global_free_blocks p0 \<noteq> []" "fp_local_caches p0 = fp_local_caches p"
    "fp_local_cache_limit p0 = fp_local_cache_limit p"
    using pool_inv_allocate_slab [OF assms(1)] assms(1) by (auto simp: p0_def allocate_slab_def Let_def)
  let ?G = "fp_global_free_blocks p0"
  let ?n = "min (unat (max (fp_local_cache_limit p div 2) 1)) (length ?G)"
  let ?k = "length ?G - ?n"
  let ?N = "rev (drop ?k ?G)"
  let ?p1 = "p0\<lparr>fp_global_free_blocks := take ?k ?G, fp_local_caches := (fp_local_caches p0)(t := ?N),
    fp_global_cache_hits := fp_global_cache_hits p0 + of_nat ?n\<rparr>"
  have eq: "refill_local_cache t p = ?p1"
    using move_back_eq [of ?n ?G "[]"] assms(2) p0(3) by (simp add: refill_local_cache_def Let_def flip: p0_def)
  have limit: "unat (max (fp_local_cache_limit p div 2) 1) \<le> unat (fp_local_cache_limit p)"
    "0 < unat (max (fp_local_cache_limit p div 2) 1)"
    using cache_limit_pos [OF assms(1)] by (auto simp: max_def unat_div word_le_nat_alt)
  have len: "length ?N = ?n" "0 < ?n" using limit p0(2) by auto
  then obtain c b where cb: "?N = c @ [b]" by (cases ?N rule: rev_exhaust) auto
  have "parts (take ?k ?G @ drop ?k ?G) ((fp_local_caches p0)(t := [])) L (pool_blocks p0)"
    using p0(1,3) assms(2) by (simp add: pool_inv_def fun_upd_idem)
  then have "parts (take ?k ?G) ((fp_local_caches p0)(t := ?N)) L (pool_blocks p0)"
    unfolding parts_move by simp
  moreover have "Suc (length c) = ?n" using arg_cong [OF cb, of length] len(1) by simp
  then have "length c < unat (fp_local_cache_limit p)" using limit(1) by linarith
  ultimately show thesis using that [OF eq, of c b] p0 cb
    by (simp add: pool_inv_def pool_geom_def pool_blocks_def)
qed

lemma pool_take:
  assumes "fp_local_caches p t = c @ [b]" "pool_geom p" "parts (fp_global_free_blocks p) (fp_local_caches p) L (pool_blocks p)"
    "fp_outstanding_blocks p = of_nat (card L)" "fp_slab_refills p = of_nat (length (fp_slabs p))"
    "\<forall>t'. t' \<noteq> t \<longrightarrow> length (fp_local_caches p t') < unat (fp_local_cache_limit p)"
    "length c < unat (fp_local_cache_limit p)"
  shows "b \<in> pool_blocks p \<and> b \<notin> L \<and>
    pool_inv (insert b L) (p\<lparr>fp_local_caches := (fp_local_caches p)(t := c), fp_local_cache_hits := h,
      fp_outstanding_blocks := fp_outstanding_blocks p + 1\<rparr>)"
proof -
  have "parts (fp_global_free_blocks p) ((fp_local_caches p)(t := c @ [b])) L (pool_blocks p)"
    using assms(1,3) by (metis fun_upd_triv)
  then have b: "b \<notin> L" "parts (fp_global_free_blocks p) ((fp_local_caches p)(t := c)) (insert b L) (pool_blocks p)"
    unfolding parts_cache_step by simp_all
  have "insert b L \<subseteq> pool_blocks p" using parts_live [OF b(2)] .
  then have "finite L" "b \<in> pool_blocks p" using finite_subset [OF _ finite_pool_blocks] by auto
  then show ?thesis using b assms by (auto simp: pool_inv_def pool_geom_def pool_blocks_def)
qed

lemma pool_inv_allocate:
  assumes "pool_inv L p"
  obtains b p' where "fp_allocate t p = Inr (b, p')" "b \<notin> L" "pool_inv (insert b L) p'" "b \<in> pool_blocks p'"
    "fp_block_size p' = fp_block_size p"
proof (cases "fp_local_caches p t = []")
  case True
  from refill_local_cache_parts [OF assms True] obtain p1 c b where p1: "refill_local_cache t p = p1"
    and c: "fp_local_caches p1 t = c @ [b]"
    and rest: "pool_geom p1" "parts (fp_global_free_blocks p1) (fp_local_caches p1) L (pool_blocks p1)"
    "fp_outstanding_blocks p1 = of_nat (card L)" "fp_slab_refills p1 = of_nat (length (fp_slabs p1))"
    "\<forall>t'. t' \<noteq> t \<longrightarrow> length (fp_local_caches p1 t') < unat (fp_local_cache_limit p1)"
    "length c < unat (fp_local_cache_limit p1)"
    by metis
  have size: "fp_block_size p1 = fp_block_size p"
    unfolding p1 [symmetric] by (auto simp: refill_local_cache_def allocate_slab_def Let_def split: prod.split)
  let ?p = "p1\<lparr>fp_local_caches := (fp_local_caches p1)(t := c), fp_outstanding_blocks := fp_outstanding_blocks p1 + 1\<rparr>"
  have "fp_allocate t p = Inr (b, ?p)" using True by (simp add: fp_allocate_def p1 c Let_def)
  then show thesis using pool_take [OF c rest, of "fp_local_cache_hits p1"] size
    by (intro that [of b ?p]) (auto simp: pool_blocks_def)
next
  case False
  then obtain c b where c: "fp_local_caches p t = c @ [b]" by (metis rev_exhaust)
  have "length c < unat (fp_local_cache_limit p)" using assms c by (metis Suc_lessD length_append_singleton pool_inv_def)
  note take = pool_take [OF c, of L "fp_local_cache_hits p + 1"]
  let ?p = "p\<lparr>fp_local_caches := (fp_local_caches p)(t := c), fp_local_cache_hits := fp_local_cache_hits p + 1,
    fp_outstanding_blocks := fp_outstanding_blocks p + 1\<rparr>"
  have "fp_allocate t p = Inr (b, ?p)" using c by (simp add: fp_allocate_def)
  moreover have "b \<in> pool_blocks p \<and> b \<notin> L \<and> pool_inv (insert b L) ?p"
    by (rule take) (use assms \<open>length c < unat (fp_local_cache_limit p)\<close> in \<open>auto simp: pool_inv_def\<close>)
  ultimately show thesis by (intro that [of b ?p]) (auto simp: pool_blocks_def)
qed

lemma pool_inv_deallocate:
  assumes "pool_inv L p" "b \<in> L"
  shows "pool_inv (L - {b}) (fp_deallocate t (Some b) p)"
proof -
  let ?c = "fp_local_caches p t @ [b]"
  let ?p1 = "p\<lparr>fp_local_caches := (fp_local_caches p)(t := ?c), fp_outstanding_blocks := fp_outstanding_blocks p - 1\<rparr>"
  have "parts (fp_global_free_blocks p) ((fp_local_caches p)(t := fp_local_caches p t)) (insert b (L - {b})) (pool_blocks p)"
    using assms by (simp add: pool_inv_def insert_absorb)
  then have parts: "parts (fp_global_free_blocks p) ((fp_local_caches p)(t := ?c)) (L - {b}) (pool_blocks p)"
    unfolding parts_cache_step by simp
  have "finite L" using pool_inv_live [OF assms(1)] by simp
  then have card: "fp_outstanding_blocks p - 1 = of_nat (card (L - {b}))"
    using assms unfolding pool_inv_def by (subst (asm) card.remove [of L b]) simp_all
  let ?k = "unat (fp_local_cache_limit p div 2)"
  have k: "?k < unat (fp_local_cache_limit p)" using cache_limit_pos [OF assms(1)] by (simp add: unat_div)
  have flush: "parts (fp_global_free_blocks p @ rev (drop ?k ?c)) ((fp_local_caches p)(t := take ?k ?c)) (L - {b}) (pool_blocks p)"
    unfolding parts_move rev_rev_ident append_take_drop_id by (rule parts)
  show ?thesis
  proof (cases "length ?c \<ge> unat (fp_local_cache_limit p)")
    case True
    then have "move_back (length ?c - ?k) ?c (fp_global_free_blocks p) = (take ?k ?c, fp_global_free_blocks p @ rev (drop ?k ?c))"
      using k by (subst move_back_eq) auto
    then have "fp_deallocate t (Some b) p = ?p1\<lparr>fp_global_free_blocks := fp_global_free_blocks p @ rev (drop ?k ?c),
        fp_local_caches := (fp_local_caches p)(t := take ?k ?c)\<rparr>"
      using True by (simp add: fp_deallocate_def flush_local_cache_def Let_def)
    then show ?thesis using flush card k assms(1) by (auto simp: pool_inv_def pool_geom_def pool_blocks_def)
  next
    case False
    then have "fp_deallocate t (Some b) p = ?p1" by (simp add: fp_deallocate_def Let_def)
    then show ?thesis using parts card False assms(1) by (auto simp: pool_inv_def pool_geom_def pool_blocks_def)
  qed
qed

section \<open>The allocator interface\<close>

text \<open>What the object pool relies on: a set of live blocks is kept, an allocation succeeds with a block that is not live,
  and a live block can be returned.\<close>

locale block_allocator =
  fixes alloc :: "'t \<Rightarrow> 's \<Rightarrow> 'e + 'b \<times> 's"
    and free :: "'t \<Rightarrow> 'b option \<Rightarrow> 's \<Rightarrow> 's"
    and inv :: "'b set \<Rightarrow> 's \<Rightarrow> bool"
  assumes alloc_law: "inv L s \<Longrightarrow> \<exists>b s'. alloc t s = Inr (b, s') \<and> b \<notin> L \<and> inv (insert b L) s'"
    and free_law: "inv L s \<Longrightarrow> b \<in> L \<Longrightarrow> inv (L - {b}) (free t (Some b) s)"
begin

lemma alloc_fresh:
  "inv L s \<Longrightarrow> alloc t s = Inr (b, s') \<Longrightarrow> b \<notin> L \<and> inv (insert b L) s'"
  using alloc_law [of L s t] by auto

end

interpretation fp: block_allocator fp_allocate fp_deallocate pool_inv
proof
  show "\<exists>b s'. fp_allocate t s = Inr (b, s') \<and> b \<notin> L \<and> pool_inv (insert b L) s'" if "pool_inv L s" for L s t
    using pool_inv_allocate [OF that, of t] by metis
qed (rule pool_inv_deallocate)

text \<open>The objects of an object pool live in the blocks handed out.\<close>

definition op_inv :: "'a ObjectPool \<Rightarrow> bool" where
  "op_inv p \<longleftrightarrow> pool_inv (dom (op_objects p)) (op_storage p)"

lemma op_create_fresh:
  assumes "op_inv p"
  obtains b p' where "op_create t x p = Inr (b, p')" "b \<notin> dom (op_objects p)" "op_objects p' = (op_objects p)(b \<mapsto> x)" "op_inv p'"
proof -
  obtain b s where s: "fp_allocate t (op_storage p) = Inr (b, s)" using fp.alloc_law assms by (metis op_inv_def)
  from fp.alloc_fresh [OF assms [unfolded op_inv_def] this]
  show thesis using s by (intro that [of b "p\<lparr>op_storage := s, op_objects := (op_objects p)(b \<mapsto> x)\<rparr>"])
    (auto simp: op_create_def op_inv_def)
qed

lemma op_destroy_inv:
  assumes "op_inv p" "b \<in> dom (op_objects p)"
  shows "op_inv (op_destroy t (Some b) p) \<and> op_objects (op_destroy t (Some b) p) = (op_objects p)(b := None)"
  using fp.free_law [of "dom (op_objects p)" "op_storage p" b t] assms by (simp add: op_inv_def op_destroy_def dom_fun_upd)

text \<open>What the owners of an object pool rely on: a new object gets an address of its own, and a live object can be destroyed.\<close>

locale object_store =
  fixes create :: "'t \<Rightarrow> 'a \<Rightarrow> 'p \<Rightarrow> 'e + 'b \<times> 'p"
    and destroy :: "'t \<Rightarrow> 'b option \<Rightarrow> 'p \<Rightarrow> 'p"
    and objects :: "'p \<Rightarrow> 'b \<rightharpoonup> 'a"
    and inv :: "'p \<Rightarrow> bool"
  assumes create_law: "inv p \<Longrightarrow> \<exists>b p'. create t x p = Inr (b, p') \<and> b \<notin> dom (objects p) \<and> objects p' = (objects p)(b \<mapsto> x) \<and> inv p'"
    and destroy_law: "inv p \<Longrightarrow> b \<in> dom (objects p) \<Longrightarrow> inv (destroy t (Some b) p) \<and> objects (destroy t (Some b) p) = (objects p)(b := None)"
begin

lemma destroy_all:
  assumes "inv p" "distinct bs" "set bs = dom (objects p)"
  shows "objects (fold (\<lambda>b. destroy t (Some b)) bs p) = Map.empty"
  using assms
proof (induction bs arbitrary: p)
  case Nil
  then have "dom (objects p) = {}" by simp
  then show ?case by simp
next
  case (Cons b bs)
  have b: "b \<in> dom (objects p)" "b \<notin> set bs" using Cons.prems(2,3) by auto
  have "set bs = dom ((objects p)(b := None))" using Cons.prems(3) b(2) by auto
  then have "inv (destroy t (Some b) p)" "set bs = dom (objects (destroy t (Some b) p))"
    using destroy_law [OF Cons.prems(1) b(1), of t] by metis+
  then show ?case using Cons.IH Cons.prems(2) by simp
qed

end

interpretation op: object_store op_create op_destroy op_objects op_inv
proof
  show "\<exists>b p'. op_create t x p = Inr (b, p') \<and> b \<notin> dom (op_objects p) \<and> op_objects p' = (op_objects p)(b \<mapsto> x) \<and> op_inv p'"
    if "op_inv p" for p :: "'a ObjectPool" and t x
    using op_create_fresh [OF that, of t x] by metis
qed (rule op_destroy_inv)

lemma pool_inv_new:
  assumes "new_FixedBlockPool sz n limit = Inr p" "unat (max sz 8) * unat n < 2 ^ 64"
  shows "pool_inv {} p"
  using assms by (auto simp: new_FixedBlockPool_def pool_inv_def pool_geom_def parts_def pool_blocks_def
      word_neq_0_conv word_less_nat_alt split: if_splits)

lemma op_inv_new:
  assumes "new_ObjectPool sz n limit = Inr p" "unat (max sz 8) * unat n < 2 ^ 64"
  shows "op_inv p" "op_objects p = Map.empty"
  using assms pool_inv_new by (auto simp: new_ObjectPool_def op_inv_def split: sum.splits)

section \<open>Properties\<close>

text \<open>C30: Allocation is memory safe and never runs dry: on every thread, with the blocks in \<open>L\<close> handed out,
  \<open>allocate\<close> returns a block that lies inside one slab and shares no byte with a live block, and the counters follow.
  Returning a live block keeps the pool consistent, and a null pointer is ignored.\<close>

theorem pool_allocate_safe:
  assumes "pool_inv L p"
  shows "(\<exists>b p'. fp_allocate t p = Inr (b, p') \<and> b \<notin> L \<and> pool_inv (insert b L) p' \<and>
      fst b < length (fp_slabs p') \<and> unat (snd b) + unat (fp_block_size p') \<le> unat (fp_slabs p' ! fst b) \<and>
      (\<forall>c \<in> L. block_bytes p' b \<inter> block_bytes p' c = {}) \<and>
      ps_outstanding_blocks (fp_stats p') = of_nat (card L + 1)) \<and>
    (\<forall>b \<in> L. pool_inv (L - {b}) (fp_deallocate t (Some b) p)) \<and> fp_deallocate t None p = p"
proof -
  obtain b p' where b: "fp_allocate t p = Inr (b, p')" "b \<notin> L" "pool_inv (insert b L) p'" "b \<in> pool_blocks p'"
    using pool_inv_allocate [OF assms, of t] by metis
  have geom: "pool_geom p'" using b(3) by (simp add: pool_inv_def)
  have live: "L \<subseteq> pool_blocks p'" "finite L" using pool_inv_live [OF b(3)] by auto
  have "\<forall>c \<in> L. block_bytes p' b \<inter> block_bytes p' c = {}"
    using block_bytes_disjoint [OF geom b(4)] live b(2) by blast
  moreover have "ps_outstanding_blocks (fp_stats p') = of_nat (card L + 1)"
    using b(2,3) live by (simp add: pool_inv_def fp_stats_def)
  ultimately show ?thesis
    using b block_bytes_in_slab [OF geom b(4)] pool_inv_deallocate [OF assms] by (auto simp: fp_deallocate_def)
qed

theorem pool_allocate_safe_witness:
  "\<exists>p b p'. new_FixedBlockPool 24 4 2 = Inr p \<and> fp_allocate 0 p = Inr (b, p') \<and> pool_inv {b} p'"
proof -
  obtain p where p: "new_FixedBlockPool 24 4 2 = Inr p" by (simp add: new_FixedBlockPool_def)
  have "pool_inv {} p" using p by (rule pool_inv_new) (simp add: max_def)
  with pool_allocate_safe [of "{}" p 0] p show ?thesis by auto
qed

text \<open>The object pool is a heap: whatever the order of creations and destructions on whatever threads, a new object gets
  an address of its own, every other object keeps its address and value, and a destroyed object is gone while the others stay. A
  pool built by the constructor satisfies the invariant if one slab fits into the address space.\<close>

theorem object_pool_is_heap:
  assumes "op_inv p"
  shows "(\<exists>b p'. op_create t x p = Inr (b, p') \<and> op_objects p b = None \<and> op_objects p' = (op_objects p)(b \<mapsto> x) \<and> op_inv p') \<and>
    (\<forall>b \<in> dom (op_objects p). op_inv (op_destroy t (Some b) p) \<and> op_objects (op_destroy t (Some b) p) = (op_objects p)(b := None)) \<and>
    (\<forall>sz n limit (q :: 'b ObjectPool). new_ObjectPool sz n limit = Inr q \<and> unat (max sz 8) * unat n < 2 ^ 64 \<longrightarrow>
       op_inv q \<and> op_objects q = Map.empty)"
  using op_create_fresh [OF assms, of t x] op_destroy_inv [OF assms] op_inv_new by (metis domIff)

theorem object_pool_is_heap_witness:
  "\<exists>(p :: nat ObjectPool) b p'. new_ObjectPool 8 256 64 = Inr p \<and> op_create 3 (5 :: nat) p = Inr (b, p') \<and> op_objects p' b = Some 5"
proof -
  obtain p :: "nat ObjectPool" where p: "new_ObjectPool 8 256 64 = Inr p"
    by (simp add: new_ObjectPool_def new_FixedBlockPool_def)
  then have "op_inv p" by (rule op_inv_new) simp
  with object_pool_is_heap [of p 3 5] p show ?thesis by fastforce
qed

text \<open>The stale cache of another thread: thread 1 has freed a block into its cache when thread 0 destroys the pool. A new pool at the
  same address hands the block of the freed slab to thread 1, although it has no slab at all.\<close>

lemma stale_cache_after_destroy:
  "case new_FixedBlockPool 16 4 2 of Inl _ \<Rightarrow> False
   | Inr p \<Rightarrow> (case fp_allocate 1 p of Inl _ \<Rightarrow> False
   | Inr (b, p1) \<Rightarrow> (case fp_allocate 1 (at_same_address (destroy_FixedBlockPool 0 (fp_deallocate 1 (Some b) p1)) p) of Inl _ \<Rightarrow> False
   | Inr (c, p2) \<Rightarrow> c = b \<and> fp_slabs p2 = []))"
  by code_simp

end
