(* ===== verification/Matching.thy ===== *)
theory Matching
  imports Depth_Book Cxx_Text Broadcaster Ring_Queue Block_Pool
    "HOL-Library.List_Lexorder" "HOL-Library.Char_ord"
begin

text \<open>
  The matching engine of \<open>core-exchange/orderbook-matching-engine\<close>. Resting orders are objects of an
  \<open>ObjectPool\<close>; the two books map prices to queues of pointers, \<open>live_orders_\<close> maps order ids to pointers.
  Every operation also maintains the aggregated depth book, publishes to the broadcaster and pushes to the event ring.

  An operation returns \<open>None\<close> where the program would have no defined result: a dangling pointer, the front of an
  empty queue, an exception of the pool, or a matching loop that does not end. The header of the proofs
  (\<open>Matching_Props\<close>) shows that this does not happen.
\<close>

section \<open>Types\<close>

datatype Side = kBuy | kSell

datatype OrderType = kLimit | kMarket

datatype TimeInForce = kGtc | kIoc | kFok | kGtx

datatype OrderStatus = kAccepted | kPartiallyFilled | kFilled | kCancelled | kRejected

datatype RejectReason = kNone | kDuplicateOrderId | kWouldCrossPostOnly | kInsufficientLiquidity | kMarketOrderWouldRest
  | kOrderNotFound

record OrderRequest =
  oq_order_id :: string
  oq_side :: Side
  oq_type :: OrderType
  oq_tif :: TimeInForce
  oq_price :: double
  oq_quantity :: double
  oq_timestamp :: u64

record Trade =
  tr_maker_order_id :: string
  tr_taker_order_id :: string
  tr_price :: double
  tr_quantity :: double

record MatchResult =
  mr_accepted :: bool
  mr_final_status :: OrderStatus
  mr_reject_reason :: RejectReason
  mr_executed_quantity :: double
  mr_remaining_quantity :: double
  mr_trades :: "Trade list"

record RestingOrderView =
  rv_order_id :: string
  rv_side :: Side
  rv_price :: double
  rv_open_quantity :: double

record EngineEvent =
  ev_topic :: string
  ev_payload :: string

record RestingOrder =
  ro_order_id :: string
  ro_side :: Side
  ro_price :: double
  ro_open_quantity :: double
  ro_timestamp :: u64

type_synonym OrderQueue = "block list"
type_synonym OrderBook = "(double \<times> OrderQueue) list"

record OrderbookMatchingEngine =
  me_symbol :: string
  me_order_pool :: "RestingOrder ObjectPool"
  me_bids :: OrderBook
  me_asks :: OrderBook
  me_live_orders :: "(string \<times> block) list"
  me_depth_book :: DepthBook
  me_broadcaster :: MarketDataBroadcaster
  me_event_queue :: "EngineEvent SpscRingQueue"

section \<open>Helpers\<close>

definition kPriceEpsilon :: double where
  "kPriceEpsilon = dbl (1 / 1000000000)"

definition quantity_is_zero :: "double \<Rightarrow> bool" where
  "quantity_is_zero v = (\<bar>v\<bar> \<le> kPriceEpsilon)"

fun order_status_to_string :: "OrderStatus \<Rightarrow> string" where
  "order_status_to_string kAccepted = ''accepted''"
| "order_status_to_string kPartiallyFilled = ''partially_filled''"
| "order_status_to_string kFilled = ''filled''"
| "order_status_to_string kCancelled = ''cancelled''"
| "order_status_to_string kRejected = ''rejected''"

fun reject_reason_to_string :: "RejectReason \<Rightarrow> string" where
  "reject_reason_to_string kNone = ''none''"
| "reject_reason_to_string kDuplicateOrderId = ''duplicate_order_id''"
| "reject_reason_to_string kWouldCrossPostOnly = ''would_cross_post_only''"
| "reject_reason_to_string kInsufficientLiquidity = ''insufficient_liquidity''"
| "reject_reason_to_string kMarketOrderWouldRest = ''market_order_would_rest''"
| "reject_reason_to_string kOrderNotFound = ''order_not_found''"

definition format_trade_payload :: "Trade \<Rightarrow> string" where
  "format_trade_payload trade =
     ''maker='' @ tr_maker_order_id trade @ '',taker='' @ tr_taker_order_id trade @ '',price='' @ show_double (tr_price trade) @
     '',qty='' @ show_double (tr_quantity trade)"

datatype engine_error = EnginePool pool_error | EngineQueue ring_error | EngineEmptySymbol

text \<open>The constructor; \<open>sizeof(RestingOrder)\<close> is the platform's.\<close>

definition new_OrderbookMatchingEngine :: "u64 \<Rightarrow> string \<Rightarrow> u64 \<Rightarrow> engine_error + OrderbookMatchingEngine" where
  "new_OrderbookMatchingEngine sizeof_RestingOrder symbol event_queue_capacity =
     (case new_ObjectPool sizeof_RestingOrder 1024 128 of
        Inl e \<Rightarrow> Inl (EnginePool e)
      | Inr pool \<Rightarrow>
     (case new_SpscRingQueue event_queue_capacity of
        Inl e \<Rightarrow> Inl (EngineQueue e)
      | Inr queue \<Rightarrow>
          if symbol = [] then Inl EngineEmptySymbol
          else Inr \<lparr>me_symbol = symbol, me_order_pool = pool, me_bids = [], me_asks = [], me_live_orders = [],
            me_depth_book = new_DepthBook symbol, me_broadcaster = new_MarketDataBroadcaster, me_event_queue = queue\<rparr>))"

section \<open>Events\<close>

definition publish_market_data :: "string \<Rightarrow> string \<Rightarrow> OrderbookMatchingEngine \<Rightarrow> OrderbookMatchingEngine" where
  "publish_market_data topic payload e = e\<lparr>me_broadcaster := snd (bc_publish topic payload (me_broadcaster e))\<rparr>"

definition push_event :: "EngineEvent \<Rightarrow> OrderbookMatchingEngine \<Rightarrow> OrderbookMatchingEngine" where
  "push_event ev e = e\<lparr>me_event_queue := snd (rq_push ev (me_event_queue e))\<rparr>"

definition emit_order_event ::
  "string \<Rightarrow> OrderStatus \<Rightarrow> RejectReason \<Rightarrow> double \<Rightarrow> OrderbookMatchingEngine \<Rightarrow> OrderbookMatchingEngine" where
  "emit_order_event order_id status reason open_quantity e =
     (let event_payload = ''order_id='' @ order_id @ '',status='' @ order_status_to_string status @
            '',reason='' @ reject_reason_to_string reason @ '',open_qty='' @ show_double open_quantity
      in push_event \<lparr>ev_topic = ''orders'', ev_payload = event_payload\<rparr>
           (publish_market_data (''orders.'' @ me_symbol e) event_payload e))"

definition emit_trade_event :: "Trade \<Rightarrow> OrderbookMatchingEngine \<Rightarrow> OrderbookMatchingEngine" where
  "emit_trade_event trade e =
     (let payload = format_trade_payload trade
      in push_event \<lparr>ev_topic = ''trades'', ev_payload = payload\<rparr>
           (publish_market_data (''trades.'' @ me_symbol e) payload e))"

definition emit_depth_event :: "OrderbookMatchingEngine \<Rightarrow> OrderbookMatchingEngine" where
  "emit_depth_event e =
     (let top_levels = db_snapshot 5 (me_depth_book e);
          event_payload = ''bids='' @ show_nat (length (ds_bids top_levels)) @ '',asks='' @ show_nat (length (ds_asks top_levels))
      in push_event \<lparr>ev_topic = ''depth'', ev_payload = event_payload\<rparr>
           (publish_market_data (''depth.'' @ me_symbol e) event_payload e))"

definition depth_update :: "md_Side \<Rightarrow> double \<Rightarrow> double \<Rightarrow> OrderbookMatchingEngine \<Rightarrow> OrderbookMatchingEngine" where
  "depth_update side price quantity e = e\<lparr>me_depth_book := snd (db_update side price quantity (me_depth_book e))\<rparr>"

section \<open>The books\<close>

definition deref :: "OrderbookMatchingEngine \<Rightarrow> block \<Rightarrow> RestingOrder option" where
  "deref e ptr = op_objects (me_order_pool e) ptr"

definition store_order :: "block \<Rightarrow> RestingOrder \<Rightarrow> OrderbookMatchingEngine \<Rightarrow> OrderbookMatchingEngine" where
  "store_order ptr order e =
     e\<lparr>me_order_pool := (me_order_pool e)\<lparr>op_objects := (op_objects (me_order_pool e))(ptr \<mapsto> order)\<rparr>\<rparr>"

definition has_best_bid :: "OrderbookMatchingEngine \<Rightarrow> bool" where
  "has_best_bid e = (me_bids e \<noteq> [])"

definition has_best_ask :: "OrderbookMatchingEngine \<Rightarrow> bool" where
  "has_best_ask e = (me_asks e \<noteq> [])"

definition best_bid :: "OrderbookMatchingEngine \<Rightarrow> double" where
  "best_bid e = (case me_bids e of [] \<Rightarrow> 0 | (price, _) # _ \<Rightarrow> price)"

definition best_ask :: "OrderbookMatchingEngine \<Rightarrow> double" where
  "best_ask e = (case me_asks e of [] \<Rightarrow> 0 | (price, _) # _ \<Rightarrow> price)"

definition would_cross :: "OrderRequest \<Rightarrow> OrderbookMatchingEngine \<Rightarrow> bool" where
  "would_cross request e =
     (if oq_side request = kBuy then has_best_ask e \<and> best_ask e \<le> oq_price request + kPriceEpsilon
      else has_best_bid e \<and> oq_price request \<le> best_bid e + kPriceEpsilon)"

text \<open>The sum of the open quantities of a queue, as the code's loops compute it.\<close>

fun aggregate_loop :: "OrderbookMatchingEngine \<Rightarrow> OrderQueue \<Rightarrow> double \<Rightarrow> double option" where
  "aggregate_loop e [] acc = Some acc"
| "aggregate_loop e (queued # queue) acc =
     do { order \<leftarrow> deref e queued; aggregate_loop e queue (acc + ro_open_quantity order) }"

text \<open>\<open>can_fill_fully\<close>: \<open>Inl\<close> is the early return, \<open>Inr\<close> the remaining quantity. The two directions differ in the book
  and in the price test, which is a parameter here.\<close>

fun fill_queue_loop :: "OrderbookMatchingEngine \<Rightarrow> OrderQueue \<Rightarrow> double \<Rightarrow> (bool + double) option" where
  "fill_queue_loop e [] remaining = Some (Inr remaining)"
| "fill_queue_loop e (ptr # queue) remaining =
     do { order \<leftarrow> deref e ptr;
          let remaining' = remaining - ro_open_quantity order;
          if remaining' \<le> kPriceEpsilon then Some (Inl True) else fill_queue_loop e queue remaining' }"

fun fill_book_loop ::
  "OrderbookMatchingEngine \<Rightarrow> (double \<Rightarrow> bool) \<Rightarrow> OrderBook \<Rightarrow> double \<Rightarrow> bool option" where
  "fill_book_loop e beyond [] remaining = Some (remaining \<le> kPriceEpsilon)"
| "fill_book_loop e beyond ((price, orders) # book) remaining =
     (if beyond price then Some (remaining \<le> kPriceEpsilon)
      else do { r \<leftarrow> fill_queue_loop e orders remaining;
                case r of Inl b \<Rightarrow> Some b | Inr remaining' \<Rightarrow> fill_book_loop e beyond book remaining' })"

definition ask_beyond :: "OrderRequest \<Rightarrow> double \<Rightarrow> bool" where
  "ask_beyond request price = (oq_type request = kLimit \<and> kPriceEpsilon < price - oq_price request)"

definition bid_beyond :: "OrderRequest \<Rightarrow> double \<Rightarrow> bool" where
  "bid_beyond request price = (oq_type request = kLimit \<and> kPriceEpsilon < oq_price request - price)"

definition can_fill_fully :: "OrderRequest \<Rightarrow> OrderbookMatchingEngine \<Rightarrow> bool option" where
  "can_fill_fully request e =
     (if oq_side request = kBuy then fill_book_loop e (ask_beyond request) (me_asks e) (oq_quantity request)
      else fill_book_loop e (bid_beyond request) (me_bids e) (oq_quantity request))"

text \<open>\<open>book[price].push_back(order)\<close>.\<close>

definition book_push :: "(double \<Rightarrow> double \<Rightarrow> bool) \<Rightarrow> double \<Rightarrow> block \<Rightarrow> OrderBook \<Rightarrow> OrderBook" where
  "book_push lt price ptr book =
     omap_put lt price ((case omap_find lt price book of None \<Rightarrow> [] | Some queue \<Rightarrow> queue) @ [ptr]) book"

definition add_resting_order :: "OrderRequest \<Rightarrow> double \<Rightarrow> OrderbookMatchingEngine \<Rightarrow> OrderbookMatchingEngine option" where
  "add_resting_order request remaining_quantity e =
     (let order = \<lparr>ro_order_id = oq_order_id request, ro_side = oq_side request, ro_price = oq_price request,
                   ro_open_quantity = remaining_quantity, ro_timestamp = oq_timestamp request\<rparr>
      in case op_create 0 order (me_order_pool e) of
           Inl _ \<Rightarrow> None
         | Inr (ptr, pool) \<Rightarrow>
             let e1 = e\<lparr>me_order_pool := pool\<rparr>;
                 e2 = (if map_of (me_live_orders e1) (ro_order_id order) = None
                       then e1\<lparr>me_live_orders := (ro_order_id order, ptr) # me_live_orders e1\<rparr> else e1);
                 e3 = (if ro_side order = kBuy
                       then e2\<lparr>me_bids := book_push double_greater (ro_price order) ptr (me_bids e2)\<rparr>
                       else e2\<lparr>me_asks := book_push (<) (ro_price order) ptr (me_asks e2)\<rparr>);
                 e4 = depth_update (if ro_side order = kBuy then kBid else kAsk) (ro_price order) (ro_open_quantity order) e3
             in Some (emit_depth_event e4))"

text \<open>The generic lambda \<open>remove_from_book\<close>: the new book and the engine with its depth book updated.\<close>

definition remove_from_book ::
  "(double \<Rightarrow> double \<Rightarrow> bool) \<Rightarrow> md_Side \<Rightarrow> block \<Rightarrow> RestingOrder \<Rightarrow> OrderBook \<Rightarrow> OrderbookMatchingEngine \<Rightarrow>
    (OrderBook \<times> OrderbookMatchingEngine) option" where
  "remove_from_book lt depth_side ptr order book e =
     (case omap_find lt (ro_price order) book of
        None \<Rightarrow> Some (book, e)
      | Some queue \<Rightarrow>
          let queue' = remove1 ptr queue in
          do { aggregate_quantity \<leftarrow> aggregate_loop e queue' 0;
               Some (if queue' = [] then omap_erase lt (ro_price order) book else omap_put lt (ro_price order) queue' book,
                     depth_update depth_side (ro_price order) aggregate_quantity e) })"

definition remove_resting_order :: "block \<Rightarrow> OrderbookMatchingEngine \<Rightarrow> OrderbookMatchingEngine option" where
  "remove_resting_order ptr e =
     do { order \<leftarrow> deref e ptr;
          e1 \<leftarrow> (if ro_side order = kBuy
                then map_option (\<lambda>(book, e'). e'\<lparr>me_bids := book\<rparr>)
                       (remove_from_book double_greater kBid ptr order (me_bids e) e)
                else map_option (\<lambda>(book, e'). e'\<lparr>me_asks := book\<rparr>)
                       (remove_from_book (<) kAsk ptr order (me_asks e) e));
          let e2 = e1\<lparr>me_live_orders := AList.delete (ro_order_id order) (me_live_orders e1)\<rparr>;
          Some (emit_depth_event (e2\<lparr>me_order_pool := op_destroy 0 (Some ptr) (me_order_pool e2)\<rparr>)) }"

section \<open>Matching\<close>

text \<open>The body of the matching loops, the same for both sides but for the side of the depth update.\<close>

definition match_maker ::
  "md_Side \<Rightarrow> OrderRequest \<Rightarrow> OrderQueue \<Rightarrow> double \<times> MatchResult \<times> OrderbookMatchingEngine \<Rightarrow>
    (double \<times> MatchResult \<times> OrderbookMatchingEngine) option" where
  "match_maker depth_side request queue st =
     (case (queue, st) of
        ([], _) \<Rightarrow> None
      | (maker_ptr # _, (remaining_quantity, result, e)) \<Rightarrow>
          do { maker0 \<leftarrow> deref e maker_ptr;
               let fill_quantity = std_min remaining_quantity (ro_open_quantity maker0);
               let maker = maker0\<lparr>ro_open_quantity := ro_open_quantity maker0 - fill_quantity\<rparr>;
               let e1 = store_order maker_ptr maker e;
               let remaining' = remaining_quantity - fill_quantity;
               let trade = \<lparr>tr_maker_order_id = ro_order_id maker, tr_taker_order_id = oq_order_id request,
                            tr_price = ro_price maker, tr_quantity = fill_quantity\<rparr>;
               let result' = result\<lparr>mr_trades := mr_trades result @ [trade]\<rparr>;
               let e2 = emit_trade_event trade e1;
               e3 \<leftarrow> (if ro_open_quantity maker \<le> kPriceEpsilon
                     then remove_resting_order maker_ptr (emit_order_event (ro_order_id maker) kFilled kNone 0 e2)
                     else do { aggregate_quantity \<leftarrow> aggregate_loop e2 queue 0;
                               Some (emit_depth_event (emit_order_event (ro_order_id maker) kPartiallyFilled kNone
                                 (ro_open_quantity maker) (depth_update depth_side (ro_price maker) aggregate_quantity e2))) });
               Some (remaining', result', e3) })"

partial_function (option) match_against_asks ::
  "OrderRequest \<Rightarrow> double \<times> MatchResult \<times> OrderbookMatchingEngine \<Rightarrow>
    (double \<times> MatchResult \<times> OrderbookMatchingEngine) option" where
  "match_against_asks request st =
     (case (me_asks (snd (snd st))) of
        [] \<Rightarrow> Some st
      | (level_price, queue) # _ \<Rightarrow>
          if \<not> kPriceEpsilon < fst st then Some st
          else if oq_type request = kLimit \<and> kPriceEpsilon < level_price - oq_price request then Some st
          else do { st' \<leftarrow> match_maker kAsk request queue st; match_against_asks request st' })"

partial_function (option) match_against_bids ::
  "OrderRequest \<Rightarrow> double \<times> MatchResult \<times> OrderbookMatchingEngine \<Rightarrow>
    (double \<times> MatchResult \<times> OrderbookMatchingEngine) option" where
  "match_against_bids request st =
     (case (me_bids (snd (snd st))) of
        [] \<Rightarrow> Some st
      | (level_price, queue) # _ \<Rightarrow>
          if \<not> kPriceEpsilon < fst st then Some st
          else if oq_type request = kLimit \<and> kPriceEpsilon < oq_price request - level_price then Some st
          else do { st' \<leftarrow> match_maker kBid request queue st; match_against_bids request st' })"

definition match_request ::
  "OrderRequest \<Rightarrow> double \<times> MatchResult \<times> OrderbookMatchingEngine \<Rightarrow>
    (double \<times> MatchResult \<times> OrderbookMatchingEngine) option" where
  "match_request request st = (if oq_side request = kBuy then match_against_asks request st else match_against_bids request st)"

definition make_rejected_result :: "RejectReason \<Rightarrow> double \<Rightarrow> MatchResult" where
  "make_rejected_result reason remaining_quantity =
     \<lparr>mr_accepted = False, mr_final_status = kRejected, mr_reject_reason = reason, mr_executed_quantity = 0,
      mr_remaining_quantity = remaining_quantity, mr_trades = []\<rparr>"

definition make_accepted_result :: "double \<Rightarrow> MatchResult" where
  "make_accepted_result requested_quantity =
     \<lparr>mr_accepted = True, mr_final_status = kAccepted, mr_reject_reason = kNone, mr_executed_quantity = 0,
      mr_remaining_quantity = requested_quantity, mr_trades = []\<rparr>"

definition finalize_limit_result ::
  "OrderRequest \<Rightarrow> double \<times> MatchResult \<times> OrderbookMatchingEngine \<Rightarrow> (MatchResult \<times> OrderbookMatchingEngine) option" where
  "finalize_limit_result request st =
     (let (remaining_quantity, result0, e) = st;
          result = result0\<lparr>mr_executed_quantity := oq_quantity request - remaining_quantity,
                           mr_remaining_quantity := remaining_quantity\<rparr>;
          executed = mr_executed_quantity result
      in if quantity_is_zero remaining_quantity
         then let status = (if 0 < executed then kFilled else kAccepted)
              in Some (result\<lparr>mr_final_status := status\<rparr>, emit_order_event (oq_order_id request) status kNone 0 e)
         else if oq_tif request = kIoc
         then let status = (if 0 < executed then kPartiallyFilled else kCancelled)
              in Some (result\<lparr>mr_final_status := status\<rparr>,
                       emit_order_event (oq_order_id request) status kNone remaining_quantity e)
         else do { e1 \<leftarrow> add_resting_order request remaining_quantity e;
                   let status = (if 0 < executed then kPartiallyFilled else kAccepted);
                   Some (result\<lparr>mr_final_status := status\<rparr>,
                         emit_order_event (oq_order_id request) status kNone remaining_quantity e1) })"

definition finalize_market_result ::
  "OrderRequest \<Rightarrow> double \<times> MatchResult \<times> OrderbookMatchingEngine \<Rightarrow> MatchResult \<times> OrderbookMatchingEngine" where
  "finalize_market_result request st =
     (let (remaining_quantity, result0, e) = st;
          result = result0\<lparr>mr_executed_quantity := oq_quantity request - remaining_quantity,
                           mr_remaining_quantity := remaining_quantity\<rparr>;
          executed = mr_executed_quantity result
      in if quantity_is_zero remaining_quantity
         then (result\<lparr>mr_final_status := kFilled\<rparr>, emit_order_event (oq_order_id request) kFilled kNone 0 e)
         else if oq_tif request = kIoc \<or> 0 < executed
         then let status = (if 0 < executed then kPartiallyFilled else kCancelled)
              in (result\<lparr>mr_final_status := status\<rparr>,
                  emit_order_event (oq_order_id request) status kNone remaining_quantity e)
         else (result\<lparr>mr_accepted := False, mr_final_status := kRejected, mr_reject_reason := kMarketOrderWouldRest\<rparr>,
               emit_order_event (oq_order_id request) kRejected kMarketOrderWouldRest remaining_quantity e))"

section \<open>Requests\<close>

definition handle_limit_order ::
  "OrderRequest \<Rightarrow> OrderbookMatchingEngine \<Rightarrow> (MatchResult \<times> OrderbookMatchingEngine) option" where
  "handle_limit_order request e =
     (if oq_tif request = kGtx \<and> would_cross request e
      then Some (make_rejected_result kWouldCrossPostOnly (oq_quantity request),
                 emit_order_event (oq_order_id request) kRejected kWouldCrossPostOnly (oq_quantity request) e)
      else do { fillable \<leftarrow> (if oq_tif request = kFok then can_fill_fully request e else Some True);
                if \<not> fillable
                then Some (make_rejected_result kInsufficientLiquidity (oq_quantity request),
                           emit_order_event (oq_order_id request) kRejected kInsufficientLiquidity (oq_quantity request) e)
                else do { st \<leftarrow> match_request request
                            (oq_quantity request, make_accepted_result (oq_quantity request), e);
                          finalize_limit_result request st } })"

definition handle_market_order ::
  "OrderRequest \<Rightarrow> OrderbookMatchingEngine \<Rightarrow> (MatchResult \<times> OrderbookMatchingEngine) option" where
  "handle_market_order request e =
     do { fillable \<leftarrow> (if oq_tif request = kFok then can_fill_fully request e else Some True);
          if \<not> fillable
          then Some (make_rejected_result kInsufficientLiquidity (oq_quantity request),
                     emit_order_event (oq_order_id request) kRejected kInsufficientLiquidity (oq_quantity request) e)
          else do { st \<leftarrow> match_request request (oq_quantity request, make_accepted_result (oq_quantity request), e);
                    Some (finalize_market_result request st) } }"

definition me_submit :: "OrderRequest \<Rightarrow> OrderbookMatchingEngine \<Rightarrow> (MatchResult \<times> OrderbookMatchingEngine) option" where
  "me_submit request e =
     (if oq_order_id request = [] \<or> oq_quantity request \<le> 0
      then Some (make_rejected_result kInsufficientLiquidity (oq_quantity request), e)
      else if map_of (me_live_orders e) (oq_order_id request) \<noteq> None
      then Some (make_rejected_result kDuplicateOrderId (oq_quantity request),
                 emit_order_event (oq_order_id request) kRejected kDuplicateOrderId (oq_quantity request) e)
      else if oq_type request = kLimit then handle_limit_order request e else handle_market_order request e)"

definition me_cancel :: "string \<Rightarrow> OrderbookMatchingEngine \<Rightarrow> (MatchResult \<times> OrderbookMatchingEngine) option" where
  "me_cancel order_id e =
     (case map_of (me_live_orders e) order_id of
        None \<Rightarrow> Some (make_rejected_result kOrderNotFound 0, e)
      | Some ptr \<Rightarrow>
          do { order \<leftarrow> deref e ptr;
               e1 \<leftarrow> remove_resting_order ptr e;
               Some (\<lparr>mr_accepted = True, mr_final_status = kCancelled, mr_reject_reason = kNone, mr_executed_quantity = 0,
                      mr_remaining_quantity = ro_open_quantity order, mr_trades = []\<rparr>,
                     emit_order_event order_id kCancelled kNone 0 e1) })"

definition me_snapshot :: "nat \<Rightarrow> OrderbookMatchingEngine \<Rightarrow> DepthSnapshot" where
  "me_snapshot depth e = db_snapshot depth (me_depth_book e)"

definition replay_market_data :: "string \<Rightarrow> u64 \<Rightarrow> OrderbookMatchingEngine \<Rightarrow> BroadcastMessage list" where
  "replay_market_data topic sequence_after e = bc_replay topic sequence_after (me_broadcaster e)"

definition poll_event :: "OrderbookMatchingEngine \<Rightarrow> EngineEvent option \<times> OrderbookMatchingEngine" where
  "poll_event e = (let (ev, q) = rq_try_pop (me_event_queue e) in (ev, e\<lparr>me_event_queue := q\<rparr>))"

definition resting_orders :: "OrderbookMatchingEngine \<Rightarrow> RestingOrderView list option" where
  "resting_orders e =
     map_option (sort_key rv_order_id)
       (those (map (\<lambda>(order_id, ptr). map_option (\<lambda>order.
          \<lparr>rv_order_id = order_id, rv_side = ro_side order, rv_price = ro_price order,
           rv_open_quantity = ro_open_quantity order\<rparr>) (deref e ptr)) (me_live_orders e)))"

definition live_order_count :: "OrderbookMatchingEngine \<Rightarrow> nat" where
  "live_order_count e = length (me_live_orders e)"

end
