(* ===== verification/Risk_Engine.thy ===== *)
theory Risk_Engine
  imports Depth_Book Ring_Queue
begin

text \<open>
  The pre-trade risk engine of \<open>core-exchange/pre-trade-risk-engine\<close>: per-market limits, a top of book kept in a depth
  book, account balances, resting orders for self-trade prevention, request windows for rate limiting, and an audit trail
  that goes through a ring queue.

  The subtraction of the window length from a positive timestamp cannot overflow 64 bits, so \<open>int64_t\<close> is \<open>int\<close> here.
\<close>

section \<open>Types\<close>

datatype risk_Side = risk_kBuy | risk_kSell

datatype risk_OrderType = risk_kLimit | risk_kMarket

datatype risk_RejectReason = risk_kNone | kInvalidRequest | kUnknownSymbol | kPriceBandExceeded | kQuantityLimitExceeded
  | kNotionalLimitExceeded | kInsufficientBalance | kInsufficientPosition | kRateLimited | kSelfTradePrevented

record risk_OrderRequest =
  rr_order_id :: string
  rr_user_id :: string
  rr_symbol :: string
  rr_source_ip :: string
  rr_side :: risk_Side
  rr_type :: risk_OrderType
  rr_price :: double
  rr_quantity :: double
  rr_timestamp_ms :: i64

record MarketRiskConfig =
  mc_symbol :: string
  mc_max_order_quantity :: double
  mc_max_order_notional :: double
  mc_max_price_deviation_ratio :: double
  mc_max_requests_per_window :: u64
  mc_rate_limit_window_ms :: i64
  mc_enable_self_trade_prevention :: bool

record AccountRiskState =
  as_quote_balance :: double
  as_base_position :: double

record risk_RestingOrderView =
  ro_user_id :: string
  rrv_side :: risk_Side
  rrv_price :: double
  rrv_quantity :: double

record RiskDecision =
  rd_accepted :: bool
  rd_reject_reason :: risk_RejectReason
  rd_rule_name :: string
  rd_order_id :: string
  rd_user_id :: string
  rd_symbol :: string
  rd_reference_price :: double
  rd_estimated_notional :: double
  rd_timestamp_ms :: i64

record MarketState =
  ms_config :: MarketRiskConfig
  ms_book :: DepthBook
  ms_best_bid :: "double option"
  ms_best_ask :: "double option"

record PreTradeRiskEngine =
  pr_markets :: "string \<rightharpoonup> MarketState"
  pr_accounts :: "string \<rightharpoonup> AccountRiskState"
  pr_resting_orders :: "string \<rightharpoonup> risk_RestingOrderView list"
  pr_request_windows :: "string \<rightharpoonup> i64 list"
  pr_audit_queue :: "RiskDecision SpscRingQueue"
  pr_audit_history :: "RiskDecision list"

datatype risk_error = RiskQueue ring_error | EmptySymbol | LimitsNotPositive | RateLimitNotPositive | MarketNotConfigured
  | AuditQueueFull

section \<open>Configuration\<close>

definition new_PreTradeRiskEngine :: "u64 \<Rightarrow> risk_error + PreTradeRiskEngine" where
  "new_PreTradeRiskEngine audit_queue_capacity =
     (case new_SpscRingQueue audit_queue_capacity of
        Inl e \<Rightarrow> Inl (RiskQueue e)
      | Inr q \<Rightarrow> Inr \<lparr>pr_markets = Map.empty, pr_accounts = Map.empty, pr_resting_orders = Map.empty,
                     pr_request_windows = Map.empty, pr_audit_queue = q, pr_audit_history = []\<rparr>)"

definition new_MarketState :: "MarketRiskConfig \<Rightarrow> MarketState" where
  "new_MarketState config = \<lparr>ms_config = config, ms_book = new_DepthBook (mc_symbol config), ms_best_bid = None, ms_best_ask = None\<rparr>"

definition configure_market :: "MarketRiskConfig \<Rightarrow> PreTradeRiskEngine \<Rightarrow> risk_error + PreTradeRiskEngine" where
  "configure_market config e =
     (if mc_symbol config = [] then Inl EmptySymbol
      else if mc_max_order_quantity config \<le> 0 \<or> mc_max_order_notional config \<le> 0 then Inl LimitsNotPositive
      else if mc_max_requests_per_window config = 0 \<or> mc_rate_limit_window_ms config \<le> 0 then Inl RateLimitNotPositive
      else Inr (e\<lparr>pr_markets := (pr_markets e)(mc_symbol config \<mapsto> new_MarketState config)\<rparr>))"

definition update_top_of_book :: "string \<Rightarrow> double \<Rightarrow> double \<Rightarrow> PreTradeRiskEngine \<Rightarrow> risk_error + PreTradeRiskEngine" where
  "update_top_of_book symbol best_bid best_ask e =
     (case pr_markets e symbol of
        None \<Rightarrow> Inl MarketNotConfigured
      | Some market \<Rightarrow>
          let book1 = (case ms_best_bid market of None \<Rightarrow> ms_book market | Some p \<Rightarrow> snd (db_update kBid p 0 (ms_book market)));
              book2 = (case ms_best_ask market of None \<Rightarrow> book1 | Some p \<Rightarrow> snd (db_update kAsk p 0 book1));
              book3 = snd (db_update kBid best_bid 1 book2);
              book4 = snd (db_update kAsk best_ask 1 book3)
          in Inr (e\<lparr>pr_markets := (pr_markets e)(symbol \<mapsto>
               market\<lparr>ms_best_bid := Some best_bid, ms_best_ask := Some best_ask, ms_book := book4\<rparr>)\<rparr>))"

definition account_key :: "string \<Rightarrow> string \<Rightarrow> string" where
  "account_key user_id symbol = user_id @ ''|'' @ symbol"

definition set_account_state :: "string \<Rightarrow> string \<Rightarrow> AccountRiskState \<Rightarrow> PreTradeRiskEngine \<Rightarrow> PreTradeRiskEngine" where
  "set_account_state user_id symbol st e = e\<lparr>pr_accounts := (pr_accounts e)(account_key user_id symbol \<mapsto> st)\<rparr>"

definition resting_orders_for :: "string \<Rightarrow> PreTradeRiskEngine \<Rightarrow> risk_RestingOrderView list" where
  "resting_orders_for symbol e = (case pr_resting_orders e symbol of None \<Rightarrow> [] | Some orders \<Rightarrow> orders)"

definition track_resting_order :: "string \<Rightarrow> risk_RestingOrderView \<Rightarrow> PreTradeRiskEngine \<Rightarrow> PreTradeRiskEngine" where
  "track_resting_order symbol order e =
     e\<lparr>pr_resting_orders := (pr_resting_orders e)
        (symbol \<mapsto> (case pr_resting_orders e symbol of None \<Rightarrow> [] | Some orders \<Rightarrow> orders) @ [order])\<rparr>"

definition clear_user_resting_orders :: "string \<Rightarrow> string \<Rightarrow> PreTradeRiskEngine \<Rightarrow> PreTradeRiskEngine" where
  "clear_user_resting_orders symbol user_id e =
     (case pr_resting_orders e symbol of
        None \<Rightarrow> e
      | Some orders \<Rightarrow> e\<lparr>pr_resting_orders := (pr_resting_orders e)(symbol \<mapsto> filter (\<lambda>order. ro_user_id order \<noteq> user_id) orders)\<rparr>)"

section \<open>Rules\<close>

definition reference_price :: "MarketState \<Rightarrow> risk_OrderRequest \<Rightarrow> double" where
  "reference_price market request =
     (let snapshot = db_snapshot 1 (ms_book market) in
      if ds_bids snapshot \<noteq> [] \<and> ds_asks snapshot \<noteq> []
      then (bl_price (hd (ds_bids snapshot)) + bl_price (hd (ds_asks snapshot))) / dint 2
      else if rr_type request = risk_kLimit \<and> 0 < rr_price request then rr_price request
      else if ds_bids snapshot \<noteq> [] then bl_price (hd (ds_bids snapshot))
      else if ds_asks snapshot \<noteq> [] then bl_price (hd (ds_asks snapshot))
      else 0)"

definition make_decision :: "risk_OrderRequest \<Rightarrow> bool \<Rightarrow> risk_RejectReason \<Rightarrow> string \<Rightarrow> PreTradeRiskEngine \<Rightarrow> RiskDecision" where
  "make_decision request accepted reject_reason rule_name e =
     (let ref_price = (case pr_markets e (rr_symbol request) of None \<Rightarrow> 0 | Some market \<Rightarrow> reference_price market request);
          notional = ref_price * rr_quantity request
      in \<lparr>rd_accepted = accepted, rd_reject_reason = reject_reason, rd_rule_name = rule_name, rd_order_id = rr_order_id request,
          rd_user_id = rr_user_id request, rd_symbol = rr_symbol request, rd_reference_price = ref_price,
          rd_estimated_notional = notional, rd_timestamp_ms = rr_timestamp_ms request\<rparr>)"

definition validate_request_shape :: "risk_OrderRequest \<Rightarrow> PreTradeRiskEngine \<Rightarrow> RiskDecision option" where
  "validate_request_shape request e =
     (if rr_order_id request = [] \<or> rr_user_id request = [] \<or> rr_symbol request = [] \<or> rr_quantity request \<le> 0 \<or>
         rr_timestamp_ms request \<le> 0 \<or> rr_source_ip request = []
      then Some (make_decision request False kInvalidRequest ''request_shape'' e) else None)"

definition validate_market_presence :: "risk_OrderRequest \<Rightarrow> PreTradeRiskEngine \<Rightarrow> RiskDecision option" where
  "validate_market_presence request e =
     (if pr_markets e (rr_symbol request) = None
      then Some (make_decision request False kUnknownSymbol ''symbol_configured'' e) else None)"

definition trim_request_window :: "MarketRiskConfig \<Rightarrow> i64 list \<Rightarrow> i64 \<Rightarrow> i64 list" where
  "trim_request_window config request_window timestamp_ms =
     filter (\<lambda>window_timestamp. \<not> window_timestamp < timestamp_ms - mc_rate_limit_window_ms config) request_window"

definition would_self_trade :: "risk_OrderRequest \<Rightarrow> risk_RestingOrderView list \<Rightarrow> bool" where
  "would_self_trade request resting_orders =
     list_ex (\<lambda>resting_order.
       if ro_user_id resting_order \<noteq> rr_user_id request \<or> rrv_quantity resting_order \<le> 0 \<or> rrv_side resting_order = rr_side request
       then False
       else if rr_type request = risk_kMarket then True
       else if rr_side request = risk_kBuy then rrv_price resting_order \<le> rr_price request
       else rr_price request \<le> rrv_price resting_order) resting_orders"

definition evaluate_market_rules ::
  "risk_OrderRequest \<Rightarrow> MarketState \<Rightarrow> AccountRiskState \<Rightarrow> double \<Rightarrow> double \<Rightarrow> i64 list \<Rightarrow> PreTradeRiskEngine \<Rightarrow> RiskDecision" where
  "evaluate_market_rules request market account ref_price notional request_window e =
     (let config = ms_config market in
      if mc_max_order_quantity config < rr_quantity request
      then make_decision request False kQuantityLimitExceeded ''quantity_limit'' e
      else if mc_max_order_notional config < notional
      then make_decision request False kNotionalLimitExceeded ''notional_limit'' e
      else if rr_type request = risk_kLimit \<and> 0 < ref_price \<and>
              mc_max_price_deviation_ratio config < \<bar>rr_price request - ref_price\<bar> / ref_price
      then make_decision request False kPriceBandExceeded ''price_band'' e
      else if rr_side request = risk_kBuy \<and> as_quote_balance account < notional
      then make_decision request False kInsufficientBalance ''available_quote_balance'' e
      else if rr_side request = risk_kSell \<and> as_base_position account < rr_quantity request
      then make_decision request False kInsufficientPosition ''available_base_position'' e
      else if unat (mc_max_requests_per_window config) \<le> length request_window
      then make_decision request False kRateLimited ''user_ip_rate_limit'' e
      else if mc_enable_self_trade_prevention config \<and> would_self_trade request (resting_orders_for (rr_symbol request) e)
      then make_decision request False kSelfTradePrevented ''self_trade_prevention'' e
      else make_decision request True risk_kNone ''accepted'' e)"

section \<open>The audit trail\<close>

text \<open>The loop of \<open>flush_audit_queue\<close> ends because each pop that yields a decision shortens the queue.\<close>

function flush_audit_loop :: "RiskDecision SpscRingQueue \<Rightarrow> RiskDecision list \<Rightarrow> RiskDecision SpscRingQueue \<times> RiskDecision list" where
  "flush_audit_loop q history =
     (case fst (rq_try_pop q) of
        None \<Rightarrow> (snd (rq_try_pop q), history)
      | Some decision \<Rightarrow> flush_audit_loop (snd (rq_try_pop q)) (history @ [decision]))"
  by pat_completeness auto
termination
  by (relation "measure (\<lambda>(q, _). rq_len q)") (auto dest: rq_pop_shorter)

declare flush_audit_loop.simps [simp del]

definition flush_audit_queue :: "PreTradeRiskEngine \<Rightarrow> PreTradeRiskEngine" where
  "flush_audit_queue e =
     (let (q, history) = flush_audit_loop (pr_audit_queue e) (pr_audit_history e)
      in e\<lparr>pr_audit_queue := q, pr_audit_history := history\<rparr>)"

definition enqueue_audit :: "RiskDecision \<Rightarrow> PreTradeRiskEngine \<Rightarrow> risk_error + PreTradeRiskEngine" where
  "enqueue_audit decision e =
     (let (pushed, q) = rq_push decision (pr_audit_queue e); e1 = e\<lparr>pr_audit_queue := q\<rparr> in
      if pushed then Inr e1
      else let e2 = flush_audit_queue e1; (accepted, q2) = rq_push decision (pr_audit_queue e2) in
           if \<not> accepted then Inl AuditQueueFull else Inr (e2\<lparr>pr_audit_queue := q2\<rparr>))"

definition finalize_decision :: "RiskDecision \<Rightarrow> PreTradeRiskEngine \<Rightarrow> risk_error + RiskDecision \<times> PreTradeRiskEngine" where
  "finalize_decision decision e =
     (case enqueue_audit decision e of Inl err \<Rightarrow> Inl err | Inr e1 \<Rightarrow> Inr (decision, flush_audit_queue e1))"

definition risk_evaluate :: "risk_OrderRequest \<Rightarrow> PreTradeRiskEngine \<Rightarrow> risk_error + RiskDecision \<times> PreTradeRiskEngine" where
  "risk_evaluate request e =
     (case validate_request_shape request e of
        Some invalid_request \<Rightarrow> finalize_decision invalid_request e
      | None \<Rightarrow>
     (case validate_market_presence request e of
        Some missing_market \<Rightarrow> finalize_decision missing_market e
      | None \<Rightarrow>
          let market = the (pr_markets e (rr_symbol request));
              ref_price = reference_price market request;
              notional = ref_price * rr_quantity request;
              account = (case pr_accounts e (account_key (rr_user_id request) (rr_symbol request)) of
                           None \<Rightarrow> \<lparr>as_quote_balance = 0, as_base_position = 0\<rparr> | Some account \<Rightarrow> account);
              window_key = rr_user_id request @ ''|'' @ rr_source_ip request;
              window0 = (case pr_request_windows e window_key of None \<Rightarrow> [] | Some w \<Rightarrow> w);
              request_window = trim_request_window (ms_config market) window0 (rr_timestamp_ms request);
              decision = evaluate_market_rules request market account ref_price notional request_window e;
              e1 = e\<lparr>pr_request_windows := (pr_request_windows e)(window_key \<mapsto> request_window @ [rr_timestamp_ms request])\<rparr>
          in finalize_decision decision e1))"

definition audit_log :: "PreTradeRiskEngine \<Rightarrow> RiskDecision list" where
  "audit_log e = pr_audit_history e"

definition pending_audit_events :: "PreTradeRiskEngine \<Rightarrow> u64" where
  "pending_audit_events e = rq_size_approx (pr_audit_queue e)"

end
