(* ===== verification/Gateway.thy ===== *)
theory Gateway
  imports Ring_Queue Broadcaster "HOL-Library.Sublist" "HOL-Library.Multiset"
begin

text \<open>
  The unified access gateway of \<open>core-exchange/unified-access-gateway\<close>: authentication, routing by path prefix, backend
  health, per-user rate limits, the ingress queue and sessions.

  \<open>std::sort\<close> fixes the order of equal elements nowhere, so the sorting function is an argument of
  \<open>configure_route\<close>; \<open>std_sorter\<close> is what the standard promises of it. Times are \<open>int64_t\<close>; a difference of two times that
  leaves the 64-bit range is undefined behaviour of the program, here the error \<open>TimeOverflow\<close>.
\<close>

section \<open>Types\<close>

datatype Protocol = kRest | kWebSocket | kFix

datatype Backend = kRisk | kMatching | kClearing | kMarketData

datatype gw_RejectReason = gw_kNone | gw_kInvalidRequest | kAuthenticationFailed | gw_kRateLimited | kUnknownRoute | kCircuitOpen | kQueueFull

record GatewayRequest =
  gr_request_id :: string
  gr_user_id :: string
  gr_api_key :: string
  gr_signature :: string
  gr_path :: string
  gr_payload :: string
  gr_protocol :: Protocol
  gr_timestamp_ms :: i64

record ForwardedRequest =
  fr_request_id :: string
  fr_user_id :: string
  fr_path :: string
  fr_payload :: string
  fr_backend :: Backend
  fr_protocol :: Protocol
  fr_timestamp_ms :: i64

record RouteResult =
  rt_accepted :: bool
  rt_reject_reason :: gw_RejectReason
  rt_backend :: Backend
  rt_route_name :: string
  rt_queued_requests :: u64

record Credential =
  cr_secret :: string
  cr_user_id :: string

record RouteConfig =
  rc_path_prefix :: string
  rc_backend :: Backend
  rc_route_name :: string

record RateLimit =
  rl_max_requests :: u64
  rl_window_ms :: i64

record SessionState =
  se_protocol :: Protocol
  se_heartbeat_timeout_ms :: i64
  se_last_heartbeat_ms :: i64
  se_live :: bool

record UnifiedAccessGateway =
  gw_credentials :: "string \<rightharpoonup> Credential"
  gw_routes :: "RouteConfig list"
  gw_user_limits :: "string \<rightharpoonup> RateLimit"
  gw_user_windows :: "string \<rightharpoonup> i64 list"
  gw_backend_health :: "Backend \<rightharpoonup> bool"
  gw_sessions :: "(string \<times> SessionState) list"
  gw_ingress_queue :: "ForwardedRequest SpscRingQueue"
  gw_broadcaster :: MarketDataBroadcaster

section \<open>Configuration\<close>

definition new_UnifiedAccessGateway :: "u64 \<Rightarrow> ring_error + UnifiedAccessGateway" where
  "new_UnifiedAccessGateway ingress_queue_capacity =
     (case new_SpscRingQueue ingress_queue_capacity of
        Inl e \<Rightarrow> Inl e
      | Inr q \<Rightarrow> Inr \<lparr>gw_credentials = Map.empty, gw_routes = [], gw_user_limits = Map.empty, gw_user_windows = Map.empty,
          gw_backend_health = [kRisk \<mapsto> True, kMatching \<mapsto> True, kClearing \<mapsto> True, kMarketData \<mapsto> True],
          gw_sessions = [], gw_ingress_queue = q, gw_broadcaster = new_MarketDataBroadcaster\<rparr>)"

definition register_credential :: "string \<Rightarrow> string \<Rightarrow> string \<Rightarrow> UnifiedAccessGateway \<Rightarrow> UnifiedAccessGateway" where
  "register_credential api_key secret user_id g =
     g\<lparr>gw_credentials := (gw_credentials g)(api_key \<mapsto> \<lparr>cr_secret = secret, cr_user_id = user_id\<rparr>)\<rparr>"

definition configure_route ::
  "(RouteConfig list \<Rightarrow> RouteConfig list) \<Rightarrow> string \<Rightarrow> Backend \<Rightarrow> string \<Rightarrow> UnifiedAccessGateway \<Rightarrow> UnifiedAccessGateway" where
  "configure_route sort_routes path_prefix backend route_name g =
     g\<lparr>gw_routes := sort_routes (gw_routes g @ [\<lparr>rc_path_prefix = path_prefix, rc_backend = backend, rc_route_name = route_name\<rparr>])\<rparr>"

definition set_user_rate_limit :: "string \<Rightarrow> u64 \<Rightarrow> i64 \<Rightarrow> UnifiedAccessGateway \<Rightarrow> UnifiedAccessGateway" where
  "set_user_rate_limit user_id max_requests window_ms g =
     g\<lparr>gw_user_limits := (gw_user_limits g)(user_id \<mapsto> \<lparr>rl_max_requests = max_requests, rl_window_ms = window_ms\<rparr>)\<rparr>"

definition set_backend_health :: "Backend \<Rightarrow> bool \<Rightarrow> UnifiedAccessGateway \<Rightarrow> UnifiedAccessGateway" where
  "set_backend_health backend healthy g = g\<lparr>gw_backend_health := (gw_backend_health g)(backend \<mapsto> healthy)\<rparr>"

section \<open>Sessions\<close>

definition open_session :: "string \<Rightarrow> Protocol \<Rightarrow> i64 \<Rightarrow> i64 \<Rightarrow> UnifiedAccessGateway \<Rightarrow> UnifiedAccessGateway" where
  "open_session session_id protocol heartbeat_timeout_ms timestamp_ms g =
     g\<lparr>gw_sessions := AList.update session_id \<lparr>se_protocol = protocol, se_heartbeat_timeout_ms = heartbeat_timeout_ms,
        se_last_heartbeat_ms = timestamp_ms, se_live = True\<rparr> (gw_sessions g)\<rparr>"

definition record_heartbeat :: "string \<Rightarrow> i64 \<Rightarrow> UnifiedAccessGateway \<Rightarrow> bool \<times> UnifiedAccessGateway" where
  "record_heartbeat session_id timestamp_ms g =
     (case map_of (gw_sessions g) session_id of
        None \<Rightarrow> (False, g)
      | Some st \<Rightarrow> if \<not> se_live st then (False, g)
                  else (True, g\<lparr>gw_sessions := AList.update session_id (st\<lparr>se_last_heartbeat_ms := timestamp_ms\<rparr>) (gw_sessions g)\<rparr>))"

fun close_stale_loop :: "i64 \<Rightarrow> (string \<times> SessionState) list \<Rightarrow> u64 \<Rightarrow> time_fault + u64 \<times> (string \<times> SessionState) list" where
  "close_stale_loop now_ms [] n_closed = Inr (n_closed, [])"
| "close_stale_loop now_ms ((session_id, st) # sessions) n_closed =
     (let elapsed = now_ms - se_last_heartbeat_ms st; stale = (se_live st \<and> se_heartbeat_timeout_ms st < elapsed) in
      if se_live st \<and> \<not> in_i64 elapsed then Inl TimeOverflow
      else case close_stale_loop now_ms sessions (if stale then n_closed + 1 else n_closed) of
             Inl e \<Rightarrow> Inl e
           | Inr (n, rest) \<Rightarrow> Inr (n, (session_id, if stale then st\<lparr>se_live := False\<rparr> else st) # rest))"

definition close_stale_sessions :: "i64 \<Rightarrow> UnifiedAccessGateway \<Rightarrow> time_fault + u64 \<times> UnifiedAccessGateway" where
  "close_stale_sessions now_ms g =
     (case close_stale_loop now_ms (gw_sessions g) 0 of Inl e \<Rightarrow> Inl e | Inr (n, sessions) \<Rightarrow> Inr (n, g\<lparr>gw_sessions := sessions\<rparr>))"

definition live_session_count :: "UnifiedAccessGateway \<Rightarrow> nat" where
  "live_session_count g = length (filter (\<lambda>(_, st). se_live st) (gw_sessions g))"

section \<open>Routing\<close>

definition expected_signature :: "string \<Rightarrow> string \<Rightarrow> string \<Rightarrow> string" where
  "expected_signature api_key secret request_id = api_key @ '':'' @ secret @ '':'' @ request_id"

definition has_valid_request_shape :: "GatewayRequest \<Rightarrow> bool" where
  "has_valid_request_shape request =
     (gr_request_id request \<noteq> [] \<and> gr_user_id request \<noteq> [] \<and> gr_api_key request \<noteq> [] \<and> gr_path request \<noteq> [] \<and> 0 < gr_timestamp_ms request)"

definition has_valid_credentials :: "GatewayRequest \<Rightarrow> UnifiedAccessGateway \<Rightarrow> bool" where
  "has_valid_credentials request g =
     (case gw_credentials g (gr_api_key request) of
        None \<Rightarrow> False
      | Some credential \<Rightarrow> cr_user_id credential = gr_user_id request \<and>
          gr_signature request = expected_signature (gr_api_key request) (cr_secret credential) (gr_request_id request))"

definition backend_available :: "Backend \<Rightarrow> UnifiedAccessGateway \<Rightarrow> bool" where
  "backend_available backend g = (case gw_backend_health g backend of None \<Rightarrow> True | Some healthy \<Rightarrow> healthy)"

text \<open>The difference is computed for each element of the window, so not at all when the window is empty.\<close>

definition consume_rate_limit :: "string \<Rightarrow> i64 \<Rightarrow> UnifiedAccessGateway \<Rightarrow> time_fault + bool \<times> UnifiedAccessGateway" where
  "consume_rate_limit user_id timestamp_ms g =
     (case gw_user_limits g user_id of
        None \<Rightarrow> Inr (True, g)
      | Some limit \<Rightarrow>
          let window0 = (case gw_user_windows g user_id of None \<Rightarrow> [] | Some w \<Rightarrow> w);
              since = timestamp_ms - rl_window_ms limit;
              window = filter (\<lambda>timestamp. \<not> timestamp < since) window0
          in if window0 \<noteq> [] \<and> \<not> in_i64 since then Inl TimeOverflow
             else if unat (rl_max_requests limit) \<le> length window
             then Inr (False, g\<lparr>gw_user_windows := (gw_user_windows g)(user_id \<mapsto> window)\<rparr>)
             else Inr (True, g\<lparr>gw_user_windows := (gw_user_windows g)(user_id \<mapsto> window @ [timestamp_ms])\<rparr>))"

definition make_forwarded_request :: "GatewayRequest \<Rightarrow> Backend \<Rightarrow> ForwardedRequest" where
  "make_forwarded_request request backend =
     \<lparr>fr_request_id = gr_request_id request, fr_user_id = gr_user_id request, fr_path = gr_path request, fr_payload = gr_payload request,
      fr_backend = backend, fr_protocol = gr_protocol request, fr_timestamp_ms = gr_timestamp_ms request\<rparr>"

definition make_accepted_route_result :: "RouteConfig \<Rightarrow> UnifiedAccessGateway \<Rightarrow> RouteResult" where
  "make_accepted_route_result route g =
     \<lparr>rt_accepted = True, rt_reject_reason = gw_kNone, rt_backend = rc_backend route, rt_route_name = rc_route_name route,
      rt_queued_requests = rq_size_approx (gw_ingress_queue g)\<rparr>"

definition gw_rejected :: "gw_RejectReason \<Rightarrow> Backend \<Rightarrow> RouteResult" where
  "gw_rejected reason backend =
     \<lparr>rt_accepted = False, rt_reject_reason = reason, rt_backend = backend, rt_route_name = [], rt_queued_requests = 0\<rparr>"

definition route_event_payload :: "ForwardedRequest \<Rightarrow> string \<Rightarrow> string" where
  "route_event_payload request route_name = fr_request_id request @ '':'' @ route_name @ '':'' @ fr_path request"

fun match_route_loop :: "string \<Rightarrow> RouteConfig list \<Rightarrow> RouteConfig option" where
  "match_route_loop path [] = None"
| "match_route_loop path (route # routes) = (if prefix (rc_path_prefix route) path then Some route else match_route_loop path routes)"

definition match_route :: "string \<Rightarrow> UnifiedAccessGateway \<Rightarrow> RouteConfig option" where
  "match_route path g = match_route_loop path (gw_routes g)"

definition gw_route :: "GatewayRequest \<Rightarrow> UnifiedAccessGateway \<Rightarrow> time_fault + RouteResult \<times> UnifiedAccessGateway" where
  "gw_route request g =
     (if \<not> has_valid_request_shape request then Inr (gw_rejected gw_kInvalidRequest kRisk, g)
      else if \<not> has_valid_credentials request g then Inr (gw_rejected kAuthenticationFailed kRisk, g)
      else case match_route (gr_path request) g of
        None \<Rightarrow> Inr (gw_rejected kUnknownRoute kRisk, g)
      | Some route \<Rightarrow>
          if \<not> backend_available (rc_backend route) g then Inr (gw_rejected kCircuitOpen (rc_backend route), g)
          else case consume_rate_limit (gr_user_id request) (gr_timestamp_ms request) g of
                 Inl e \<Rightarrow> Inl e
               | Inr (allowed, g1) \<Rightarrow>
               if \<not> allowed then Inr (gw_rejected gw_kRateLimited (rc_backend route), g1)
               else let forwarded = make_forwarded_request request (rc_backend route);
                        (pushed, q) = rq_push forwarded (gw_ingress_queue g1);
                        g2 = g1\<lparr>gw_ingress_queue := q\<rparr> in
                    if \<not> pushed then Inr (gw_rejected kQueueFull (rc_backend route), g2)
                    else let g3 = g2\<lparr>gw_broadcaster := snd (bc_publish ''gateway.routes''
                                (route_event_payload forwarded (rc_route_name route)) (gw_broadcaster g2))\<rparr>
                         in Inr (make_accepted_route_result route g3, g3))"

definition poll_forwarded_request :: "UnifiedAccessGateway \<Rightarrow> ForwardedRequest option \<times> UnifiedAccessGateway" where
  "poll_forwarded_request g = (let (r, q) = rq_try_pop (gw_ingress_queue g) in (r, g\<lparr>gw_ingress_queue := q\<rparr>))"

definition replay_route_events :: "u64 \<Rightarrow> UnifiedAccessGateway \<Rightarrow> BroadcastMessage list" where
  "replay_route_events sequence_after g = bc_replay ''gateway.routes'' sequence_after (gw_broadcaster g)"

section \<open>What routing does\<close>

lemma match_route_loop_find: "match_route_loop path routes = find (\<lambda>r. prefix (rc_path_prefix r) path) routes"
  by (induction routes) auto

lemma consume_rate_limit_frame:
  assumes "consume_rate_limit u t g = Inr (allowed, g')"
  shows "gw_credentials g' = gw_credentials g" "gw_routes g' = gw_routes g" "gw_user_limits g' = gw_user_limits g"
    "gw_ingress_queue g' = gw_ingress_queue g" "gw_broadcaster g' = gw_broadcaster g"
  using assms by (auto simp: consume_rate_limit_def Let_def split: option.splits if_splits)

text \<open>The one way in which routing overflows: the limit of the user has a negative window, which \<open>set_user_rate_limit\<close> does not refuse.\<close>

definition window_overflows :: "string \<Rightarrow> i64 \<Rightarrow> UnifiedAccessGateway \<Rightarrow> bool" where
  "window_overflows u t g \<longleftrightarrow> (\<exists>limit earlier window. gw_user_limits g u = Some limit \<and> gw_user_windows g u = Some (earlier # window) \<and>
     \<not> in_i64 (t - rl_window_ms limit))"

lemma consume_rate_limit_overflows: "consume_rate_limit u t g = Inl e \<longleftrightarrow> window_overflows u t g"
  by (cases e) (auto simp: consume_rate_limit_def window_overflows_def Let_def neq_Nil_conv split: option.splits)

lemma negative_window_overflows: "window_overflows u t g \<Longrightarrow> 0 < t \<Longrightarrow> in_i64 t \<Longrightarrow>
   \<exists>limit. gw_user_limits g u = Some limit \<and> (rl_window_ms limit < 0 \<or> \<not> in_i64 (rl_window_ms limit))"
  by (auto simp: window_overflows_def in_i64_def)

text \<open>What a request needs to be forwarded, in terms of the request and the state.\<close>

definition admits :: "GatewayRequest \<Rightarrow> RouteConfig \<Rightarrow> UnifiedAccessGateway \<Rightarrow> bool" where
  "admits request route g \<longleftrightarrow>
     gr_request_id request \<noteq> [] \<and> gr_user_id request \<noteq> [] \<and> gr_api_key request \<noteq> [] \<and> gr_path request \<noteq> [] \<and> 0 < gr_timestamp_ms request \<and>
     (\<exists>secret. gw_credentials g (gr_api_key request) = Some \<lparr>cr_secret = secret, cr_user_id = gr_user_id request\<rparr> \<and>
        gr_signature request = gr_api_key request @ '':'' @ secret @ '':'' @ gr_request_id request) \<and>
     find (\<lambda>r. prefix (rc_path_prefix r) (gr_path request)) (gw_routes g) = Some route \<and>
     gw_backend_health g (rc_backend route) \<noteq> Some False \<and>
     (\<forall>limit. gw_user_limits g (gr_user_id request) = Some limit \<longrightarrow>
        length (filter (\<lambda>earlier. gr_timestamp_ms request - rl_window_ms limit \<le> earlier)
          (case gw_user_windows g (gr_user_id request) of None \<Rightarrow> [] | Some w \<Rightarrow> w)) < unat (rl_max_requests limit)) \<and>
     length (rq_contents (gw_ingress_queue g)) < unat (rq_capacity (gw_ingress_queue g))"

lemma admits_iff:
  assumes "\<not> window_overflows (gr_user_id request) (gr_timestamp_ms request) g"
  shows "admits request route g \<longleftrightarrow> has_valid_request_shape request \<and> has_valid_credentials request g \<and> match_route (gr_path request) g = Some route \<and>
     backend_available (rc_backend route) g \<and> (\<exists>g'. consume_rate_limit (gr_user_id request) (gr_timestamp_ms request) g = Inr (True, g')) \<and>
     length (rq_contents (gw_ingress_queue g)) < unat (rq_capacity (gw_ingress_queue g))"
proof -
  have "has_valid_credentials request g \<longleftrightarrow>
      (\<exists>secret. gw_credentials g (gr_api_key request) = Some \<lparr>cr_secret = secret, cr_user_id = gr_user_id request\<rparr> \<and>
        gr_signature request = gr_api_key request @ '':'' @ secret @ '':'' @ gr_request_id request)"
    by (auto simp: has_valid_credentials_def expected_signature_def split: option.split)
  moreover have "backend_available (rc_backend route) g \<longleftrightarrow> gw_backend_health g (rc_backend route) \<noteq> Some False"
    by (auto simp: backend_available_def split: option.split)
  moreover have "(\<exists>g'. consume_rate_limit (gr_user_id request) (gr_timestamp_ms request) g = Inr (True, g')) \<longleftrightarrow>
      (\<forall>limit. gw_user_limits g (gr_user_id request) = Some limit \<longrightarrow>
        length (filter (\<lambda>earlier. gr_timestamp_ms request - rl_window_ms limit \<le> earlier)
          (case gw_user_windows g (gr_user_id request) of None \<Rightarrow> [] | Some w \<Rightarrow> w)) < unat (rl_max_requests limit))"
    using assms consume_rate_limit_overflows [of "gr_user_id request" "gr_timestamp_ms request" g TimeOverflow]
    by (auto simp: consume_rate_limit_def Let_def not_less not_le split: option.splits if_splits)
  ultimately show ?thesis by (auto simp: admits_def has_valid_request_shape_def match_route_def match_route_loop_find)
qed

lemma gw_route_overflows:
  "gw_route request g = Inl e \<Longrightarrow> window_overflows (gr_user_id request) (gr_timestamp_ms request) g \<and> has_valid_request_shape request"
  using consume_rate_limit_overflows [of "gr_user_id request" "gr_timestamp_ms request" g e]
  by (auto simp: gw_route_def Let_def split: if_splits option.splits sum.splits prod.splits)

lemma gw_route_admitted:
  assumes "rq_wf (gw_ingress_queue g)" "admits request route g" "\<not> window_overflows (gr_user_id request) (gr_timestamp_ms request) g"
  shows "\<exists>g'. gw_route request g = Inr (make_accepted_route_result route g', g') \<and>
    rq_contents (gw_ingress_queue g') = rq_contents (gw_ingress_queue g) @ [make_forwarded_request request (rc_backend route)] \<and>
    rq_wf (gw_ingress_queue g') \<and> gw_user_limits g' = gw_user_limits g \<and>
    gw_broadcaster g' = snd (bc_publish ''gateway.routes''
      (route_event_payload (make_forwarded_request request (rc_backend route)) (rc_route_name route)) (gw_broadcaster g))"
proof -
  from assms(2) obtain g1 where g1: "consume_rate_limit (gr_user_id request) (gr_timestamp_ms request) g = Inr (True, g1)"
    unfolding admits_iff [OF assms(3)] by blast
  note frame = consume_rate_limit_frame [OF g1]
  show ?thesis using assms(2) rq_push_refines [OF assms(1), of "make_forwarded_request request (rc_backend route)"]
    unfolding admits_iff [OF assms(3)] gw_route_def by (auto simp: g1 frame split_beta Let_def)
qed

lemma gw_route_refused:
  assumes "rq_wf (gw_ingress_queue g)" "\<And>route. \<not> admits request route g" "\<not> window_overflows (gr_user_id request) (gr_timestamp_ms request) g"
  shows "\<exists>reason backend g'. gw_route request g = Inr (gw_rejected reason backend, g') \<and> gw_broadcaster g' = gw_broadcaster g \<and>
    rq_contents (gw_ingress_queue g') = rq_contents (gw_ingress_queue g) \<and> rq_wf (gw_ingress_queue g') \<and> gw_user_limits g' = gw_user_limits g"
proof (cases "match_route (gr_path request) g")
  case None
  then show ?thesis using assms(1) by (auto simp: gw_route_def)
next
  case (Some route)
  obtain allowed g1 where g1: "consume_rate_limit (gr_user_id request) (gr_timestamp_ms request) g = Inr (allowed, g1)"
    using assms(3) consume_rate_limit_overflows by (metis sum.exhaust surj_pair)
  note frame = consume_rate_limit_frame [OF g1]
  show ?thesis using assms(1) assms(2) [of route] Some rq_push_refines [OF assms(1), of "make_forwarded_request request (rc_backend route)"]
    unfolding admits_iff [OF assms(3)] gw_route_def by (auto simp: g1 frame split_beta Let_def)
qed

text \<open>When the window overflows, routing ends before the rate limit, without a change, or faults.\<close>

lemma gw_route_early:
  assumes "window_overflows (gr_user_id request) (gr_timestamp_ms request) g" "gw_route request g = Inr (result, g')"
  shows "(\<exists>reason backend. gw_route request g = Inr (gw_rejected reason backend, g)) \<and> \<not> (\<exists>route. admits request route g)"
proof -
  have c: "consume_rate_limit (gr_user_id request) (gr_timestamp_ms request) g = Inl TimeOverflow" using assms(1) consume_rate_limit_overflows by blast
  have "\<not> (has_valid_request_shape request \<and> has_valid_credentials request g \<and> (\<exists>route. match_route (gr_path request) g = Some route \<and> backend_available (rc_backend route) g))"
    using assms(2) c by (auto simp: gw_route_def)
  moreover have "has_valid_request_shape request \<and> has_valid_credentials request g \<and> match_route (gr_path request) g = Some route \<and> backend_available (rc_backend route) g"
    if "admits request route g" for route
    using that by (auto simp: admits_def has_valid_request_shape_def has_valid_credentials_def expected_signature_def match_route_def match_route_loop_find
        backend_available_def split: option.split)
  ultimately show ?thesis using assms(2) c by (auto simp: gw_route_def split: if_splits option.splits)
qed

lemma gw_route_outcome:
  assumes "rq_wf (gw_ingress_queue g)" "gw_route request g = Inr (result, g')"
  shows "(\<not> rt_accepted result \<and> rq_wf (gw_ingress_queue g') \<and> rq_contents (gw_ingress_queue g') = rq_contents (gw_ingress_queue g) \<and>
      gw_user_limits g' = gw_user_limits g) \<or>
    (rt_accepted result \<and> rq_wf (gw_ingress_queue g') \<and> gw_user_limits g' = gw_user_limits g \<and>
      (\<exists>backend. rq_contents (gw_ingress_queue g') = rq_contents (gw_ingress_queue g) @ [make_forwarded_request request backend]))"
proof (cases "window_overflows (gr_user_id request) (gr_timestamp_ms request) g")
  case True
  then show ?thesis using gw_route_early [OF True assms(2)] assms by (auto simp: gw_rejected_def)
next
  case False
  then show ?thesis using gw_route_admitted [OF assms(1) _ False] gw_route_refused [OF assms(1) _ False] assms(2)
    by (cases "\<exists>route. admits request route g") (fastforce simp: gw_rejected_def make_accepted_route_result_def)+
qed

section \<open>Properties\<close>

definition example_gateway :: UnifiedAccessGateway where
  "example_gateway = \<lparr>gw_credentials = [''key'' \<mapsto> \<lparr>cr_secret = ''s'', cr_user_id = ''u''\<rparr>],
     gw_routes = [\<lparr>rc_path_prefix = ''/orders'', rc_backend = kRisk, rc_route_name = ''orders''\<rparr>], gw_user_limits = Map.empty, gw_user_windows = Map.empty,
     gw_backend_health = [kRisk \<mapsto> True], gw_sessions = [],
     gw_ingress_queue = \<lparr>rq_capacity = 2, rq_mask = 1, rq_buffer = [None, None], rq_head = 0, rq_tail = 0\<rparr>, gw_broadcaster = new_MarketDataBroadcaster\<rparr>"

definition example_gateway_request :: GatewayRequest where
  "example_gateway_request = \<lparr>gr_request_id = ''r1'', gr_user_id = ''u'', gr_api_key = ''key'', gr_signature = ''key:s:r1'', gr_path = ''/orders/new'',
     gr_payload = ''p'', gr_protocol = kRest, gr_timestamp_ms = 1\<rparr>"

lemma example_gateway_wf: "rq_wf (gw_ingress_queue example_gateway)" "rq_contents (gw_ingress_queue example_gateway) = []"
  by (auto simp: example_gateway_def rq_wf_def rq_geom_def rq_len_def rq_at_def rq_slot_def rq_contents_def less_2_cases_iff intro!: bexI [of _ 1])

text \<open>C17: The gateway forwards exactly the admitted requests: a request is accepted if and only if it is well-formed, signed
  with the secret of a credential of the claimed user, matched by a route whose backend is up, within the user's rate
  limit, and the ingress queue has room. Then one forwarded request with the request's own fields is appended to the
  queue and one event is published; otherwise neither queue nor events change. Routing is undefined only where the start of the user's rate-limit window is
  not a representable time.\<close>

theorem gateway_forwards_admitted:
  assumes "rq_wf (gw_ingress_queue g)"
  shows "case gw_route request g of
    Inl e \<Rightarrow> window_overflows (gr_user_id request) (gr_timestamp_ms request) g
  | Inr (result, g') \<Rightarrow> rq_wf (gw_ingress_queue g') \<and> (rt_accepted result \<longleftrightarrow> (\<exists>route. admits request route g)) \<and>
    (\<forall>route. admits request route g \<longrightarrow> rt_backend result = rc_backend route \<and>
       rq_contents (gw_ingress_queue g') = rq_contents (gw_ingress_queue g) @ [make_forwarded_request request (rc_backend route)] \<and>
       gw_broadcaster g' = snd (bc_publish ''gateway.routes''
         (gr_request_id request @ '':'' @ rc_route_name route @ '':'' @ gr_path request) (gw_broadcaster g))) \<and>
    (\<not> rt_accepted result \<longrightarrow> rq_contents (gw_ingress_queue g') = rq_contents (gw_ingress_queue g) \<and> gw_broadcaster g' = gw_broadcaster g)"
proof (cases "window_overflows (gr_user_id request) (gr_timestamp_ms request) g")
  case True
  show ?thesis
  proof (cases "\<exists>result. gw_route request g = Inr result")
    case False
    then show ?thesis using True by (cases "gw_route request g") auto
  next
    case reject: True
    then obtain reason backend where reject: "gw_route request g = Inr (gw_rejected reason backend, g)" "\<not> (\<exists>route. admits request route g)"
      using gw_route_early [OF True] by (metis surj_pair)
    then show ?thesis using assms by (auto simp: gw_rejected_def)
  qed
next
  case small: False
  show ?thesis
  proof (cases "\<exists>route. admits request route g")
    case True
    then obtain route where route: "admits request route g" by blast
    then have uniq: "admits request route' g \<longleftrightarrow> route' = route" for route' unfolding admits_def by auto
    from gw_route_admitted [OF assms route small] show ?thesis unfolding uniq
      by (auto simp: make_accepted_route_result_def route_event_payload_def make_forwarded_request_def)
  next
    case False
    then show ?thesis using gw_route_refused [OF assms _ small] by (fastforce simp: gw_rejected_def)
  qed
qed

theorem gateway_forwards_admitted_witness:
  "\<exists>result g'. gw_route example_gateway_request example_gateway = Inr (result, g') \<and> rt_accepted result \<and>
    map fr_payload (rq_contents (gw_ingress_queue g')) = [''p'']"
proof -
  let ?route = "\<lparr>rc_path_prefix = ''/orders'', rc_backend = kRisk, rc_route_name = ''orders''\<rparr>"
  have "admits example_gateway_request ?route example_gateway" unfolding admits_def
    using example_gateway_wf(2) by (simp add: example_gateway_request_def example_gateway_def)
  moreover have "\<not> window_overflows (gr_user_id example_gateway_request) (gr_timestamp_ms example_gateway_request) example_gateway"
    by (simp add: window_overflows_def example_gateway_def)
  ultimately show ?thesis using gateway_forwards_admitted [OF example_gateway_wf(1), of example_gateway_request] example_gateway_wf(2)
    by (auto simp: make_forwarded_request_def example_gateway_request_def split: sum.splits)
qed

text \<open>What the standard promises of \<open>std::sort\<close> with the comparison of \<open>configure_route\<close>.\<close>

definition std_sorter :: "(RouteConfig list \<Rightarrow> RouteConfig list) \<Rightarrow> bool" where
  "std_sorter sort_routes \<longleftrightarrow> (\<forall>routes. mset (sort_routes routes) = mset routes \<and>
     sorted_wrt (\<lambda>left right. \<not> length (rc_path_prefix left) < length (rc_path_prefix right)) (sort_routes routes))"

definition configure_routes ::
  "(RouteConfig list \<Rightarrow> RouteConfig list) \<Rightarrow> RouteConfig list \<Rightarrow> UnifiedAccessGateway \<Rightarrow> UnifiedAccessGateway" where
  "configure_routes sort_routes rs g = fold (\<lambda>r. configure_route sort_routes (rc_path_prefix r) (rc_backend r) (rc_route_name r)) rs g"

lemma configure_routes_sorted:
  assumes "std_sorter sort_routes"
  shows "\<lbrakk>sorted_wrt (\<lambda>left right. \<not> length (rc_path_prefix left) < length (rc_path_prefix right)) (gw_routes g)\<rbrakk> \<Longrightarrow>
    set (gw_routes (configure_routes sort_routes rs g)) = set (gw_routes g) \<union> set rs \<and>
    sorted_wrt (\<lambda>left right. \<not> length (rc_path_prefix left) < length (rc_path_prefix right)) (gw_routes (configure_routes sort_routes rs g))"
proof (induction rs arbitrary: g)
  case (Cons r rs)
  let ?g = "configure_route sort_routes (rc_path_prefix r) (rc_backend r) (rc_route_name r) g"
  have routes: "gw_routes ?g = sort_routes (gw_routes g @ [r])" by (cases r) (simp add: configure_route_def)
  have s: "mset (sort_routes (gw_routes g @ [r])) = mset (gw_routes g @ [r])"
    "sorted_wrt (\<lambda>left right. \<not> length (rc_path_prefix left) < length (rc_path_prefix right)) (sort_routes (gw_routes g @ [r]))"
    using assms unfolding std_sorter_def by blast+
  have "set (sort_routes (gw_routes g @ [r])) = insert r (set (gw_routes g))" using mset_eq_setD [OF s(1)] by simp
  then show ?case using Cons.IH [of ?g] s(2) routes by (auto simp: configure_routes_def)
qed (simp add: configure_routes_def)

lemma find_sorted:
  "\<lbrakk>sorted_wrt (\<lambda>l r. \<not> f l < f r) xs; find P xs = Some x; y \<in> set xs; P y\<rbrakk> \<Longrightarrow> \<not> (f x :: nat) < f y"
  by (induction xs) (auto split: if_splits)

text \<open>C20: Routing takes the longest configured prefix of the path, in whatever order the routes were configured and
  however \<open>std::sort\<close> orders routes of equal length; a path that no prefix matches is not routed.\<close>

theorem longest_prefix_routing:
  assumes "std_sorter sort_routes" "gw_routes g = []"
  shows "case match_route path (configure_routes sort_routes rs g) of
      None \<Rightarrow> \<forall>r \<in> set rs. \<not> prefix (rc_path_prefix r) path
    | Some route \<Rightarrow> route \<in> set rs \<and> prefix (rc_path_prefix route) path \<and>
        (\<forall>r \<in> set rs. prefix (rc_path_prefix r) path \<longrightarrow> length (rc_path_prefix r) \<le> length (rc_path_prefix route))"
proof -
  let ?routes = "gw_routes (configure_routes sort_routes rs g)"
  have s: "set ?routes = set rs" "sorted_wrt (\<lambda>left right. \<not> length (rc_path_prefix left) < length (rc_path_prefix right)) ?routes"
    using configure_routes_sorted [OF assms(1), of g rs] assms(2) by auto
  show ?thesis
  proof (cases "match_route path (configure_routes sort_routes rs g)")
    case None
    then have "find (\<lambda>r. prefix (rc_path_prefix r) path) ?routes = None" by (simp add: match_route_def match_route_loop_find)
    then have "\<forall>r \<in> set rs. \<not> prefix (rc_path_prefix r) path" using s(1) by (auto simp: find_None_iff)
    then show ?thesis using None by simp
  next
    case (Some route)
    then have f: "find (\<lambda>r. prefix (rc_path_prefix r) path) ?routes = Some route" by (simp add: match_route_def match_route_loop_find)
    then have "route \<in> set rs" "prefix (rc_path_prefix route) path" using s(1) by (metis find_Some_iff nth_mem)+
    moreover have "length (rc_path_prefix r) \<le> length (rc_path_prefix route)" if "r \<in> set rs" "prefix (rc_path_prefix r) path" for r
      using find_sorted [OF s(2) f, of r] that s(1) by simp
    ultimately show ?thesis using Some by simp
  qed
qed

lemma std_sorter_example: "std_sorter (sort_key (\<lambda>r. - int (length (rc_path_prefix r))))"
proof -
  have "sorted_wrt (\<lambda>l r. - int (length (rc_path_prefix l)) \<le> - int (length (rc_path_prefix r))) (sort_key (\<lambda>r. - int (length (rc_path_prefix r))) rs)" for rs :: "RouteConfig list"
    using sorted_sort_key [of "\<lambda>r. - int (length (rc_path_prefix r))" rs] by (simp only: sorted_wrt_map)
  then show ?thesis unfolding std_sorter_def by (simp add: not_less)
qed

theorem longest_prefix_routing_witness:
  "\<exists>route. match_route ''/orders/new'' (configure_routes (sort_key (\<lambda>r. - int (length (rc_path_prefix r))))
      [\<lparr>rc_path_prefix = ''/'', rc_backend = kMarketData, rc_route_name = ''a''\<rparr>, \<lparr>rc_path_prefix = ''/orders'', rc_backend = kRisk, rc_route_name = ''b''\<rparr>]
      (example_gateway\<lparr>gw_routes := []\<rparr>)) = Some route \<and> rc_backend route = kRisk"
proof -
  let ?rs = "[\<lparr>rc_path_prefix = ''/'', rc_backend = kMarketData, rc_route_name = ''a''\<rparr>, \<lparr>rc_path_prefix = ''/orders'', rc_backend = kRisk, rc_route_name = ''b''\<rparr>]"
  show ?thesis using longest_prefix_routing [OF std_sorter_example, where g = "example_gateway\<lparr>gw_routes := []\<rparr>" and path = "''/orders/new''" and rs = ?rs]
    by (auto split: option.splits)
qed

text \<open>The signature covers the api key, the secret and the request id only: path, payload and time can be changed.\<close>

lemma signature_ignores_payload:
  "has_valid_credentials (request\<lparr>gr_path := p, gr_payload := m, gr_timestamp_ms := t\<rparr>) g = has_valid_credentials request g"
  by (simp add: has_valid_credentials_def split: option.split)

text \<open>Closing stale sessions: the returned number is the number of sessions that stop being live.\<close>

lemma close_stale_loop_count:
  "close_stale_loop now sessions n = Inr (n', sessions') \<Longrightarrow>
   n' = n + of_nat (length (filter (\<lambda>(_, st). se_live st) sessions) - length (filter (\<lambda>(_, st). se_live st) sessions')) \<and>
   length (filter (\<lambda>(_, st). se_live st) sessions') \<le> length (filter (\<lambda>(_, st). se_live st) sessions) \<and> map fst sessions' = map fst sessions \<and>
   (\<forall>(i, st) \<in> set sessions'. se_live st \<longrightarrow> (i, st) \<in> set sessions \<and> now - se_last_heartbeat_ms st \<le> se_heartbeat_timeout_ms st)"
proof (induction sessions arbitrary: n n' sessions')
  case (Cons a sessions)
  obtain i st where a: "a = (i, st)" by (cases a)
  let ?stale = "se_live st \<and> se_heartbeat_timeout_ms st < now - se_last_heartbeat_ms st"
  obtain rest where rest: "close_stale_loop now sessions (if ?stale then n + 1 else n) = Inr (n', rest)"
    and sessions': "sessions' = (i, if ?stale then st\<lparr>se_live := False\<rparr> else st) # rest"
    using Cons.prems by (auto simp: a Let_def split: if_split_asm sum.split_asm)
  show ?case using Cons.IH [OF rest] by (cases ?stale; cases "se_live st") (auto simp: a sessions' Suc_diff_le)
qed simp

end
