(* ===== verification/Outbox.thy ===== *)
theory Outbox
  imports Prelude
begin

text \<open>
  The outbox of \<open>infrastructure/distributed-consistency/outbox.hpp\<close>: messages in append order, each
  pending or dispatched. Every operation holds \<open>mutex_\<close> throughout, so it is one step. The lemmas
  relate \<open>pending_batch\<close>, \<open>pending_count\<close> and \<open>mark_dispatched\<close> to the list of pending messages.
\<close>

datatype OutboxState = kPending | kDispatched

record OutboxMessage =
  om_id :: string
  om_topic :: string
  om_payload :: string
  om_state :: OutboxState

type_synonym OutboxStore = "OutboxMessage list"

definition outbox_append :: "OutboxMessage \<Rightarrow> OutboxStore \<Rightarrow> OutboxStore" where
  "outbox_append message messages = messages @ [message]"

fun pending_batch_loop :: "OutboxMessage list \<Rightarrow> nat \<Rightarrow> OutboxMessage list \<Rightarrow> OutboxMessage list" where
  "pending_batch_loop [] max_items batch = batch"
| "pending_batch_loop (message # rest) max_items batch =
     (let batch' = (if om_state message = kPending then batch @ [message] else batch)
      in if length batch' = max_items then batch' else pending_batch_loop rest max_items batch')"

definition pending_batch :: "nat \<Rightarrow> OutboxStore \<Rightarrow> OutboxMessage list" where
  "pending_batch max_items messages = pending_batch_loop messages max_items []"

fun mark_dispatched :: "string \<Rightarrow> OutboxStore \<Rightarrow> bool \<times> OutboxStore" where
  "mark_dispatched message_id [] = (False, [])"
| "mark_dispatched message_id (message # rest) =
     (if om_id message = message_id then (True, message\<lparr>om_state := kDispatched\<rparr> # rest)
      else let (found, rest') = mark_dispatched message_id rest in (found, message # rest'))"

fun pending_count_loop :: "OutboxMessage list \<Rightarrow> nat \<Rightarrow> nat" where
  "pending_count_loop [] count = count"
| "pending_count_loop (message # rest) count =
     pending_count_loop rest (if om_state message = kPending then Suc count else count)"

definition pending_count :: "OutboxStore \<Rightarrow> nat" where
  "pending_count messages = pending_count_loop messages 0"

section \<open>The pending messages\<close>

definition pending :: "OutboxStore \<Rightarrow> OutboxMessage list" where
  "pending messages = filter (\<lambda>m. om_state m = kPending) messages"

lemma pending_batch_loop_eq:
  "length batch < max_items \<Longrightarrow>
   pending_batch_loop messages max_items batch = batch @ take (max_items - length batch) (pending messages)"
proof (induction messages max_items batch rule: pending_batch_loop.induct)
  case (2 message rest max_items batch)
  show ?case
  proof (cases "om_state message = kPending")
    case True
    have "max_items - length batch = Suc (max_items - Suc (length batch))" using 2 by simp
    then show ?thesis using 2 True by (cases "Suc (length batch) = max_items") (auto simp: pending_def)
  next
    case False
    then show ?thesis using 2 by (auto simp: pending_def)
  qed
qed (simp add: pending_def)

lemma pending_batch_eq: "0 < max_items \<Longrightarrow> pending_batch max_items messages = take max_items (pending messages)"
  by (simp add: pending_batch_def pending_batch_loop_eq)

lemma pending_count_loop_eq: "pending_count_loop messages count = count + length (pending messages)"
  by (induction messages count rule: pending_count_loop.induct) (auto simp: pending_def)

lemma pending_count_eq: "pending_count messages = length (pending messages)"
  by (simp add: pending_count_def pending_count_loop_eq)

lemma mark_dispatched_found: "fst (mark_dispatched i messages) \<longleftrightarrow> i \<in> om_id ` set messages"
  by (induction i messages rule: mark_dispatched.induct) (auto split: prod.splits)

lemma mark_dispatched_pending:
  "distinct (map om_id messages) \<Longrightarrow>
   pending (snd (mark_dispatched i messages)) = filter (\<lambda>m. om_id m \<noteq> i) (pending messages)"
proof (induction i messages rule: mark_dispatched.induct)
  case (2 i m rest)
  have "filter (\<lambda>x. om_id x \<noteq> i) (pending rest) = pending rest" if "om_id m = i"
    using 2 that by (auto simp: pending_def image_iff intro!: filter_cong)
  then show ?case using 2 by (auto simp: pending_def split: prod.splits)
qed (simp add: pending_def)

lemma mark_dispatched_ids: "map om_id (snd (mark_dispatched i messages)) = map om_id messages"
  by (induction i messages rule: mark_dispatched.induct) (auto split: prod.splits)

section \<open>Properties\<close>

text \<open>At-least-once dispatch: with unique message ids and a positive limit, \<open>pending_batch\<close> returns the oldest
  pending messages in append order; marking an id as dispatched succeeds exactly when the id is stored, removes exactly that
  message from the pending ones, and an appended pending message comes last and is never lost.\<close>

theorem outbox_dispatch:
  assumes "distinct (map om_id messages)" and "0 < max_items"
  shows "pending_batch max_items messages = take max_items (pending messages) \<and>
    (fst (mark_dispatched i messages) \<longleftrightarrow> i \<in> om_id ` set messages) \<and>
    pending (snd (mark_dispatched i messages)) = filter (\<lambda>m. om_id m \<noteq> i) (pending messages) \<and>
    map om_id (snd (mark_dispatched i messages)) = map om_id messages \<and>
    (om_state m = kPending \<longrightarrow> pending (outbox_append m messages) = pending messages @ [m]) \<and>
    pending_count messages = length (pending messages)"
  using assms by (simp add: pending_batch_eq mark_dispatched_found mark_dispatched_pending mark_dispatched_ids
      pending_count_eq) (simp add: pending_def outbox_append_def)

theorem outbox_dispatch_witness:
  "pending (snd (mark_dispatched ''a''
     [\<lparr>om_id = ''a'', om_topic = ''t'', om_payload = ''x'', om_state = kPending\<rparr>,
      \<lparr>om_id = ''b'', om_topic = ''t'', om_payload = ''y'', om_state = kPending\<rparr>])) =
   [\<lparr>om_id = ''b'', om_topic = ''t'', om_payload = ''y'', om_state = kPending\<rparr>]"
  using outbox_dispatch [of "[\<lparr>om_id = ''a'', om_topic = ''t'', om_payload = ''x'', om_state = kPending\<rparr>,
      \<lparr>om_id = ''b'', om_topic = ''t'', om_payload = ''y'', om_state = kPending\<rparr>]" 1 "''a''" undefined]
  by (simp add: pending_def)

text \<open>A limit of 0 does not give an empty batch: the size test follows the append, so when the first message is
  pending every pending message is returned.\<close>

theorem pending_batch_zero_returns_all:
  assumes "om_state m = kPending"
  shows "pending_batch 0 (m # messages) = m # pending messages"
proof -
  have "pending_batch_loop ms 0 batch = batch @ pending ms" if "batch \<noteq> []" for ms batch
    using that by (induction ms "0 :: nat" batch rule: pending_batch_loop.induct) (auto simp: pending_def)
  then show ?thesis using assms by (simp add: pending_batch_def)
qed

theorem pending_batch_zero_returns_all_witness:
  "length (pending_batch 0 [\<lparr>om_id = ''a'', om_topic = ''t'', om_payload = ''x'', om_state = kPending\<rparr>]) = 1"
  using pending_batch_zero_returns_all [of "\<lparr>om_id = ''a'', om_topic = ''t'', om_payload = ''x'', om_state = kPending\<rparr>" "[]"]
  by (simp add: pending_def)

end
