(* ===== verification/Clearing.thy ===== *)
theory Clearing
  imports Binary64 Outbox Block_Pool
begin

text \<open>
  The account clearing system of \<open>core-exchange/account-clearing-system\<close>: balances, holds, settlement of
  fills, the journal (objects of an \<open>ObjectPool\<close>, reached through pointers) and the settlement outbox.

  The buyer and the seller of a fill may be one account: the code then updates it through two references, here by
  two updates of the account map, one after the other. A fault (\<open>clearing_fault\<close>) is an exception of the
  journal's allocation or the use of a past-the-end iterator; neither is reachable.
\<close>

section \<open>Types\<close>

datatype HoldAsset = kQuote | kBase

record AccountSnapshot =
  ac_available_quote :: double
  ac_frozen_quote :: double
  ac_available_base :: double
  ac_frozen_base :: double
  ac_base_cost :: double
  ac_realized_pnl :: double

record FeeSchedule =
  fs_maker_fee_bps :: double
  fs_taker_fee_bps :: double

datatype ClearingStatus = kApplied | kDuplicate | kInvalidInput | kAccountNotFound | kHoldAlreadyExists | kHoldNotFound
  | kInsufficientQuoteBalance | kInsufficientBasePosition | kBuyerFrozenQuoteInsufficient
  | kSellerFrozenBaseInsufficient | kBuyerHoldInsufficient | kSellerHoldInsufficient | kOutboxMessageNotFound
  | kInvariantViolation

record TradeFill =
  tf_trade_id :: string
  tf_symbol :: string
  tf_buyer_account_id :: string
  tf_seller_account_id :: string
  tf_buyer_hold_id :: string
  tf_seller_hold_id :: string
  tf_price :: double
  tf_quantity :: double
  tf_buyer_is_taker :: bool
  tf_timestamp_ms :: i64

record SettlementResult =
  sr_status :: ClearingStatus
  sr_notional :: double
  sr_buyer_fee :: double
  sr_seller_fee :: double
  sr_seller_realized_pnl :: double

record JournalEntry =
  je_account_id :: string
  je_event_id :: string
  je_operation :: string
  je_delta_available_quote :: double
  je_delta_frozen_quote :: double
  je_delta_available_base :: double
  je_delta_frozen_base :: double
  je_delta_base_cost :: double
  je_delta_realized_pnl :: double
  je_timestamp_ms :: i64

record HoldRecord =
  hr_account_id :: string
  hr_asset :: HoldAsset
  hr_amount :: double

record SettlementAmounts =
  sa_notional :: double
  sa_buyer_fee :: double
  sa_seller_fee :: double
  sa_buyer_consumed_quote :: double
  sa_seller_consumed_base :: double
  sa_seller_cost_released :: double
  sa_seller_realized_pnl :: double

record AccountClearingSystem =
  cl_accounts :: "string \<rightharpoonup> AccountSnapshot"
  cl_holds :: "string \<rightharpoonup> HoldRecord"
  cl_journals :: "string \<rightharpoonup> block list"
  cl_settled_trade_ids :: "string set"
  cl_journal_storage :: "block list"
  cl_outbox :: OutboxStore
  cl_journal_pool :: "JournalEntry ObjectPool"

datatype clearing_fault = JournalAllocation pool_error | PastEndHold

definition op_result_ok :: "ClearingStatus \<Rightarrow> bool" where
  "op_result_ok status = (status = kApplied)"

definition sr_ok :: "SettlementResult \<Rightarrow> bool" where
  "sr_ok r = (sr_status r = kApplied \<or> sr_status r = kDuplicate)"

definition sr_duplicate :: "SettlementResult \<Rightarrow> bool" where
  "sr_duplicate r = (sr_status r = kDuplicate)"

definition settlement_status :: "ClearingStatus \<Rightarrow> SettlementResult" where
  "settlement_status status =
     \<lparr>sr_status = status, sr_notional = 0, sr_buyer_fee = 0, sr_seller_fee = 0, sr_seller_realized_pnl = 0\<rparr>"

section \<open>Amounts\<close>

definition kBalanceEpsilon :: double where
  "kBalanceEpsilon = dbl (1 / 1000000000)"

definition fee_amount :: "double \<Rightarrow> double \<Rightarrow> double" where
  "fee_amount notional fee_bps = notional * fee_bps / dint 10000"

definition is_zero :: "double \<Rightarrow> bool" where
  "is_zero v = (- kBalanceEpsilon \<le> v \<and> v \<le> kBalanceEpsilon)"

definition calculate_settlement_amounts :: "TradeFill \<Rightarrow> FeeSchedule \<Rightarrow> AccountSnapshot \<Rightarrow> SettlementAmounts" where
  "calculate_settlement_amounts fill fee_schedule seller =
     (let notional = tf_price fill * tf_quantity fill;
          buyer_fee = fee_amount notional
            (if tf_buyer_is_taker fill then fs_taker_fee_bps fee_schedule else fs_maker_fee_bps fee_schedule);
          seller_fee = fee_amount notional
            (if tf_buyer_is_taker fill then fs_maker_fee_bps fee_schedule else fs_taker_fee_bps fee_schedule);
          seller_total_base_before = ac_available_base seller + ac_frozen_base seller;
          seller_cost_per_unit =
            (if 0 < seller_total_base_before then ac_base_cost seller / seller_total_base_before else 0);
          seller_cost_released = seller_cost_per_unit * tf_quantity fill
      in \<lparr>sa_notional = notional, sa_buyer_fee = buyer_fee, sa_seller_fee = seller_fee,
          sa_buyer_consumed_quote = notional + buyer_fee, sa_seller_consumed_base = tf_quantity fill,
          sa_seller_cost_released = seller_cost_released,
          sa_seller_realized_pnl = notional - seller_fee - seller_cost_released\<rparr>)"

section \<open>Operations\<close>

text \<open>The pool is built for objects of \<open>sizeof(JournalEntry)\<close> bytes, which the platform decides.\<close>

definition new_AccountClearingSystem :: "u64 \<Rightarrow> pool_error + AccountClearingSystem" where
  "new_AccountClearingSystem sizeof_JournalEntry =
     (case new_ObjectPool sizeof_JournalEntry 512 128 of
        Inl e \<Rightarrow> Inl e
      | Inr pool \<Rightarrow> Inr \<lparr>cl_accounts = Map.empty, cl_holds = Map.empty, cl_journals = Map.empty,
          cl_settled_trade_ids = {}, cl_journal_storage = [], cl_outbox = [], cl_journal_pool = pool\<rparr>)"

definition upsert_account :: "string \<Rightarrow> AccountSnapshot \<Rightarrow> AccountClearingSystem \<Rightarrow> AccountClearingSystem" where
  "upsert_account account_id snapshot s = s\<lparr>cl_accounts := (cl_accounts s)(account_id \<mapsto> snapshot)\<rparr>"

text \<open>The destructor, as the pool it leaves to the destructor of the pool.\<close>

definition destroy_AccountClearingSystem :: "AccountClearingSystem \<Rightarrow> JournalEntry ObjectPool" where
  "destroy_AccountClearingSystem s = fold (\<lambda>entry. op_destroy 0 (Some entry)) (cl_journal_storage s) (cl_journal_pool s)"

definition append_journal :: "JournalEntry \<Rightarrow> AccountClearingSystem \<Rightarrow> clearing_fault + AccountClearingSystem" where
  "append_journal je s =
     (case op_create 0 je (cl_journal_pool s) of
        Inl e \<Rightarrow> Inl (JournalAllocation e)
      | Inr (entry, pool) \<Rightarrow>
          Inr (s\<lparr>cl_journal_pool := pool, cl_journal_storage := cl_journal_storage s @ [entry],
                 cl_journals := (cl_journals s)(je_account_id je \<mapsto>
                   (case cl_journals s (je_account_id je) of None \<Rightarrow> [] | Some es \<Rightarrow> es) @ [entry])\<rparr>))"

text \<open>A state change followed by a journal entry, reported as applied.\<close>

definition journalled :: "JournalEntry \<Rightarrow> AccountClearingSystem \<Rightarrow> clearing_fault + ClearingStatus \<times> AccountClearingSystem" where
  "journalled je s = (case append_journal je s of Inl e \<Rightarrow> Inl e | Inr s' \<Rightarrow> Inr (kApplied, s'))"

definition freeze_quote ::
  "string \<Rightarrow> string \<Rightarrow> double \<Rightarrow> i64 \<Rightarrow> AccountClearingSystem \<Rightarrow> clearing_fault + ClearingStatus \<times> AccountClearingSystem" where
  "freeze_quote account_id hold_id amount timestamp_ms s =
     (case cl_accounts s account_id of
        None \<Rightarrow> Inr (kAccountNotFound, s)
      | Some snapshot \<Rightarrow>
          if amount \<le> 0 then Inr (kInvalidInput, s)
          else if cl_holds s hold_id \<noteq> None then Inr (kHoldAlreadyExists, s)
          else if ac_available_quote snapshot < amount then Inr (kInsufficientQuoteBalance, s)
          else journalled
            \<lparr>je_account_id = account_id, je_event_id = hold_id, je_operation = ''freeze_quote'',
             je_delta_available_quote = - amount, je_delta_frozen_quote = amount, je_delta_available_base = 0,
             je_delta_frozen_base = 0, je_delta_base_cost = 0, je_delta_realized_pnl = 0, je_timestamp_ms = timestamp_ms\<rparr>
            (s\<lparr>cl_accounts := (cl_accounts s)(account_id \<mapsto>
                 snapshot\<lparr>ac_available_quote := ac_available_quote snapshot - amount,
                          ac_frozen_quote := ac_frozen_quote snapshot + amount\<rparr>),
               cl_holds := (cl_holds s)(hold_id \<mapsto>
                 \<lparr>hr_account_id = account_id, hr_asset = kQuote, hr_amount = amount\<rparr>)\<rparr>))"

definition freeze_base ::
  "string \<Rightarrow> string \<Rightarrow> double \<Rightarrow> i64 \<Rightarrow> AccountClearingSystem \<Rightarrow> clearing_fault + ClearingStatus \<times> AccountClearingSystem" where
  "freeze_base account_id hold_id amount timestamp_ms s =
     (case cl_accounts s account_id of
        None \<Rightarrow> Inr (kAccountNotFound, s)
      | Some snapshot \<Rightarrow>
          if amount \<le> 0 then Inr (kInvalidInput, s)
          else if cl_holds s hold_id \<noteq> None then Inr (kHoldAlreadyExists, s)
          else if ac_available_base snapshot < amount then Inr (kInsufficientBasePosition, s)
          else journalled
            \<lparr>je_account_id = account_id, je_event_id = hold_id, je_operation = ''freeze_base'',
             je_delta_available_quote = 0, je_delta_frozen_quote = 0, je_delta_available_base = - amount,
             je_delta_frozen_base = amount, je_delta_base_cost = 0, je_delta_realized_pnl = 0, je_timestamp_ms = timestamp_ms\<rparr>
            (s\<lparr>cl_accounts := (cl_accounts s)(account_id \<mapsto>
                 snapshot\<lparr>ac_available_base := ac_available_base snapshot - amount,
                          ac_frozen_base := ac_frozen_base snapshot + amount\<rparr>),
               cl_holds := (cl_holds s)(hold_id \<mapsto>
                 \<lparr>hr_account_id = account_id, hr_asset = kBase, hr_amount = amount\<rparr>)\<rparr>))"

definition release_hold ::
  "string \<Rightarrow> i64 \<Rightarrow> AccountClearingSystem \<Rightarrow> clearing_fault + ClearingStatus \<times> AccountClearingSystem" where
  "release_hold hold_id timestamp_ms s =
     (case cl_holds s hold_id of
        None \<Rightarrow> Inr (kHoldNotFound, s)
      | Some hold \<Rightarrow>
          (case cl_accounts s (hr_account_id hold) of
             None \<Rightarrow> Inr (kInvariantViolation, s)
           | Some snapshot \<Rightarrow>
               let amount = hr_amount hold;
                   snapshot' = (if hr_asset hold = kQuote
                     then snapshot\<lparr>ac_frozen_quote := ac_frozen_quote snapshot - amount,
                                   ac_available_quote := ac_available_quote snapshot + amount\<rparr>
                     else snapshot\<lparr>ac_frozen_base := ac_frozen_base snapshot - amount,
                                   ac_available_base := ac_available_base snapshot + amount\<rparr>);
                   je = (if hr_asset hold = kQuote
                     then \<lparr>je_account_id = hr_account_id hold, je_event_id = hold_id, je_operation = ''release_quote'',
                           je_delta_available_quote = amount, je_delta_frozen_quote = - amount,
                           je_delta_available_base = 0, je_delta_frozen_base = 0, je_delta_base_cost = 0,
                           je_delta_realized_pnl = 0, je_timestamp_ms = timestamp_ms\<rparr>
                     else \<lparr>je_account_id = hr_account_id hold, je_event_id = hold_id, je_operation = ''release_base'',
                           je_delta_available_quote = 0, je_delta_frozen_quote = 0,
                           je_delta_available_base = amount, je_delta_frozen_base = - amount, je_delta_base_cost = 0,
                           je_delta_realized_pnl = 0, je_timestamp_ms = timestamp_ms\<rparr>)
               in (case append_journal je (s\<lparr>cl_accounts := (cl_accounts s)(hr_account_id hold \<mapsto> snapshot')\<rparr>) of
                     Inl e \<Rightarrow> Inl e
                   | Inr s' \<Rightarrow> Inr (kApplied, s'\<lparr>cl_holds := (cl_holds s')(hold_id := None)\<rparr>))))"

definition has_valid_trade_fill :: "TradeFill \<Rightarrow> bool" where
  "has_valid_trade_fill fill = (0 < tf_price fill \<and> 0 < tf_quantity fill \<and> 0 < tf_timestamp_ms fill)"

definition validate_balance_coverage :: "AccountSnapshot \<Rightarrow> AccountSnapshot \<Rightarrow> double \<Rightarrow> double \<Rightarrow> SettlementResult" where
  "validate_balance_coverage buyer seller buyer_consumed_quote seller_consumed_base =
     (if ac_frozen_quote buyer < buyer_consumed_quote then settlement_status kBuyerFrozenQuoteInsufficient
      else if ac_frozen_base seller < seller_consumed_base then settlement_status kSellerFrozenBaseInsufficient
      else settlement_status kApplied)"

definition hold_insufficient ::
  "string \<Rightarrow> string \<Rightarrow> HoldAsset \<Rightarrow> double \<Rightarrow> AccountClearingSystem \<Rightarrow> bool" where
  "hold_insufficient hold_id account_id asset amount s =
     (hold_id \<noteq> '''' \<and>
      (case cl_holds s hold_id of
         None \<Rightarrow> True
       | Some h \<Rightarrow> hr_account_id h \<noteq> account_id \<or> hr_asset h \<noteq> asset \<or> hr_amount h < amount))"

definition validate_hold_coverage :: "TradeFill \<Rightarrow> double \<Rightarrow> double \<Rightarrow> AccountClearingSystem \<Rightarrow> SettlementResult" where
  "validate_hold_coverage fill buyer_consumed_quote seller_consumed_base s =
     (if hold_insufficient (tf_buyer_hold_id fill) (tf_buyer_account_id fill) kQuote buyer_consumed_quote s
      then settlement_status kBuyerHoldInsufficient
      else if hold_insufficient (tf_seller_hold_id fill) (tf_seller_account_id fill) kBase seller_consumed_base s
      then settlement_status kSellerHoldInsufficient
      else settlement_status kApplied)"

definition consume_hold_amount :: "string \<Rightarrow> double \<Rightarrow> AccountClearingSystem \<Rightarrow> clearing_fault + AccountClearingSystem" where
  "consume_hold_amount hold_id amount s =
     (if hold_id = '''' then Inr s
      else (case cl_holds s hold_id of
              None \<Rightarrow> Inl PastEndHold
            | Some h \<Rightarrow>
                let h' = h\<lparr>hr_amount := hr_amount h - amount\<rparr>
                in Inr (s\<lparr>cl_holds := (cl_holds s)(hold_id := (if is_zero (hr_amount h') then None else Some h'))\<rparr>)))"

definition append_settlement_journal ::
  "TradeFill \<Rightarrow> double \<Rightarrow> double \<Rightarrow> double \<Rightarrow> double \<Rightarrow> double \<Rightarrow> AccountClearingSystem \<Rightarrow> clearing_fault + AccountClearingSystem" where
  "append_settlement_journal fill notional buyer_fee seller_fee seller_cost_released seller_realized_pnl s =
     (case append_journal
        \<lparr>je_account_id = tf_buyer_account_id fill, je_event_id = tf_trade_id fill, je_operation = ''spot_trade_buy'',
         je_delta_available_quote = 0, je_delta_frozen_quote = - (notional + buyer_fee),
         je_delta_available_base = tf_quantity fill, je_delta_frozen_base = 0,
         je_delta_base_cost = notional + buyer_fee, je_delta_realized_pnl = 0, je_timestamp_ms = tf_timestamp_ms fill\<rparr> s of
        Inl e \<Rightarrow> Inl e
      | Inr s1 \<Rightarrow> append_journal
        \<lparr>je_account_id = tf_seller_account_id fill, je_event_id = tf_trade_id fill, je_operation = ''spot_trade_sell'',
         je_delta_available_quote = notional - seller_fee, je_delta_frozen_quote = 0,
         je_delta_available_base = 0, je_delta_frozen_base = - tf_quantity fill,
         je_delta_base_cost = - seller_cost_released, je_delta_realized_pnl = seller_realized_pnl,
         je_timestamp_ms = tf_timestamp_ms fill\<rparr> s1)"

definition enqueue_settlement_outbox :: "TradeFill \<Rightarrow> AccountClearingSystem \<Rightarrow> AccountClearingSystem" where
  "enqueue_settlement_outbox fill s =
     s\<lparr>cl_outbox := outbox_append
        \<lparr>om_id = tf_trade_id fill, om_topic = ''clearing.settlement'',
         om_payload = tf_symbol fill @ '':'' @ tf_buyer_account_id fill @ '':'' @ tf_seller_account_id fill,
         om_state = kPending\<rparr> (cl_outbox s)\<rparr>"

text \<open>Assignment through a reference into \<open>accounts_\<close>.\<close>

definition update_account ::
  "string \<Rightarrow> (AccountSnapshot \<Rightarrow> AccountSnapshot) \<Rightarrow> AccountClearingSystem \<Rightarrow> AccountClearingSystem" where
  "update_account account_id f s =
     s\<lparr>cl_accounts := (cl_accounts s)(account_id := map_option f (cl_accounts s account_id))\<rparr>"

definition buyer_leg :: "TradeFill \<Rightarrow> SettlementAmounts \<Rightarrow> AccountSnapshot \<Rightarrow> AccountSnapshot" where
  "buyer_leg fill amounts buyer =
     buyer\<lparr>ac_frozen_quote := ac_frozen_quote buyer - sa_buyer_consumed_quote amounts,
           ac_available_base := ac_available_base buyer + tf_quantity fill,
           ac_base_cost := ac_base_cost buyer + sa_buyer_consumed_quote amounts\<rparr>"

definition seller_leg :: "SettlementAmounts \<Rightarrow> AccountSnapshot \<Rightarrow> AccountSnapshot" where
  "seller_leg amounts seller =
     seller\<lparr>ac_frozen_base := ac_frozen_base seller - sa_seller_consumed_base amounts,
            ac_available_quote := ac_available_quote seller + (sa_notional amounts - sa_seller_fee amounts),
            ac_base_cost := ac_base_cost seller - sa_seller_cost_released amounts,
            ac_realized_pnl := ac_realized_pnl seller + sa_seller_realized_pnl amounts\<rparr>"

text \<open>The part of \<open>settle_spot_trade\<close> after its checks.\<close>

definition apply_settlement ::
  "TradeFill \<Rightarrow> SettlementAmounts \<Rightarrow> AccountClearingSystem \<Rightarrow> clearing_fault + SettlementResult \<times> AccountClearingSystem" where
  "apply_settlement fill amounts s =
     (let s1 = update_account (tf_buyer_account_id fill) (buyer_leg fill amounts) s;
          s2 = update_account (tf_seller_account_id fill) (seller_leg amounts) s1
      in case consume_hold_amount (tf_buyer_hold_id fill) (sa_buyer_consumed_quote amounts) s2 of
           Inl e \<Rightarrow> Inl e
         | Inr s3 \<Rightarrow>
        (case consume_hold_amount (tf_seller_hold_id fill) (sa_seller_consumed_base amounts) s3 of
           Inl e \<Rightarrow> Inl e
         | Inr s4 \<Rightarrow>
        (case append_settlement_journal fill (sa_notional amounts) (sa_buyer_fee amounts) (sa_seller_fee amounts)
                (sa_seller_cost_released amounts) (sa_seller_realized_pnl amounts) s4 of
           Inl e \<Rightarrow> Inl e
         | Inr s5 \<Rightarrow>
             let s6 = enqueue_settlement_outbox fill s5
             in Inr (\<lparr>sr_status = kApplied, sr_notional = sa_notional amounts, sr_buyer_fee = sa_buyer_fee amounts,
                      sr_seller_fee = sa_seller_fee amounts, sr_seller_realized_pnl = sa_seller_realized_pnl amounts\<rparr>,
                     s6\<lparr>cl_settled_trade_ids := insert (tf_trade_id fill) (cl_settled_trade_ids s6)\<rparr>))))"

definition settle_spot_trade ::
  "TradeFill \<Rightarrow> FeeSchedule \<Rightarrow> AccountClearingSystem \<Rightarrow> clearing_fault + SettlementResult \<times> AccountClearingSystem" where
  "settle_spot_trade fill fee_schedule s =
     (if tf_trade_id fill \<in> cl_settled_trade_ids s then Inr (settlement_status kDuplicate, s)
      else (case (cl_accounts s (tf_buyer_account_id fill), cl_accounts s (tf_seller_account_id fill)) of
              (Some buyer, Some seller) \<Rightarrow>
                if \<not> has_valid_trade_fill fill then Inr (settlement_status kInvalidInput, s)
                else let amounts = calculate_settlement_amounts fill fee_schedule seller;
                         balance_check = validate_balance_coverage buyer seller (sa_buyer_consumed_quote amounts)
                                           (sa_seller_consumed_base amounts)
                     in if \<not> sr_ok balance_check then Inr (balance_check, s)
                        else let hold_check = validate_hold_coverage fill (sa_buyer_consumed_quote amounts)
                                                (sa_seller_consumed_base amounts) s
                             in if \<not> sr_ok hold_check then Inr (hold_check, s)
                                else apply_settlement fill amounts s
            | _ \<Rightarrow> Inr (settlement_status kAccountNotFound, s)))"

definition cl_account :: "string \<Rightarrow> AccountClearingSystem \<Rightarrow> AccountSnapshot option" where
  "cl_account account_id s = cl_accounts s account_id"

definition hold_amount :: "string \<Rightarrow> AccountClearingSystem \<Rightarrow> double option" where
  "hold_amount hold_id s = map_option hr_amount (cl_holds s hold_id)"

text \<open>\<open>journal\<close> dereferences the stored pointers; \<open>None\<close> is a dangling one.\<close>

definition cl_journal :: "string \<Rightarrow> AccountClearingSystem \<Rightarrow> JournalEntry list option" where
  "cl_journal account_id s =
     (case cl_journals s account_id of
        None \<Rightarrow> Some []
      | Some ptrs \<Rightarrow> those (map (op_objects (cl_journal_pool s)) ptrs))"

definition reconcile_account :: "string \<Rightarrow> AccountClearingSystem \<Rightarrow> bool" where
  "reconcile_account account_id s =
     (case cl_account account_id s of
        None \<Rightarrow> False
      | Some snapshot \<Rightarrow> 0 \<le> ac_available_quote snapshot \<and> 0 \<le> ac_frozen_quote snapshot \<and>
          0 \<le> ac_available_base snapshot \<and> 0 \<le> ac_frozen_base snapshot \<and> 0 \<le> ac_base_cost snapshot)"

definition pending_outbox :: "nat \<Rightarrow> AccountClearingSystem \<Rightarrow> OutboxMessage list" where
  "pending_outbox max_items s = pending_batch max_items (cl_outbox s)"

definition mark_outbox_dispatched :: "string \<Rightarrow> AccountClearingSystem \<Rightarrow> ClearingStatus \<times> AccountClearingSystem" where
  "mark_outbox_dispatched message_id s =
     (let (found, outbox) = mark_dispatched message_id (cl_outbox s)
      in if found then (kApplied, s\<lparr>cl_outbox := outbox\<rparr>) else (kOutboxMessageNotFound, s\<lparr>cl_outbox := outbox\<rparr>))"

fun status_message :: "ClearingStatus \<Rightarrow> string" where
  "status_message kApplied = ''applied''"
| "status_message kDuplicate = ''duplicate''"
| "status_message kInvalidInput = ''invalid_input''"
| "status_message kAccountNotFound = ''account_not_found''"
| "status_message kHoldAlreadyExists = ''hold_already_exists''"
| "status_message kHoldNotFound = ''hold_not_found''"
| "status_message kInsufficientQuoteBalance = ''insufficient_quote_balance''"
| "status_message kInsufficientBasePosition = ''insufficient_base_position''"
| "status_message kBuyerFrozenQuoteInsufficient = ''buyer_frozen_quote_insufficient''"
| "status_message kSellerFrozenBaseInsufficient = ''seller_frozen_base_insufficient''"
| "status_message kBuyerHoldInsufficient = ''buyer_hold_insufficient''"
| "status_message kSellerHoldInsufficient = ''seller_hold_insufficient''"
| "status_message kOutboxMessageNotFound = ''outbox_message_not_found''"
| "status_message kInvariantViolation = ''invariant_violation''"

end
