(* ===== verification/Pipeline.thy ===== *)
theory Pipeline
  imports Matching Risk_Engine Gateway Clearing
begin

text \<open>
  The exchange pipeline of \<open>integration/exchange-pipeline\<close>: one submission goes through the gateway, the payload parser,
  the risk engine, a clearing hold, the matching engine, settlement of the trades and release of the closed orders' holds.

  \<open>std::strtod\<close> depends on the locale and on how the platform reports underflow; it is an argument of the parser: for a
  text it yields whether \<open>errno\<close> is \<open>ERANGE\<close>, the number of characters read and the value. The registry is iterated, so it is an
  association list; the order of an \<open>unordered_map\<close> is not specified. \<open>pipeline_fault\<close> collects the exceptions and undefined
  results of the components; \<open>ClockFault\<close> is a sum or difference of timestamps that is no \<open>int64_t\<close>.
\<close>

section \<open>Types\<close>

datatype WorkflowStatus = kCompleted | kRouteRejected | kParseRejected | kRiskRejected | kClearingRejected | kMatchingRejected
  | kSettlementRejected | wf_kInvariantViolation

record WorkflowResult =
  wf_status :: WorkflowStatus
  wf_error_detail :: string
  wf_accepted :: bool
  wf_route_result :: RouteResult
  wf_risk_decision :: RiskDecision
  wf_match_result :: MatchResult
  wf_settlements :: "SettlementResult list"
  wf_route_events :: "BroadcastMessage list"
  wf_trade_events :: "BroadcastMessage list"
  wf_depth_events :: "BroadcastMessage list"
  wf_outbox_messages :: "OutboxMessage list"

definition wf_ok :: "WorkflowResult \<Rightarrow> bool" where
  "wf_ok workflow = (wf_status workflow = kCompleted)"

record ParsedOrder =
  po_order_id :: string
  po_user_id :: string
  po_symbol :: string
  po_source_ip :: string
  po_matching_side :: Side
  po_risk_side :: risk_Side
  po_matching_type :: OrderType
  po_risk_type :: risk_OrderType
  po_tif :: TimeInForce
  po_price :: double
  po_quantity :: double
  po_timestamp_ms :: i64

record ManagedOrder =
  mo_user_id :: string
  mo_symbol :: string
  mo_side :: Side
  mo_hold_id :: string

record ExchangePipeline =
  ep_symbol :: string
  ep_best_bid :: double
  ep_best_ask :: double
  ep_fee_schedule :: FeeSchedule
  ep_gateway :: UnifiedAccessGateway
  ep_risk :: PreTradeRiskEngine
  ep_matching :: OrderbookMatchingEngine
  ep_clearing :: AccountClearingSystem
  ep_order_registry :: "(string \<times> ManagedOrder) list"
  ep_known_users :: "string list"
  ep_resting_users :: "string list"

datatype pipeline_fault = GatewayFault ring_error | RiskFault risk_error | EngineFault engine_error | ClearingPoolFault pool_error
  | ClearingFault clearing_fault | MatchingUndefined | ClockFault time_fault

text \<open>Sequencing of steps that may fail; \<open>lift_fault\<close> names the component of a failure.\<close>

fun andthen :: "'e + 'a \<Rightarrow> ('a \<Rightarrow> 'e + 'b) \<Rightarrow> 'e + 'b" where
  "andthen (Inl e) f = Inl e"
| "andthen (Inr x) f = f x"

fun lift_fault :: "('e \<Rightarrow> pipeline_fault) \<Rightarrow> 'e + 'a \<Rightarrow> pipeline_fault + 'a" where
  "lift_fault c (Inl e) = Inl (c e)"
| "lift_fault c (Inr x) = Inr x"

fun defined_or :: "pipeline_fault \<Rightarrow> 'a option \<Rightarrow> pipeline_fault + 'a" where
  "defined_or e None = Inl e"
| "defined_or e (Some x) = Inr x"

definition empty_workflow :: WorkflowResult where
  "empty_workflow = \<lparr>wf_status = kCompleted, wf_error_detail = [], wf_accepted = False,
     wf_route_result = \<lparr>rt_accepted = False, rt_reject_reason = gw_kNone, rt_backend = kRisk, rt_route_name = [], rt_queued_requests = 0\<rparr>,
     wf_risk_decision = \<lparr>rd_accepted = False, rd_reject_reason = risk_kNone, rd_rule_name = [], rd_order_id = [], rd_user_id = [],
       rd_symbol = [], rd_reference_price = 0, rd_estimated_notional = 0, rd_timestamp_ms = 0\<rparr>,
     wf_match_result = \<lparr>mr_accepted = False, mr_final_status = kRejected, mr_reject_reason = kNone, mr_executed_quantity = 0,
       mr_remaining_quantity = 0, mr_trades = []\<rparr>,
     wf_settlements = [], wf_route_events = [], wf_trade_events = [], wf_depth_events = [], wf_outbox_messages = []\<rparr>"

section \<open>Parsing\<close>

definition pl_kEpsilon :: double where
  "pl_kEpsilon = dbl (1 / 1000000000)"

definition pl_is_zero :: "double \<Rightarrow> bool" where
  "pl_is_zero v = (\<bar>v\<bar> \<le> pl_kEpsilon)"

text \<open>The loop over the rest of the payload from \<open>start\<close> on; \<open>emplace\<close> keeps an existing entry.\<close>

function parse_key_values_loop :: "string \<Rightarrow> (string \<rightharpoonup> string) \<Rightarrow> (string \<rightharpoonup> string)" where
  "parse_key_values_loop payload values =
     (if payload = [] then values
      else let token = takeWhile (\<lambda>c. c \<noteq> CHR '';'') payload;
               rest = dropWhile (\<lambda>c. c \<noteq> CHR '';'') payload;
               key = takeWhile (\<lambda>c. c \<noteq> CHR ''='') token;
               values' = (if CHR ''='' \<in> set token \<and> values key = None then values(key \<mapsto> drop (length key + 1) token) else values)
           in if rest = [] then values' else parse_key_values_loop (tl rest) values')"
  by pat_completeness auto
termination
  by (relation "measure (\<lambda>(payload, _). length payload)")
    (auto simp: length_greater_0_conv [symmetric] simp del: length_greater_0_conv dest: dropWhile_eq_Nil_conv [THEN iffD2]
      intro: le_less_trans [OF diff_le_mono [OF length_dropWhile_le]])

declare parse_key_values_loop.simps [simp del]

definition parse_key_values :: "string \<Rightarrow> (string \<rightharpoonup> string)" where
  "parse_key_values payload = parse_key_values_loop payload Map.empty"

definition parse_matching_side :: "string \<Rightarrow> Side option" where
  "parse_matching_side v = (if v = ''buy'' then Some kBuy else if v = ''sell'' then Some kSell else None)"

definition parse_risk_side :: "string \<Rightarrow> risk_Side option" where
  "parse_risk_side v = (if v = ''buy'' then Some risk_kBuy else if v = ''sell'' then Some risk_kSell else None)"

definition parse_matching_type :: "string \<Rightarrow> OrderType option" where
  "parse_matching_type v = (if v = ''limit'' then Some kLimit else if v = ''market'' then Some kMarket else None)"

definition parse_risk_type :: "string \<Rightarrow> risk_OrderType option" where
  "parse_risk_type v = (if v = ''limit'' then Some risk_kLimit else if v = ''market'' then Some risk_kMarket else None)"

definition parse_tif :: "string \<Rightarrow> TimeInForce option" where
  "parse_tif v = (if v = ''gtc'' then Some kGtc else if v = ''ioc'' then Some kIoc else if v = ''fok'' then Some kFok
     else if v = ''gtx'' then Some kGtx else None)"

definition parse_decimal :: "(string \<Rightarrow> bool \<times> nat \<times> double) \<Rightarrow> string \<Rightarrow> double option" where
  "parse_decimal strtod v =
     (if v = [] then None
      else let (erange, consumed, parsed) = strtod v in
           if erange \<or> consumed \<noteq> length v \<or> \<not> is_finite parsed then None else Some parsed)"

definition parse_order :: "(string \<Rightarrow> bool \<times> nat \<times> double) \<Rightarrow> ForwardedRequest \<Rightarrow> ParsedOrder option" where
  "parse_order strtod request =
     (let values = parse_key_values (fr_payload request) in
      do { side <- values ''side''; ty <- values ''type''; tif <- values ''tif''; order_id <- values ''order_id'';
           symbol <- values ''symbol''; source_ip <- values ''source_ip''; quantity_text <- values ''quantity'';
           matching_side <- parse_matching_side side; risk_side <- parse_risk_side side;
           matching_type <- parse_matching_type ty; risk_type <- parse_risk_type ty; tif' <- parse_tif tif;
           quantity <- parse_decimal strtod quantity_text;
           price <- (case values ''price'' of None \<Rightarrow> Some 0 | Some text \<Rightarrow> parse_decimal strtod text);
           Some \<lparr>po_order_id = order_id, po_user_id = fr_user_id request, po_symbol = symbol, po_source_ip = source_ip,
                 po_matching_side = matching_side, po_risk_side = risk_side, po_matching_type = matching_type,
                 po_risk_type = risk_type, po_tif = tif', po_price = price, po_quantity = quantity,
                 po_timestamp_ms = fr_timestamp_ms request\<rparr> })"

fun to_risk_reject_reason :: "ClearingStatus \<Rightarrow> Side \<Rightarrow> risk_RejectReason" where
  "to_risk_reject_reason kInsufficientQuoteBalance side = kInsufficientBalance"
| "to_risk_reject_reason kInsufficientBasePosition side = kInsufficientPosition"
| "to_risk_reject_reason kAccountNotFound side = kInvalidRequest"
| "to_risk_reject_reason kInvalidInput side = kInvalidRequest"
| "to_risk_reject_reason kHoldAlreadyExists side = kInvalidRequest"
| "to_risk_reject_reason _ side = (if side = kBuy then kInsufficientBalance else kInsufficientPosition)"

definition hold_id_for :: "string \<Rightarrow> string" where
  "hold_id_for order_id = ''hold-'' @ order_id"

definition to_matching_request :: "ParsedOrder \<Rightarrow> OrderRequest" where
  "to_matching_request order =
     \<lparr>oq_order_id = po_order_id order, oq_side = po_matching_side order, oq_type = po_matching_type order, oq_tif = po_tif order,
      oq_price = po_price order, oq_quantity = po_quantity order, oq_timestamp = word_of_int (po_timestamp_ms order)\<rparr>"

definition to_risk_request :: "ParsedOrder \<Rightarrow> risk_OrderRequest" where
  "to_risk_request order =
     \<lparr>rr_order_id = po_order_id order, rr_user_id = po_user_id order, rr_symbol = po_symbol order, rr_source_ip = po_source_ip order,
      rr_side = po_risk_side order, rr_type = po_risk_type order, rr_price = po_price order, rr_quantity = po_quantity order,
      rr_timestamp_ms = po_timestamp_ms order\<rparr>"

section \<open>Configuration\<close>

definition new_ExchangePipeline ::
  "u64 \<Rightarrow> u64 \<Rightarrow> (RouteConfig list \<Rightarrow> RouteConfig list) \<Rightarrow> string \<Rightarrow> pipeline_fault + ExchangePipeline" where
  "new_ExchangePipeline sizeof_RestingOrder sizeof_JournalEntry sort_routes symbol =
     andthen (lift_fault GatewayFault (new_UnifiedAccessGateway 4096)) (\<lambda>gateway.
     andthen (lift_fault RiskFault (new_PreTradeRiskEngine 4096)) (\<lambda>risk.
     andthen (lift_fault EngineFault (new_OrderbookMatchingEngine sizeof_RestingOrder symbol 4096)) (\<lambda>matching.
     andthen (lift_fault ClearingPoolFault (new_AccountClearingSystem sizeof_JournalEntry)) (\<lambda>clearing.
       Inr \<lparr>ep_symbol = symbol, ep_best_bid = 0, ep_best_ask = 0,
            ep_fee_schedule = \<lparr>fs_maker_fee_bps = 0, fs_taker_fee_bps = 0\<rparr>,
            ep_gateway = configure_route sort_routes ''/v1/orders'' kRisk ''risk_ingress'' gateway,
            ep_risk = risk, ep_matching = matching, ep_clearing = clearing, ep_order_registry = [], ep_known_users = [],
            ep_resting_users = []\<rparr>))))"

definition pl_configure_market ::
  "double \<Rightarrow> double \<Rightarrow> FeeSchedule \<Rightarrow> MarketRiskConfig \<Rightarrow> ExchangePipeline \<Rightarrow> pipeline_fault + ExchangePipeline" where
  "pl_configure_market bid ask fee_schedule risk_config p =
     andthen (lift_fault RiskFault (configure_market risk_config (ep_risk p))) (\<lambda>risk1.
     andthen (lift_fault RiskFault (update_top_of_book (ep_symbol p) bid ask risk1)) (\<lambda>risk2.
       Inr (p\<lparr>ep_best_bid := bid, ep_best_ask := ask, ep_fee_schedule := fee_schedule, ep_risk := risk2\<rparr>)))"

definition sync_account_state :: "string \<Rightarrow> ExchangePipeline \<Rightarrow> ExchangePipeline" where
  "sync_account_state user_id p =
     (case cl_account user_id (ep_clearing p) of
        None \<Rightarrow> p
      | Some snapshot \<Rightarrow> p\<lparr>ep_risk := set_account_state user_id (ep_symbol p)
          \<lparr>as_quote_balance = ac_available_quote snapshot, as_base_position = ac_available_base snapshot\<rparr> (ep_risk p)\<rparr>)"

definition register_user ::
  "string \<Rightarrow> string \<Rightarrow> string \<Rightarrow> AccountSnapshot \<Rightarrow> u64 \<Rightarrow> i64 \<Rightarrow> ExchangePipeline \<Rightarrow> ExchangePipeline" where
  "register_user api_key secret user_id account_snapshot max_requests window_ms p =
     sync_account_state user_id
       (p\<lparr>ep_gateway := set_user_rate_limit user_id max_requests window_ms (register_credential api_key secret user_id (ep_gateway p)),
          ep_clearing := upsert_account user_id account_snapshot (ep_clearing p),
          ep_known_users := List.insert user_id (ep_known_users p)\<rparr>)"

section \<open>Stages\<close>

definition route_request ::
  "GatewayRequest \<Rightarrow> WorkflowResult \<times> ExchangePipeline \<Rightarrow> pipeline_fault + ForwardedRequest option \<times> WorkflowResult \<times> ExchangePipeline" where
  "route_request request st =
     (let (workflow, p) = st in
      andthen (lift_fault ClockFault (gw_route request (ep_gateway p))) (\<lambda>(result, g1).
        let w1 = workflow\<lparr>wf_route_result := result, wf_route_events := replay_route_events 0 g1\<rparr> in
        if \<not> rt_accepted result then Inr (None, w1\<lparr>wf_status := kRouteRejected\<rparr>, p\<lparr>ep_gateway := g1\<rparr>)
        else let (forwarded, g2) = poll_forwarded_request g1; p2 = p\<lparr>ep_gateway := g2\<rparr> in
             Inr (case forwarded of
                    None \<Rightarrow> (None, w1\<lparr>wf_status := wf_kInvariantViolation, wf_error_detail := ''gateway_forwarded_request_missing''\<rparr>, p2)
                  | Some f \<Rightarrow> (Some f, w1, p2))))"

definition parse_forwarded_request ::
  "(string \<Rightarrow> bool \<times> nat \<times> double) \<Rightarrow> ForwardedRequest \<Rightarrow> WorkflowResult \<times> ExchangePipeline \<Rightarrow> ParsedOrder option \<times> WorkflowResult" where
  "parse_forwarded_request strtod request st =
     (let (workflow, p) = st in
      case parse_order strtod request of
        None \<Rightarrow> (None, workflow\<lparr>wf_status := kParseRejected, wf_risk_decision :=
          \<lparr>rd_accepted = False, rd_reject_reason = kInvalidRequest, rd_rule_name = ''request_parse'', rd_order_id = [],
           rd_user_id = fr_user_id request, rd_symbol = ep_symbol p, rd_reference_price = 0, rd_estimated_notional = 0,
           rd_timestamp_ms = fr_timestamp_ms request\<rparr>\<rparr>)
      | Some parsed \<Rightarrow> (Some parsed, workflow))"

definition evaluate_risk_stage ::
  "ParsedOrder \<Rightarrow> WorkflowResult \<times> ExchangePipeline \<Rightarrow> pipeline_fault + bool \<times> WorkflowResult \<times> ExchangePipeline" where
  "evaluate_risk_stage order st =
     (let (workflow, p) = st in
      andthen (lift_fault RiskFault (risk_evaluate (to_risk_request order) (ep_risk p))) (\<lambda>(decision, risk1).
        let w1 = workflow\<lparr>wf_risk_decision := decision\<rparr>; p1 = p\<lparr>ep_risk := risk1\<rparr> in
        Inr (if \<not> rd_accepted decision then (False, w1\<lparr>wf_status := kRiskRejected\<rparr>, p1) else (True, w1, p1))))"

definition reserve_amount :: "ParsedOrder \<Rightarrow> ExchangePipeline \<Rightarrow> double" where
  "reserve_amount order p =
     (if po_matching_side order = kSell then po_quantity order
      else let reference_price =
             (if po_matching_type order = kMarket \<or> po_price order \<le> 0
              then let snapshot = me_snapshot 1 (ep_matching p) in
                   if ds_asks snapshot \<noteq> [] then bl_price (hd (ds_asks snapshot)) else ep_best_ask p
              else po_price order)
           in reference_price * po_quantity order * (1 + fs_taker_fee_bps (ep_fee_schedule p) / dint 10000))"

definition reserve_order_hold ::
  "ParsedOrder \<Rightarrow> WorkflowResult \<times> ExchangePipeline \<Rightarrow> pipeline_fault + string option \<times> WorkflowResult \<times> ExchangePipeline" where
  "reserve_order_hold order st =
     (let (workflow, p) = st; hold_id = hold_id_for (po_order_id order); reserved = reserve_amount order p in
      andthen (lift_fault ClearingFault
        (if po_matching_side order = kBuy
         then freeze_quote (po_user_id order) hold_id reserved (po_timestamp_ms order) (ep_clearing p)
         else freeze_base (po_user_id order) hold_id reserved (po_timestamp_ms order) (ep_clearing p))) (\<lambda>(status, clearing1).
        let p1 = p\<lparr>ep_clearing := clearing1\<rparr> in
        Inr (if \<not> op_result_ok status
             then (None, workflow\<lparr>wf_status := kClearingRejected, wf_error_detail := status_message status,
                     wf_risk_decision := (wf_risk_decision workflow)\<lparr>rd_accepted := False,
                       rd_reject_reason := to_risk_reject_reason status (po_matching_side order),
                       rd_rule_name := ''clearing_hold_reservation''\<rparr>\<rparr>, p1)
             else (Some hold_id, workflow, p1))))"

definition track_managed_order :: "ParsedOrder \<Rightarrow> string \<Rightarrow> ExchangePipeline \<Rightarrow> ExchangePipeline" where
  "track_managed_order order hold_id p =
     (let p1 = sync_account_state (po_user_id order) p in
      p1\<lparr>ep_order_registry := AList.update (po_order_id order)
        \<lparr>mo_user_id = po_user_id order, mo_symbol = po_symbol order, mo_side = po_matching_side order, mo_hold_id = hold_id\<rparr>
        (ep_order_registry p1)\<rparr>)"

definition release_residual_hold ::
  "string \<Rightarrow> i64 \<Rightarrow> ExchangePipeline \<Rightarrow> pipeline_fault + ClearingStatus \<times> ExchangePipeline" where
  "release_residual_hold hold_id timestamp_ms p =
     (case hold_amount hold_id (ep_clearing p) of
        None \<Rightarrow> Inr (kApplied, p)
      | Some amount \<Rightarrow>
          if pl_is_zero amount then Inr (kApplied, p)
          else andthen (lift_fault ClearingFault (release_hold hold_id timestamp_ms (ep_clearing p))) (\<lambda>(status, clearing1).
                 Inr (status, p\<lparr>ep_clearing := clearing1\<rparr>)))"

text \<open>One resting order of the second loop of \<open>sync_resting_orders\<close>.\<close>

definition track_resting_view :: "RestingOrderView \<Rightarrow> ExchangePipeline \<Rightarrow> ExchangePipeline" where
  "track_resting_view resting p =
     (case map_of (ep_order_registry p) (rv_order_id resting) of
        None \<Rightarrow> p
      | Some managed \<Rightarrow>
          p\<lparr>ep_risk := track_resting_order (ep_symbol p)
              \<lparr>ro_user_id = mo_user_id managed, rrv_side = (if mo_side managed = kBuy then risk_kBuy else risk_kSell),
               rrv_price = rv_price resting, rrv_quantity = rv_open_quantity resting\<rparr> (ep_risk p),
            ep_resting_users := List.insert (mo_user_id managed) (ep_resting_users p)\<rparr>)"

definition sync_resting_orders :: "ExchangePipeline \<Rightarrow> pipeline_fault + ExchangePipeline" where
  "sync_resting_orders p =
     (let risk1 = fold (\<lambda>user_id. clear_user_resting_orders (ep_symbol p) user_id) (ep_resting_users p) (ep_risk p);
          p1 = p\<lparr>ep_risk := risk1, ep_resting_users := []\<rparr> in
      andthen (defined_or MatchingUndefined (resting_orders (ep_matching p1))) (\<lambda>views. Inr (fold track_resting_view views p1)))"

definition handle_rejected_match ::
  "ParsedOrder \<Rightarrow> string \<Rightarrow> WorkflowResult \<times> ExchangePipeline \<Rightarrow> pipeline_fault + bool \<times> WorkflowResult \<times> ExchangePipeline" where
  "handle_rejected_match order hold_id st =
     (let (workflow, p) = st; w1 = workflow\<lparr>wf_status := kMatchingRejected\<rparr> in
      andthen (lift_fault ClockFault (checked_i64 (po_timestamp_ms order + 1))) (\<lambda>timestamp_ms.
      andthen (release_residual_hold hold_id timestamp_ms p) (\<lambda>(status, p1).
        if \<not> op_result_ok status
        then Inr (False, w1\<lparr>wf_status := wf_kInvariantViolation, wf_error_detail := status_message status\<rparr>, p1)
        else let p2 = p1\<lparr>ep_order_registry := AList.delete (po_order_id order) (ep_order_registry p1)\<rparr>;
                 p3 = sync_account_state (po_user_id order) p2 in
             andthen (sync_resting_orders p3) (\<lambda>p4.
               Inr (True, w1\<lparr>wf_trade_events := replay_market_data (''trades.'' @ ep_symbol p4) 0 (ep_matching p4),
                              wf_depth_events := replay_market_data (''depth.'' @ ep_symbol p4) 0 (ep_matching p4)\<rparr>, p4)))))"

definition fill_of_trade :: "ParsedOrder \<Rightarrow> Trade \<Rightarrow> ManagedOrder \<Rightarrow> ManagedOrder \<Rightarrow> string \<Rightarrow> TradeFill" where
  "fill_of_trade order trade maker taker symbol =
     (let taker_is_buy = (mo_side taker = kBuy) in
      \<lparr>tf_trade_id = tr_maker_order_id trade @ ''->'' @ tr_taker_order_id trade, tf_symbol = symbol,
       tf_buyer_account_id = (if taker_is_buy then mo_user_id taker else mo_user_id maker),
       tf_seller_account_id = (if taker_is_buy then mo_user_id maker else mo_user_id taker),
       tf_buyer_hold_id = (if taker_is_buy then mo_hold_id taker else mo_hold_id maker),
       tf_seller_hold_id = (if taker_is_buy then mo_hold_id maker else mo_hold_id taker),
       tf_price = tr_price trade, tf_quantity = tr_quantity trade, tf_buyer_is_taker = taker_is_buy,
       tf_timestamp_ms = po_timestamp_ms order\<rparr>)"

fun settle_trades_loop ::
  "ParsedOrder \<Rightarrow> Trade list \<Rightarrow> WorkflowResult \<times> ExchangePipeline \<Rightarrow> pipeline_fault + bool \<times> WorkflowResult \<times> ExchangePipeline" where
  "settle_trades_loop order [] (workflow, p) = Inr (True, workflow, p)"
| "settle_trades_loop order (trade # trades) (workflow, p) =
     (case (map_of (ep_order_registry p) (tr_maker_order_id trade), map_of (ep_order_registry p) (tr_taker_order_id trade)) of
        (Some maker, Some taker) \<Rightarrow>
          let fill = fill_of_trade order trade maker taker (ep_symbol p) in
          andthen (lift_fault ClearingFault (settle_spot_trade fill (ep_fee_schedule p) (ep_clearing p))) (\<lambda>(settlement, clearing1).
            let w1 = workflow\<lparr>wf_settlements := wf_settlements workflow @ [settlement]\<rparr>; p1 = p\<lparr>ep_clearing := clearing1\<rparr> in
            if \<not> sr_ok settlement
            then Inr (False, w1\<lparr>wf_status := kSettlementRejected, wf_error_detail := status_message (sr_status settlement),
                                wf_accepted := False\<rparr>, p1)
            else settle_trades_loop order trades
                   (w1, sync_account_state (tf_seller_account_id fill) (sync_account_state (tf_buyer_account_id fill) p1)))
      | _ \<Rightarrow> Inr (False, workflow\<lparr>wf_status := wf_kInvariantViolation,
                    wf_error_detail := ''missing_order_ownership_for_matched_trade'', wf_accepted := False\<rparr>, p))"

definition settle_trades ::
  "ParsedOrder \<Rightarrow> WorkflowResult \<times> ExchangePipeline \<Rightarrow> pipeline_fault + bool \<times> WorkflowResult \<times> ExchangePipeline" where
  "settle_trades order st = settle_trades_loop order (mr_trades (wf_match_result (fst st))) st"

fun release_loop ::
  "ParsedOrder \<Rightarrow> string list \<Rightarrow> string list \<Rightarrow> WorkflowResult \<times> ExchangePipeline \<Rightarrow>
    pipeline_fault + bool \<times> WorkflowResult \<times> ExchangePipeline" where
  "release_loop order live_order_ids [] (workflow, p) = Inr (True, workflow, p)"
| "release_loop order live_order_ids (order_id # order_ids) (workflow, p) =
     (if order_id \<in> set live_order_ids then release_loop order live_order_ids order_ids (workflow, p)
      else case map_of (ep_order_registry p) order_id of
             None \<Rightarrow> release_loop order live_order_ids order_ids (workflow, p)
           | Some managed \<Rightarrow>
               andthen (lift_fault ClockFault (checked_i64 (po_timestamp_ms order + 2))) (\<lambda>timestamp_ms.
               andthen (release_residual_hold (mo_hold_id managed) timestamp_ms p) (\<lambda>(status, p1).
                 if \<not> op_result_ok status
                 then Inr (False, workflow\<lparr>wf_status := wf_kInvariantViolation, wf_error_detail := status_message status,
                                           wf_accepted := False\<rparr>, p1)
                 else let p2 = sync_account_state (mo_user_id managed) p1 in
                      release_loop order live_order_ids order_ids
                        (workflow, p2\<lparr>ep_order_registry := AList.delete order_id (ep_order_registry p2)\<rparr>))))"

definition release_closed_orders ::
  "ParsedOrder \<Rightarrow> WorkflowResult \<times> ExchangePipeline \<Rightarrow> pipeline_fault + bool \<times> WorkflowResult \<times> ExchangePipeline" where
  "release_closed_orders order st =
     (let (workflow, p) = st in
      andthen (defined_or MatchingUndefined (resting_orders (ep_matching p))) (\<lambda>resting.
        let live_order_ids = map rv_order_id resting;
            tracked_order_ids = map fst (filter (\<lambda>(_, managed). mo_symbol managed = ep_symbol p) (ep_order_registry p)) in
        release_loop order live_order_ids tracked_order_ids (workflow, p)))"

definition refresh_market_reference :: "ExchangePipeline \<Rightarrow> pipeline_fault + ExchangePipeline" where
  "refresh_market_reference p =
     (let snapshot = me_snapshot 1 (ep_matching p);
          bid = (if ds_bids snapshot \<noteq> [] then bl_price (hd (ds_bids snapshot)) else ep_best_bid p);
          ask = (if ds_asks snapshot \<noteq> [] then bl_price (hd (ds_asks snapshot)) else ep_best_ask p) in
      andthen (lift_fault RiskFault (update_top_of_book (ep_symbol p) bid ask (ep_risk p))) (\<lambda>risk1.
        Inr (p\<lparr>ep_best_bid := bid, ep_best_ask := ask, ep_risk := risk1\<rparr>)))"

definition populate_market_outputs :: "WorkflowResult \<Rightarrow> ExchangePipeline \<Rightarrow> WorkflowResult" where
  "populate_market_outputs workflow p =
     workflow\<lparr>wf_trade_events := replay_market_data (''trades.'' @ ep_symbol p) 0 (ep_matching p),
              wf_depth_events := replay_market_data (''depth.'' @ ep_symbol p) 0 (ep_matching p),
              wf_outbox_messages := pending_outbox 32 (ep_clearing p)\<rparr>"

text \<open>The parts of \<open>submit\<close>, last first: the outputs of a completed submission, settlement, matching, and all that follows parsing.\<close>

definition publish_outcome :: "WorkflowResult \<times> ExchangePipeline \<Rightarrow> pipeline_fault + WorkflowResult \<times> ExchangePipeline" where
  "publish_outcome st =
     (let (workflow, p) = st in
      andthen (sync_resting_orders p) (\<lambda>p1.
      andthen (refresh_market_reference p1) (\<lambda>p2.
        Inr (populate_market_outputs (workflow\<lparr>wf_status := kCompleted\<rparr>) p2, p2))))"

definition settle_and_release ::
  "ParsedOrder \<Rightarrow> WorkflowResult \<times> ExchangePipeline \<Rightarrow> pipeline_fault + WorkflowResult \<times> ExchangePipeline" where
  "settle_and_release order st =
     andthen (settle_trades order st) (\<lambda>(settled, st1).
       if \<not> settled then Inr st1
       else andthen (release_closed_orders order st1) (\<lambda>(released, st2).
         if \<not> released then Inr st2 else publish_outcome st2))"

definition match_and_settle ::
  "ParsedOrder \<Rightarrow> string \<Rightarrow> WorkflowResult \<times> ExchangePipeline \<Rightarrow> pipeline_fault + WorkflowResult \<times> ExchangePipeline" where
  "match_and_settle order hold_id st =
     (let (workflow, p) = st; p1 = track_managed_order order hold_id p in
      andthen (defined_or MatchingUndefined (me_submit (to_matching_request order) (ep_matching p1))) (\<lambda>(result, matching1).
        let st1 = (workflow\<lparr>wf_match_result := result, wf_accepted := mr_accepted result\<rparr>, p1\<lparr>ep_matching := matching1\<rparr>) in
        if \<not> mr_accepted result \<and> mr_trades result = []
        then andthen (handle_rejected_match order hold_id st1) (\<lambda>(_, st2). Inr st2)
        else settle_and_release order st1))"

definition process_order ::
  "ParsedOrder \<Rightarrow> WorkflowResult \<times> ExchangePipeline \<Rightarrow> pipeline_fault + WorkflowResult \<times> ExchangePipeline" where
  "process_order order st =
     andthen (evaluate_risk_stage order st) (\<lambda>(passed, st1).
       if \<not> passed then Inr st1
       else andthen (reserve_order_hold order st1) (\<lambda>(hold_id, st2).
         case hold_id of None \<Rightarrow> Inr st2 | Some h \<Rightarrow> match_and_settle order h st2))"

definition pl_submit ::
  "(string \<Rightarrow> bool \<times> nat \<times> double) \<Rightarrow> GatewayRequest \<Rightarrow> ExchangePipeline \<Rightarrow> pipeline_fault + WorkflowResult \<times> ExchangePipeline" where
  "pl_submit strtod request p =
     andthen (route_request request (empty_workflow, p)) (\<lambda>(forwarded_request, w1, p1).
       case forwarded_request of
         None \<Rightarrow> Inr (w1, p1)
       | Some forwarded \<Rightarrow>
           (case parse_forwarded_request strtod forwarded (w1, p1) of
              (None, w2) \<Rightarrow> Inr (w2, p1)
            | (Some order, w2) \<Rightarrow> process_order order (w2, p1)))"

section \<open>Queries\<close>

definition pl_account :: "string \<Rightarrow> ExchangePipeline \<Rightarrow> AccountSnapshot option" where
  "pl_account user_id p = cl_account user_id (ep_clearing p)"

definition pl_pending_outbox :: "nat \<Rightarrow> ExchangePipeline \<Rightarrow> OutboxMessage list" where
  "pl_pending_outbox max_items p = pending_outbox max_items (ep_clearing p)"

definition pl_audit_log :: "ExchangePipeline \<Rightarrow> RiskDecision list" where
  "pl_audit_log p = audit_log (ep_risk p)"

definition pl_replay_market_data :: "string \<Rightarrow> u64 \<Rightarrow> ExchangePipeline \<Rightarrow> BroadcastMessage list" where
  "pl_replay_market_data topic after p = replay_market_data topic after (ep_matching p)"

definition pl_replay_route_events :: "u64 \<Rightarrow> ExchangePipeline \<Rightarrow> BroadcastMessage list" where
  "pl_replay_route_events after p = replay_route_events after (ep_gateway p)"

end
