(* ===== verification/Matching_Book.thy ===== *)
theory Matching_Book
  imports Matching
begin

text \<open>
  The books of the matching engine as priority lists. The lemmas on one book hold for any comparator that orders the
  prices; they say what pushing an order and removing an order does to the list of the queued pointers, best price
  first and oldest first at one price.
\<close>

section \<open>One book\<close>

definition ptrs :: "OrderBook \<Rightarrow> block list" where
  "ptrs book = concat (map snd book)"

definition book_remove :: "(double \<Rightarrow> double \<Rightarrow> bool) \<Rightarrow> double \<Rightarrow> block \<Rightarrow> OrderQueue \<Rightarrow> OrderBook \<Rightarrow> OrderBook" where
  "book_remove lt p b q book = (if remove1 b q = [] then omap_erase lt p book else omap_put lt p (remove1 b q) book)"

lemma ptrs_simps [simp]: "ptrs [] = []" "ptrs ((p, q) # book) = q @ ptrs book"
  by (simp_all add: ptrs_def)

lemma ptrs_mem: "b \<in> set (ptrs book) \<longleftrightarrow> (\<exists>p q. (p, q) \<in> set book \<and> b \<in> set q)"
  by (force simp: ptrs_def)

context price_order
begin

lemma cases_key:
  assumes "not_nan k" "not_nan k'"
  obtains (eq) "k = k'" | (lt) "lt k k'" | (gt) "lt k' k" "\<not> lt k k'"
  using lt_total [OF assms] lt_asym by blast

lemma ptrs_remove:
  "\<lbrakk>omap_wf lt not_nan book; map_of book p = Some q; b \<in> set q; distinct (ptrs book)\<rbrakk> \<Longrightarrow>
   ptrs (book_remove lt p b q book) = remove1 b (ptrs book)"
proof (induction book)
  case (Cons l book)
  obtain k q' where l: "l = (k, q')" by force
  show ?case
  proof (cases "k = p")
    case True
    then show ?thesis using Cons.prems lt_irrefl by (auto simp: l book_remove_def remove1_append)
  next
    case False
    then have "(p, q) \<in> set book" using Cons.prems by (auto simp: l dest: map_of_SomeD)
    moreover from this have "b \<in> set (ptrs book)" using Cons.prems(3) ptrs_mem by blast
    ultimately have "lt k p" "b \<notin> set q'" using Cons.prems by (auto simp: l omap_wf_Cons)
    then show ?thesis using Cons False lt_asym by (auto simp: l book_remove_def remove1_append omap_wf_Cons)
  qed
qed simp

lemma map_of_remove:
  "omap_wf lt not_nan book \<Longrightarrow> not_nan p \<Longrightarrow>
   map_of (book_remove lt p b q book) = (map_of book)(p := (if remove1 b q = [] then None else Some (remove1 b q)))"
  by (simp add: book_remove_def map_of_put map_of_erase)

lemma wf_remove: "omap_wf lt not_nan book \<Longrightarrow> not_nan p \<Longrightarrow> omap_wf lt not_nan (book_remove lt p b q book)"
  by (simp add: book_remove_def wf_put wf_erase)

lemma map_of_push:
  "omap_wf lt not_nan book \<Longrightarrow> not_nan p \<Longrightarrow>
   map_of (book_push lt p b book) = (map_of book)(p \<mapsto> (case map_of book p of None \<Rightarrow> [] | Some q \<Rightarrow> q) @ [b])"
  by (simp add: book_push_def map_of_put find_eq)

lemma wf_push: "omap_wf lt not_nan book \<Longrightarrow> not_nan p \<Longrightarrow> omap_wf lt not_nan (book_push lt p b book)"
  by (simp add: book_push_def wf_put)

text \<open>A pushed order comes after all orders at its price or a better one and before all others.\<close>

lemma ptrs_push:
  "omap_wf lt not_nan book \<Longrightarrow> not_nan p \<Longrightarrow>
   \<exists>better worse. book = better @ worse \<and> (\<forall>k \<in> fst ` set better. \<not> lt p k) \<and> (\<forall>k \<in> fst ` set worse. lt p k) \<and>
     ptrs (book_push lt p b book) = ptrs better @ [b] @ ptrs worse"
proof (induction book)
  case (Cons l book)
  obtain k q' where l: "l = (k, q')" by force
  have "not_nan k" and wf: "omap_wf lt not_nan book" and k: "\<forall>k' \<in> fst ` set book. lt k k'"
    using Cons.prems by (auto simp: l omap_wf_Cons)
  from Cons.prems(2) this(1) show ?case
  proof (cases rule: cases_key)
    case eq
    then show ?thesis using k lt_irrefl
      by (intro exI [of _ "[l]"] exI [of _ book]) (auto simp: l book_push_def)
  next
    case lt
    then show ?thesis using k lt_trans
      by (intro exI [of _ "[]"] exI [of _ "l # book"]) (auto simp: l book_push_def)
  next
    case gt
    from Cons.IH [OF wf Cons.prems(2)] obtain better worse where
      "book = better @ worse" "\<forall>k \<in> fst ` set better. \<not> lt p k" "\<forall>k \<in> fst ` set worse. lt p k"
      "ptrs (book_push lt p b book) = ptrs better @ [b] @ ptrs worse" by blast
    then show ?thesis using gt
      by (intro exI [of _ "l # better"] exI [of _ worse]) (auto simp: l book_push_def)
  qed
qed (simp add: book_push_def)

end

section \<open>Both sides\<close>

text \<open>The sides differ in the comparator, the book and the side of the depth book.\<close>

fun price_lt :: "Side \<Rightarrow> double \<Rightarrow> double \<Rightarrow> bool" where
  "price_lt kBuy = double_greater"
| "price_lt kSell = (<)"

interpretation ps: price_order "price_lt s" for s
  by (cases s) (simp_all add: bid_side.price_order_axioms ask_side.price_order_axioms)

fun book_of :: "Side \<Rightarrow> OrderbookMatchingEngine \<Rightarrow> OrderBook" where
  "book_of kBuy e = me_bids e"
| "book_of kSell e = me_asks e"

fun set_book :: "Side \<Rightarrow> OrderBook \<Rightarrow> OrderbookMatchingEngine \<Rightarrow> OrderbookMatchingEngine" where
  "set_book kBuy book e = e\<lparr>me_bids := book\<rparr>"
| "set_book kSell book e = e\<lparr>me_asks := book\<rparr>"

fun depth_side_of :: "Side \<Rightarrow> md_Side" where
  "depth_side_of kBuy = kBid"
| "depth_side_of kSell = kAsk"

fun opposite :: "Side \<Rightarrow> Side" where
  "opposite kBuy = kSell"
| "opposite kSell = kBuy"

text \<open>The makers' side \<open>s\<close> decides the price test and the loop.\<close>

fun beyond_limit :: "Side \<Rightarrow> OrderRequest \<Rightarrow> double \<Rightarrow> bool" where
  "beyond_limit kSell = ask_beyond"
| "beyond_limit kBuy = bid_beyond"

fun match_side :: "Side \<Rightarrow> OrderRequest \<Rightarrow> double \<times> MatchResult \<times> OrderbookMatchingEngine \<Rightarrow>
    (double \<times> MatchResult \<times> OrderbookMatchingEngine) option" where
  "match_side kSell = match_against_asks"
| "match_side kBuy = match_against_bids"

lemma match_side_unfold:
  "match_side s request st =
     (case book_of s (snd (snd st)) of
        [] \<Rightarrow> Some st
      | (level_price, queue) # _ \<Rightarrow>
          if \<not> kPriceEpsilon < fst st then Some st
          else if beyond_limit s request level_price then Some st
          else do { st' \<leftarrow> match_maker (depth_side_of s) request queue st; match_side s request st' })"
  by (cases s) (auto simp: match_against_asks.simps [of request st] match_against_bids.simps [of request st] ask_beyond_def bid_beyond_def
      split: list.split)

lemma match_request_side: "match_request request st = match_side (opposite (oq_side request)) request st"
  by (cases "oq_side request") (simp_all add: match_request_def)

lemma can_fill_fully_side:
  "can_fill_fully request e =
     fill_book_loop e (beyond_limit (opposite (oq_side request)) request) (book_of (opposite (oq_side request)) e) (oq_quantity request)"
  by (cases "oq_side request") (simp_all add: can_fill_fully_def)

section \<open>The invariant\<close>

abbreviation objects :: "OrderbookMatchingEngine \<Rightarrow> block \<rightharpoonup> RestingOrder" where
  "objects e \<equiv> op_objects (me_order_pool e)"

text \<open>An order that may rest: on its side, at its price, with a finite quantity above the threshold.\<close>

definition order_ok :: "Side \<Rightarrow> double \<Rightarrow> RestingOrder \<Rightarrow> bool" where
  "order_ok s p ord \<longleftrightarrow> ro_side ord = s \<and> ro_price ord = p \<and> is_finite (ro_open_quantity ord) \<and> kPriceEpsilon < ro_open_quantity ord"

definition side_ok :: "Side \<Rightarrow> (block \<rightharpoonup> RestingOrder) \<Rightarrow> OrderBook \<Rightarrow> bool" where
  "side_ok s objs book \<longleftrightarrow> omap_wf (price_lt s) not_nan book \<and> distinct (ptrs book) \<and>
     (\<forall>(p, q) \<in> set book. is_finite p \<and> q \<noteq> [] \<and> (\<forall>b \<in> set q. \<exists>ord. objs b = Some ord \<and> order_ok s p ord))"

text \<open>The objects of the pool are the queued orders, the live table lists them by id, bids are below asks, and the depth
  book shows exactly the prices at which orders rest.\<close>

definition live_ok :: "(block \<rightharpoonup> RestingOrder) \<Rightarrow> (string \<times> block) list \<Rightarrow> bool" where
  "live_ok objs live \<longleftrightarrow> distinct (map fst live) \<and> (\<forall>i b. (i, b) \<in> set live \<longleftrightarrow> (\<exists>ord. objs b = Some ord \<and> ro_order_id ord = i))"

definition uncrossed :: "OrderBook \<Rightarrow> OrderBook \<Rightarrow> bool" where
  "uncrossed bids asks \<longleftrightarrow> (\<forall>b \<in> fst ` set bids. \<forall>a \<in> fst ` set asks. b < a)"

definition depth_ok :: "OrderbookMatchingEngine \<Rightarrow> bool" where
  "depth_ok e \<longleftrightarrow> depth_wf (me_depth_book e) \<and>
     (\<forall>s. dom (depth_at (depth_side_of s) (me_depth_book e)) = fst ` set (book_of s e))"

definition engine_inv :: "OrderbookMatchingEngine \<Rightarrow> bool" where
  "engine_inv e \<longleftrightarrow> op_inv (me_order_pool e) \<and> (\<forall>s. side_ok s (objects e) (book_of s e)) \<and>
     dom (objects e) = set (ptrs (me_bids e)) \<union> set (ptrs (me_asks e)) \<and>
     live_ok (objects e) (me_live_orders e) \<and> uncrossed (me_bids e) (me_asks e) \<and> depth_ok e \<and> rq_wf (me_event_queue e)"

section \<open>What the emitters leave alone\<close>

lemma push_event_frame [simp]:
  "me_order_pool (push_event ev e) = me_order_pool e" "me_bids (push_event ev e) = me_bids e" "me_asks (push_event ev e) = me_asks e"
  "me_live_orders (push_event ev e) = me_live_orders e" "me_depth_book (push_event ev e) = me_depth_book e"
  "me_symbol (push_event ev e) = me_symbol e"
  by (simp_all add: push_event_def)

lemma publish_frame [simp]:
  "me_order_pool (publish_market_data t m e) = me_order_pool e" "me_bids (publish_market_data t m e) = me_bids e"
  "me_asks (publish_market_data t m e) = me_asks e" "me_live_orders (publish_market_data t m e) = me_live_orders e"
  "me_depth_book (publish_market_data t m e) = me_depth_book e" "me_event_queue (publish_market_data t m e) = me_event_queue e"
  "me_symbol (publish_market_data t m e) = me_symbol e"
  by (simp_all add: publish_market_data_def)

lemma emit_frame [simp]:
  "me_order_pool (emit_order_event i st r x e) = me_order_pool e" "me_bids (emit_order_event i st r x e) = me_bids e"
  "me_asks (emit_order_event i st r x e) = me_asks e" "me_live_orders (emit_order_event i st r x e) = me_live_orders e"
  "me_depth_book (emit_order_event i st r x e) = me_depth_book e"
  "me_order_pool (emit_trade_event tr e) = me_order_pool e" "me_bids (emit_trade_event tr e) = me_bids e"
  "me_asks (emit_trade_event tr e) = me_asks e" "me_live_orders (emit_trade_event tr e) = me_live_orders e"
  "me_depth_book (emit_trade_event tr e) = me_depth_book e"
  "me_order_pool (emit_depth_event e) = me_order_pool e" "me_bids (emit_depth_event e) = me_bids e"
  "me_asks (emit_depth_event e) = me_asks e" "me_live_orders (emit_depth_event e) = me_live_orders e"
  "me_depth_book (emit_depth_event e) = me_depth_book e"
  by (simp_all add: emit_order_event_def emit_trade_event_def emit_depth_event_def Let_def)

lemma push_event_queue: "rq_wf (me_event_queue e) \<Longrightarrow> rq_wf (me_event_queue (push_event ev e))"
  using rq_push_refines [of "me_event_queue e" ev] by (simp add: push_event_def)

lemma emit_queue [simp]:
  "rq_wf (me_event_queue e) \<Longrightarrow> rq_wf (me_event_queue (emit_order_event i st r x e))"
  "rq_wf (me_event_queue e) \<Longrightarrow> rq_wf (me_event_queue (emit_trade_event tr e))"
  "rq_wf (me_event_queue e) \<Longrightarrow> rq_wf (me_event_queue (emit_depth_event e))"
  by (simp_all add: emit_order_event_def emit_trade_event_def emit_depth_event_def Let_def push_event_queue)

lemma depth_update_frame [simp]:
  "me_order_pool (depth_update d p x e) = me_order_pool e" "me_bids (depth_update d p x e) = me_bids e"
  "me_asks (depth_update d p x e) = me_asks e" "me_live_orders (depth_update d p x e) = me_live_orders e"
  "me_event_queue (depth_update d p x e) = me_event_queue e"
  "me_depth_book (depth_update d p x e) = snd (db_update d p x (me_depth_book e))"
  by (simp_all add: depth_update_def)

lemma store_order_frame [simp]:
  "me_bids (store_order b ord e) = me_bids e" "me_asks (store_order b ord e) = me_asks e"
  "me_live_orders (store_order b ord e) = me_live_orders e" "me_depth_book (store_order b ord e) = me_depth_book e"
  "me_event_queue (store_order b ord e) = me_event_queue e" "objects (store_order b ord e) = (objects e)(b \<mapsto> ord)"
  "op_storage (me_order_pool (store_order b ord e)) = op_storage (me_order_pool e)"
  by (simp_all add: store_order_def)

lemma book_of_cong: "me_bids e = me_bids e' \<Longrightarrow> me_asks e = me_asks e' \<Longrightarrow> book_of s e = book_of s e'"
  by (cases s) simp_all

lemma book_of_set_book [simp]:
  "book_of s (set_book s' book e) = (if s = s' then book else book_of s e)"
  "me_order_pool (set_book s' book e) = me_order_pool e" "me_live_orders (set_book s' book e) = me_live_orders e"
  "me_depth_book (set_book s' book e) = me_depth_book e" "me_event_queue (set_book s' book e) = me_event_queue e"
  by (cases s'; cases s; simp)+

lemma engine_inv_emit [simp]:
  "engine_inv e \<Longrightarrow> engine_inv (emit_order_event i st r x e)"
proof -
  assume "engine_inv e"
  moreover have "book_of s (emit_order_event i st r x e) = book_of s e" for s by (rule book_of_cong) simp_all
  ultimately show ?thesis by (simp add: engine_inv_def depth_ok_def)
qed

section \<open>Looking orders up\<close>

lemma eps_pos: "0 < kPriceEpsilon" "is_finite kPriceEpsilon"
  unfolding kPriceEpsilon_def by code_simp+

lemma opposite_simps [simp]: "opposite s \<noteq> s" "s \<noteq> opposite s" "opposite (opposite s) = s"
  by (cases s; simp)+

lemma side_cases: "(\<forall>s. P s) \<longleftrightarrow> P s' \<and> P (opposite s')"
  by (metis opposite.simps Side.exhaust)

lemma ptrs_both: "set (ptrs (me_bids e)) \<union> set (ptrs (me_asks e)) = set (ptrs (book_of s e)) \<union> set (ptrs (book_of (opposite s) e))"
  by (cases s) auto

lemma side_ok_level:
  assumes "side_ok s objs book" "b \<in> set (ptrs book)"
  obtains p q ord where "map_of book p = Some q" "b \<in> set q" "objs b = Some ord" "order_ok s p ord" "is_finite p"
proof -
  obtain p q where pq: "(p, q) \<in> set book" "b \<in> set q" using assms(2) ptrs_mem by blast
  then have "map_of book p = Some q" using assms(1) ps.mem_iff [of s book p q] by (simp add: side_ok_def)
  moreover obtain ord where "objs b = Some ord" "order_ok s p ord" "is_finite p"
    using assms(1) pq by (fastforce simp: side_ok_def)
  ultimately show thesis using that pq by blast
qed

lemma resting_level:
  assumes "engine_inv e" "objects e b = Some ord"
  obtains q where "map_of (book_of (ro_side ord) e) (ro_price ord) = Some q" "b \<in> set q" "order_ok (ro_side ord) (ro_price ord) ord"
    "is_finite (ro_price ord)" "b \<in> set (ptrs (book_of (ro_side ord) e))" "b \<notin> set (ptrs (book_of (opposite (ro_side ord)) e))"
proof -
  have sides: "side_ok s (objects e) (book_of s e)" for s using assms(1) by (simp add: engine_inv_def)
  have level: "s = ro_side ord \<and> (\<exists>q. map_of (book_of s e) (ro_price ord) = Some q \<and> b \<in> set q) \<and> order_ok s (ro_price ord) ord \<and> is_finite (ro_price ord)"
    if "b \<in> set (ptrs (book_of s e))" for s
    by (rule side_ok_level [OF sides that]) (use assms(2) in \<open>auto simp: order_ok_def\<close>)
  have "b \<in> dom (objects e)" using assms(2) by blast
  then have "\<exists>s. b \<in> set (ptrs (book_of s e))"
    using assms(1) unfolding engine_inv_def by (metis Un_iff book_of.simps)
  then show thesis using level that by (metis opposite_simps(1))
qed

lemma aggregate_loop_pos:
  "\<lbrakk>\<forall>b \<in> set q. \<exists>ord. objects e b = Some ord \<and> kPriceEpsilon < ro_open_quantity ord; 0 \<le> acc\<rbrakk> \<Longrightarrow>
   \<exists>agg. aggregate_loop e q acc = Some agg \<and> acc \<le> agg \<and> (q \<noteq> [] \<longrightarrow> 0 < agg) \<and> (q = [] \<longrightarrow> agg = acc)"
proof (induction q arbitrary: acc)
  case Nil
  then show ?case by (auto dest: le_not_nan intro: double_le_refl)
next
  case (Cons b q)
  then obtain ord where ord: "objects e b = Some ord" "kPriceEpsilon < ro_open_quantity ord" by auto
  let ?x = "ro_open_quantity ord"
  have x: "0 < ?x" using ord(2) eps_pos double_less_trans by blast
  then have acc: "acc \<le> acc + ?x" "0 \<le> acc + ?x" "?x \<le> acc + ?x"
    using Cons.prems(2) add_ge_nonneg add_nonneg double_less_imp_le double_add_commute by metis+
  from Cons.IH [of "acc + ?x"] Cons.prems(1) acc obtain agg where
    agg: "aggregate_loop e q (acc + ?x) = Some agg" "acc + ?x \<le> agg" by auto
  moreover have "acc \<le> agg" using acc(1) agg(2) by (rule double_order_trans)
  moreover have "?x \<le> agg" using acc(3) agg(2) by (rule double_order_trans)
  then have "0 < agg" using x double_less_le_trans by blast
  ultimately show ?case using ord by (simp add: deref_def)
qed

section \<open>Removing an order\<close>

lemma keys_map_of: "fst ` set m = dom (map_of m)"
  by (simp add: dom_map_of_conv_image_fst)

lemma level_remove:
  assumes "side_ok s objs book" "map_of book p = Some q" "b \<in> set q"
  defines "book' \<equiv> book_remove (price_lt s) p b q book"
  shows "side_ok s (objs(b := None)) book'" "ptrs book' = remove1 b (ptrs book)" "set (ptrs book') = set (ptrs book) - {b}"
    "fst ` set book' = (if remove1 b q = [] then fst ` set book - {p} else fst ` set book)"
proof -
  have wf: "omap_wf (price_lt s) not_nan book" and d: "distinct (ptrs book)"
    and lev: "\<And>k qu. (k, qu) \<in> set book \<Longrightarrow> is_finite k \<and> qu \<noteq> [] \<and> (\<forall>b \<in> set qu. \<exists>ord. objs b = Some ord \<and> order_ok s k ord)"
    using assms(1) by (auto simp: side_ok_def)
  have pq: "(p, q) \<in> set book" using assms(2) by (rule map_of_SomeD)
  then have p: "not_nan p" using lev finite_not_nan by blast
  show ptrs: "ptrs book' = remove1 b (ptrs book)" unfolding book'_def by (rule ps.ptrs_remove [OF wf assms(2,3) d])
  then show set: "set (ptrs book') = set (ptrs book) - {b}" using d by simp
  have wf': "omap_wf (price_lt s) not_nan book'" unfolding book'_def by (rule ps.wf_remove [OF wf p])
  have m: "map_of book' = (map_of book)(p := if remove1 b q = [] then None else Some (remove1 b q))"
    unfolding book'_def by (rule ps.map_of_remove [OF wf p])
  show "fst ` set book' = (if remove1 b q = [] then fst ` set book - {p} else fst ` set book)"
    unfolding keys_map_of m using assms(2) by auto
  have "is_finite k \<and> qu \<noteq> [] \<and> (\<forall>c \<in> set qu. \<exists>ord. (objs(b := None)) c = Some ord \<and> order_ok s k ord)" if "(k, qu) \<in> set book'" for k qu
  proof -
    have "map_of book' k = Some qu" using that ps.mem_iff [OF wf'] by blast
    then obtain qu0 where qu0: "(k, qu0) \<in> set book" "set qu \<subseteq> set qu0" "qu \<noteq> []"
      using m pq lev ps.mem_iff [OF wf] set_remove1_subset [of b q] by (auto split: if_splits)
    moreover have "b \<notin> set qu" using that set ptrs_mem by blast
    ultimately show ?thesis using lev [OF qu0(1)] by fastforce
  qed
  then show "side_ok s (objs(b := None)) book'"
    unfolding side_ok_def using wf' ptrs d by (simp del: fun_upd_apply) blast
qed

lemma live_ok_remove:
  assumes "live_ok objs live" "objs b = Some ord"
  shows "live_ok (objs(b := None)) (AList.delete (ro_order_id ord) live)"
proof -
  have d: "distinct (map fst live)" and mem: "\<And>i c. (i, c) \<in> set live \<longleftrightarrow> (\<exists>x. objs c = Some x \<and> ro_order_id x = i)"
    using assms(1) by (auto simp: live_ok_def)
  have "(ro_order_id ord, b) \<in> set live" using mem assms(2) by blast
  then have "c = b" if "(ro_order_id ord, c) \<in> set live" for c using d that by (metis map_of_is_SomeI option.inject)
  then show ?thesis using d mem assms(2)
    by (auto simp: live_ok_def AList_delete_member distinct_delete)
qed

lemma depth_ok_update:
  assumes "depth_ok e" "is_finite p" "\<not> is_nan x"
    and "me_depth_book e' = snd (db_update (depth_side_of s) p x (me_depth_book e))"
    and "book_of (opposite s) e' = book_of (opposite s) e"
    and "fst ` set (book_of s e') = (if x \<le> 0 then fst ` set (book_of s e) - {p} else insert p (fst ` set (book_of s e)))"
  shows "depth_ok e'"
proof -
  have p: "\<not> is_nan p" using assms(2) by (rule finite_not_nan)
  have wf: "depth_wf (me_depth_book e)" and dom: "\<And>t. dom (depth_at (depth_side_of t) (me_depth_book e)) = fst ` set (book_of t e)"
    using assms(1) by (auto simp: depth_ok_def)
  have "dom (depth_at (depth_side_of t) (me_depth_book e')) = fst ` set (book_of t e')" for t
  proof (cases "t = s")
    case True
    then show ?thesis using depth_at_update [OF wf p, of "depth_side_of s" "depth_side_of s" x] dom [of s] assms(4,6) by auto
  next
    case False
    then have "t = opposite s" "depth_side_of t \<noteq> depth_side_of s" by (cases t; cases s; simp)+
    then show ?thesis using depth_at_update [OF wf p, of "depth_side_of t" "depth_side_of s" x] dom [of t] assms(4,5) by simp
  qed
  then show ?thesis using db_update_wf [OF wf p assms(3)] assms(4) by (simp add: depth_ok_def)
qed

lemma remove_resting_order_side:
  assumes "deref e b = Some ord"
    and "remove_from_book (price_lt (ro_side ord)) (depth_side_of (ro_side ord)) b ord (book_of (ro_side ord) e) e = Some (book, e')"
  shows "remove_resting_order b e = Some (emit_depth_event ((set_book (ro_side ord) book e')
    \<lparr>me_live_orders := AList.delete (ro_order_id ord) (me_live_orders e'), me_order_pool := op_destroy 0 (Some b) (me_order_pool e')\<rparr>))"
  using assms by (cases "ro_side ord") (simp_all add: remove_resting_order_def Let_def)

text \<open>The next lemmas remove an order whose quantity has meanwhile changed to \<open>x\<close>.\<close>

lemma zero_le_zero [simp]: "(0 :: double) \<le> 0"
  by (simp add: double_le_refl finite_not_nan)

lemma remove_from_book_runs:
  assumes side: "side_ok s objs book" and q: "map_of book p = Some q" "b \<in> set q" and p: "ro_price ord = p"
    and objs: "objects e = objs(b \<mapsto> ord)"
  shows "\<exists>agg. remove_from_book (price_lt s) d b ord book e = Some (book_remove (price_lt s) p b q book, depth_update d p agg e) \<and>
    \<not> is_nan agg \<and> (agg \<le> 0 \<longleftrightarrow> remove1 b q = [])"
proof -
  have wf: "omap_wf (price_lt s) not_nan book" "distinct (ptrs book)"
    and lev: "\<And>k qu. (k, qu) \<in> set book \<Longrightarrow> is_finite k \<and> (\<forall>b \<in> set qu. \<exists>ord. objs b = Some ord \<and> order_ok s k ord)"
    using side by (auto simp: side_ok_def)
  have qmem: "(p, q) \<in> set book" using q(1) by (rule map_of_SomeD)
  then have "distinct q" using wf(2) by (auto simp: ptrs_def distinct_concat_iff dest: split_list)
  then have "\<forall>c \<in> set (remove1 b q). \<exists>o'. objects e c = Some o' \<and> kPriceEpsilon < ro_open_quantity o'"
    using lev [OF qmem] objs by (fastforce simp: order_ok_def)
  from aggregate_loop_pos [OF this, of 0] obtain agg where
    agg: "aggregate_loop e (remove1 b q) 0 = Some agg" "0 \<le> agg" "remove1 b q \<noteq> [] \<longrightarrow> 0 < agg" "remove1 b q = [] \<longrightarrow> agg = 0"
    by auto
  moreover have "agg \<le> 0 \<longleftrightarrow> remove1 b q = []"
    using agg(3,4) by (metis double_less_le_trans double_less_irrefl zero_le_zero)
  moreover have "omap_find (price_lt s) p book = Some q"
    using ps.find_eq [OF wf(1)] q(1) lev [OF qmem] finite_not_nan by simp
  ultimately show ?thesis using p le_not_nan [OF agg(2)]
    by (intro exI [of _ agg]) (simp add: remove_from_book_def book_remove_def Let_def)
qed

lemma uncrossed_mono:
  "\<lbrakk>uncrossed bids asks; fst ` set bids' \<subseteq> fst ` set bids; fst ` set asks' \<subseteq> fst ` set asks\<rbrakk> \<Longrightarrow> uncrossed bids' asks'"
  unfolding uncrossed_def by blast

lemma op_inv_overwrite:
  assumes "op_inv p" "op_storage p' = op_storage p" "dom (op_objects p') = dom (op_objects p)"
  shows "op_inv p'"
  using assms by (simp add: op_inv_def)

lemma engine_inv_removed:
  assumes inv: "engine_inv e" and ord: "objects e b = Some ord"
    and q: "map_of (book_of s e) (ro_price ord) = Some q" "b \<in> set q" "is_finite (ro_price ord)" "b \<notin> set (ptrs (book_of (opposite s) e))"
    and agg: "\<not> is_nan agg" "agg \<le> 0 \<longleftrightarrow> remove1 b q = []"
    and e': "book_of s e' = book_remove (price_lt s) (ro_price ord) b q (book_of s e)" "book_of (opposite s) e' = book_of (opposite s) e"
      "objects e' = (objects e)(b := None)" "op_inv (me_order_pool e')" "rq_wf (me_event_queue e')"
      "me_live_orders e' = AList.delete (ro_order_id ord) (me_live_orders e)"
      "me_depth_book e' = snd (db_update (depth_side_of s) (ro_price ord) agg (me_depth_book e))"
  shows "engine_inv e'"
proof -
  have sides: "\<And>t. side_ok t (objects e) (book_of t e)" using inv by (simp add: engine_inv_def)
  note rem = level_remove [OF sides q(1,2), folded e'(1)]
  have "side_ok (opposite s) (objects e') (book_of (opposite s) e')"
    using sides [of "opposite s"] q(4) e'(2,3) by (fastforce simp: side_ok_def ptrs_mem)
  then have "\<forall>t. side_ok t (objects e') (book_of t e')" using rem(1) e'(3) by (subst side_cases [of _ s]) simp
  moreover have "dom (objects e') = set (ptrs (me_bids e')) \<union> set (ptrs (me_asks e'))"
    using inv rem(3) e'(2,3) q(4) unfolding engine_inv_def ptrs_both [of _ s] by auto
  moreover have "uncrossed (me_bids e') (me_asks e')"
  proof -
    have "fst ` set (book_of t e') \<subseteq> fst ` set (book_of t e)" for t
    proof -
      have "t = s \<or> t = opposite s" by (cases t; cases s; simp)
      then show ?thesis using rem(4) e'(2) by (auto split: if_splits)
    qed
    from uncrossed_mono [OF _ this [of kBuy, simplified] this [of kSell, simplified]] show ?thesis
      using inv by (simp add: engine_inv_def)
  qed
  moreover have "depth_ok e'"
  proof (rule depth_ok_update [OF _ q(3) agg(1) e'(7,2)])
    show "depth_ok e" using inv by (simp add: engine_inv_def)
    show "fst ` set (book_of s e') = (if agg \<le> 0 then fst ` set (book_of s e) - {ro_price ord} else insert (ro_price ord) (fst ` set (book_of s e)))"
      using rem(4) agg(2) map_of_SomeD [OF q(1)] by (auto simp: rev_image_eqI)
  qed
  moreover have "live_ok (objects e') (me_live_orders e')"
    unfolding e'(3,6) using inv live_ok_remove [of "objects e" "me_live_orders e" b ord] ord by (simp add: engine_inv_def)
  ultimately show ?thesis using e'(4,5) by (simp add: engine_inv_def)
qed

lemma remove_resting_order_spec:
  assumes inv: "engine_inv e" and ord: "objects e b = Some ord"
    and same: "me_bids e1 = me_bids e" "me_asks e1 = me_asks e" "me_live_orders e1 = me_live_orders e"
      "me_depth_book e1 = me_depth_book e" "rq_wf (me_event_queue e1)"
      "objects e1 = (objects e)(b \<mapsto> ord\<lparr>ro_open_quantity := x\<rparr>)" "op_storage (me_order_pool e1) = op_storage (me_order_pool e)"
  shows "\<exists>e'. remove_resting_order b e1 = Some e' \<and> engine_inv e' \<and> objects e' = (objects e)(b := None) \<and>
    ptrs (book_of (ro_side ord) e') = remove1 b (ptrs (book_of (ro_side ord) e)) \<and>
    book_of (opposite (ro_side ord)) e' = book_of (opposite (ro_side ord)) e \<and>
    me_live_orders e' = AList.delete (ro_order_id ord) (me_live_orders e)"
proof -
  define s where "s = ro_side ord"
  let ?p = "ro_price ord" and ?ord = "ord\<lparr>ro_open_quantity := x\<rparr>"
  obtain q where q: "map_of (book_of s e) ?p = Some q" "b \<in> set q" "is_finite ?p" "b \<notin> set (ptrs (book_of (opposite s) e))"
    using resting_level [OF inv ord] unfolding s_def by metis
  have side: "side_ok s (objects e) (book_of s e)" using inv by (simp add: engine_inv_def)
  have book1: "book_of t e1 = book_of t e" for t using same(1,2) by (rule book_of_cong)
  let ?book = "book_remove (price_lt s) ?p b q (book_of s e)"
  obtain agg where agg: "remove_from_book (price_lt s) (depth_side_of s) b ?ord (book_of s e) e1 = Some (?book, depth_update (depth_side_of s) ?p agg e1)"
    "\<not> is_nan agg" "agg \<le> 0 \<longleftrightarrow> remove1 b q = []"
    using remove_from_book_runs [OF side q(1,2) _ same(6)] by auto
  let ?e = "emit_depth_event ((set_book s ?book (depth_update (depth_side_of s) ?p agg e1))
    \<lparr>me_live_orders := AList.delete (ro_order_id ord) (me_live_orders e1), me_order_pool := op_destroy 0 (Some b) (me_order_pool e1)\<rparr>)"
  have run: "remove_resting_order b e1 = Some ?e"
    using remove_resting_order_side [of e1 b ?ord ?book] same(6) agg(1) book1 by (simp add: deref_def s_def)
  have pool: "op_inv (me_order_pool e1)"
  proof (rule op_inv_overwrite [OF _ same(7)])
    show "op_inv (me_order_pool e)" using inv by (simp add: engine_inv_def)
    show "dom (objects e1) = dom (objects e)" unfolding same(6) using ord by (simp add: insert_absorb domI)
  qed
  have books: "book_of t ?e = (if t = s then ?book else book_of t e)" for t
    using book1 [of t] by (cases t; cases s; simp)
  have objs: "objects ?e = (objects e)(b := None)" using same(6) by (simp add: op_destroy_def)
  have "op_inv (me_order_pool ?e)" using op_destroy_inv [OF pool, of b 0] same(6) by simp
  moreover have "me_live_orders ?e = AList.delete (ro_order_id ord) (me_live_orders e)" using same(3) by simp
  moreover have "rq_wf (me_event_queue ?e)" using same(5) by simp
  moreover have "me_depth_book ?e = snd (db_update (depth_side_of s) ?p agg (me_depth_book e))" using same(4) by simp
  ultimately have "engine_inv ?e"
    using engine_inv_removed [OF inv ord q agg(2,3), of ?e] books [of s] books [of "opposite s"] objs by simp
  then show ?thesis using run objs books level_remove(2) [OF side q(1,2)] same(3) unfolding s_def by auto
qed

end
