(* ===== verification/Matching_Loop.thy ===== *)
theory Matching_Loop
  imports Matching_Book
begin

text \<open>
  The matching loops against the resting orders as one list in priority order. \<open>match_list\<close> is the loop on that list;
  the loops of the engine, with their pointers, queues, pool and events, end and compute the same trades and the same
  rest of the list.
\<close>

section \<open>The priority list of a side\<close>

definition orders :: "Side \<Rightarrow> OrderbookMatchingEngine \<Rightarrow> RestingOrder list" where
  "orders s e = map (\<lambda>b. the (objects e b)) (ptrs (book_of s e))"

fun match_list :: "(double \<Rightarrow> bool) \<Rightarrow> string \<Rightarrow> double \<Rightarrow> RestingOrder list \<Rightarrow> double \<times> Trade list \<times> RestingOrder list" where
  "match_list beyond taker remaining [] = (remaining, [], [])"
| "match_list beyond taker remaining (m # ms) =
     (if \<not> kPriceEpsilon < remaining \<or> beyond (ro_price m) then (remaining, [], m # ms)
      else let fill = std_min remaining (ro_open_quantity m);
               trade = \<lparr>tr_maker_order_id = ro_order_id m, tr_taker_order_id = taker, tr_price = ro_price m, tr_quantity = fill\<rparr>;
               rest = ro_open_quantity m - fill
           in if rest \<le> kPriceEpsilon
              then let (remaining', trades, ms') = match_list beyond taker (remaining - fill) ms in (remaining', trade # trades, ms')
              else (remaining - fill, [trade], m\<lparr>ro_open_quantity := rest\<rparr> # ms))"

text \<open>The abstraction of the engine: a priority list for each side.\<close>

lemma orders_cong:
  "\<lbrakk>ptrs (book_of s e) = ptrs (book_of s e'); \<And>b. b \<in> set (ptrs (book_of s e')) \<Longrightarrow> objects e b = objects e' b\<rbrakk> \<Longrightarrow>
   orders s e = orders s e'"
  by (simp add: orders_def)

lemma side_okD: "engine_inv e \<Longrightarrow> side_ok s (objects e) (book_of s e)"
  by (simp add: engine_inv_def)

lemma disjoint_sides:
  assumes "engine_inv e" "b \<in> set (ptrs (book_of s e))"
  shows "b \<notin> set (ptrs (book_of (opposite s) e))"
proof -
  obtain p q ord where "objects e b = Some ord" "order_ok s p ord"
    using side_ok_level [OF side_okD [OF assms(1)] assms(2)] by metis
  then show ?thesis using resting_level [OF assms(1), of b ord] by (metis order_ok_def)
qed

text \<open>The best level of a side and the order at its front.\<close>

lemma front_order:
  assumes inv: "engine_inv e" and book: "book_of s e = (p, q) # rest"
  shows "\<exists>b q' ord. q = b # q' \<and> objects e b = Some ord \<and> order_ok s p ord \<and>
    ptrs (book_of s e) = b # q' @ ptrs rest \<and> orders s e = ord # map (\<lambda>b. the (objects e b)) (q' @ ptrs rest) \<and> b \<notin> set (q' @ ptrs rest)"
proof -
  have "side_ok s (objects e) (book_of s e)" using inv by (rule side_okD)
  then have "q \<noteq> []" "distinct (ptrs (book_of s e))" and q: "\<forall>b \<in> set q. \<exists>ord. objects e b = Some ord \<and> order_ok s p ord"
    using book by (auto simp: side_ok_def)
  then obtain b q' where "q = b # q'" by (cases q) auto
  then show ?thesis using book q \<open>distinct _\<close> by (auto simp: orders_def)
qed

section \<open>One fill\<close>

lemma min_fill:
  assumes "is_finite r" "is_finite x" "kPriceEpsilon < r" "kPriceEpsilon < x"
  defines "f \<equiv> std_min r x"
  shows "is_finite f" "kPriceEpsilon < f" "f \<le> r" "f \<le> x" "is_finite (r - f)" "0 \<le> r - f" "is_finite (x - f)" "0 \<le> x - f"
    "\<not> x - f \<le> kPriceEpsilon \<Longrightarrow> f = r \<and> r - f = 0"
proof -
  have nn: "\<not> is_nan r" "\<not> is_nan x" using assms(1,2) finite_not_nan by blast+
  have f: "f = (if x < r then x else r)" by (simp add: f_def std_min_def)
  show fin: "is_finite f" and eps: "kPriceEpsilon < f" using assms(1-4) by (simp_all add: f)
  show le: "f \<le> r" "f \<le> x" using nn double_less_imp_le [of x r] double_not_less [of x r] by (simp_all add: f)
  have "0 \<le> f" using eps eps_pos(1) double_less_trans double_less_imp_le by blast
  then show "is_finite (r - f)" "is_finite (x - f)" using diff_between assms(1,2) fin le by blast+
  show "0 \<le> r - f" "0 \<le> x - f" using diff_nonneg fin le by blast+
  assume n: "\<not> x - f \<le> kPriceEpsilon"
  have "x - x \<le> kPriceEpsilon" using assms(2) eps_pos by (simp add: double_diff_self double_less_imp_le)
  then have "f = r" using n by (auto simp: f)
  then show "f = r \<and> r - f = 0" using assms(1) by (simp add: double_diff_self)
qed

lemma aggregate_pos:
  assumes "side_ok s (objects e) book" "(p, q) \<in> set book"
  shows "\<exists>agg. aggregate_loop e q 0 = Some agg \<and> \<not> is_nan agg \<and> \<not> agg \<le> 0"
proof -
  have "q \<noteq> []" and "\<forall>b \<in> set q. \<exists>ord. objects e b = Some ord \<and> kPriceEpsilon < ro_open_quantity ord"
    using assms by (fastforce simp: side_ok_def order_ok_def)+
  with aggregate_loop_pos [OF this(2), of 0] show ?thesis
    by (metis double_less_irrefl double_less_le_trans le_not_nan zero_le_zero)
qed

lemma live_ok_overwrite:
  assumes "live_ok objs live" "objs b = Some ord" "ro_order_id ord' = ro_order_id ord"
  shows "live_ok (objs(b \<mapsto> ord')) live"
  using assms by (auto simp: live_ok_def)

text \<open>Lowering the quantity of a resting order to a value still above the threshold.\<close>

lemma engine_inv_lowered:
  assumes inv: "engine_inv e" and ord: "objects e b = Some ord" and x: "is_finite x" "kPriceEpsilon < x"
    and agg: "\<not> is_nan agg" "\<not> agg \<le> 0"
    and e': "me_bids e' = me_bids e" "me_asks e' = me_asks e" "objects e' = (objects e)(b \<mapsto> ord\<lparr>ro_open_quantity := x\<rparr>)"
      "op_storage (me_order_pool e') = op_storage (me_order_pool e)" "rq_wf (me_event_queue e')" "me_live_orders e' = me_live_orders e"
      "me_depth_book e' = snd (db_update (depth_side_of (ro_side ord)) (ro_price ord) agg (me_depth_book e))"
  shows "engine_inv e'"
proof -
  have books: "book_of s e' = book_of s e" for s using e'(1,2) by (rule book_of_cong)
  obtain q where q: "map_of (book_of (ro_side ord) e) (ro_price ord) = Some q" "is_finite (ro_price ord)"
    using resting_level [OF inv ord] by metis
  have "order_ok s p (ord\<lparr>ro_open_quantity := x\<rparr>)" if "order_ok s p ord" for s p
    using that x by (simp add: order_ok_def)
  then have "side_ok s (objects e') (book_of s e')" for s
    using side_okD [OF inv, of s] ord unfolding side_ok_def e'(3) books by (fastforce split: prod.splits)
  moreover have dom: "dom (objects e') = dom (objects e)" unfolding e'(3) using ord by (simp add: insert_absorb domI)
  moreover have "op_inv (me_order_pool e')"
    using inv op_inv_overwrite [OF _ e'(4) dom] by (simp add: engine_inv_def)
  moreover have "depth_ok e'"
  proof (rule depth_ok_update [OF _ q(2) agg(1) e'(7)])
    show "depth_ok e" using inv by (simp add: engine_inv_def)
    show "fst ` set (book_of (ro_side ord) e') = (if agg \<le> 0 then fst ` set (book_of (ro_side ord) e) - {ro_price ord} else insert (ro_price ord) (fst ` set (book_of (ro_side ord) e)))"
      using agg(2) map_of_SomeD [OF q(1)] books by (auto simp: rev_image_eqI)
  qed (simp add: books)
  moreover have "live_ok (objects e') (me_live_orders e')"
    unfolding e'(3,6) using inv live_ok_overwrite [of "objects e" "me_live_orders e" b ord] ord by (simp add: engine_inv_def)
  ultimately show ?thesis using inv e'(1,2,5) by (simp add: engine_inv_def)
qed

text \<open>One pass of the loop body: the best order is removed when less than the threshold is left of it, else lowered.\<close>

lemma match_maker_step:
  fixes request :: OrderRequest
  assumes inv: "engine_inv e" and book: "book_of s e = (p, b # q) # rest" and ord: "objects e b = Some ord" "order_ok s p ord"
    and r: "is_finite r" "kPriceEpsilon < r"
  defines "f \<equiv> std_min r (ro_open_quantity ord)"
  defines "x \<equiv> ro_open_quantity ord - f"
  defines "trade \<equiv> \<lparr>tr_maker_order_id = ro_order_id ord, tr_taker_order_id = oq_order_id request, tr_price = p, tr_quantity = f\<rparr>"
  shows "\<exists>e'. match_maker (depth_side_of s) request (b # q) (r, result, e) =
      Some (r - f, result\<lparr>mr_trades := mr_trades result @ [trade]\<rparr>, e') \<and> engine_inv e' \<and>
    book_of (opposite s) e' = book_of (opposite s) e \<and>
    (if x \<le> kPriceEpsilon
     then ptrs (book_of s e') = q @ ptrs rest \<and> objects e' = (objects e)(b := None) \<and>
       me_live_orders e' = AList.delete (ro_order_id ord) (me_live_orders e)
     else book_of s e' = book_of s e \<and> objects e' = (objects e)(b \<mapsto> ord\<lparr>ro_open_quantity := x\<rparr>) \<and> me_live_orders e' = me_live_orders e)"
proof -
  have o: "ro_side ord = s" "ro_price ord = p" "is_finite (ro_open_quantity ord)" "kPriceEpsilon < ro_open_quantity ord"
    using ord(2) by (auto simp: order_ok_def)
  note fill = min_fill [OF r(1) o(3) r(2) o(4), folded f_def]
  let ?ord = "ord\<lparr>ro_open_quantity := x\<rparr>"
  define e2 where "e2 = emit_trade_event trade (store_order b ?ord e)"
  have e2: "me_bids e2 = me_bids e" "me_asks e2 = me_asks e" "me_live_orders e2 = me_live_orders e" "me_depth_book e2 = me_depth_book e"
    "objects e2 = (objects e)(b \<mapsto> ?ord)" "op_storage (me_order_pool e2) = op_storage (me_order_pool e)" "rq_wf (me_event_queue e2)"
    using inv by (simp_all add: e2_def engine_inv_def)
  have front: "ptrs (book_of s e) = b # q @ ptrs rest" using book by simp
  show ?thesis
  proof (cases "x \<le> kPriceEpsilon")
    case True
    have "\<exists>e'. remove_resting_order b (emit_order_event (ro_order_id ord) kFilled kNone 0 e2) = Some e' \<and> engine_inv e' \<and> objects e' = (objects e)(b := None) \<and>
      ptrs (book_of (ro_side ord) e') = remove1 b (ptrs (book_of (ro_side ord) e)) \<and>
      book_of (opposite (ro_side ord)) e' = book_of (opposite (ro_side ord)) e \<and>
      me_live_orders e' = AList.delete (ro_order_id ord) (me_live_orders e)"
      using e2 by (intro remove_resting_order_spec [OF inv ord(1), where x = x]) simp_all
    then show ?thesis using True o(1,2) ord(1) front
      by (auto simp: match_maker_def deref_def Let_def e2_def x_def f_def trade_def simp del: fun_upd_apply)
  next
    case False
    then have xpos: "kPriceEpsilon < x" using fill(7) eps_pos(2) finite_not_nan double_linear unfolding x_def by blast
    let ?e = "\<lambda>agg. emit_depth_event (emit_order_event (ro_order_id ord) kPartiallyFilled kNone x (depth_update (depth_side_of s) p agg e2))"
    have inv': "engine_inv (?e agg)" if "\<not> is_nan agg" "\<not> agg \<le> 0" for agg
      using e2 o(1,2) by (intro engine_inv_lowered [OF inv ord(1) _ xpos that]) (simp_all add: x_def fill(7))
    have "\<exists>agg. aggregate_loop e2 (b # q) 0 = Some agg \<and> \<not> is_nan agg \<and> \<not> agg \<le> 0"
    proof (rule aggregate_pos [where s = s and p = p])
      have "\<not> is_nan (1 :: double)" "\<not> (1 :: double) \<le> 0" by code_simp+
      then have "side_ok s (objects (?e 1)) (book_of s (?e 1))" using inv' side_okD by blast
      then show "side_ok s (objects e2) (book_of s e2)" by (cases s) simp_all
      show "(p, b # q) \<in> set (book_of s e2)" using book book_of_cong [OF e2(1,2)] by simp
    qed
    then obtain agg where agg: "aggregate_loop e2 (b # q) 0 = Some agg" "\<not> is_nan agg" "\<not> agg \<le> 0" by blast
    have "book_of t (?e agg) = book_of t e" for t using e2 by (intro book_of_cong) simp_all
    moreover have "match_maker (depth_side_of s) request (b # q) (r, result, e) =
      Some (r - f, result\<lparr>mr_trades := mr_trades result @ [trade]\<rparr>, ?e agg)"
      using False agg(1) o(2) ord(1)
      by (simp add: match_maker_def deref_def Let_def e2_def x_def f_def trade_def del: aggregate_loop.simps)
    ultimately show ?thesis using False inv' [OF agg(2,3)] e2 by simp
  qed
qed

section \<open>The loops\<close>

text \<open>The live ids of an engine are the ids of its two priority lists.\<close>

definition list_ids :: "RestingOrder list \<Rightarrow> string set" where
  "list_ids ords = ro_order_id ` set ords"

lemma list_ids_simps [simp]: "list_ids [] = {}" "list_ids (m # ms) = insert (ro_order_id m) (list_ids ms)"
  by (simp_all add: list_ids_def)

lemma live_ids:
  assumes inv: "engine_inv e"
  shows "fst ` set (me_live_orders e) = list_ids (orders s e) \<union> list_ids (orders (opposite s) e)"
proof -
  have dom: "dom (objects e) = set (ptrs (book_of s e)) \<union> set (ptrs (book_of (opposite s) e))"
    using inv ptrs_both [of e s] by (simp add: engine_inv_def)
  have live: "\<And>i b. (i, b) \<in> set (me_live_orders e) \<longleftrightarrow> (\<exists>ord. objects e b = Some ord \<and> ro_order_id ord = i)"
    using inv unfolding engine_inv_def live_ok_def by blast
  have "i \<in> fst ` set (me_live_orders e) \<longleftrightarrow> (\<exists>b \<in> dom (objects e). ro_order_id (the (objects e b)) = i)" for i
    using live by (force simp: image_iff)
  then show ?thesis unfolding list_ids_def orders_def dom image_image set_map image_Un [symmetric]
    by (intro set_eqI) (simp only:, blast)
qed

lemma match_side_stop:
  "\<not> kPriceEpsilon < r \<Longrightarrow> match_side s request (r, result, e) = Some (r, result, e)"
  by (subst match_side_unfold) (simp split: list.split prod.split)

lemma match_list_stop: "\<not> kPriceEpsilon < r \<Longrightarrow> match_list beyond taker r ms = (r, [], ms)"
  by (cases ms) simp_all

theorem match_side_refines:
  assumes "engine_inv e" "is_finite r" "match_list (beyond_limit s request) (oq_order_id request) r (orders s e) = (r', trades, ms)"
  shows "\<exists>e'. match_side s request (r, result, e) = Some (r', result\<lparr>mr_trades := mr_trades result @ trades\<rparr>, e') \<and>
    engine_inv e' \<and> orders s e' = ms \<and> book_of (opposite s) e' = book_of (opposite s) e \<and> orders (opposite s) e' = orders (opposite s) e"
  using assms
proof (induction "length (ptrs (book_of s e))" arbitrary: e r result r' trades ms rule: less_induct)
  case less
  note inv = less.prems(1)
  show ?case
  proof (cases "book_of s e")
    case Nil
    then show ?thesis using less.prems by (subst match_side_unfold) (auto simp: orders_def)
  next
    case (Cons l rest)
    then obtain p q0 where book: "book_of s e = (p, q0) # rest" by (cases l) auto
    obtain b q ord where q0: "q0 = b # q" and ord: "objects e b = Some ord" "order_ok s p ord"
      and ptrs: "ptrs (book_of s e) = b # q @ ptrs rest" and fresh: "b \<notin> set (q @ ptrs rest)"
      and orders: "orders s e = ord # map (\<lambda>b. the (objects e b)) (q @ ptrs rest)"
      using front_order [OF inv book] by blast
    have price: "ro_price ord = p" using ord(2) by (simp add: order_ok_def)
    show ?thesis
    proof (cases "kPriceEpsilon < r \<and> \<not> beyond_limit s request p")
      case False
      then show ?thesis using less.prems(1,3) book
        by (subst match_side_unfold) (auto simp: orders price)
    next
      case True
      define f where "f = std_min r (ro_open_quantity ord)"
      define trade where "trade = \<lparr>tr_maker_order_id = ro_order_id ord, tr_taker_order_id = oq_order_id request, tr_price = p, tr_quantity = f\<rparr>"
      define result1 where "result1 = result\<lparr>mr_trades := mr_trades result @ [trade]\<rparr>"
      have fin: "is_finite (ro_open_quantity ord)" "kPriceEpsilon < ro_open_quantity ord" using ord(2) by (auto simp: order_ok_def)
      note fill = min_fill [OF less.prems(2) fin(1) conjunct1 [OF True] fin(2), folded f_def]
      obtain e1 where run: "match_maker (depth_side_of s) request (b # q) (r, result, e) = Some (r - f, result1, e1)"
        and inv1: "engine_inv e1" and opp: "book_of (opposite s) e1 = book_of (opposite s) e"
        and upd: "if ro_open_quantity ord - f \<le> kPriceEpsilon then ptrs (book_of s e1) = q @ ptrs rest \<and> objects e1 = (objects e)(b := None)
          else book_of s e1 = book_of s e \<and> objects e1 = (objects e)(b \<mapsto> ord\<lparr>ro_open_quantity := ro_open_quantity ord - f\<rparr>)"
        using match_maker_step [OF inv book [unfolded q0] ord less.prems(2) conjunct1 [OF True], of request result]
        unfolding f_def trade_def result1_def by (auto split: if_splits simp del: fun_upd_apply)
      have loop: "match_side s request (r, result, e) = match_side s request (r - f, result1, e1)"
        using True run book q0 by (subst match_side_unfold) simp
      have opp_orders: "orders (opposite s) e1 = orders (opposite s) e"
        using upd opp disjoint_sides [OF inv, of b s] ptrs by (intro orders_cong) (auto split: if_splits)
      show ?thesis
      proof (cases "ro_open_quantity ord - f \<le> kPriceEpsilon")
        case filled: True
        then have orders1: "orders s e1 = map (\<lambda>b. the (objects e b)) (q @ ptrs rest)"
          using upd fresh by (auto simp: orders_def)
        obtain r2 trades2 ms2 where abs1: "match_list (beyond_limit s request) (oq_order_id request) (r - f) (orders s e1) = (r2, trades2, ms2)"
          by (metis prod_cases3)
        then have res: "r' = r2" "trades = trade # trades2" "ms = ms2"
          using less.prems(3) True filled by (auto simp: orders orders1 price Let_def f_def trade_def)
        have "length (ptrs (book_of s e1)) < length (ptrs (book_of s e))" using upd filled ptrs by simp
        from less.hyps [OF this inv1 fill(5) abs1, of result1] show ?thesis
          using loop opp opp_orders by (simp add: res result1_def)
      next
        case partial: False
        then have "\<not> kPriceEpsilon < r - f" using fill(9) eps_pos(1) double_less_asym by metis
        moreover have "orders s e1 = ord\<lparr>ro_open_quantity := ro_open_quantity ord - f\<rparr> # map (\<lambda>b. the (objects e b)) (q @ ptrs rest)"
          using upd partial fresh ptrs by (auto simp: orders_def)
        moreover have "r' = r - f" "trades = [trade]" "ms = ord\<lparr>ro_open_quantity := ro_open_quantity ord - f\<rparr> # map (\<lambda>b. the (objects e b)) (q @ ptrs rest)"
          using less.prems(3) True partial by (auto simp: orders price Let_def f_def trade_def)
        ultimately show ?thesis using loop inv1 opp opp_orders match_side_stop by (simp add: result1_def)
      qed
    qed
  qed
qed

end
