(* ===== verification/Matching_Rest.thy ===== *)
theory Matching_Rest
  imports Matching_Loop
begin

text \<open>
  Adding an order to a book. The new order goes behind every order at its price or a better one, and the invariant is
  kept when no order of the other side is at that price or beyond.
\<close>

section \<open>Pushing onto a level\<close>

definition insert_order :: "RestingOrder \<Rightarrow> RestingOrder list \<Rightarrow> RestingOrder list" where
  "insert_order ord ords =
     (let ahead = (\<lambda>m. \<not> price_lt (ro_side ord) (ro_price ord) (ro_price m)) in takeWhile ahead ords @ [ord] @ dropWhile ahead ords)"

lemma insert_order_split:
  assumes "\<And>m. m \<in> set ahead \<Longrightarrow> \<not> price_lt (ro_side ord) (ro_price ord) (ro_price m)"
    "\<And>m. m \<in> set behind \<Longrightarrow> price_lt (ro_side ord) (ro_price ord) (ro_price m)"
  shows "insert_order ord (ahead @ behind) = ahead @ [ord] @ behind"
  using assms by (cases behind) (simp_all add: insert_order_def Let_def takeWhile_append2 dropWhile_append2)

lemma set_insert_order [simp]: "set (insert_order ord ords) = insert ord (set ords)"
proof -
  have "set (takeWhile f ords @ [ord] @ dropWhile f ords) = insert ord (set (takeWhile f ords @ dropWhile f ords))" for f
    by (simp only: set_append) auto
  then show ?thesis by (simp add: insert_order_def Let_def del: set_append)
qed

lemma list_ids_insert [simp]: "list_ids (insert_order ord ords) = insert (ro_order_id ord) (list_ids ords)"
  by (simp add: list_ids_def)

lemma level_push:
  assumes side: "side_ok s objs book" and b: "objs b = None" and ord: "order_ok s p ord" and p: "is_finite p"
  defines "book' \<equiv> book_push (price_lt s) p b book"
  shows "side_ok s (objs(b \<mapsto> ord)) book'" "set (ptrs book') = insert b (set (ptrs book))" "fst ` set book' = insert p (fst ` set book)"
    "map (\<lambda>c. the ((objs(b \<mapsto> ord)) c)) (ptrs book') = insert_order ord (map (\<lambda>b. the (objs b)) (ptrs book))"
proof -
  have wf: "omap_wf (price_lt s) not_nan book" and d: "distinct (ptrs book)"
    and lev: "\<And>k qu. (k, qu) \<in> set book \<Longrightarrow> is_finite k \<and> qu \<noteq> [] \<and> (\<forall>b \<in> set qu. \<exists>ord. objs b = Some ord \<and> order_ok s k ord)"
    using side by (auto simp: side_ok_def)
  have nn: "not_nan p" using p by (rule finite_not_nan)
  have fresh: "b \<notin> set (ptrs book)" using lev b ptrs_mem by (metis option.distinct(1))
  obtain better worse where split: "book = better @ worse" "\<forall>k \<in> fst ` set better. \<not> price_lt s p k" "\<forall>k \<in> fst ` set worse. price_lt s p k"
    and ptrs': "ptrs book' = ptrs better @ [b] @ ptrs worse"
    using ps.ptrs_push [OF wf nn, of b] unfolding book'_def by blast
  have ptrs: "ptrs book = ptrs better @ ptrs worse" by (simp add: split(1) ptrs_def)
  show set': "set (ptrs book') = insert b (set (ptrs book))" by (simp add: ptrs ptrs')
  have wf': "omap_wf (price_lt s) not_nan book'" unfolding book'_def by (rule ps.wf_push [OF wf nn])
  have m: "map_of book' = (map_of book)(p \<mapsto> (case map_of book p of None \<Rightarrow> [] | Some q \<Rightarrow> q) @ [b])"
    unfolding book'_def by (rule ps.map_of_push [OF wf nn])
  show "fst ` set book' = insert p (fst ` set book)" unfolding keys_map_of m by simp
  have "is_finite k \<and> qu \<noteq> [] \<and> (\<forall>c \<in> set qu. \<exists>x. (objs(b \<mapsto> ord)) c = Some x \<and> order_ok s k x)" if "(k, qu) \<in> set book'" for k qu
  proof -
    have "map_of book' k = Some qu" using that ps.mem_iff [OF wf'] by blast
    then consider "k \<noteq> p" "(k, qu) \<in> set book" | "k = p" "qu = [b]" | q where "k = p" "(k, q) \<in> set book" "qu = q @ [b]"
      using m ps.mem_iff [OF wf] by (auto split: if_splits option.splits)
    then show ?thesis using lev ord p fresh ptrs_mem by cases (auto simp del: split_paired_All split_paired_Ex)
  qed
  moreover have "distinct (ptrs book')" using d fresh by (simp add: ptrs ptrs')
  ultimately show "side_ok s (objs(b \<mapsto> ord)) book'" unfolding side_ok_def using wf' by (simp del: fun_upd_apply) blast
  let ?f = "\<lambda>b. the (objs b)"
  have price: "ro_price (?f c) \<in> fst ` set bk" if c: "c \<in> set (ptrs bk)" "set bk \<subseteq> set book" for c bk
  proof -
    obtain k qu where kq: "(k, qu) \<in> set bk" "c \<in> set qu" using c(1) ptrs_mem by blast
    then have "ro_price (?f c) = k" using lev [of k qu] c(2) by (fastforce simp: order_ok_def)
    then show ?thesis using kq(1) by force
  qed
  have o: "ro_side ord = s" "ro_price ord = p" using ord by (auto simp: order_ok_def)
  have "map (\<lambda>c. the ((objs(b \<mapsto> ord)) c)) (ptrs book') = map ?f (ptrs better) @ [ord] @ map ?f (ptrs worse)"
    using fresh by (auto simp: ptrs ptrs')
  also have "\<dots> = insert_order ord (map ?f (ptrs better) @ map ?f (ptrs worse))"
  proof (rule insert_order_split [symmetric])
    fix m
    show "\<not> price_lt (ro_side ord) (ro_price ord) (ro_price m)" if "m \<in> set (map ?f (ptrs better))"
      using that price [of _ better] split(2) unfolding o split(1) by (metis (no_types, lifting) imageE list.set_map set_append Un_upper1)
    show "price_lt (ro_side ord) (ro_price ord) (ro_price m)" if "m \<in> set (map ?f (ptrs worse))"
      using that price [of _ worse] split(3) unfolding o split(1) by (metis (no_types, lifting) imageE list.set_map set_append Un_upper2)
  qed
  finally show "map (\<lambda>c. the ((objs(b \<mapsto> ord)) c)) (ptrs book') = insert_order ord (map ?f (ptrs book))" by (simp add: ptrs)
qed

section \<open>Resting the remainder of a request\<close>

definition rest_of :: "OrderRequest \<Rightarrow> double \<Rightarrow> RestingOrder" where
  "rest_of request x = \<lparr>ro_order_id = oq_order_id request, ro_side = oq_side request, ro_price = oq_price request,
     ro_open_quantity = x, ro_timestamp = oq_timestamp request\<rparr>"

lemma rest_of_simps [simp]:
  "ro_order_id (rest_of request x) = oq_order_id request" "ro_side (rest_of request x) = oq_side request"
  "ro_price (rest_of request x) = oq_price request" "ro_open_quantity (rest_of request x) = x"
  by (simp_all add: rest_of_def)

lemma add_resting_order_side:
  assumes "op_create 0 (rest_of request x) (me_order_pool e) = Inr (b, pool)" "map_of (me_live_orders e) (oq_order_id request) = None"
  shows "add_resting_order request x e = Some (emit_depth_event (depth_update (depth_side_of (oq_side request)) (oq_price request) x
    (set_book (oq_side request) (book_push (price_lt (oq_side request)) (oq_price request) b (book_of (oq_side request) e))
      (e\<lparr>me_order_pool := pool, me_live_orders := (oq_order_id request, b) # me_live_orders e\<rparr>))))"
  using assms by (cases "oq_side request") (simp_all add: add_resting_order_def rest_of_def Let_def)

lemma live_ok_insert:
  assumes "live_ok objs live" "objs b = None" "map_of live (ro_order_id ord) = None"
  shows "live_ok (objs(b \<mapsto> ord)) ((ro_order_id ord, b) # live)"
  using assms by (auto simp: live_ok_def map_of_eq_None_iff simp del: split_paired_All split_paired_Ex)

lemma uncrossed_side:
  "uncrossed (me_bids e) (me_asks e) \<longleftrightarrow>
   (\<forall>k \<in> fst ` set (book_of s e). \<forall>k' \<in> fst ` set (book_of (opposite s) e). price_lt (opposite s) k k')"
  by (cases s) (auto simp: uncrossed_def)

lemma uncrossed_insert:
  assumes "uncrossed (me_bids e) (me_asks e)" "book_of (opposite s) e' = book_of (opposite s) e"
    "fst ` set (book_of s e') = insert p (fst ` set (book_of s e))" "\<forall>k \<in> fst ` set (book_of (opposite s) e). price_lt (opposite s) p k"
  shows "uncrossed (me_bids e') (me_asks e')"
  using assms unfolding uncrossed_side [of _ s] by simp

lemma add_resting_order_spec:
  assumes inv: "engine_inv e" and x: "is_finite x" "kPriceEpsilon < x" and p: "is_finite (oq_price request)"
    and new: "map_of (me_live_orders e) (oq_order_id request) = None"
    and far: "\<forall>k \<in> fst ` set (book_of (opposite (oq_side request)) e). price_lt (opposite (oq_side request)) (oq_price request) k"
  shows "\<exists>e'. add_resting_order request x e = Some e' \<and> engine_inv e' \<and>
    orders (oq_side request) e' = insert_order (rest_of request x) (orders (oq_side request) e) \<and>
    orders (opposite (oq_side request)) e' = orders (opposite (oq_side request)) e"
proof -
  define s where "s = oq_side request"
  let ?p = "oq_price request" and ?ord = "rest_of request x"
  have pool: "op_inv (me_order_pool e)" and side: "side_ok t (objects e) (book_of t e)" for t using inv by (simp_all add: engine_inv_def)
  obtain b pool where b: "op_create 0 ?ord (me_order_pool e) = Inr (b, pool)" "b \<notin> dom (objects e)"
    "op_objects pool = (objects e)(b \<mapsto> ?ord)" "op_inv pool" by (rule op_create_fresh [OF pool])
  define e' where "e' = emit_depth_event (depth_update (depth_side_of s) ?p x (set_book s (book_push (price_lt s) ?p b (book_of s e))
      (e\<lparr>me_order_pool := pool, me_live_orders := (oq_order_id request, b) # me_live_orders e\<rparr>)))"
  have none: "objects e b = None" using b(2) by blast
  have ok: "order_ok s ?p ?ord" using x by (simp add: order_ok_def s_def)
  note push = level_push [OF side [of s] none ok p]
  have books: "book_of s e' = book_push (price_lt s) ?p b (book_of s e)" "book_of (opposite s) e' = book_of (opposite s) e"
    by (cases s; simp add: e'_def)+
  have e': "objects e' = (objects e)(b \<mapsto> ?ord)" "me_live_orders e' = (ro_order_id ?ord, b) # me_live_orders e"
    "me_depth_book e' = snd (db_update (depth_side_of s) ?p x (me_depth_book e))"
    by (cases s; simp add: e'_def b(3))+
  have queue: "rq_wf (me_event_queue e')" and pool': "op_inv (me_order_pool e')"
    using inv b(4) by (cases s; simp add: e'_def engine_inv_def)+
  have opp: "b \<notin> set (ptrs (book_of (opposite s) e))" using inv b(2) ptrs_both [of e s] by (auto simp: engine_inv_def)
  have "side_ok (opposite s) (objects e') (book_of (opposite s) e')"
    using side [of "opposite s"] opp unfolding books e' by (fastforce simp: side_ok_def ptrs_mem)
  then have "\<forall>t. side_ok t (objects e') (book_of t e')" using push(1) by (subst side_cases [of _ s]) (simp add: books e')
  moreover have "dom (objects e') = set (ptrs (me_bids e')) \<union> set (ptrs (me_asks e'))"
    using inv push(2) books e'(1) unfolding engine_inv_def ptrs_both [of _ s] by auto
  moreover have "live_ok (objects e') (me_live_orders e')"
    unfolding e'(1,2) using inv new none live_ok_insert [of "objects e" "me_live_orders e" b ?ord] by (simp add: engine_inv_def)
  moreover have "uncrossed (me_bids e') (me_asks e')"
    using inv far books push(3) by (intro uncrossed_insert [of e s e' ?p]) (simp_all add: engine_inv_def s_def)
  moreover have "depth_ok e'"
  proof (rule depth_ok_update [OF _ p _ e'(3) books(2)])
    show "depth_ok e" using inv by (simp add: engine_inv_def)
    show "\<not> is_nan x" using x(1) by (rule finite_not_nan)
    have "0 < x" using x(2) eps_pos(1) double_less_trans by blast
    then show "fst ` set (book_of s e') = (if x \<le> 0 then fst ` set (book_of s e) - {?p} else insert ?p (fst ` set (book_of s e)))"
      using push(3) books(1) double_less_le_trans double_less_irrefl by metis
  qed
  ultimately have "engine_inv e'" using queue pool' by (simp add: engine_inv_def)
  moreover have "add_resting_order request x e = Some e'" using add_resting_order_side [OF b(1) new] by (simp add: e'_def s_def)
  moreover have "orders s e' = insert_order ?ord (orders s e)" using push(4) by (simp add: orders_def books e')
  moreover have "orders (opposite s) e' = orders (opposite s) e" using opp by (intro orders_cong) (auto simp: books e')
  ultimately show ?thesis unfolding s_def by blast
qed

end
