(* ===== verification/Matching_Spec.thy ===== *)
theory Matching_Spec
  imports Matching_Rest
begin

text \<open>
  The specification of the matching engine: an exchange on two lists of orders in priority order, without pointers,
  queues, pool, live table, depth book or events. \<open>submit_refines\<close> and \<open>cancel_refines\<close> show that the engine returns
  what the specification returns, and that its books stay the two lists.
\<close>

section \<open>The specification\<close>

type_synonym exchange = "Side \<Rightarrow> RestingOrder list"

fun fill_list :: "(double \<Rightarrow> bool) \<Rightarrow> RestingOrder list \<Rightarrow> double \<Rightarrow> bool" where
  "fill_list beyond [] remaining = (remaining \<le> kPriceEpsilon)"
| "fill_list beyond (m # ms) remaining =
     (if beyond (ro_price m) then remaining \<le> kPriceEpsilon
      else remaining - ro_open_quantity m \<le> kPriceEpsilon \<or> fill_list beyond ms (remaining - ro_open_quantity m))"

definition crosses :: "OrderRequest \<Rightarrow> RestingOrder list \<Rightarrow> bool" where
  "crosses request ms \<longleftrightarrow> ms \<noteq> [] \<and>
     (if oq_side request = kBuy then ro_price (hd ms) \<le> oq_price request + kPriceEpsilon
      else oq_price request \<le> ro_price (hd ms) + kPriceEpsilon)"

definition limit_status :: "OrderRequest \<Rightarrow> double \<Rightarrow> OrderStatus" where
  "limit_status request remaining =
     (let traded = 0 < oq_quantity request - remaining in
      if quantity_is_zero remaining then (if traded then kFilled else kAccepted)
      else if oq_tif request = kIoc then (if traded then kPartiallyFilled else kCancelled)
      else (if traded then kPartiallyFilled else kAccepted))"

definition market_status :: "OrderRequest \<Rightarrow> double \<Rightarrow> OrderStatus" where
  "market_status request remaining =
     (let traded = 0 < oq_quantity request - remaining in
      if quantity_is_zero remaining then kFilled
      else if traded then kPartiallyFilled
      else if oq_tif request = kIoc then kCancelled
      else kRejected)"

definition book_match :: "OrderRequest \<Rightarrow> exchange \<Rightarrow> MatchResult \<times> exchange" where
  "book_match request bk =
     (let side = oq_side request; quantity = oq_quantity request;
          (remaining, trades, ms) = match_list (beyond_limit (opposite side) request) (oq_order_id request) quantity (bk (opposite side));
          rests = (oq_type request = kLimit \<and> \<not> quantity_is_zero remaining \<and> oq_tif request \<noteq> kIoc);
          status = (if oq_type request = kLimit then limit_status request remaining else market_status request remaining)
      in (\<lparr>mr_accepted = (status \<noteq> kRejected), mr_final_status = status,
           mr_reject_reason = (if status = kRejected then kMarketOrderWouldRest else kNone),
           mr_executed_quantity = quantity - remaining, mr_remaining_quantity = remaining, mr_trades = trades\<rparr>,
          bk(opposite side := ms,
             side := (if rests then insert_order (rest_of request remaining) (bk side) else bk side))))"

definition book_submit :: "OrderRequest \<Rightarrow> exchange \<Rightarrow> MatchResult \<times> exchange" where
  "book_submit request bk =
     (let makers = bk (opposite (oq_side request)); quantity = oq_quantity request;
          reject = (\<lambda>reason. (make_rejected_result reason quantity, bk)) in
      if oq_order_id request = [] \<or> quantity \<le> 0 then reject kInsufficientLiquidity
      else if oq_order_id request \<in> list_ids (bk kBuy) \<union> list_ids (bk kSell) then reject kDuplicateOrderId
      else if oq_type request = kLimit \<and> oq_tif request = kGtx \<and> crosses request makers then reject kWouldCrossPostOnly
      else if oq_tif request = kFok \<and> \<not> fill_list (beyond_limit (opposite (oq_side request)) request) makers quantity
      then reject kInsufficientLiquidity
      else book_match request bk)"

definition book_cancel :: "string \<Rightarrow> exchange \<Rightarrow> MatchResult \<times> exchange" where
  "book_cancel order_id bk =
     (case find (\<lambda>m. ro_order_id m = order_id) (bk kBuy @ bk kSell) of
        None \<Rightarrow> (make_rejected_result kOrderNotFound 0, bk)
      | Some m \<Rightarrow> (\<lparr>mr_accepted = True, mr_final_status = kCancelled, mr_reject_reason = kNone, mr_executed_quantity = 0,
                    mr_remaining_quantity = ro_open_quantity m, mr_trades = []\<rparr>,
                   (\<lambda>s. filter (\<lambda>m. ro_order_id m \<noteq> order_id) (bk s))))"

text \<open>The exchange an engine implements, and the requests the theorems are about.\<close>

definition abs_engine :: "OrderbookMatchingEngine \<Rightarrow> exchange" where
  "abs_engine e = (\<lambda>s. orders s e)"

definition request_ok :: "OrderRequest \<Rightarrow> bool" where
  "request_ok request \<longleftrightarrow> is_finite (oq_price request) \<and> is_finite (oq_quantity request)"

section \<open>The lists of an engine\<close>

definition list_ok :: "Side \<Rightarrow> RestingOrder list \<Rightarrow> bool" where
  "list_ok s ms \<longleftrightarrow> sorted_wrt (\<lambda>m m'. \<not> price_lt s (ro_price m') (ro_price m)) ms \<and>
     (\<forall>m \<in> set ms. order_ok s (ro_price m) m \<and> is_finite (ro_price m))"

lemma list_okD:
  assumes "list_ok s ms" "m \<in> set ms"
  shows "ro_side m = s" "is_finite (ro_open_quantity m)" "kPriceEpsilon < ro_open_quantity m" "is_finite (ro_price m)"
  using assms by (auto simp: list_ok_def order_ok_def)

lemma list_ok_Cons:
  "list_ok s (m # ms) \<longleftrightarrow> order_ok s (ro_price m) m \<and> is_finite (ro_price m) \<and> (\<forall>m' \<in> set ms. \<not> price_lt s (ro_price m') (ro_price m)) \<and> list_ok s ms"
  by (auto simp: list_ok_def)

lemma side_ok_list:
  assumes "side_ok s objs book"
  shows "list_ok s (map (\<lambda>b. the (objs b)) (ptrs book)) \<and> ro_price ` set (map (\<lambda>b. the (objs b)) (ptrs book)) = fst ` set book"
  using assms
proof (induction book)
  case (Cons l book)
  obtain p q where l: "l = (p, q)" by force
  have level: "is_finite p" "q \<noteq> []" "\<forall>b \<in> set q. \<exists>ord. objs b = Some ord \<and> order_ok s p ord"
    and keys: "\<forall>k \<in> fst ` set book. price_lt s p k" and "side_ok s objs book"
    using Cons.prems by (auto simp: side_ok_def l omap_wf_Cons)
  then have IH: "list_ok s (map (\<lambda>b. the (objs b)) (ptrs book))" "ro_price ` set (map (\<lambda>b. the (objs b)) (ptrs book)) = fst ` set book"
    using Cons.IH by blast+
  let ?ms = "map (\<lambda>b. the (objs b)) (ptrs book)"
  have "list_ok s (map (\<lambda>b. the (objs b)) qs @ ?ms)" if "set qs \<subseteq> set q" for qs
    using that
  proof (induction qs)
    case (Cons b qs)
    then obtain ord where ord: "objs b = Some ord" "order_ok s p ord" using level(3) by auto
    then have price: "ro_price ord = p" by (simp add: order_ok_def)
    have "\<not> price_lt s (ro_price m) p" if "m \<in> set (map (\<lambda>b. the (objs b)) qs @ ?ms)" for m
    proof (cases "m \<in> set ?ms")
      case True
      then show ?thesis using IH(2) keys ps.lt_asym by blast
    next
      case False
      then have "ro_price m = p" using that Cons.prems level(3) by (fastforce simp: order_ok_def)
      then show ?thesis using ps.lt_irrefl level(1) by (cases s) simp_all
    qed
    then show ?case using Cons ord price level(1) by (simp add: list_ok_Cons)
  qed (simp add: IH)
  moreover have "ro_price ` (\<lambda>b. the (objs b)) ` set q = {p}"
  proof -
    have "ro_price (the (objs b)) = p" if "b \<in> set q" for b using level(3) that by (fastforce simp: order_ok_def)
    then show ?thesis using level(2) by (cases q) (auto simp: image_image)
  qed
  ultimately show ?case using IH(2) by (simp add: l image_Un)
qed (simp add: list_ok_def)

lemma orders_ok: "engine_inv e \<Longrightarrow> list_ok s (orders s e)"
  and orders_prices: "engine_inv e \<Longrightarrow> ro_price ` set (orders s e) = fst ` set (book_of s e)"
  using side_ok_list [OF side_okD] by (simp_all add: orders_def)

section \<open>The tests before matching\<close>

lemma fill_queue_list:
  assumes "\<forall>b \<in> set q. \<exists>ord. objects e b = Some ord \<and> ro_price ord = p" "\<not> beyond p"
  shows "(case fill_queue_loop e q r of None \<Rightarrow> None | Some (Inl b) \<Rightarrow> Some b | Some (Inr r') \<Rightarrow> Some (fill_list beyond ms r')) =
    Some (fill_list beyond (map (\<lambda>b. the (objects e b)) q @ ms) r)"
  using assms by (induction q arbitrary: r) (auto simp: deref_def Let_def)

lemma fill_list_beyond:
  assumes "q \<noteq> []" "\<forall>b \<in> set q. \<exists>ord. objects e b = Some ord \<and> ro_price ord = p" "beyond p"
  shows "fill_list beyond (map (\<lambda>b. the (objects e b)) q @ ms) r = (r \<le> kPriceEpsilon)"
  using assms by (cases q) auto

lemma fill_book_list:
  assumes "\<forall>(p, q) \<in> set book. q \<noteq> [] \<and> (\<forall>b \<in> set q. \<exists>ord. objects e b = Some ord \<and> ro_price ord = p)"
  shows "fill_book_loop e beyond book r = Some (fill_list beyond (map (\<lambda>b. the (objects e b)) (ptrs book)) r)"
  using assms
proof (induction book arbitrary: r)
  case (Cons l book)
  obtain p q where l: "l = (p, q)" by force
  have level: "q \<noteq> []" "\<forall>b \<in> set q. \<exists>ord. objects e b = Some ord \<and> ro_price ord = p" using Cons.prems by (auto simp: l)
  let ?ms = "map (\<lambda>b. the (objects e b)) (ptrs book)"
  show ?case
  proof (cases "beyond p")
    case True
    then show ?thesis using fill_list_beyond [of q e p beyond ?ms r] level by (simp add: l)
  next
    case False
    have IH: "fill_book_loop e beyond book r' = Some (fill_list beyond ?ms r')" for r' using Cons by simp
    show ?thesis using fill_queue_list [OF level(2), of beyond ?ms r] False
      by (auto simp: l IH split: option.splits sum.splits)
  qed
qed simp

lemma can_fill_fully_list:
  assumes "engine_inv e"
  shows "can_fill_fully request e =
    Some (fill_list (beyond_limit (opposite (oq_side request)) request) (orders (opposite (oq_side request)) e) (oq_quantity request))"
  using side_okD [OF assms, of "opposite (oq_side request)"] unfolding can_fill_fully_side orders_def
  by (intro fill_book_list) (fastforce simp: side_ok_def order_ok_def)

lemma orders_Nil: "engine_inv e \<Longrightarrow> orders s e = [] \<longleftrightarrow> book_of s e = []"
  using orders_prices [of e s] by (auto simp: orders_def)

lemma orders_best: "engine_inv e \<Longrightarrow> book_of s e = (p, q) # rest \<Longrightarrow> orders s e \<noteq> [] \<and> ro_price (hd (orders s e)) = p"
  using front_order [of e s p q rest] by (auto simp: order_ok_def)

lemma would_cross_list: "engine_inv e \<Longrightarrow> would_cross request e = crosses request (orders (opposite (oq_side request)) e)"
  using orders_Nil [of e "opposite (oq_side request)"] orders_best [of e "opposite (oq_side request)"]
  by (cases "oq_side request")
    (auto simp: would_cross_def crosses_def has_best_ask_def has_best_bid_def best_ask_def best_bid_def split: list.splits)

section \<open>The end of matching\<close>

lemma not_zero_iff: "is_finite v \<Longrightarrow> 0 \<le> v \<Longrightarrow> \<not> quantity_is_zero v \<longleftrightarrow> kPriceEpsilon < v"
proof -
  assume v: "is_finite v" "0 \<le> v"
  have "0 \<le> v \<Longrightarrow> \<bar>v\<bar> = (v :: double)" by transfer (case_tac v; simp)
  then show ?thesis using v eps_pos(2) by (simp add: quantity_is_zero_def double_linear finite_not_nan)
qed

lemma match_list_remaining:
  assumes "list_ok s ms" "is_finite r" "0 \<le> r" "match_list beyond taker r ms = (r', trades, ms')"
  shows "is_finite r' \<and> 0 \<le> r' \<and> r' \<le> r \<and> list_ok s ms' \<and> list_ids ms' \<subseteq> list_ids ms \<and>
    (kPriceEpsilon < r' \<longrightarrow> ms' = [] \<or> beyond (ro_price (hd ms')))"
  using assms
proof (induction ms arbitrary: r r' trades ms')
  case Nil
  then show ?case by (auto simp: finite_not_nan)
next
  case (Cons m ms)
  show ?case
  proof (cases "kPriceEpsilon < r \<and> \<not> beyond (ro_price m)")
    case False
    then show ?thesis using Cons.prems by (auto simp: finite_not_nan)
  next
    case True
    define f where "f = std_min r (ro_open_quantity m)"
    have m: "is_finite (ro_open_quantity m)" "kPriceEpsilon < ro_open_quantity m" "list_ok s ms"
      using Cons.prems(1) by (auto simp: list_ok_Cons order_ok_def)
    note fill = min_fill [OF Cons.prems(2) m(1) conjunct1 [OF True] m(2), folded f_def]
    have le: "r - f \<le> r"
      using diff_between [OF Cons.prems(2) _ fill(3)] fill(2) eps_pos(1) double_less_trans double_less_imp_le by blast
    show ?thesis
    proof (cases "ro_open_quantity m - f \<le> kPriceEpsilon")
      case filled: True
      obtain r2 trades2 ms2 where rec: "match_list beyond taker (r - f) ms = (r2, trades2, ms2)" by (metis prod_cases3)
      then have "r' = r2" "ms' = ms2" using Cons.prems(4) True filled by (auto simp: f_def Let_def)
      then show ?thesis using Cons.IH [OF m(3) fill(5,6) rec] le double_order_trans by auto
    next
      case partial: False
      then have "r' = r - f" "ms' = m\<lparr>ro_open_quantity := ro_open_quantity m - f\<rparr> # ms"
        using Cons.prems(4) True by (auto simp: f_def Let_def)
      moreover have "r - f = 0" using fill(9) [OF partial] by blast
      moreover have "kPriceEpsilon < ro_open_quantity m - f"
        using partial fill(7) eps_pos(2) finite_not_nan double_linear by blast
      moreover have "\<not> kPriceEpsilon < 0" using eps_pos(1) by (rule double_less_asym)
      ultimately show ?thesis using Cons.prems(1) fill(5,6,7) le by (auto simp: list_ok_Cons order_ok_def)
    qed
  qed
qed

text \<open>A price behind the best one is beyond the limit too; so what remains does not cross the book.\<close>

lemma beyond_far:
  assumes "oq_type request = kLimit" "beyond_limit t request k"
  shows "price_lt t (oq_price request) k"
proof (cases t)
  case kBuy
  then show ?thesis using assms diff_pos_less [OF double_less_imp_le [OF eps_pos(1)]] by (simp add: bid_beyond_def)
next
  case kSell
  then show ?thesis using assms diff_pos_less [OF double_less_imp_le [OF eps_pos(1)]] by (simp add: ask_beyond_def)
qed

lemma all_far:
  assumes "list_ok t ms" "oq_type request = kLimit" "ms = [] \<or> beyond_limit t request (ro_price (hd ms))"
  shows "\<forall>m \<in> set ms. price_lt t (oq_price request) (ro_price m)"
proof (cases ms)
  case (Cons m ms')
  then have far: "price_lt t (oq_price request) (ro_price m)" using assms beyond_far by auto
  have "price_lt t (oq_price request) (ro_price m')" if "m' \<in> set ms'" for m'
  proof -
    have "\<not> price_lt t (ro_price m') (ro_price m)" "is_finite (ro_price m')" "is_finite (ro_price m)"
      using assms(1) that Cons list_okD(4) [OF assms(1)] by (auto simp: list_ok_Cons)
    then have "ro_price m = ro_price m' \<or> price_lt t (ro_price m) (ro_price m')"
      using ps.lt_total [of "ro_price m" "ro_price m'" t] finite_not_nan by blast
    then show ?thesis using far ps.lt_trans [of t "oq_price request" "ro_price m" "ro_price m'"] by auto
  qed
  then show ?thesis using far Cons by simp
qed simp

section \<open>Refinement\<close>

lemma limit_status_not_rejected [simp]: "limit_status request r \<noteq> kRejected"
  by (simp add: limit_status_def Let_def)

lemma abs_engine_emit [simp]: "abs_engine (emit_order_event i st r x e) = abs_engine e"
proof -
  have "orders s (emit_order_event i st r x e) = orders s e" for s by (cases s) (simp_all add: orders_def)
  then show ?thesis by (simp add: abs_engine_def)
qed

lemma abs_engine_eqI: "\<lbrakk>orders s e = bk s; orders (opposite s) e = bk (opposite s)\<rbrakk> \<Longrightarrow> abs_engine e = bk"
  unfolding abs_engine_def by (rule ext) (metis Side.exhaust opposite.simps)

text \<open>What the engine has after the matching loop, and what the specification has.\<close>

lemma match_request_refines:
  assumes inv: "engine_inv e" and ok: "is_finite q" "0 \<le> q"
    and run: "match_list (beyond_limit (opposite (oq_side request)) request) (oq_order_id request) q (orders (opposite (oq_side request)) e) = (r, trades, ms)"
  shows "\<exists>e1. match_request request (q, result, e) = Some (r, result\<lparr>mr_trades := mr_trades result @ trades\<rparr>, e1) \<and> engine_inv e1 \<and>
    orders (opposite (oq_side request)) e1 = ms \<and> orders (oq_side request) e1 = orders (oq_side request) e \<and>
    fst ` set (me_live_orders e1) \<subseteq> fst ` set (me_live_orders e) \<and> is_finite r \<and> 0 \<le> r \<and>
    (kPriceEpsilon < r \<longrightarrow> oq_type request = kLimit \<longrightarrow>
      (\<forall>k \<in> fst ` set (book_of (opposite (oq_side request)) e1). price_lt (opposite (oq_side request)) (oq_price request) k))"
proof -
  let ?t = "opposite (oq_side request)"
  obtain e1 where e1: "match_request request (q, result, e) = Some (r, result\<lparr>mr_trades := mr_trades result @ trades\<rparr>, e1)"
    "engine_inv e1" "orders ?t e1 = ms" "orders (oq_side request) e1 = orders (oq_side request) e"
    using match_side_refines [OF inv ok(1) run, of result] by (auto simp: match_request_side)
  have m: "is_finite r" "0 \<le> r" "list_ok ?t ms" "list_ids ms \<subseteq> list_ids (orders ?t e)" "kPriceEpsilon < r \<longrightarrow> ms = [] \<or> beyond_limit ?t request (ro_price (hd ms))"
    using match_list_remaining [OF orders_ok [OF inv] ok run] by auto
  have "fst ` set (me_live_orders e1) \<subseteq> fst ` set (me_live_orders e)"
    using live_ids [OF inv, of ?t] live_ids [OF e1(2), of ?t] e1(3,4) m(4) by auto
  moreover have "\<forall>k \<in> fst ` set (book_of ?t e1). price_lt ?t (oq_price request) k" if "kPriceEpsilon < r" "oq_type request = kLimit"
    using all_far [OF m(3) that(2)] m(5) that(1) unfolding orders_prices [OF e1(2), of ?t, symmetric] e1(3) by simp
  ultimately show ?thesis using e1 m(1,2) by blast
qed

lemma handle_refines:
  assumes inv: "engine_inv e" and ok: "request_ok request" "\<not> oq_quantity request \<le> 0"
    and new: "oq_order_id request \<notin> fst ` set (me_live_orders e)"
  shows "\<exists>e'. (do { st \<leftarrow> match_request request (oq_quantity request, make_accepted_result (oq_quantity request), e);
      if oq_type request = kLimit then finalize_limit_result request st else Some (finalize_market_result request st) }) =
    Some (fst (book_match request (abs_engine e)), e') \<and> engine_inv e' \<and> abs_engine e' = snd (book_match request (abs_engine e))"
proof -
  let ?s = "oq_side request" and ?q = "oq_quantity request"
  have q: "is_finite ?q" "0 \<le> ?q" and p: "is_finite (oq_price request)"
    using ok double_linear [of ?q 0] double_less_imp_le by (auto simp: request_ok_def finite_not_nan)
  obtain r trades ms where run: "match_list (beyond_limit (opposite ?s) request) (oq_order_id request) ?q (orders (opposite ?s) e) = (r, trades, ms)"
    by (metis prod_cases3)
  from match_request_refines [OF inv q run, of "make_accepted_result ?q"] obtain e1 where
    e1: "match_request request (?q, make_accepted_result ?q, e) = Some (r, (make_accepted_result ?q)\<lparr>mr_trades := trades\<rparr>, e1)"
      "engine_inv e1" "orders (opposite ?s) e1 = ms" "orders ?s e1 = orders ?s e" "is_finite r" "0 \<le> r"
    and live: "fst ` set (me_live_orders e1) \<subseteq> fst ` set (me_live_orders e)"
    and far: "kPriceEpsilon < r \<longrightarrow> oq_type request = kLimit \<longrightarrow> (\<forall>k \<in> fst ` set (book_of (opposite ?s) e1). price_lt (opposite ?s) (oq_price request) k)"
    by (auto simp: make_accepted_result_def)
  have bk: "abs_engine e s = orders s e" for s by (simp add: abs_engine_def)
  show ?thesis
  proof (cases "oq_type request = kLimit \<and> \<not> quantity_is_zero r \<and> oq_tif request \<noteq> kIoc")
    case True
    then have r: "kPriceEpsilon < r" using not_zero_iff e1(5,6) by blast
    have new1: "map_of (me_live_orders e1) (oq_order_id request) = None" using new live by (auto simp: map_of_eq_None_iff)
    obtain e2 where e2: "add_resting_order request r e1 = Some e2" "engine_inv e2"
      "orders ?s e2 = insert_order (rest_of request r) (orders ?s e1)" "orders (opposite ?s) e2 = orders (opposite ?s) e1"
      using add_resting_order_spec [OF e1(2,5) r p new1] far r True by blast
    have "abs_engine e2 = snd (book_match request (abs_engine e))"
      using True run e1(3,4) e2(3,4) by (intro abs_engine_eqI [of ?s]) (simp_all add: book_match_def bk Let_def)
    then show ?thesis using True run e1(1) e2(1,2)
      by (auto simp: book_match_def bk Let_def finalize_limit_result_def limit_status_def make_accepted_result_def)
  next
    case False
    then have "abs_engine e1 = snd (book_match request (abs_engine e))"
      using run e1(3,4) by (intro abs_engine_eqI [of ?s]) (auto simp: book_match_def bk Let_def)
    moreover have "\<exists>i st reason x. (do { st \<leftarrow> match_request request (?q, make_accepted_result ?q, e);
        if oq_type request = kLimit then finalize_limit_result request st else Some (finalize_market_result request st) }) =
      Some (fst (book_match request (abs_engine e)), emit_order_event i st reason x e1)"
      using False run e1(1)
      by (cases "oq_type request") (auto simp: book_match_def bk Let_def finalize_limit_result_def finalize_market_result_def limit_status_def
          market_status_def make_accepted_result_def)
    ultimately show ?thesis using engine_inv_emit [OF e1(2)] abs_engine_emit by metis
  qed
qed

lemma submit_refines:
  assumes inv: "engine_inv e" and ok: "request_ok request"
  shows "\<exists>e'. me_submit request e = Some (fst (book_submit request (abs_engine e)), e') \<and> engine_inv e' \<and>
    abs_engine e' = snd (book_submit request (abs_engine e))"
proof -
  let ?i = "oq_order_id request" and ?q = "oq_quantity request" and ?t = "opposite (oq_side request)"
  have bk: "abs_engine e s = orders s e" for s by (simp add: abs_engine_def)
  have ids: "map_of (me_live_orders e) ?i \<noteq> None \<longleftrightarrow> ?i \<in> list_ids (orders kBuy e) \<union> list_ids (orders kSell e)"
    using live_ids [OF inv, of kBuy] by (simp add: map_of_eq_None_iff)
  note tests = can_fill_fully_list [OF inv] would_cross_list [OF inv]
  consider (bad) "?i = [] \<or> ?q \<le> 0" | (dup) "\<not> (?i = [] \<or> ?q \<le> 0)" "map_of (me_live_orders e) ?i \<noteq> None"
    | (new) "\<not> (?i = [] \<or> ?q \<le> 0)" "map_of (me_live_orders e) ?i = None" by blast
  then show ?thesis
  proof cases
    case bad
    then show ?thesis using inv by (simp add: me_submit_def book_submit_def Let_def)
  next
    case dup
    moreover have "?i \<in> list_ids (orders kBuy e) \<union> list_ids (orders kSell e)" using ids dup(2) by blast
    ultimately show ?thesis using inv by (auto simp: me_submit_def book_submit_def Let_def bk)
  next
    case new
    then have fresh: "?i \<notin> list_ids (orders kBuy e) \<union> list_ids (orders kSell e)" "?i \<notin> fst ` set (me_live_orders e)"
      using ids by (auto simp: map_of_eq_None_iff)
    show ?thesis
    proof (cases "(oq_type request = kLimit \<and> oq_tif request = kGtx \<and> crosses request (orders ?t e)) \<or>
        (oq_tif request = kFok \<and> \<not> fill_list (beyond_limit ?t request) (orders ?t e) ?q)")
      case True
      then show ?thesis using new fresh inv
        by (cases "oq_type request") (auto simp: me_submit_def book_submit_def Let_def bk handle_limit_order_def handle_market_order_def tests)
    next
      case False
      then have "me_submit request e = (do { st \<leftarrow> match_request request (?q, make_accepted_result ?q, e);
          if oq_type request = kLimit then finalize_limit_result request st else Some (finalize_market_result request st) })"
        using new by (cases "oq_type request") (auto simp: me_submit_def handle_limit_order_def handle_market_order_def tests)
      moreover have "book_submit request (abs_engine e) = book_match request (abs_engine e)"
        using False new(1) fresh(1) by (auto simp: book_submit_def Let_def bk)
      ultimately show ?thesis using handle_refines [OF inv ok _ fresh(2)] new(1) by simp
    qed
  qed
qed

lemma find_unique: "\<lbrakk>y \<in> set xs; P y; \<And>x. x \<in> set xs \<Longrightarrow> P x \<Longrightarrow> x = y\<rbrakk> \<Longrightarrow> find P xs = Some y"
  by (cases "find P xs") (metis find_None_iff option.distinct(1), metis find_Some_iff nth_mem)

lemma live_lookup:
  assumes inv: "engine_inv e" and i: "map_of (me_live_orders e) i = Some b"
  shows "\<exists>ord. objects e b = Some ord \<and> ro_order_id ord = i \<and> b \<in> set (ptrs (book_of (ro_side ord) e)) \<and>
    (\<forall>c \<in> dom (objects e). ro_order_id (the (objects e c)) = i \<longleftrightarrow> c = b)"
proof -
  have d: "distinct (map fst (me_live_orders e))" using inv unfolding engine_inv_def live_ok_def by blast
  have mem: "\<And>j c. (j, c) \<in> set (me_live_orders e) \<longleftrightarrow> (\<exists>x. objects e c = Some x \<and> ro_order_id x = j)"
    using inv unfolding engine_inv_def live_ok_def by blast
  obtain ord where ord: "objects e b = Some ord" "ro_order_id ord = i" using mem map_of_SomeD [OF i] by blast
  moreover have "c = b" if "objects e c = Some x" "ro_order_id x = i" for c x
    using mem d that i by (metis map_of_is_SomeI option.inject)
  moreover have "b \<in> set (ptrs (book_of (ro_side ord) e))" using resting_level [OF inv ord(1)] by metis
  ultimately show ?thesis using ord by (metis domD option.sel)
qed

lemma orders_removed:
  assumes inv: "engine_inv e" and ord: "\<forall>c \<in> dom (objects e). ro_order_id (the (objects e c)) = i \<longleftrightarrow> c = b"
    and e': "objects e' = (objects e)(b := None)" "ptrs (book_of s e') = filter (\<lambda>c. c \<noteq> b) (ptrs (book_of s e))"
  shows "orders s e' = filter (\<lambda>m. ro_order_id m \<noteq> i) (orders s e)"
proof -
  have "c \<in> dom (objects e)" if "c \<in> set (ptrs (book_of s e))" for c
    using inv that ptrs_both [of e s] by (auto simp: engine_inv_def)
  then have "filter (\<lambda>c. ro_order_id (the (objects e c)) \<noteq> i) (ptrs (book_of s e)) = filter (\<lambda>c. c \<noteq> b) (ptrs (book_of s e))"
    using ord by (intro filter_cong) auto
  then show ?thesis unfolding orders_def e' filter_map o_def by (auto intro!: map_cong)
qed

lemma cancel_refines:
  assumes inv: "engine_inv e"
  shows "\<exists>e'. me_cancel order_id e = Some (fst (book_cancel order_id (abs_engine e)), e') \<and> engine_inv e' \<and>
    abs_engine e' = snd (book_cancel order_id (abs_engine e))"
proof (cases "map_of (me_live_orders e) order_id")
  case None
  then have "order_id \<notin> list_ids (orders kBuy e) \<union> list_ids (orders kSell e)"
    using live_ids [OF inv, of kBuy] by (simp add: map_of_eq_None_iff)
  then have "find (\<lambda>m. ro_order_id m = order_id) (orders kBuy e @ orders kSell e) = None"
    by (auto simp: find_None_iff list_ids_def)
  then show ?thesis using None inv by (simp add: me_cancel_def book_cancel_def abs_engine_def)
next
  case (Some b)
  then obtain ord where ord: "objects e b = Some ord" "ro_order_id ord = order_id" and mem: "b \<in> set (ptrs (book_of (ro_side ord) e))"
    and uniq: "\<forall>c \<in> dom (objects e). ro_order_id (the (objects e c)) = order_id \<longleftrightarrow> c = b" using live_lookup [OF inv] by blast
  obtain e1 where e1: "remove_resting_order b e = Some e1" "engine_inv e1" "objects e1 = (objects e)(b := None)"
    "ptrs (book_of (ro_side ord) e1) = remove1 b (ptrs (book_of (ro_side ord) e))"
    "book_of (opposite (ro_side ord)) e1 = book_of (opposite (ro_side ord)) e"
    using remove_resting_order_spec [OF inv ord(1), of e "ro_open_quantity ord"] inv ord(1) by (auto simp: engine_inv_def fun_upd_idem)
  have "ptrs (book_of t e1) = filter (\<lambda>c. c \<noteq> b) (ptrs (book_of t e))" for t
  proof (cases "t = ro_side ord")
    case True
    have "distinct (ptrs (book_of t e))" using side_okD [OF inv] by (simp add: side_ok_def)
    then show ?thesis using True e1(4) by (simp add: distinct_remove1_removeAll removeAll_filter_not_eq eq_commute)
  next
    case False
    then have "t = opposite (ro_side ord)" by (cases t; cases "ro_side ord"; simp)
    then show ?thesis using e1(5) disjoint_sides [OF inv mem] by (auto intro!: filter_True [symmetric])
  qed
  from orders_removed [OF inv uniq e1(3) this] have rem: "orders t e1 = filter (\<lambda>m. ro_order_id m \<noteq> order_id) (orders t e)" for t .
  have "find (\<lambda>m. ro_order_id m = order_id) (orders kBuy e @ orders kSell e) = Some ord"
  proof (rule find_unique)
    show "ord \<in> set (orders kBuy e @ orders kSell e)"
      using mem ord(1) by (cases "ro_side ord") (force simp: orders_def)+
    have dom: "set (ptrs (book_of kBuy e)) \<union> set (ptrs (book_of kSell e)) = dom (objects e)"
      using inv by (simp add: engine_inv_def)
    fix x assume "x \<in> set (orders kBuy e @ orders kSell e)" and x: "ro_order_id x = order_id"
    then have "x \<in> (\<lambda>c. the (objects e c)) ` dom (objects e)" unfolding dom [symmetric] orders_def by (simp add: image_Un)
    then obtain c where "c \<in> dom (objects e)" "x = the (objects e c)" by blast
    then have "c = b" using uniq x by blast
    then show "x = ord" using \<open>x = the _\<close> ord(1) by simp
  qed (rule ord(2))
  moreover have "abs_engine e1 = (\<lambda>s. filter (\<lambda>m. ro_order_id m \<noteq> order_id) (orders s e))" by (simp add: abs_engine_def rem)
  ultimately show ?thesis using Some e1(1,2) ord(1) by (simp add: me_cancel_def book_cancel_def abs_engine_def [of e] deref_def)
qed

end
