(* ===== verification/Refinement.thy ===== *)
theory Refinement
  imports Prelude "HOL-Library.Monad_Syntax"
begin

text \<open>
  Runs of a component and the interface between a component and its specification. A component is a step function that
  may fail (\<open>None\<close>); its specification is a total function on abstract states. \<open>step_refinement\<close> says that no step
  fails in a good state and that its result is the specified one; the lemmas carry this over to runs.
\<close>

fun run_steps :: "('op \<Rightarrow> 's \<Rightarrow> ('r \<times> 's) option) \<Rightarrow> 'op list \<Rightarrow> 's \<Rightarrow> ('r list \<times> 's) option" where
  "run_steps step [] s = Some ([], s)"
| "run_steps step (op # ops) s =
     do { (r, s1) \<leftarrow> step op s; (rs, s2) \<leftarrow> run_steps step ops s1; Some (r # rs, s2) }"

fun run_spec :: "('op \<Rightarrow> 'a \<Rightarrow> 'r \<times> 'a) \<Rightarrow> 'op list \<Rightarrow> 'a \<Rightarrow> 'r list \<times> 'a" where
  "run_spec spec [] a = ([], a)"
| "run_spec spec (op # ops) a = (let (r, a1) = spec op a; (rs, a2) = run_spec spec ops a1 in (r # rs, a2))"

locale step_refinement =
  fixes step :: "'op \<Rightarrow> 's \<Rightarrow> ('r \<times> 's) option"
    and spec :: "'op \<Rightarrow> 'a \<Rightarrow> 'r \<times> 'a"
    and abst :: "'s \<Rightarrow> 'a"
    and inv :: "'s \<Rightarrow> bool"
    and ok :: "'op \<Rightarrow> bool"
  assumes step_law: "inv s \<Longrightarrow> ok op \<Longrightarrow> \<exists>s'. step op s = Some (fst (spec op (abst s)), s') \<and> inv s' \<and> abst s' = snd (spec op (abst s))"
begin

lemma run_refines:
  "inv s \<Longrightarrow> \<forall>op \<in> set ops. ok op \<Longrightarrow>
   \<exists>s'. run_steps step ops s = Some (fst (run_spec spec ops (abst s)), s') \<and> inv s' \<and> abst s' = snd (run_spec spec ops (abst s))"
proof (induction ops arbitrary: s)
  case (Cons op ops)
  from step_law [of s op] Cons.prems obtain s1 where
    s1: "step op s = Some (fst (spec op (abst s)), s1)" "inv s1" "abst s1 = snd (spec op (abst s))" by auto
  from Cons.IH [OF s1(2)] Cons.prems(2) show ?case by (auto simp: s1 split_beta Let_def)
qed simp

lemma run_total: "inv s \<Longrightarrow> \<forall>op \<in> set ops. ok op \<Longrightarrow> run_steps step ops s \<noteq> None"
  using run_refines by fastforce

end

end
