(* ===== verification/Matching_Props.thy ===== *)
theory Matching_Props
  imports Matching_Spec Refinement
begin

text \<open>
  The properties of the matching engine. The refinement of the engine's operations becomes one of its runs through the
  locale \<open>step_refinement\<close>; the other properties are read off the specification.
\<close>

section \<open>Runs\<close>

datatype engine_op = Submit OrderRequest | Cancel string | Poll_Event

fun engine_step :: "engine_op \<Rightarrow> OrderbookMatchingEngine \<Rightarrow> (MatchResult option \<times> OrderbookMatchingEngine) option" where
  "engine_step (Submit request) e = map_option (map_prod Some id) (me_submit request e)"
| "engine_step (Cancel order_id) e = map_option (map_prod Some id) (me_cancel order_id e)"
| "engine_step Poll_Event e = Some (None, snd (poll_event e))"

fun exchange_step :: "engine_op \<Rightarrow> exchange \<Rightarrow> MatchResult option \<times> exchange" where
  "exchange_step (Submit request) bk = map_prod Some id (book_submit request bk)"
| "exchange_step (Cancel order_id) bk = map_prod Some id (book_cancel order_id bk)"
| "exchange_step Poll_Event bk = (None, bk)"

fun engine_op_ok :: "engine_op \<Rightarrow> bool" where
  "engine_op_ok (Submit request) = request_ok request"
| "engine_op_ok _ = True"

lemma poll_event_frame [simp]:
  "me_order_pool (snd (poll_event e)) = me_order_pool e" "me_bids (snd (poll_event e)) = me_bids e" "me_asks (snd (poll_event e)) = me_asks e"
  "me_live_orders (snd (poll_event e)) = me_live_orders e" "me_depth_book (snd (poll_event e)) = me_depth_book e"
  by (simp_all add: poll_event_def split_beta Let_def)

lemma poll_event_refines:
  assumes "engine_inv e"
  shows "engine_inv (snd (poll_event e)) \<and> abs_engine (snd (poll_event e)) = abs_engine e"
proof -
  have books: "book_of s (snd (poll_event e)) = book_of s e" for s by (rule book_of_cong) simp_all
  have "rq_wf (me_event_queue (snd (poll_event e)))"
    using assms rq_pop_refines [of "me_event_queue e"] by (simp add: poll_event_def split_beta Let_def engine_inv_def)
  then show ?thesis using assms books by (simp add: engine_inv_def depth_ok_def abs_engine_def orders_def)
qed

interpretation me: step_refinement engine_step exchange_step abs_engine engine_inv engine_op_ok
proof
  fix e op assume inv: "engine_inv e" and ok: "engine_op_ok op"
  show "\<exists>e'. engine_step op e = Some (fst (exchange_step op (abs_engine e)), e') \<and> engine_inv e' \<and>
    abs_engine e' = snd (exchange_step op (abs_engine e))"
    using submit_refines [OF inv] cancel_refines [OF inv] poll_event_refines [OF inv] ok by (cases op) fastforce+
qed

lemma new_engine_inv:
  assumes new: "new_OrderbookMatchingEngine sz symbol cap = Inr e" and geom: "unat (max sz 8) * 1024 < 2 ^ 64"
  shows "engine_inv e" "abs_engine e = (\<lambda>_. [])"
proof -
  obtain pool queue where pool: "new_ObjectPool sz 1024 128 = Inr pool" and queue: "new_SpscRingQueue cap = Inr queue"
    and e: "me_order_pool e = pool" "me_event_queue e = queue" "me_bids e = []" "me_asks e = []" "me_live_orders e = []" "me_depth_book e = new_DepthBook symbol"
    using new by (auto simp: new_OrderbookMatchingEngine_def split: sum.splits if_splits)
  have books: "book_of s e = []" for s by (cases s) (simp_all add: e)
  have depth: "depth_at (depth_side_of s) (new_DepthBook symbol) = Map.empty" for s
    by (cases s) (simp_all add: new_DepthBook_def depth_at_def)
  show "engine_inv e"
    using op_inv_new [OF pool] geom rq_wf_new [OF queue]
    by (simp add: engine_inv_def e books side_ok_def live_ok_def uncrossed_def depth_ok_def depth)
  show "abs_engine e = (\<lambda>_. [])" by (simp add: abs_engine_def orders_def books)
qed

section \<open>Facts about the specification\<close>

text \<open>Trades take the makers from the front of the list, each at its own price; only the last maker can be left in part.\<close>

lemma match_list_priority:
  assumes "list_ok s ms" "is_finite r" "match_list beyond taker r ms = (r', trades, ms')"
  shows "length trades \<le> length ms \<and> map tr_maker_order_id trades = map ro_order_id (take (length trades) ms) \<and>
    map tr_price trades = map ro_price (take (length trades) ms) \<and>
    (\<forall>t \<in> set trades. kPriceEpsilon < tr_quantity t \<and> tr_taker_order_id t = taker \<and> \<not> beyond (tr_price t)) \<and>
    (ms' = drop (length trades) ms \<or>
     (\<exists>n x. length trades = Suc n \<and> kPriceEpsilon < x \<and> r' = 0 \<and> ms' = (ms ! n)\<lparr>ro_open_quantity := x\<rparr> # drop (Suc n) ms))"
  using assms
proof (induction ms arbitrary: r r' trades ms')
  case (Cons m ms)
  show ?case
  proof (cases "kPriceEpsilon < r \<and> \<not> beyond (ro_price m)")
    case False
    then show ?thesis using Cons.prems by auto
  next
    case True
    define f where "f = std_min r (ro_open_quantity m)"
    define trade where "trade = \<lparr>tr_maker_order_id = ro_order_id m, tr_taker_order_id = taker, tr_price = ro_price m, tr_quantity = f\<rparr>"
    have m: "is_finite (ro_open_quantity m)" "kPriceEpsilon < ro_open_quantity m" "list_ok s ms"
      using Cons.prems(1) by (auto simp: list_ok_Cons order_ok_def)
    note fill = min_fill [OF Cons.prems(2) m(1) conjunct1 [OF True] m(2), folded f_def]
    show ?thesis
    proof (cases "ro_open_quantity m - f \<le> kPriceEpsilon")
      case filled: True
      obtain r2 trades2 ms2 where rec: "match_list beyond taker (r - f) ms = (r2, trades2, ms2)" by (metis prod_cases3)
      then have "r' = r2" "ms' = ms2" "trades = trade # trades2" using Cons.prems(3) True filled by (auto simp: f_def trade_def Let_def)
      then show ?thesis using Cons.IH [OF m(3) fill(5) rec] True fill(2) by (auto simp: trade_def)
    next
      case partial: False
      then have "r' = r - f" "ms' = m\<lparr>ro_open_quantity := ro_open_quantity m - f\<rparr> # ms" "trades = [trade]"
        using Cons.prems(3) True by (auto simp: f_def trade_def Let_def)
      moreover have "r - f = 0" using fill(9) [OF partial] by blast
      moreover have "kPriceEpsilon < ro_open_quantity m - f" using partial fill(7) eps_pos(2) finite_not_nan double_linear by blast
      ultimately show ?thesis using True fill(2) by (auto simp: trade_def)
    qed
  qed
qed simp

text \<open>When the test before a fill-or-kill order says yes, the matching loop fills it.\<close>

lemma fill_list_fills:
  assumes "list_ok s ms" "is_finite r" "fill_list beyond ms r" "match_list beyond taker r ms = (r', trades, ms')"
  shows "\<not> kPriceEpsilon < r'"
  using assms
proof (induction ms arbitrary: r r' trades ms')
  case Nil
  then show ?case using double_less_le_trans double_less_irrefl by (metis fill_list.simps(1) fst_conv match_list.simps(1))
next
  case (Cons m ms)
  show ?case
  proof (cases "kPriceEpsilon < r \<and> \<not> beyond (ro_price m)")
    case False
    moreover have "\<not> kPriceEpsilon < r" if "r \<le> kPriceEpsilon" using that double_less_le_trans double_less_irrefl by blast
    ultimately show ?thesis using Cons.prems by (auto split: if_splits)
  next
    case True
    define f where "f = std_min r (ro_open_quantity m)"
    have m: "is_finite (ro_open_quantity m)" "kPriceEpsilon < ro_open_quantity m" "list_ok s ms"
      using Cons.prems(1) by (auto simp: list_ok_Cons order_ok_def)
    note fill = min_fill [OF Cons.prems(2) m(1) conjunct1 [OF True] m(2), folded f_def]
    have zero: "\<not> kPriceEpsilon < 0" using eps_pos(1) by (rule double_less_asym)
    show ?thesis
    proof (cases "ro_open_quantity m - f \<le> kPriceEpsilon")
      case filled: True
      obtain r2 trades2 ms2 where rec: "match_list beyond taker (r - f) ms = (r2, trades2, ms2)" by (metis prod_cases3)
      then have r': "r' = r2" using Cons.prems(4) True filled by (auto simp: f_def Let_def)
      show ?thesis
      proof (cases "f = r \<or> r - f \<le> kPriceEpsilon")
        case True
        then have "\<not> kPriceEpsilon < r - f"
          using zero Cons.prems(2) double_less_le_trans double_less_irrefl by (metis double_diff_self)
        then show ?thesis using rec match_list_stop [of "r - f" beyond taker ms] by (simp add: r')
      next
        case False
        then have "f = ro_open_quantity m" by (auto simp: f_def std_min_def)
        then have "fill_list beyond ms (r - f)" using Cons.prems(3) True False by auto
        from Cons.IH [OF m(3) fill(5) this rec] show ?thesis by (simp add: r')
      qed
    next
      case partial: False
      then have "r' = r - f" using Cons.prems(4) True by (auto simp: f_def Let_def)
      then show ?thesis using fill(9) [OF partial] zero by metis
    qed
  qed
qed

lemma book_submit_cases:
  assumes "book_submit request bk = (result, bk')"
  shows "(bk' = bk \<and> \<not> mr_accepted result \<and> mr_final_status result = kRejected \<and> mr_trades result = []) \<or>
    (book_match request bk = (result, bk') \<and> oq_order_id request \<noteq> [] \<and> \<not> oq_quantity request \<le> 0 \<and>
     oq_order_id request \<notin> list_ids (bk kBuy) \<union> list_ids (bk kSell) \<and>
     (oq_type request = kLimit \<and> oq_tif request = kGtx \<longrightarrow> \<not> crosses request (bk (opposite (oq_side request)))) \<and>
     (oq_tif request = kFok \<longrightarrow> fill_list (beyond_limit (opposite (oq_side request)) request) (bk (opposite (oq_side request))) (oq_quantity request)))"
  using assms unfolding book_submit_def Let_def by (auto simp: make_rejected_result_def split: if_splits)

lemma book_match_unfold:
  assumes "book_match request bk = (result, bk')"
  shows "\<exists>r ms. match_list (beyond_limit (opposite (oq_side request)) request) (oq_order_id request) (oq_quantity request) (bk (opposite (oq_side request))) =
      (r, mr_trades result, ms) \<and> mr_remaining_quantity result = r \<and> bk' (opposite (oq_side request)) = ms \<and>
    bk' (oq_side request) = (if oq_type request = kLimit \<and> \<not> quantity_is_zero r \<and> oq_tif request \<noteq> kIoc
      then insert_order (rest_of request r) (bk (oq_side request)) else bk (oq_side request)) \<and>
    mr_final_status result = (if oq_type request = kLimit then limit_status request r else market_status request r) \<and>
    mr_accepted result = (mr_final_status result \<noteq> kRejected)"
  using assms by (auto simp: book_match_def Let_def split: prod.splits)

lemma submitD:
  assumes "engine_inv e" "request_ok request" "me_submit request e = Some (result, e')"
  shows "book_submit request (abs_engine e) = (result, abs_engine e')" "engine_inv e'"
  using submit_refines [OF assms(1,2)] assms(3) by (auto simp: prod_eq_iff)

section \<open>Examples\<close>

definition example_order :: "string \<Rightarrow> Side \<Rightarrow> TimeInForce \<Rightarrow> int \<Rightarrow> int \<Rightarrow> OrderRequest" where
  "example_order order_id side tif price quantity = \<lparr>oq_order_id = order_id, oq_side = side, oq_type = kLimit, oq_tif = tif,
     oq_price = dint price, oq_quantity = dint quantity, oq_timestamp = 0\<rparr>"

lemma example_order_simps [simp]:
  "oq_order_id (example_order i s tif p q) = i" "oq_side (example_order i s tif p q) = s" "oq_type (example_order i s tif p q) = kLimit"
  "oq_tif (example_order i s tif p q) = tif" "oq_price (example_order i s tif p q) = dint p" "oq_quantity (example_order i s tif p q) = dint q"
  by (simp_all add: example_order_def)

lemma example_order_ok [simp]: "exact p \<Longrightarrow> exact q \<Longrightarrow> request_ok (example_order i s tif p q)"
  by (simp add: request_ok_def)

lemma eps_dint [simp]:
  "exact n \<Longrightarrow> kPriceEpsilon < dint n \<longleftrightarrow> 0 < n" "exact n \<Longrightarrow> dint n \<le> kPriceEpsilon \<longleftrightarrow> n \<le> 0"
proof -
  have 1: "kPriceEpsilon < dint 1" unfolding kPriceEpsilon_def dint_def by code_simp
  have 0: "dint 0 < kPriceEpsilon" using eps_pos(1) by simp
  have "exact 1" "exact 0" by simp_all
  show "kPriceEpsilon < dint n \<longleftrightarrow> 0 < n" if "exact n"
  proof (cases "0 < n")
    case True
    then have "dint 1 \<le> dint n" using that by simp
    then show ?thesis using 1 True double_less_le_trans by blast
  next
    case False
    then have "dint n \<le> dint 0" using that by (simp del: dint_0)
    then show ?thesis using 0 False double_le_less_trans double_less_asym by blast
  qed
  then show "dint n \<le> kPriceEpsilon \<longleftrightarrow> n \<le> 0" if "exact n"
    using that double_linear [of "dint n" kPriceEpsilon] eps_pos(2) finite_not_nan by (metis finite_dint not_less)
qed

lemma eps_zero [simp]: "0 < kPriceEpsilon" "0 \<le> kPriceEpsilon" "\<not> kPriceEpsilon < 0" "\<not> kPriceEpsilon \<le> 0"
  using eps_pos(1) double_less_imp_le double_less_asym double_less_le_trans double_less_irrefl by blast+

lemma zero_dint [simp]: "exact n \<Longrightarrow> 0 \<le> n \<Longrightarrow> quantity_is_zero (dint n) \<longleftrightarrow> n = 0"
  using not_zero_iff [of "dint n"] by (auto simp del: dint_0 simp: dint_0 [symmetric])

text \<open>An engine on which 5 units are offered at 100 by one order and 3 units at 100 by a second.\<close>

lemma example_new: "\<exists>e0. new_OrderbookMatchingEngine 64 ''BTC'' 16 = Inr e0"
proof -
  have "normalize_capacity 16 = Inr 16" by (simp add: normalize_capacity_def bit_ceil_from.simps)
  then show ?thesis
    by (simp add: new_OrderbookMatchingEngine_def new_ObjectPool_def new_FixedBlockPool_def new_SpscRingQueue_def)
qed

lemma example_engine:
  "\<exists>e. engine_inv e \<and> abs_engine e kBuy = [] \<and>
     abs_engine e kSell = map (\<lambda>(i, q). rest_of (example_order i kSell kGtc 100 q) (dint q)) [(''a'', 5), (''b'', 3)]"
proof -
  obtain e0 where e0: "new_OrderbookMatchingEngine 64 ''BTC'' 16 = Inr e0" using example_new by blast
  note init = new_engine_inv [OF e0, simplified]
  let ?ops = "[Submit (example_order ''a'' kSell kGtc 100 5), Submit (example_order ''b'' kSell kGtc 100 3)]"
  have "\<exists>e. engine_inv e \<and> abs_engine e = snd (run_spec exchange_step ?ops (\<lambda>_. []))"
    using me.run_refines [OF init(1), of ?ops] init(2) by auto
  then show ?thesis
    by (rule ex_forward) (simp add: book_submit_def book_match_def Let_def insert_order_def list_ids_def)
qed

section \<open>Properties\<close>

text \<open>C3: The matching engine implements the exchange on two priority lists: from a new engine, every run of submissions
  (with finite prices and quantities), cancellations and event polls completes, returns the results of the specification
  and leaves books that are the lists of the specification.\<close>

theorem engine_refines_exchange:
  assumes "new_OrderbookMatchingEngine sz symbol cap = Inr e0" "unat (max sz 8) * 1024 < 2 ^ 64" "\<forall>op \<in> set ops. engine_op_ok op"
  shows "\<exists>e. run_steps engine_step ops e0 = Some (fst (run_spec exchange_step ops (\<lambda>_. [])), e) \<and>
    abs_engine e = snd (run_spec exchange_step ops (\<lambda>_. []))"
  using me.run_refines [OF new_engine_inv(1) [OF assms(1,2)] assms(3)] new_engine_inv(2) [OF assms(1,2)] by auto

theorem engine_refines_exchange_witness:
  "\<exists>e0 e. new_OrderbookMatchingEngine 64 ''BTC'' 16 = Inr e0 \<and>
    (\<exists>result. run_steps engine_step [Submit (example_order ''a'' kSell kGtc 100 5), Cancel ''a''] e0 = Some (result, e)) \<and> abs_engine e kSell = []"
proof -
  obtain e0 where e0: "new_OrderbookMatchingEngine 64 ''BTC'' 16 = Inr e0" using example_new by blast
  let ?ops = "[Submit (example_order ''a'' kSell kGtc 100 5), Cancel ''a'']"
  have "snd (run_spec exchange_step ?ops (\<lambda>_. [])) kSell = []"
    by (simp add: book_submit_def book_match_def book_cancel_def Let_def insert_order_def list_ids_def)
  with engine_refines_exchange [OF e0, of ?ops] e0 show ?thesis by auto
qed

text \<open>C4: Price-time priority: the trades of a submission fill the orders at the front of the other side's list, in list
  order, each at its own price, with a quantity above the threshold and within the taker's limit; every filled order leaves
  the list, and only the last one may stay with a smaller quantity, when the taker is filled. The lists are in price order.\<close>

theorem price_time_priority:
  assumes "engine_inv e" "request_ok request" "me_submit request e = Some (result, e')"
  shows "let t = opposite (oq_side request); makers = orders t e; n = length (mr_trades result) in
    n \<le> length makers \<and> map tr_maker_order_id (mr_trades result) = map ro_order_id (take n makers) \<and>
    map tr_price (mr_trades result) = map ro_price (take n makers) \<and>
    (\<forall>trade \<in> set (mr_trades result). kPriceEpsilon < tr_quantity trade \<and> \<not> beyond_limit t request (tr_price trade)) \<and>
    (orders t e' = drop n makers \<or>
     (\<exists>k x. n = Suc k \<and> kPriceEpsilon < x \<and> mr_remaining_quantity result = 0 \<and>
        orders t e' = (makers ! k)\<lparr>ro_open_quantity := x\<rparr> # drop n makers)) \<and>
    (\<forall>s. sorted_wrt (\<lambda>m m'. \<not> price_lt s (ro_price m') (ro_price m)) (orders s e'))"
proof -
  let ?t = "opposite (oq_side request)"
  note D = submitD [OF assms]
  have bk: "abs_engine e s = orders s e" "abs_engine e' s = orders s e'" for s by (simp_all add: abs_engine_def)
  have ok: "is_finite (oq_quantity request)" using assms(2) by (simp add: request_ok_def)
  have sorted: "sorted_wrt (\<lambda>m m'. \<not> price_lt s (ro_price m') (ro_price m)) (orders s e')" for s
    using orders_ok [OF D(2)] by (simp add: list_ok_def)
  consider (reject) "abs_engine e' = abs_engine e" "mr_trades result = []" | (m) "book_match request (abs_engine e) = (result, abs_engine e')"
    using book_submit_cases [OF D(1)] by blast
  then show ?thesis
  proof cases
    case reject
    then show ?thesis using bk sorted by (simp add: Let_def)
  next
    case m
    then obtain r ms where run: "match_list (beyond_limit ?t request) (oq_order_id request) (oq_quantity request) (orders ?t e) = (r, mr_trades result, ms)"
      "mr_remaining_quantity result = r" "orders ?t e' = ms" using book_match_unfold [OF m] bk by auto
    from match_list_priority [OF orders_ok [OF assms(1)] ok run(1)] show ?thesis
      using run(2,3) sorted unfolding Let_def by auto
  qed
qed

theorem price_time_priority_witness:
  "\<exists>e result e'. me_submit (example_order ''t'' kBuy kIoc 101 6) e = Some (result, e') \<and>
    map tr_maker_order_id (mr_trades result) = [''a'', ''b'']"
proof -
  let ?r = "example_order ''t'' kBuy kIoc 101 6"
  obtain e where e: "engine_inv e" "abs_engine e kBuy = []"
    "abs_engine e kSell = map (\<lambda>(i, q). rest_of (example_order i kSell kGtc 100 q) (dint q)) [(''a'', 5), (''b'', 3)]"
    using example_engine by blast
  then have sell: "orders kSell e = map (\<lambda>(i, q). rest_of (example_order i kSell kGtc 100 q) (dint q)) [(''a'', 5), (''b'', 3)]"
    by (simp add: abs_engine_def)
  obtain result e' where run: "me_submit ?r e = Some (result, e')" "result = fst (book_submit ?r (abs_engine e))"
    using submit_refines [OF e(1), of ?r] by auto
  have "length (mr_trades result) = 2" unfolding run(2)
    by (simp add: book_submit_def book_match_def Let_def list_ids_def e std_min_def ask_beyond_def)
  with price_time_priority [OF e(1) _ run(1)] have "map tr_maker_order_id (mr_trades result) = [''a'', ''b'']"
    by (simp add: sell Let_def)
  with run(1) show ?thesis by (intro exI conjI)
qed

text \<open>C7: A fill-or-kill order is all or nothing: it is rejected without a trade and without a change of the books, or
  it is filled up to the threshold and leaves nothing on the book.\<close>

theorem fok_all_or_nothing:
  assumes "engine_inv e" "request_ok request" "me_submit request e = Some (result, e')" "oq_tif request = kFok"
  shows "(\<not> mr_accepted result \<and> mr_trades result = [] \<and> abs_engine e' = abs_engine e) \<or>
    (mr_accepted result \<and> quantity_is_zero (mr_remaining_quantity result) \<and> orders (oq_side request) e' = orders (oq_side request) e)"
proof -
  let ?t = "opposite (oq_side request)"
  note D = submitD [OF assms(1-3)]
  have bk: "abs_engine e s = orders s e" "abs_engine e' s = orders s e'" for s by (simp_all add: abs_engine_def)
  have q: "is_finite (oq_quantity request)" using assms(2) by (simp add: request_ok_def)
  from book_submit_cases [OF D(1)] show ?thesis
  proof
    assume m: "book_match request (abs_engine e) = (result, abs_engine e') \<and> oq_order_id request \<noteq> [] \<and> \<not> oq_quantity request \<le> 0 \<and>
      oq_order_id request \<notin> list_ids (abs_engine e kBuy) \<union> list_ids (abs_engine e kSell) \<and>
      (oq_type request = kLimit \<and> oq_tif request = kGtx \<longrightarrow> \<not> crosses request (abs_engine e ?t)) \<and>
      (oq_tif request = kFok \<longrightarrow> fill_list (beyond_limit ?t request) (abs_engine e ?t) (oq_quantity request))"
    then obtain r ms where run: "match_list (beyond_limit ?t request) (oq_order_id request) (oq_quantity request) (orders ?t e) = (r, mr_trades result, ms)"
      and res: "mr_remaining_quantity result = r" "mr_accepted result = ((if oq_type request = kLimit then limit_status request r else market_status request r) \<noteq> kRejected)"
      "orders (oq_side request) e' = (if oq_type request = kLimit \<and> \<not> quantity_is_zero r \<and> oq_tif request \<noteq> kIoc
        then insert_order (rest_of request r) (orders (oq_side request) e) else orders (oq_side request) e)"
      using book_match_unfold [of request "abs_engine e" result "abs_engine e'"] bk by auto
    have "0 \<le> oq_quantity request" using m q double_linear double_less_imp_le finite_not_nan by (metis not_nan_zero)
    from match_list_remaining [OF orders_ok [OF assms(1)] q this run] have r: "is_finite r" "0 \<le> r" by auto
    have "\<not> kPriceEpsilon < r" using fill_list_fills [OF orders_ok [OF assms(1)] q _ run] m assms(4) bk by simp
    then have "quantity_is_zero r" using not_zero_iff r by blast
    then show ?thesis using res by (simp add: market_status_def Let_def)
  qed blast
qed

theorem fok_all_or_nothing_witness:
  "\<exists>e result e'. me_submit (example_order ''t'' kBuy kFok 100 9) e = Some (result, e') \<and> mr_trades result = [] \<and> abs_engine e' = abs_engine e"
proof -
  let ?r = "example_order ''t'' kBuy kFok 100 9"
  obtain e where e: "engine_inv e" "abs_engine e kBuy = []"
    "abs_engine e kSell = map (\<lambda>(i, q). rest_of (example_order i kSell kGtc 100 q) (dint q)) [(''a'', 5), (''b'', 3)]"
    using example_engine by blast
  obtain result e' where run: "me_submit ?r e = Some (result, e')" "result = fst (book_submit ?r (abs_engine e))"
    using submit_refines [OF e(1), of ?r] by auto
  have "\<not> mr_accepted result" unfolding run(2)
    by (simp add: book_submit_def make_rejected_result_def Let_def list_ids_def e ask_beyond_def)
  with fok_all_or_nothing [OF e(1) _ run(1)] run(1) show ?thesis by auto
qed

text \<open>C11: Only a good-till-cancelled or post-only limit order can rest: a market order, an immediate-or-cancel order and
  a fill-or-kill order leave the orders of their own side as they are, and their id is not live afterwards unless another
  order already had it.\<close>

theorem taker_never_rests:
  assumes "engine_inv e" "request_ok request" "me_submit request e = Some (result, e')"
    and "oq_type request = kMarket \<or> oq_tif request \<in> {kIoc, kFok}"
  shows "orders (oq_side request) e' = orders (oq_side request) e \<and>
    (map_of (me_live_orders e) (oq_order_id request) = None \<longrightarrow> map_of (me_live_orders e') (oq_order_id request) = None)"
proof -
  let ?s = "oq_side request"
  note D = submitD [OF assms(1-3)]
  have bk: "abs_engine e s = orders s e" "abs_engine e' s = orders s e'" for s by (simp_all add: abs_engine_def)
  have q: "is_finite (oq_quantity request)" using assms(2) by (simp add: request_ok_def)
  consider (same) "abs_engine e' = abs_engine e" | (m) "book_match request (abs_engine e) = (result, abs_engine e')"
    "oq_tif request = kFok \<Longrightarrow> fill_list (beyond_limit (opposite ?s) request) (orders (opposite ?s) e) (oq_quantity request)" "\<not> oq_quantity request \<le> 0"
    using book_submit_cases [OF D(1)] bk by auto
  then have "orders ?s e' = orders ?s e \<and> list_ids (orders (opposite ?s) e') \<subseteq> list_ids (orders (opposite ?s) e)"
  proof cases
    case m
    have q0: "0 \<le> oq_quantity request" using m(3) q double_linear double_less_imp_le finite_not_nan by (metis not_nan_zero)
    obtain r ms where run: "match_list (beyond_limit (opposite ?s) request) (oq_order_id request) (oq_quantity request) (orders (opposite ?s) e) = (r, mr_trades result, ms)"
      and res: "orders (opposite ?s) e' = ms" "orders ?s e' = (if oq_type request = kLimit \<and> \<not> quantity_is_zero r \<and> oq_tif request \<noteq> kIoc
        then insert_order (rest_of request r) (orders ?s e) else orders ?s e)"
      using book_match_unfold [OF m(1)] bk by auto
    note rem = match_list_remaining [OF orders_ok [OF assms(1)] q q0 run]
    have "quantity_is_zero r" if "oq_tif request = kFok"
      using fill_list_fills [OF orders_ok [OF assms(1)] q m(2) [OF that] run] rem not_zero_iff by blast
    then show ?thesis using res rem assms(4) by auto
  qed (metis bk order_refl)
  then show ?thesis using live_ids [OF assms(1), of ?s] live_ids [OF D(2), of ?s] by (auto simp: map_of_eq_None_iff)
qed

theorem taker_never_rests_witness:
  "\<exists>e result e'. me_submit (example_order ''t'' kBuy kIoc 100 9) e = Some (result, e') \<and> orders kBuy e' = []"
proof -
  let ?r = "example_order ''t'' kBuy kIoc 100 9"
  obtain e where e: "engine_inv e" "abs_engine e kBuy = []" using example_engine by blast
  obtain result e' where run: "me_submit ?r e = Some (result, e')" using submit_refines [OF e(1), of ?r] by auto
  from taker_never_rests [OF e(1) _ run] run e(2) show ?thesis by (auto simp: abs_engine_def)
qed

end
