(* ===== verification/Matching_Safety.thy ===== *)
theory Matching_Safety
  imports Matching_Props
begin

text \<open>
  More properties of the matching engine: what a client can observe of the books after any run, cancellation, post-only
  orders, termination of the matching loops, conservation of quantity, and the behaviours that are defects.
\<close>

section \<open>Observing the books\<close>

definition order_view :: "RestingOrder \<Rightarrow> RestingOrderView" where
  "order_view m = \<lparr>rv_order_id = ro_order_id m, rv_side = ro_side m, rv_price = ro_price m, rv_open_quantity = ro_open_quantity m\<rparr>"

lemma those_map: "\<lbrakk>\<And>x. x \<in> set xs \<Longrightarrow> f x = Some (g x)\<rbrakk> \<Longrightarrow> those (map f xs) = Some (map g xs)"
  by (induction xs) auto

lemma resting_orders_views:
  assumes inv: "engine_inv e"
  shows "\<exists>views. resting_orders e = Some views \<and> sorted (map rv_order_id views) \<and> distinct (map rv_order_id views) \<and>
    length views = live_order_count e \<and> set views = order_view ` (set (orders kBuy e) \<union> set (orders kSell e))"
proof -
  let ?g = "\<lambda>(i :: string, b). order_view (the (objects e b))"
  have d: "distinct (map fst (me_live_orders e))" using inv unfolding engine_inv_def live_ok_def by blast
  have mem: "\<And>j c. (j, c) \<in> set (me_live_orders e) \<longleftrightarrow> (\<exists>x. objects e c = Some x \<and> ro_order_id x = j)"
    using inv unfolding engine_inv_def live_ok_def by blast
  have "map_option (\<lambda>order. \<lparr>rv_order_id = i, rv_side = ro_side order, rv_price = ro_price order, rv_open_quantity = ro_open_quantity order\<rparr>) (deref e b) = Some (?g (i, b))"
    if "(i, b) \<in> set (me_live_orders e)" for i b using that mem by (auto simp: deref_def order_view_def)
  then have run: "resting_orders e = Some (sort_key rv_order_id (map ?g (me_live_orders e)))"
    unfolding resting_orders_def by (subst those_map [where g = ?g]) auto
  have ids: "map rv_order_id (map ?g (me_live_orders e)) = map fst (me_live_orders e)"
    using mem by (fastforce simp: order_view_def)
  have "set (map ?g (me_live_orders e)) = (\<lambda>b. order_view (the (objects e b))) ` dom (objects e)"
    using mem by (force simp: image_iff)
  also have "\<dots> = order_view ` (set (orders kBuy e) \<union> set (orders kSell e))"
  proof -
    have "dom (objects e) = set (ptrs (book_of kBuy e)) \<union> set (ptrs (book_of kSell e))" using inv by (simp add: engine_inv_def)
    then show ?thesis by (simp add: orders_def image_Un image_image)
  qed
  finally have "set (map ?g (me_live_orders e)) = \<dots>" .
  moreover have "distinct (map rv_order_id (sort_key rv_order_id (map ?g (me_live_orders e))))"
    using d unfolding ids [symmetric] by (simp only: distinct_map distinct_sort set_sort)
  ultimately show ?thesis using run by (intro exI [of _ "sort_key rv_order_id (map ?g (me_live_orders e))"]) (simp add: live_order_count_def)
qed

text \<open>C5: After any run from a new engine, \<open>resting_orders\<close> lists every live order once, sorted by id; every resting bid
  is below every resting ask; every open quantity is above the threshold; and the depth book shows a level at exactly the
  prices at which orders rest.\<close>

theorem resting_book_sound:
  assumes "new_OrderbookMatchingEngine sz symbol cap = Inr e0" "unat (max sz 8) * 1024 < 2 ^ 64" "\<forall>op \<in> set ops. engine_op_ok op"
    and "run_steps engine_step ops e0 = Some (results, e)"
  shows "\<exists>views. resting_orders e = Some views \<and> sorted (map rv_order_id views) \<and> distinct (map rv_order_id views) \<and>
    length views = live_order_count e \<and> (\<forall>v \<in> set views. kPriceEpsilon < rv_open_quantity v) \<and>
    (\<forall>v \<in> set views. \<forall>w \<in> set views. rv_side v = kBuy \<and> rv_side w = kSell \<longrightarrow> rv_price v < rv_price w) \<and>
    (\<forall>s. dom (depth_at (depth_side_of s) (me_depth_book e)) = rv_price ` {v \<in> set views. rv_side v = s})"
proof -
  have inv: "engine_inv e" using me.run_refines [OF new_engine_inv(1) [OF assms(1,2)] assms(3)] assms(4) by auto
  obtain views where v: "resting_orders e = Some views" "sorted (map rv_order_id views)" "distinct (map rv_order_id views)"
    "length views = live_order_count e" "set views = order_view ` (set (orders kBuy e) \<union> set (orders kSell e))"
    using resting_orders_views [OF inv] by blast
  have side: "{w \<in> set views. rv_side w = s} = order_view ` set (orders s e)" for s
    using list_okD(1) [OF orders_ok [OF inv]] unfolding v(5) by (cases s) (force simp: order_view_def)+
  have prices: "rv_price ` {w \<in> set views. rv_side w = s} = fst ` set (book_of s e)" for s
    unfolding side orders_prices [OF inv, symmetric] by (simp add: image_image order_view_def)
  have "kPriceEpsilon < rv_open_quantity w" if "w \<in> set views" for w
    using that list_okD(3) [OF orders_ok [OF inv]] unfolding v(5) by (auto simp: order_view_def)
  moreover have "rv_price a < rv_price b" if "a \<in> set views" "b \<in> set views" "rv_side a = kBuy" "rv_side b = kSell" for a b
  proof -
    have "rv_price a \<in> fst ` set (book_of kBuy e)" "rv_price b \<in> fst ` set (book_of kSell e)"
      using that unfolding prices [symmetric] by blast+
    moreover have "uncrossed (me_bids e) (me_asks e)" using inv by (simp add: engine_inv_def)
    ultimately show ?thesis unfolding uncrossed_def book_of.simps by blast
  qed
  moreover have "dom (depth_at (depth_side_of s) (me_depth_book e)) = rv_price ` {v \<in> set views. rv_side v = s}" for s
    unfolding prices using inv by (simp add: engine_inv_def depth_ok_def)
  ultimately show ?thesis using v by (intro exI [of _ views]) blast
qed

theorem resting_book_sound_witness:
  "\<exists>e0 results e. new_OrderbookMatchingEngine 64 ''BTC'' 16 = Inr e0 \<and>
    run_steps engine_step [Submit (example_order ''a'' kSell kGtc 100 5)] e0 = Some (results, e) \<and>
    (\<exists>views. resting_orders e = Some views \<and> length views = live_order_count e)"
proof -
  obtain e0 where e0: "new_OrderbookMatchingEngine 64 ''BTC'' 16 = Inr e0" using example_new by blast
  let ?ops = "[Submit (example_order ''a'' kSell kGtc 100 5)]"
  obtain results e where "run_steps engine_step ?ops e0 = Some (results, e)"
    using me.run_total [OF new_engine_inv(1) [OF e0], of ?ops] by auto
  with resting_book_sound [OF e0 _ _ this] e0 show ?thesis by fastforce
qed

section \<open>Cancellation\<close>

lemma find_SomeD: "find P xs = Some x \<Longrightarrow> x \<in> set xs \<and> P x"
  by (induction xs) (auto split: if_splits)

text \<open>C36: Cancelling a live order removes exactly that order, keeps all others in their places, and reports its open
  quantity; afterwards its id is free. Cancelling an unknown id is refused and changes nothing.\<close>

theorem cancel_removes_order:
  assumes "engine_inv e"
  shows "\<exists>result e'. me_cancel order_id e = Some (result, e') \<and> engine_inv e' \<and>
    (if map_of (me_live_orders e) order_id = None
     then \<not> mr_accepted result \<and> mr_reject_reason result = kOrderNotFound \<and> e' = e
     else mr_accepted result \<and> mr_final_status result = kCancelled \<and> map_of (me_live_orders e') order_id = None \<and>
       (\<exists>s. \<exists>m \<in> set (orders s e). ro_order_id m = order_id \<and> mr_remaining_quantity result = ro_open_quantity m) \<and>
       (\<forall>s. orders s e' = filter (\<lambda>m. ro_order_id m \<noteq> order_id) (orders s e)))"
proof (cases "map_of (me_live_orders e) order_id = None")
  case True
  then show ?thesis using assms by (simp add: me_cancel_def make_rejected_result_def)
next
  case False
  obtain e' where run: "me_cancel order_id e = Some (fst (book_cancel order_id (abs_engine e)), e')" and inv: "engine_inv e'"
    and abs: "abs_engine e' = snd (book_cancel order_id (abs_engine e))" using cancel_refines [OF assms] by blast
  have "order_id \<in> list_ids (orders kBuy e @ orders kSell e)"
    using live_ids [OF assms, of kBuy] False by (auto simp: map_of_eq_None_iff list_ids_def)
  then obtain m where m: "find (\<lambda>m. ro_order_id m = order_id) (orders kBuy e @ orders kSell e) = Some m"
    by (cases "find (\<lambda>m. ro_order_id m = order_id) (orders kBuy e @ orders kSell e)") (auto simp: find_None_iff list_ids_def)
  then have mem: "m \<in> set (orders kBuy e @ orders kSell e)" "ro_order_id m = order_id" using find_SomeD [OF m] by simp_all
  have orders: "orders s e' = filter (\<lambda>m. ro_order_id m \<noteq> order_id) (orders s e)" for s
    using abs m by (auto simp: book_cancel_def abs_engine_def dest: fun_cong [of _ _ s])
  then have "map_of (me_live_orders e') order_id = None"
    using live_ids [OF inv, of kBuy] by (auto simp: map_of_eq_None_iff list_ids_def)
  then show ?thesis using run inv m mem orders False by (auto simp: book_cancel_def abs_engine_def)
qed

theorem cancel_removes_order_witness:
  "\<exists>e result e'. me_cancel ''a'' e = Some (result, e') \<and> mr_accepted result \<and> map ro_order_id (orders kSell e') = [''b'']"
proof -
  obtain e where e: "engine_inv e" "orders kSell e = map (\<lambda>(i, q). rest_of (example_order i kSell kGtc 100 q) (dint q)) [(''a'', 5), (''b'', 3)]"
    using example_engine by (auto simp: abs_engine_def)
  then have "map_of (me_live_orders e) ''a'' \<noteq> None" using live_ids [OF e(1), of kSell] by (simp add: map_of_eq_None_iff)
  with cancel_removes_order [OF e(1), of "''a''"] e(2) show ?thesis by fastforce
qed

section \<open>Post-only orders\<close>

lemma le_add_val: "\<lbrakk>is_finite a; is_finite b; is_finite c; val c \<le> val a + val b\<rbrakk> \<Longrightarrow> c \<le> a + b"
  by transfer (case_tac a; case_tac b; case_tac c; simp add: fp_round_ge)

lemma exact_gap:
  assumes "is_finite a" "is_finite b" "is_finite (b - a)" "val (b - a) = val b - val a" "\<not> b \<le> a + kPriceEpsilon"
  shows "kPriceEpsilon < b - a"
proof -
  have "\<not> val b \<le> val a + val kPriceEpsilon" using le_add_val [OF assms(1) eps_pos(2) assms(2)] assms(5) by blast
  then show ?thesis using assms eps_pos(2) by (simp add: less_iff_val)
qed

text \<open>A post-only order never takes liquidity: when the difference between its price and the best price of the
  other side is exact in floating point (as it is for prices within a factor of two of each other, or whole prices), the
  order either is rejected or rests without a trade.\<close>

theorem post_only_never_takes:
  assumes "engine_inv e" "request_ok request" "me_submit request e = Some (result, e')" "oq_type request = kLimit" "oq_tif request = kGtx"
    and "\<forall>m ms. orders (opposite (oq_side request)) e = m # ms \<longrightarrow>
      (let (hi, lo) = if oq_side request = kBuy then (ro_price m, oq_price request) else (oq_price request, ro_price m)
       in is_finite (hi - lo) \<and> val (hi - lo) = val hi - val lo)"
  shows "mr_trades result = []"
proof -
  let ?t = "opposite (oq_side request)"
  have bk: "abs_engine e s = orders s e" for s by (simp add: abs_engine_def)
  consider "mr_trades result = []" | (m) "book_match request (abs_engine e) = (result, abs_engine e')" "\<not> crosses request (orders ?t e)"
    using book_submit_cases [OF submitD(1) [OF assms(1-3)]] assms(4,5) bk by auto
  then show ?thesis
  proof cases
    case m
    then obtain r ms' where run: "match_list (beyond_limit ?t request) (oq_order_id request) (oq_quantity request) (orders ?t e) = (r, mr_trades result, ms')"
      using book_match_unfold [OF m(1)] bk by auto
    show ?thesis
    proof (cases "orders ?t e")
      case (Cons m0 ms)
      have fin: "is_finite (ro_price m0)" "is_finite (oq_price request)"
        using list_okD(4) [OF orders_ok [OF assms(1)], of m0 ?t] Cons assms(2) by (auto simp: request_ok_def)
      have "beyond_limit ?t request (ro_price m0)"
        using Cons fin m(2) assms(4,6) exact_gap [of "oq_price request" "ro_price m0"] exact_gap [of "ro_price m0" "oq_price request"]
        by (cases "oq_side request") (auto simp: crosses_def ask_beyond_def bid_beyond_def)
      then show ?thesis using run Cons by simp
    qed (use run in simp)
  qed
qed

theorem post_only_never_takes_witness:
  "\<exists>e result e'. me_submit (example_order ''t'' kBuy kGtx 99 9) e = Some (result, e') \<and> mr_accepted result \<and> mr_trades result = []"
proof -
  let ?r = "example_order ''t'' kBuy kGtx 99 9"
  obtain e where e: "engine_inv e" "abs_engine e kBuy = []"
    "abs_engine e kSell = map (\<lambda>(i, q). rest_of (example_order i kSell kGtc 100 q) (dint q)) [(''a'', 5), (''b'', 3)]"
    using example_engine by blast
  obtain result e' where run: "me_submit ?r e = Some (result, e')" "result = fst (book_submit ?r (abs_engine e))"
    using submit_refines [OF e(1), of ?r] by auto
  have "dint 99 + kPriceEpsilon < dint 100" unfolding kPriceEpsilon_def dint_def by code_simp
  then have "\<not> dint 100 \<le> dint 99 + kPriceEpsilon" using double_less_le_trans double_less_irrefl by blast
  then have "mr_accepted result" unfolding run(2)
    by (simp add: book_submit_def book_match_def Let_def list_ids_def e crosses_def ask_beyond_def)
  moreover have "mr_trades result = []"
    using e(3) by (intro post_only_never_takes [OF e(1) _ run(1)]) (auto simp: abs_engine_def)
  ultimately show ?thesis using run(1) by blast
qed

section \<open>Termination and conservation\<close>

text \<open>C6: The matching loops end: started in a consistent engine with a finite quantity, \<open>match_against_asks\<close> and
  \<open>match_against_bids\<close> return, after at most as many trades as orders rest on the side, in a consistent engine, and what
  remains of the quantity lies between zero and what there was.\<close>

theorem matching_terminates:
  assumes "engine_inv e" "is_finite remaining" "0 \<le> remaining"
  shows "(\<exists>r trades e'. match_against_asks request (remaining, result, e) = Some (r, result\<lparr>mr_trades := mr_trades result @ trades\<rparr>, e') \<and>
      engine_inv e' \<and> length trades \<le> length (orders kSell e) \<and> 0 \<le> r \<and> r \<le> remaining) \<and>
    (\<exists>r trades e'. match_against_bids request (remaining, result, e) = Some (r, result\<lparr>mr_trades := mr_trades result @ trades\<rparr>, e') \<and>
      engine_inv e' \<and> length trades \<le> length (orders kBuy e) \<and> 0 \<le> r \<and> r \<le> remaining)"
proof -
  have "\<exists>r trades e'. match_side s request (remaining, result, e) = Some (r, result\<lparr>mr_trades := mr_trades result @ trades\<rparr>, e') \<and>
      engine_inv e' \<and> length trades \<le> length (orders s e) \<and> 0 \<le> r \<and> r \<le> remaining" for s
  proof -
    obtain r trades ms where run: "match_list (beyond_limit s request) (oq_order_id request) remaining (orders s e) = (r, trades, ms)"
      by (metis prod_cases3)
    show ?thesis using match_side_refines [OF assms(1,2) run, of result] match_list_remaining [OF orders_ok [OF assms(1)] assms(2,3) run]
      match_list_priority [OF orders_ok [OF assms(1)] assms(2) run] by blast
  qed
  from this [of kSell] this [of kBuy] show ?thesis by simp
qed

theorem matching_terminates_witness:
  "\<exists>e r result e'. match_against_asks (example_order ''t'' kBuy kGtc 100 6) (dint 6, make_accepted_result (dint 6), e) = Some (r, result, e') \<and>
    engine_inv e' \<and> orders kSell e \<noteq> []"
proof -
  obtain e where e: "engine_inv e" "orders kSell e = map (\<lambda>(i, q). rest_of (example_order i kSell kGtc 100 q) (dint q)) [(''a'', 5), (''b'', 3)]"
    using example_engine by (auto simp: abs_engine_def)
  from matching_terminates [OF e(1), of "dint 6" "example_order ''t'' kBuy kGtc 100 6" "make_accepted_result (dint 6)"] e(2)
  show ?thesis by fastforce
qed

text \<open>Orders with whole quantities.\<close>

definition whole_list :: "RestingOrder list \<Rightarrow> bool" where
  "whole_list ms \<longleftrightarrow> (\<forall>m \<in> set ms. \<exists>n. exact n \<and> ro_open_quantity m = dint n)"

lemma exact_between: "exact n \<Longrightarrow> 0 \<le> k \<Longrightarrow> k \<le> n \<Longrightarrow> exact k"
  by (simp add: exact_def)

lemma match_list_conserves:
  assumes "list_ok s ms" "whole_list ms" "exact a" "0 \<le> a" "match_list beyond taker (dint a) ms = (r, trades, ms')"
  shows "(\<Sum>t \<leftarrow> trades. val (tr_quantity t)) + val r = of_int a \<and>
    (\<Sum>m \<leftarrow> ms'. val (ro_open_quantity m)) + (\<Sum>t \<leftarrow> trades. val (tr_quantity t)) = (\<Sum>m \<leftarrow> ms. val (ro_open_quantity m))"
  using assms
proof (induction ms arbitrary: a r trades ms')
  case (Cons m ms)
  obtain n where n: "exact n" "ro_open_quantity m = dint n" using Cons.prems(2) by (auto simp: whole_list_def)
  have "kPriceEpsilon < dint n" using Cons.prems(1) n by (simp add: list_ok_Cons order_ok_def)
  then have pos: "0 < n" using n(1) by simp
  show ?case
  proof (cases "0 < a \<and> \<not> beyond (ro_price m)")
    case False
    then show ?thesis using Cons.prems by auto
  next
    case True
    have f: "std_min (dint a) (ro_open_quantity m) = dint (min a n)"
      using n Cons.prems(3) by (simp add: std_min_def min_def)
    have ex: "exact (min a n)" "exact (a - min a n)" "exact (n - min a n)"
      using n(1) Cons.prems(3,4) pos exact_between [of a "a - min a n"] exact_between [of n "n - min a n"] by (auto simp: min_def)
    show ?thesis
    proof (cases "n \<le> a")
      case filled: True
      obtain r2 trades2 ms2 where rec: "match_list beyond taker (dint (a - n)) ms = (r2, trades2, ms2)" by (metis prod_cases3)
      then have "r = r2" "ms' = ms2" and "\<exists>t0. trades = t0 # trades2 \<and> tr_quantity t0 = dint n"
        using Cons.prems(3,5) True filled n f by (auto simp: Let_def)
      moreover have "list_ok s ms" "whole_list ms" "exact (a - n)" using Cons.prems(1,2) ex(2) filled by (simp_all add: list_ok_Cons whole_list_def)
      moreover from this Cons.IH [OF _ _ _ _ rec] filled
      have "(\<Sum>t \<leftarrow> trades2. val (tr_quantity t)) + val r2 = of_int (a - n)"
        "(\<Sum>m \<leftarrow> ms2. val (ro_open_quantity m)) + (\<Sum>t \<leftarrow> trades2. val (tr_quantity t)) = (\<Sum>m \<leftarrow> ms. val (ro_open_quantity m))" by auto
      ultimately show ?thesis using n by (auto simp: algebra_simps)
    next
      case partial: False
      then have "r = dint 0" "ms' = m\<lparr>ro_open_quantity := dint (n - a)\<rparr> # ms" "map tr_quantity trades = [dint a]"
        using Cons.prems(3,5) True n f ex by (auto simp: Let_def min_def)
      then show ?thesis using n(1,2) Cons.prems(3) ex(3) partial by (auto simp: map_eq_Cons_conv min_def)
    qed
  qed
qed (auto simp: exact_def)

text \<open>C15: On whole quantities nothing is created or lost: the traded quantities and the remaining quantity of a
  submission add up to what was asked for, and the other side's open quantity shrinks by exactly what was traded.\<close>

theorem trades_conserve_quantity:
  assumes "engine_inv e" "request_ok request" "me_submit request e = Some (result, e')"
    and "oq_quantity request = dint a" "exact a" "whole_list (orders (opposite (oq_side request)) e)"
  shows "(\<Sum>t \<leftarrow> mr_trades result. val (tr_quantity t)) + val (mr_remaining_quantity result) = of_int a \<and>
    (\<Sum>m \<leftarrow> orders (opposite (oq_side request)) e'. val (ro_open_quantity m)) + (\<Sum>t \<leftarrow> mr_trades result. val (tr_quantity t)) =
    (\<Sum>m \<leftarrow> orders (opposite (oq_side request)) e. val (ro_open_quantity m))"
proof -
  let ?t = "opposite (oq_side request)"
  note D = submitD [OF assms(1-3)]
  have bk: "abs_engine e s = orders s e" "abs_engine e' s = orders s e'" for s by (simp_all add: abs_engine_def)
  consider (reject) "abs_engine e' = abs_engine e" "mr_trades result = []" "mr_remaining_quantity result = oq_quantity request"
    | (m) "book_match request (abs_engine e) = (result, abs_engine e')" "\<not> oq_quantity request \<le> 0"
    using D(1) unfolding book_submit_def Let_def by (auto simp: make_rejected_result_def split: if_splits)
  then show ?thesis
  proof cases
    case reject
    then show ?thesis using bk assms(4,5) by simp
  next
    case m
    then have "0 \<le> a" using assms(4,5) by simp
    moreover obtain r ms where "match_list (beyond_limit ?t request) (oq_order_id request) (dint a) (orders ?t e) = (r, mr_trades result, ms)"
      "mr_remaining_quantity result = r" "orders ?t e' = ms" using book_match_unfold [OF m(1)] bk assms(4) by auto
    ultimately show ?thesis using match_list_conserves [OF orders_ok [OF assms(1)] assms(6,5)] by simp
  qed
qed

theorem trades_conserve_quantity_witness:
  "\<exists>e result e'. me_submit (example_order ''t'' kBuy kIoc 100 9) e = Some (result, e') \<and>
    (\<Sum>t \<leftarrow> mr_trades result. val (tr_quantity t)) + val (mr_remaining_quantity result) = 9"
proof -
  let ?r = "example_order ''t'' kBuy kIoc 100 9"
  obtain e where e: "engine_inv e" "orders kSell e = map (\<lambda>(i, q). rest_of (example_order i kSell kGtc 100 q) (dint q)) [(''a'', 5), (''b'', 3)]"
    using example_engine by (auto simp: abs_engine_def)
  obtain result e' where run: "me_submit ?r e = Some (result, e')" using submit_refines [OF e(1), of ?r] by auto
  have "whole_list (orders kSell e)" using e(2) by (auto simp: whole_list_def intro: exI [of _ 5] exI [of _ 3])
  with trades_conserve_quantity [OF e(1) _ run, of 9] run show ?thesis by auto
qed

section \<open>Defects\<close>

text \<open>Resting an order sets the depth level of its price to the quantity of that order alone, whatever already rests
  at the price: the published depth is wrong as soon as two orders share a price.\<close>

theorem depth_shows_last_order:
  assumes "engine_inv e" "is_finite (oq_price request)" "0 < x" "map_of (me_live_orders e) (oq_order_id request) = None"
  shows "\<exists>e'. add_resting_order request x e = Some e' \<and>
    depth_at (depth_side_of (oq_side request)) (me_depth_book e') (oq_price request) = Some x"
proof -
  have pool: "op_inv (me_order_pool e)" and wf: "depth_wf (me_depth_book e)" using assms(1) by (simp_all add: engine_inv_def depth_ok_def)
  obtain b pool where b: "op_create 0 (rest_of request x) (me_order_pool e) = Inr (b, pool)" by (rule op_create_fresh [OF pool])
  have "\<not> x \<le> 0" using assms(3) double_less_le_trans double_less_irrefl by blast
  then have "depth_at (depth_side_of (oq_side request)) (snd (db_update (depth_side_of (oq_side request)) (oq_price request) x (me_depth_book e)))
      (oq_price request) = Some x" using depth_at_update [OF wf finite_not_nan [OF assms(2)]] by simp
  then show ?thesis using add_resting_order_side [OF b assms(4)] by simp
qed

theorem depth_shows_last_order_witness:
  "\<exists>e e'. map ro_open_quantity (orders kSell e) = [dint 5, dint 3] \<and>
    add_resting_order (example_order ''c'' kSell kGtc 100 2) (dint 2) e = Some e' \<and>
    depth_at kAsk (me_depth_book e') (dint 100) = Some (dint 2)"
proof -
  obtain e where e: "engine_inv e" "orders kSell e = map (\<lambda>(i, q). rest_of (example_order i kSell kGtc 100 q) (dint q)) [(''a'', 5), (''b'', 3)]"
    "orders kBuy e = []" using example_engine by (auto simp: abs_engine_def)
  then have "map_of (me_live_orders e) ''c'' = None" using live_ids [OF e(1), of kSell] by (simp add: map_of_eq_None_iff)
  with depth_shows_last_order [OF e(1), of "example_order ''c'' kSell kGtc 100 2" "dint 2"] obtain e' where
    "add_resting_order (example_order ''c'' kSell kGtc 100 2) (dint 2) e = Some e' \<and> depth_at kAsk (me_depth_book e') (dint 100) = Some (dint 2)" by auto
  then show ?thesis using e(2) by (intro exI [of _ e] exI [of _ e']) simp
qed

text \<open>A limit order with a quantity of at most the threshold is reported as accepted, but it neither trades nor
  rests: it is lost.\<close>

theorem dust_order_vanishes:
  assumes "engine_inv e" "request_ok request" "oq_type request = kLimit" "oq_tif request = kGtc"
    and "oq_order_id request \<noteq> []" "map_of (me_live_orders e) (oq_order_id request) = None"
    and "0 < oq_quantity request" "oq_quantity request \<le> kPriceEpsilon"
  shows "\<exists>result e'. me_submit request e = Some (result, e') \<and> mr_accepted result \<and> mr_final_status result = kAccepted \<and>
    mr_trades result = [] \<and> (\<forall>s. orders s e' = orders s e)"
proof -
  let ?q = "oq_quantity request" and ?t = "opposite (oq_side request)"
  have bk: "abs_engine e s = orders s e" for s by (simp add: abs_engine_def)
  have "\<not> kPriceEpsilon < ?q" "\<not> ?q \<le> 0"
    using assms(7,8) double_less_le_trans double_less_irrefl by blast+
  moreover have "oq_order_id request \<notin> list_ids (orders kBuy e) \<union> list_ids (orders kSell e)"
    using live_ids [OF assms(1), of kBuy] assms(6) by (simp add: map_of_eq_None_iff)
  moreover have q: "is_finite ?q" using assms(2) by (simp add: request_ok_def)
  moreover have "quantity_is_zero ?q"
    using calculation(1) not_zero_iff [OF q double_less_imp_le [OF assms(7)]] by blast
  ultimately have "book_submit request (abs_engine e) = ((make_accepted_result ?q), (abs_engine e)(?t := orders ?t e, oq_side request := orders (oq_side request) e))"
    using assms(3-5) match_list_stop [of ?q]
    by (simp add: book_submit_def book_match_def Let_def bk limit_status_def double_diff_self make_accepted_result_def)
  moreover have "(abs_engine e)(?t := orders ?t e, oq_side request := orders (oq_side request) e) = abs_engine e"
    by (simp add: bk fun_upd_idem)
  ultimately show ?thesis using submit_refines [OF assms(1,2)] by (auto simp: make_accepted_result_def abs_engine_def dest: fun_cong)
qed

theorem dust_order_vanishes_witness:
  "\<exists>e result e'. me_submit (example_order ''t'' kBuy kGtc 100 1 \<lparr>oq_quantity := kPriceEpsilon\<rparr>) e = Some (result, e') \<and>
    mr_final_status result = kAccepted \<and> orders kBuy e' = []"
proof -
  let ?r = "example_order ''t'' kBuy kGtc 100 1 \<lparr>oq_quantity := kPriceEpsilon\<rparr>"
  obtain e where e: "engine_inv e" "orders kSell e = map (\<lambda>(i, q). rest_of (example_order i kSell kGtc 100 q) (dint q)) [(''a'', 5), (''b'', 3)]"
    "orders kBuy e = []" using example_engine by (auto simp: abs_engine_def)
  then have "map_of (me_live_orders e) ''t'' = None" using live_ids [OF e(1), of kSell] by (simp add: map_of_eq_None_iff)
  moreover have "request_ok ?r" using eps_pos(2) by (simp add: request_ok_def example_order_def)
  ultimately have "\<exists>result e'. me_submit ?r e = Some (result, e') \<and> mr_accepted result \<and> mr_final_status result = kAccepted \<and>
    mr_trades result = [] \<and> (\<forall>s. orders s e' = orders s e)"
    using eps_pos by (intro dust_order_vanishes [OF e(1)]) (simp_all add: example_order_def finite_not_nan)
  then show ?thesis using e(3) by metis
qed

text \<open>A quantity that is not a number passes every test and rests.\<close>

lemma nan_not_zero: "is_nan v \<Longrightarrow> \<not> quantity_is_zero v \<and> \<not> v \<le> 0 \<and> \<not> kPriceEpsilon < v"
proof -
  assume "is_nan v"
  moreover have "is_nan v \<Longrightarrow> is_nan \<bar>v\<bar>" by transfer (case_tac v; simp)
  ultimately show ?thesis by (auto simp: quantity_is_zero_def dest: le_not_nan less_not_nan)
qed

theorem nan_quantity_rests:
  assumes "engine_inv e" "is_nan (oq_quantity request)" "oq_type request = kLimit" "oq_tif request = kGtc"
    and "oq_order_id request \<noteq> []" "map_of (me_live_orders e) (oq_order_id request) = None"
  shows "\<exists>result e'. me_submit request e = Some (result, e') \<and> mr_accepted result \<and> map_of (me_live_orders e') (oq_order_id request) \<noteq> None"
proof -
  let ?q = "oq_quantity request"
  have "op_inv (me_order_pool e)" using assms(1) by (simp add: engine_inv_def)
  then obtain b pool where b: "op_create 0 (rest_of request ?q) (me_order_pool e) = Inr (b, pool)" by (rule op_create_fresh)
  from add_resting_order_side [OF this assms(6)] obtain e1 where e1: "add_resting_order request ?q e = Some e1"
    "me_live_orders e1 = (oq_order_id request, b) # me_live_orders e" by (cases "oq_side request") auto
  have stop: "match_request request (?q, result, e) = Some (?q, result, e)" for result
    using nan_not_zero [OF assms(2)] by (simp add: match_request_side match_side_stop)
  show ?thesis using assms(3-6) nan_not_zero [OF assms(2)] e1
    by (simp add: me_submit_def handle_limit_order_def finalize_limit_result_def stop Let_def make_accepted_result_def)
qed

end
