(* ===== verification/Risk_Props.thy ===== *)
theory Risk_Props
  imports Risk_Engine
begin

text \<open>
  Properties of the risk engine: the decision is the first failing rule, every decision is in the audit log exactly once
  and in order, and the rate limit bounds the accepted requests in every window of one market.
\<close>

section \<open>The audit trail\<close>

definition risk_inv :: "PreTradeRiskEngine \<Rightarrow> bool" where
  "risk_inv e \<longleftrightarrow> rq_wf (pr_audit_queue e) \<and> rq_contents (pr_audit_queue e) = []"

lemma flush_audit_loop_drains:
  "rq_wf q \<Longrightarrow> \<exists>q'. flush_audit_loop q history = (q', history @ rq_contents q) \<and> rq_wf q' \<and> rq_contents q' = [] \<and> rq_capacity q' = rq_capacity q"
proof (induction q history rule: flush_audit_loop.induct)
  case (1 q history)
  note pop = rq_pop_refines [OF "1.prems"]
  show ?case
  proof (cases "rq_contents q")
    case Nil
    then show ?thesis using pop by (subst flush_audit_loop.simps) simp
  next
    case (Cons d ds)
    then have "fst (rq_try_pop q) = Some d" using pop by simp
    with "1.IH" [OF this] pop Cons show ?thesis by (subst flush_audit_loop.simps) auto
  qed
qed

lemma ring_has_room: "rq_wf q \<Longrightarrow> rq_contents q = [] \<Longrightarrow> length (rq_contents q) < unat (rq_capacity q)"
  by (auto simp: rq_wf_def rq_geom_def)

lemma finalize_decision_runs:
  assumes "risk_inv e"
  shows "\<exists>q. finalize_decision d e = Inr (d, e\<lparr>pr_audit_queue := q, pr_audit_history := pr_audit_history e @ [d]\<rparr>) \<and>
    rq_wf q \<and> rq_contents q = []"
proof -
  have wf: "rq_wf (pr_audit_queue e)" and empty: "rq_contents (pr_audit_queue e) = []" using assms by (auto simp: risk_inv_def)
  let ?q = "snd (rq_push d (pr_audit_queue e))"
  have push: "fst (rq_push d (pr_audit_queue e))" "rq_wf ?q" "rq_contents ?q = [d]"
    using rq_push_refines [OF wf, of d] ring_has_room [OF wf empty] empty by auto
  from flush_audit_loop_drains [OF push(2), of "pr_audit_history e"] push(1,3) show ?thesis
    by (auto simp: finalize_decision_def enqueue_audit_def flush_audit_queue_def split_beta Let_def)
qed

section \<open>Evaluation\<close>

abbreviation window_key :: "risk_OrderRequest \<Rightarrow> string" where
  "window_key request \<equiv> rr_user_id request @ ''|'' @ rr_source_ip request"

definition current_window :: "risk_OrderRequest \<Rightarrow> MarketState \<Rightarrow> PreTradeRiskEngine \<Rightarrow> i64 list" where
  "current_window request market e =
     trim_request_window (ms_config market) (case pr_request_windows e (window_key request) of None \<Rightarrow> [] | Some w \<Rightarrow> w)
       (rr_timestamp_ms request)"

definition account_of :: "risk_OrderRequest \<Rightarrow> PreTradeRiskEngine \<Rightarrow> AccountRiskState" where
  "account_of request e = (case pr_accounts e (account_key (rr_user_id request) (rr_symbol request)) of
     None \<Rightarrow> \<lparr>as_quote_balance = 0, as_base_position = 0\<rparr> | Some account \<Rightarrow> account)"

definition well_shaped :: "risk_OrderRequest \<Rightarrow> bool" where
  "well_shaped request \<longleftrightarrow> rr_order_id request \<noteq> [] \<and> rr_user_id request \<noteq> [] \<and> rr_symbol request \<noteq> [] \<and> rr_source_ip request \<noteq> [] \<and>
     \<not> rr_quantity request \<le> 0 \<and> 0 < rr_timestamp_ms request"

text \<open>The rules in the order in which they are tried, each with the condition under which it rejects.\<close>

definition risk_rules :: "risk_OrderRequest \<Rightarrow> PreTradeRiskEngine \<Rightarrow> (bool \<times> risk_RejectReason) list" where
  "risk_rules request e =
     [(\<not> well_shaped request, kInvalidRequest), (pr_markets e (rr_symbol request) = None, kUnknownSymbol)] @
     (let market = the (pr_markets e (rr_symbol request)); config = ms_config market; account = account_of request e;
          ref = reference_price market request; notional = ref * rr_quantity request in
      [(mc_max_order_quantity config < rr_quantity request, kQuantityLimitExceeded),
       (mc_max_order_notional config < notional, kNotionalLimitExceeded),
       (rr_type request = risk_kLimit \<and> 0 < ref \<and> mc_max_price_deviation_ratio config < \<bar>rr_price request - ref\<bar> / ref, kPriceBandExceeded),
       (rr_side request = risk_kBuy \<and> as_quote_balance account < notional, kInsufficientBalance),
       (rr_side request = risk_kSell \<and> as_base_position account < rr_quantity request, kInsufficientPosition),
       (unat (mc_max_requests_per_window config) \<le> length (current_window request market e), kRateLimited),
       (mc_enable_self_trade_prevention config \<and> would_self_trade request (resting_orders_for (rr_symbol request) e), kSelfTradePrevented)])"

definition first_failure :: "(bool \<times> risk_RejectReason) list \<Rightarrow> risk_RejectReason" where
  "first_failure rules = (case find fst rules of None \<Rightarrow> risk_kNone | Some (_, reason) \<Rightarrow> reason)"

definition reaches_market :: "risk_OrderRequest \<Rightarrow> PreTradeRiskEngine \<Rightarrow> bool" where
  "reaches_market request e \<longleftrightarrow> well_shaped request \<and> pr_markets e (rr_symbol request) \<noteq> None"

lemma risk_evaluate_runs:
  assumes inv: "risk_inv e"
  shows "\<exists>d e'. risk_evaluate request e = Inr (d, e') \<and> risk_inv e' \<and> pr_audit_history e' = pr_audit_history e @ [d] \<and>
    rd_reject_reason d = first_failure (risk_rules request e) \<and> (rd_accepted d \<longleftrightarrow> rd_reject_reason d = risk_kNone) \<and>
    rd_order_id d = rr_order_id request \<and> rd_timestamp_ms d = rr_timestamp_ms request \<and>
    pr_markets e' = pr_markets e \<and> pr_accounts e' = pr_accounts e \<and> pr_resting_orders e' = pr_resting_orders e \<and>
    pr_request_windows e' = (if reaches_market request e
      then (pr_request_windows e)(window_key request \<mapsto>
        current_window request (the (pr_markets e (rr_symbol request))) e @ [rr_timestamp_ms request])
      else pr_request_windows e)"
proof -
  have inv1: "risk_inv (e\<lparr>pr_request_windows := w\<rparr>)" for w using inv by (simp add: risk_inv_def)
  consider (shape) "\<not> well_shaped request" | (market) "well_shaped request" "pr_markets e (rr_symbol request) = None"
    | (rules) m where "well_shaped request" "pr_markets e (rr_symbol request) = Some m" by auto
  then show ?thesis
  proof cases
    case shape
    have "risk_evaluate request e = finalize_decision (make_decision request False kInvalidRequest ''request_shape'' e) e"
      using shape by (auto simp: risk_evaluate_def validate_request_shape_def well_shaped_def)
    moreover have "first_failure (risk_rules request e) = kInvalidRequest" using shape by (simp add: first_failure_def risk_rules_def)
    ultimately show ?thesis using finalize_decision_runs [OF inv, of "make_decision request False kInvalidRequest ''request_shape'' e"] shape
      by (auto simp: risk_inv_def reaches_market_def make_decision_def Let_def)
  next
    case market
    have "risk_evaluate request e = finalize_decision (make_decision request False kUnknownSymbol ''symbol_configured'' e) e"
      using market by (auto simp: risk_evaluate_def validate_request_shape_def validate_market_presence_def well_shaped_def)
    moreover have "first_failure (risk_rules request e) = kUnknownSymbol" using market by (simp add: first_failure_def risk_rules_def)
    ultimately show ?thesis using finalize_decision_runs [OF inv, of "make_decision request False kUnknownSymbol ''symbol_configured'' e"] market
      by (auto simp: risk_inv_def reaches_market_def make_decision_def Let_def)
  next
    case (rules m)
    let ?ref = "reference_price m request" and ?w = "current_window request m e"
    define d where "d = evaluate_market_rules request m (account_of request e) ?ref (?ref * rr_quantity request) ?w e"
    let ?win = "(pr_request_windows e)(window_key request \<mapsto> ?w @ [rr_timestamp_ms request])"
    have run: "risk_evaluate request e = finalize_decision d (e\<lparr>pr_request_windows := ?win\<rparr>)"
      using rules by (auto simp: risk_evaluate_def validate_request_shape_def validate_market_presence_def well_shaped_def
          current_window_def account_of_def d_def Let_def)
    have d: "rd_reject_reason d = first_failure (risk_rules request e)"
      "rd_accepted d \<longleftrightarrow> rd_reject_reason d = risk_kNone" "rd_order_id d = rr_order_id request" "rd_timestamp_ms d = rr_timestamp_ms request"
      using rules by (auto simp: first_failure_def risk_rules_def evaluate_market_rules_def make_decision_def d_def Let_def)
    obtain q where "finalize_decision d (e\<lparr>pr_request_windows := ?win\<rparr>) =
        Inr (d, e\<lparr>pr_request_windows := ?win, pr_audit_queue := q, pr_audit_history := pr_audit_history e @ [d]\<rparr>)"
      "rq_wf q" "rq_contents q = []" using finalize_decision_runs [OF inv1, of d ?win] by auto
    then show ?thesis using run d rules by (simp add: risk_inv_def reaches_market_def)
  qed
qed

lemma new_risk_inv: "new_PreTradeRiskEngine cap = Inr e \<Longrightarrow> risk_inv e"
  using rq_wf_new by (fastforce simp: new_PreTradeRiskEngine_def risk_inv_def split: sum.splits)

lemma config_keeps_inv:
  "configure_market c e = Inr e' \<Longrightarrow> risk_inv e \<Longrightarrow> risk_inv e'" "update_top_of_book s b a e = Inr e' \<Longrightarrow> risk_inv e \<Longrightarrow> risk_inv e'"
  "risk_inv e \<Longrightarrow> risk_inv (set_account_state u s st e)" "risk_inv e \<Longrightarrow> risk_inv (track_resting_order s ord e)"
  "risk_inv e \<Longrightarrow> risk_inv (clear_user_resting_orders s u e)"
  by (auto simp: risk_inv_def configure_market_def update_top_of_book_def set_account_state_def track_resting_order_def
      clear_user_resting_orders_def Let_def split: if_splits option.splits)

section \<open>Properties\<close>

definition example_config :: MarketRiskConfig where
  "example_config = \<lparr>mc_symbol = ''BTC'', mc_max_order_quantity = dint 10, mc_max_order_notional = dint 1000, mc_max_price_deviation_ratio = dint 1,
     mc_max_requests_per_window = 2, mc_rate_limit_window_ms = 1000, mc_enable_self_trade_prevention = True\<rparr>"

definition example_ring :: "RiskDecision SpscRingQueue" where
  "example_ring = \<lparr>rq_capacity = 2, rq_mask = 1, rq_buffer = [None, None], rq_head = 0, rq_tail = 0\<rparr>"

definition example_risk :: PreTradeRiskEngine where
  "example_risk = \<lparr>pr_markets = [''BTC'' \<mapsto> new_MarketState example_config], pr_accounts = [''u|BTC'' \<mapsto> \<lparr>as_quote_balance = dint 500, as_base_position = 0\<rparr>],
     pr_resting_orders = Map.empty, pr_request_windows = Map.empty, pr_audit_queue = example_ring, pr_audit_history = []\<rparr>"

definition example_request :: "risk_OrderType \<Rightarrow> int \<Rightarrow> int \<Rightarrow> i64 \<Rightarrow> risk_OrderRequest" where
  "example_request ty price quantity t = \<lparr>rr_order_id = ''o'', rr_user_id = ''u'', rr_symbol = ''BTC'', rr_source_ip = ''ip'', rr_side = risk_kBuy,
     rr_type = ty, rr_price = dint price, rr_quantity = dint quantity, rr_timestamp_ms = t\<rparr>"

lemma example_risk_inv: "risk_inv example_risk"
  by (auto simp: risk_inv_def example_risk_def example_ring_def rq_wf_def rq_geom_def rq_len_def rq_at_def rq_slot_def rq_contents_def less_2_cases_iff
      intro!: bexI [of _ 1])

text \<open>C16: \<open>evaluate\<close> never fails and applies the rules in order: the reason it returns is that of the first rule that
  rejects the request, and the request is accepted when none does. Exactly this decision is appended to the audit log,
  no decision is left in the queue, and markets, accounts and resting orders are not touched. A new engine is in the
  state the theorem asks for.\<close>

theorem risk_first_failing_rule:
  assumes "risk_inv e"
  shows "(\<exists>d e'. risk_evaluate request e = Inr (d, e') \<and> rd_reject_reason d = first_failure (risk_rules request e) \<and>
      (rd_accepted d \<longleftrightarrow> (\<forall>(rejects, reason) \<in> set (risk_rules request e). \<not> rejects)) \<and>
      audit_log e' = audit_log e @ [d] \<and> pending_audit_events e' = 0 \<and> risk_inv e' \<and>
      pr_markets e' = pr_markets e \<and> pr_accounts e' = pr_accounts e \<and> pr_resting_orders e' = pr_resting_orders e) \<and>
    (\<forall>cap e0. new_PreTradeRiskEngine cap = Inr e0 \<longrightarrow> risk_inv e0)"
proof -
  obtain d e' where run: "risk_evaluate request e = Inr (d, e')" "risk_inv e'" "pr_audit_history e' = pr_audit_history e @ [d]"
    "rd_reject_reason d = first_failure (risk_rules request e)" "rd_accepted d \<longleftrightarrow> rd_reject_reason d = risk_kNone"
    "pr_markets e' = pr_markets e" "pr_accounts e' = pr_accounts e" "pr_resting_orders e' = pr_resting_orders e"
    using risk_evaluate_runs [OF assms, of request] by blast
  have "first_failure (risk_rules request e) = risk_kNone \<longleftrightarrow> (\<forall>(rejects, reason) \<in> set (risk_rules request e). \<not> rejects)"
    by (auto simp: first_failure_def risk_rules_def Let_def)
  moreover have "pending_audit_events e' = 0"
    using run(2) by (simp add: risk_inv_def pending_audit_events_def rq_contents_def rq_len_def rq_size_approx_def unat_eq_0)
  ultimately show ?thesis using run new_risk_inv by (simp add: audit_log_def)
qed

theorem risk_first_failing_rule_witness:
  "\<exists>d e'. risk_evaluate (example_request risk_kLimit 100 11 5) example_risk = Inr (d, e') \<and> rd_reject_reason d = kQuantityLimitExceeded \<and>
    audit_log e' = [d]"
proof -
  have "first_failure (risk_rules (example_request risk_kLimit 100 11 5) example_risk) = kQuantityLimitExceeded"
    by (simp add: first_failure_def risk_rules_def well_shaped_def example_request_def example_risk_def new_MarketState_def example_config_def Let_def)
  moreover have "audit_log example_risk = []" by (simp add: audit_log_def example_risk_def)
  ultimately show ?thesis using risk_first_failing_rule [OF example_risk_inv, of "example_request risk_kLimit 100 11 5"] by auto
qed

fun risk_run :: "risk_OrderRequest list \<Rightarrow> PreTradeRiskEngine \<Rightarrow> risk_error + RiskDecision list \<times> PreTradeRiskEngine" where
  "risk_run [] e = Inr ([], e)"
| "risk_run (r # rs) e = (case risk_evaluate r e of Inl err \<Rightarrow> Inl err | Inr (d, e1) \<Rightarrow>
     (case risk_run rs e1 of Inl err \<Rightarrow> Inl err | Inr (ds, e2) \<Rightarrow> Inr (d # ds, e2)))"

text \<open>The accepted requests of a key since a given time, in a history of requests and decisions. While no request has trimmed the window at a
  later time, all of them are in the window.\<close>

definition accepted_since :: "string \<Rightarrow> i64 \<Rightarrow> (risk_OrderRequest \<times> RiskDecision) list \<Rightarrow> (risk_OrderRequest \<times> RiskDecision) list" where
  "accepted_since k c history = filter (\<lambda>(r, d). window_key r = k \<and> rd_accepted d \<and> c \<le> rr_timestamp_ms r) history"

definition window_covers :: "string \<Rightarrow> i64 \<Rightarrow> (risk_OrderRequest \<times> RiskDecision) list \<Rightarrow> PreTradeRiskEngine \<Rightarrow> bool" where
  "window_covers k c history e \<longleftrightarrow> length (accepted_since k c history) \<le>
     length (filter (\<lambda>t. c \<le> t) (case pr_request_windows e k of None \<Rightarrow> [] | Some w \<Rightarrow> w))"

definition trims_until :: "string \<Rightarrow> i64 \<Rightarrow> PreTradeRiskEngine \<Rightarrow> risk_OrderRequest \<Rightarrow> bool" where
  "trims_until k c e r \<longleftrightarrow> (\<forall>m. window_key r = k \<and> pr_markets e (rr_symbol r) = Some m \<longrightarrow>
     rr_timestamp_ms r - mc_rate_limit_window_ms (ms_config m) \<le> c)"

lemma rate_limit_step:
  assumes inv: "risk_inv e" and cov: "window_covers k c history e" and trim: "trims_until k c e r" and run: "risk_evaluate r e = Inr (d, e')"
  shows "window_covers k c (history @ [(r, d)]) e' \<and> risk_inv e' \<and> pr_markets e' = pr_markets e \<and>
    (\<forall>m. pr_markets e (rr_symbol r) = Some m \<and> window_key r = k \<and> rd_accepted d \<longrightarrow>
       length (accepted_since k c (history @ [(r, d)])) \<le> unat (mc_max_requests_per_window (ms_config m)))"
proof -
  let ?t = "rr_timestamp_ms r" and ?old = "case pr_request_windows e k of None \<Rightarrow> [] | Some w \<Rightarrow> w"
  obtain e'': "risk_inv e'" "pr_markets e' = pr_markets e"
    and reason: "rd_accepted d \<longleftrightarrow> first_failure (risk_rules r e) = risk_kNone"
    and windows: "pr_request_windows e' = (if reaches_market r e
      then (pr_request_windows e)(window_key r \<mapsto> current_window r (the (pr_markets e (rr_symbol r))) e @ [?t]) else pr_request_windows e)"
    using risk_evaluate_runs [OF inv, of r] run by auto
  have split: "accepted_since k c (history @ [(r, d)]) = accepted_since k c history @ (if window_key r = k \<and> rd_accepted d \<and> c \<le> ?t then [(r, d)] else [])"
    by (simp add: accepted_since_def)
  have acc: "reaches_market r e \<and> length (current_window r m e) < unat (mc_max_requests_per_window (ms_config m))"
    if "rd_accepted d" "pr_markets e (rr_symbol r) = Some m" for m
    using that reason by (auto simp: first_failure_def risk_rules_def reaches_market_def Let_def split: if_splits)
  have reached: "reaches_market r e" if "rd_accepted d"
    using that reason by (auto simp: first_failure_def risk_rules_def reaches_market_def Let_def split: if_splits)
  have old: "length (accepted_since k c history) \<le> length (filter (\<lambda>s. c \<le> s) ?old)" using cov by (simp add: window_covers_def)
  have cur: "current_window r m e = filter (\<lambda>s. ?t - mc_rate_limit_window_ms (ms_config m) \<le> s) ?old" if "window_key r = k" for m
    using that by (simp add: current_window_def trim_request_window_def not_less)
  have kept: "filter (\<lambda>s. c \<le> s) (current_window r m e) = filter (\<lambda>s. c \<le> s) ?old" if "window_key r = k" "pr_markets e (rr_symbol r) = Some m" for m
    using trim that unfolding cur [OF that(1)] trims_until_def by (auto intro!: filter_cong)
  have "window_covers k c (history @ [(r, d)]) e'"
  proof (cases "window_key r = k \<and> reaches_market r e")
    case True
    then obtain m where m: "pr_markets e (rr_symbol r) = Some m" by (auto simp: reaches_market_def)
    show ?thesis using old kept [OF _ m] True m by (simp add: window_covers_def split windows)
  next
    case False
    then show ?thesis using old windows reached by (auto simp: window_covers_def split)
  qed
  moreover have "length (accepted_since k c (history @ [(r, d)])) \<le> unat (mc_max_requests_per_window (ms_config m))"
    if m: "pr_markets e (rr_symbol r) = Some m" and k: "window_key r = k" and a: "rd_accepted d" for m
  proof -
    have "length (filter (\<lambda>s. c \<le> s) (current_window r m e)) \<le> length (current_window r m e)" by simp
    then show ?thesis using old kept [OF k m] acc [OF a m] by (simp add: split)
  qed
  ultimately show ?thesis using e'' by blast
qed

lemma rate_limit_run:
  "\<lbrakk>risk_run rs e = Inr (ds, e'); risk_inv e; window_covers k c history e; \<forall>r \<in> set rs. trims_until k c e r\<rbrakk> \<Longrightarrow>
   window_covers k c (history @ zip rs ds) e' \<and> risk_inv e' \<and> pr_markets e' = pr_markets e"
proof (induction rs arbitrary: e history ds)
  case (Cons r rs)
  obtain d e1 ds1 where run: "risk_evaluate r e = Inr (d, e1)" "risk_run rs e1 = Inr (ds1, e')" "ds = d # ds1"
    using Cons.prems(1) by (auto split: sum.splits)
  from rate_limit_step [OF Cons.prems(2,3) _ run(1)] Cons.prems(4)
  have step: "window_covers k c (history @ [(r, d)]) e1" "risk_inv e1" "pr_markets e1 = pr_markets e" by auto
  from Cons.IH [OF run(2) step(2,1)] Cons.prems(4) step(3) show ?case by (simp add: run(3) trims_until_def)
qed simp

lemma risk_run_take:
  "risk_run rs e = Inr (ds, e') \<Longrightarrow> j < length rs \<Longrightarrow>
   length ds = length rs \<and> (\<exists>e1 e2. risk_run (take j rs) e = Inr (take j ds, e1) \<and> risk_evaluate (rs ! j) e1 = Inr (ds ! j, e2))"
proof (induction rs arbitrary: e ds j)
  case (Cons r rs)
  obtain d e1 ds1 where run: "risk_evaluate r e = Inr (d, e1)" "risk_run rs e1 = Inr (ds1, e')" "ds = d # ds1"
    using Cons.prems(1) by (auto split: sum.splits)
  show ?case
  proof (cases j)
    case 0
    have "length ds1 = length rs" using run(2) by (induction rs arbitrary: e1 ds1) (auto split: sum.splits)
    then show ?thesis using 0 run by auto
  next
    case (Suc i)
    then show ?thesis using Cons.IH [OF run(2), of i] Cons.prems(2) run by auto
  qed
qed simp

text \<open>C18: The rate limit, for any traffic: take a run of requests of any users to any markets, an accepted request of it, and a time \<open>c\<close> such that no request of
  the same user and address up to this one trims the shared window at a time after \<open>c\<close> (a request trims it at its timestamp minus the window length of its market). Then
  of the requests of this user and address from time \<open>c\<close> on, no more were accepted up to and including this one than its market allows. If the user trades one market in the order of time,
  \<open>c\<close> can be the start of the window that ends with the request; with several markets or times out of order it cannot, and the limit can be exceeded.\<close>

theorem rate_limit_bounds:
  assumes "risk_inv e" "risk_run rs e = Inr (ds, e')" "j < length rs" "rd_accepted (ds ! j)" "pr_markets e (rr_symbol (rs ! j)) = Some m"
    and "\<forall>r \<in> set (take (Suc j) rs). \<forall>m'. window_key r = window_key (rs ! j) \<and> pr_markets e (rr_symbol r) = Some m' \<longrightarrow>
      rr_timestamp_ms r - mc_rate_limit_window_ms (ms_config m') \<le> c"
  shows "length (filter (\<lambda>(r, d). window_key r = window_key (rs ! j) \<and> rd_accepted d \<and> c \<le> rr_timestamp_ms r) (zip (take (Suc j) rs) (take (Suc j) ds)))
    \<le> unat (mc_max_requests_per_window (ms_config m))"
proof -
  let ?k = "window_key (rs ! j)"
  obtain e1 e2 where prefix: "risk_run (take j rs) e = Inr (take j ds, e1)" and last: "risk_evaluate (rs ! j) e1 = Inr (ds ! j, e2)"
    and len: "length ds = length rs" using risk_run_take [OF assms(2,3)] by blast
  have take: "take (Suc j) rs = take j rs @ [rs ! j]" "take (Suc j) ds = take j ds @ [ds ! j]"
    using assms(3) len by (simp_all add: take_Suc_conv_app_nth)
  have trims: "\<forall>r \<in> set (take j rs). trims_until ?k c e r" "trims_until ?k c e (rs ! j)"
    using assms(6) by (auto simp: take trims_until_def)
  have "window_covers ?k c [] e" by (simp add: window_covers_def accepted_since_def)
  from rate_limit_run [OF prefix assms(1) this trims(1)]
  have "window_covers ?k c (zip (take j rs) (take j ds)) e1" "risk_inv e1" "pr_markets e1 = pr_markets e" by simp_all
  then have "length (accepted_since ?k c (zip (take j rs) (take j ds) @ [(rs ! j, ds ! j)])) \<le> unat (mc_max_requests_per_window (ms_config m))"
    using rate_limit_step [OF _ _ _ last, of ?k c] trims(2) assms(4,5) by (simp add: trims_until_def)
  then show ?thesis using len by (simp add: take accepted_since_def)
qed

lemma example_accepted:
  assumes "pr_markets e = pr_markets example_risk" "pr_accounts e = pr_accounts example_risk" "pr_resting_orders e = Map.empty"
    and "length (current_window (example_request risk_kLimit 100 1 t) (new_MarketState example_config) e) < 2" "0 < t"
  shows "first_failure (risk_rules (example_request risk_kLimit 100 1 t) e) = risk_kNone"
proof -
  have "\<not> dint 1 < \<bar>0\<bar> / dint 100" unfolding dint_def by code_simp
  then show ?thesis using assms(4,5)
  by (simp add: first_failure_def risk_rules_def well_shaped_def assms(1-3) example_risk_def example_request_def new_MarketState_def
      example_config_def reference_price_def db_snapshot_def new_DepthBook_def account_of_def account_key_def would_self_trade_def
      resting_orders_for_def Let_def double_diff_self)
qed

theorem rate_limit_bounds_witness:
  "\<exists>ds e'. risk_run [example_request risk_kLimit 100 1 5, example_request risk_kLimit 100 1 6] example_risk = Inr (ds, e') \<and>
    rd_accepted (ds ! 1) \<and> length (filter (\<lambda>(r, d). window_key r = ''u|ip'' \<and> rd_accepted d \<and> 6 - 1000 \<le> rr_timestamp_ms r)
      (zip [example_request risk_kLimit 100 1 5, example_request risk_kLimit 100 1 6] ds)) \<le> 2"
proof -
  let ?r1 = "example_request risk_kLimit 100 1 5" and ?r2 = "example_request risk_kLimit 100 1 6"
  let ?m = "new_MarketState example_config"
  have m: "pr_markets example_risk ''BTC'' = Some ?m" "pr_request_windows example_risk (''u'' @ ''|'' @ ''ip'') = None"
    by (simp_all add: example_risk_def)
  have r: "reaches_market ?r1 example_risk" "rr_symbol ?r1 = ''BTC''" "window_key ?r1 = ''u|ip''" "window_key ?r2 = ''u|ip''" "rr_timestamp_ms ?r2 = 6"
    using m by (simp_all add: reaches_market_def well_shaped_def example_request_def)
  obtain d1 e1 where 1: "risk_evaluate ?r1 example_risk = Inr (d1, e1)" "risk_inv e1"
    and e1: "pr_markets e1 = pr_markets example_risk" "pr_accounts e1 = pr_accounts example_risk" "pr_resting_orders e1 = pr_resting_orders example_risk"
      "pr_request_windows e1 = (pr_request_windows example_risk)(window_key ?r1 \<mapsto> current_window ?r1 ?m example_risk @ [rr_timestamp_ms ?r1])"
    using risk_evaluate_runs [OF example_risk_inv, of ?r1] r(1,2) m(1) by auto
  obtain d2 e2 where 2: "risk_evaluate ?r2 e1 = Inr (d2, e2)" "rd_accepted d2 \<longleftrightarrow> first_failure (risk_rules ?r2 e1) = risk_kNone"
    using risk_evaluate_runs [OF 1(2), of ?r2] by auto
  have "length (current_window ?r2 ?m e1) < 2"
    unfolding current_window_def [of ?r2] trim_request_window_def e1(4) r(3,4)
    by (simp add: current_window_def trim_request_window_def r(3) example_risk_def filter_empty_conv)
  then have "rd_accepted d2" using 2(2) example_accepted [OF e1(1,2)] e1(3) by (simp add: example_risk_def)
  moreover have run: "risk_run [?r1, ?r2] example_risk = Inr ([d1, d2], e2)" using 1 2 by simp
  moreover have "\<forall>r \<in> set (take (Suc 1) [?r1, ?r2]). \<forall>m'. window_key r = window_key ([?r1, ?r2] ! 1) \<and> pr_markets example_risk (rr_symbol r) = Some m' \<longrightarrow>
      rr_timestamp_ms r - mc_rate_limit_window_ms (ms_config m') \<le> 6 - 1000"
    using m(1) by (simp add: example_request_def new_MarketState_def example_config_def)
  ultimately show ?thesis using rate_limit_bounds [OF example_risk_inv run, of 1 ?m "6 - 1000"] m(1) r(4)
    by (simp add: example_request_def new_MarketState_def example_config_def del: risk_run.simps)
qed

section \<open>Defects\<close>

text \<open>While a market has no prices, the reference price of a market order is zero; so are its notional and the balance
  it needs: a market buy of a user without any balance is accepted.\<close>

theorem unpriced_market_order_accepted:
  "\<exists>d e'. risk_evaluate (example_request risk_kMarket 0 10 5) (example_risk\<lparr>pr_accounts := Map.empty\<rparr>) = Inr (d, e') \<and> rd_accepted d"
proof -
  let ?r = "example_request risk_kMarket 0 10 5" and ?e = "example_risk\<lparr>pr_accounts := Map.empty\<rparr>"
  let ?m = "new_MarketState example_config"
  have inv: "risk_inv ?e" using example_risk_inv by (simp add: risk_inv_def)
  have zero: "(0 :: double) * dint 10 = 0" unfolding dint_def by code_simp
  have ref: "reference_price ?m ?r = 0" by (simp add: reference_price_def db_snapshot_def new_MarketState_def new_DepthBook_def example_request_def Let_def)
  have win: "current_window ?r ?m ?e = []" by (simp add: current_window_def trim_request_window_def example_risk_def)
  have "first_failure (risk_rules ?r ?e) = risk_kNone"
    using ref win zero by (simp add: first_failure_def risk_rules_def well_shaped_def example_risk_def example_request_def account_of_def
      would_self_trade_def resting_orders_for_def Let_def) (simp add: new_MarketState_def example_config_def)
  then show ?thesis using risk_evaluate_runs [OF inv, of ?r] by auto
qed

text \<open>Every market trims the request window shared by all markets with its own window length. A request to a market
  with a short window makes the others forget: of the requests at 1, 2 and 500, all within the longer window of the
  first market, only the last is left after the second market has seen the one at 500.\<close>

definition short_config :: MarketRiskConfig where
  "short_config = example_config\<lparr>mc_symbol := ''ETH'', mc_rate_limit_window_ms := 1\<rparr>"

theorem rate_limit_forgets:
  "trim_request_window example_config (trim_request_window short_config [1, 2] 500 @ [500]) 501 = [500] \<and>
   trim_request_window example_config [1, 2, 500] 501 = [1, 2, 500]"
  by (simp add: trim_request_window_def short_config_def example_config_def)

end
