(* ===== verification/Clearing_Props.thy ===== *)
theory Clearing_Props
  imports Clearing
begin

text \<open>
  The clearing system as a ledger. Every operation either leaves the state alone or posts journal entries: the accounts
  change by exactly the deltas of the entries, in floating-point arithmetic, and the journals grow by these entries.
  From this follow the replay of the journal, the absence of faults and settlement exactly once.
\<close>

section \<open>Posting journal entries\<close>

definition post :: "AccountSnapshot \<Rightarrow> JournalEntry \<Rightarrow> AccountSnapshot" where
  "post a e = a\<lparr>ac_available_quote := ac_available_quote a + je_delta_available_quote e,
     ac_frozen_quote := ac_frozen_quote a + je_delta_frozen_quote e,
     ac_available_base := ac_available_base a + je_delta_available_base e,
     ac_frozen_base := ac_frozen_base a + je_delta_frozen_base e,
     ac_base_cost := ac_base_cost a + je_delta_base_cost e,
     ac_realized_pnl := ac_realized_pnl a + je_delta_realized_pnl e\<rparr>"

definition post_to :: "(string \<rightharpoonup> AccountSnapshot) \<Rightarrow> JournalEntry \<Rightarrow> (string \<rightharpoonup> AccountSnapshot)" where
  "post_to accounts e = accounts(je_account_id e := map_option (\<lambda>a. post a e) (accounts (je_account_id e)))"

abbreviation of_account :: "string \<Rightarrow> JournalEntry list \<Rightarrow> JournalEntry list" where
  "of_account aid es \<equiv> filter (\<lambda>e. je_account_id e = aid) es"

lemma foldl_post_to: "foldl post_to accounts es aid = map_option (\<lambda>a. foldl post a (of_account aid es)) (accounts aid)"
  by (induction es arbitrary: accounts) (auto simp: post_to_def option.map_comp comp_def option.map_ident)

text \<open>The pointers of the journals point to entries of the pool, and the storage lists every entry once.\<close>

definition journal_inv :: "AccountClearingSystem \<Rightarrow> bool" where
  "journal_inv s \<longleftrightarrow> op_inv (cl_journal_pool s) \<and> distinct (cl_journal_storage s) \<and>
     set (cl_journal_storage s) = dom (op_objects (cl_journal_pool s)) \<and>
     (\<forall>aid ptrs. cl_journals s aid = Some ptrs \<longrightarrow> set ptrs \<subseteq> dom (op_objects (cl_journal_pool s)))"

definition entries :: "AccountClearingSystem \<Rightarrow> string \<Rightarrow> JournalEntry list" where
  "entries s aid = (case cl_journals s aid of None \<Rightarrow> [] | Some ptrs \<Rightarrow> map (\<lambda>p. the (op_objects (cl_journal_pool s) p)) ptrs)"

definition posted :: "JournalEntry list \<Rightarrow> AccountClearingSystem \<Rightarrow> AccountClearingSystem \<Rightarrow> bool" where
  "posted es s s' \<longleftrightarrow> cl_accounts s' = foldl post_to (cl_accounts s) es \<and>
     (\<forall>aid. entries s' aid = entries s aid @ of_account aid es) \<and> journal_inv s'"

lemma those_map_dom: "set ptrs \<subseteq> dom m \<Longrightarrow> those (map m ptrs) = Some (map (\<lambda>p. the (m p)) ptrs)"
  by (induction ptrs) auto

lemma cl_journal_entries: "journal_inv s \<Longrightarrow> cl_journal aid s = Some (entries s aid)"
  by (auto simp: journal_inv_def cl_journal_def entries_def those_map_dom split: option.split)

lemma journal_inv_cong:
  "\<lbrakk>cl_journals s' = cl_journals s; cl_journal_pool s' = cl_journal_pool s \<and> cl_journal_storage s' = cl_journal_storage s\<rbrakk> \<Longrightarrow> journal_inv s' = journal_inv s \<and> entries s' = entries s"
  by (simp add: journal_inv_def entries_def [abs_def] cong: option.case_cong)

lemma append_journal_entries:
  assumes "journal_inv s"
  obtains s' where "append_journal je s = Inr s'" "journal_inv s'"
    "cl_accounts s' = cl_accounts s" "cl_holds s' = cl_holds s" "cl_settled_trade_ids s' = cl_settled_trade_ids s"
    "cl_outbox s' = cl_outbox s" "\<And>aid. entries s' aid = entries s aid @ of_account aid [je]"
proof -
  obtain b pool where c: "op_create 0 je (cl_journal_pool s) = Inr (b, pool)" "b \<notin> dom (op_objects (cl_journal_pool s))"
    "op_objects pool = (op_objects (cl_journal_pool s))(b \<mapsto> je)" "op_inv pool"
    using op_create_fresh [of "cl_journal_pool s" 0 je] assms by (metis journal_inv_def)
  let ?s = "s\<lparr>cl_journal_pool := pool, cl_journal_storage := cl_journal_storage s @ [b],
    cl_journals := (cl_journals s)(je_account_id je \<mapsto>
      (case cl_journals s (je_account_id je) of None \<Rightarrow> [] | Some es \<Rightarrow> es) @ [b])\<rparr>"
  have ptrs: "p \<noteq> b" if "cl_journals s aid = Some ps" "p \<in> set ps" for aid ps p
    using assms c(2) that unfolding journal_inv_def by blast
  have "set ps \<subseteq> dom (op_objects (cl_journal_pool s))" if "cl_journals s aid = Some ps" for aid ps
    using assms that unfolding journal_inv_def by blast
  then have "set ps \<subseteq> dom (op_objects pool)" if "cl_journals s aid = Some ps" for aid ps
    using c(3) that by auto
  moreover have "distinct (cl_journal_storage s)" "set (cl_journal_storage s) = dom (op_objects (cl_journal_pool s))"
    using assms by (auto simp: journal_inv_def)
  ultimately have "journal_inv ?s" using c(2-4) by (cases "cl_journals s (je_account_id je)") (auto simp: journal_inv_def)
  moreover have "entries ?s aid = entries s aid @ of_account aid [je]" for aid
    using ptrs c(3) by (auto simp: entries_def split: option.split)
  ultimately show thesis using c(1) by (intro that [of ?s]) (auto simp: append_journal_def)
qed

text \<open>The destructor destroys every entry once.\<close>

lemma destroy_clearing_frees: "journal_inv s \<Longrightarrow> op_objects (destroy_AccountClearingSystem s) = Map.empty"
  by (simp add: destroy_AccountClearingSystem_def journal_inv_def op.destroy_all)

section \<open>The operations post entries\<close>

lemma append_journal_posted:
  assumes "journal_inv s" "cl_accounts s1 = post_to (cl_accounts s) je" "cl_journals s1 = cl_journals s"
    "cl_journal_pool s1 = cl_journal_pool s \<and> cl_journal_storage s1 = cl_journal_storage s"
  obtains s' where "append_journal je s1 = Inr s'" "posted [je] s s'" "cl_holds s' = cl_holds s1"
    "cl_settled_trade_ids s' = cl_settled_trade_ids s1" "cl_outbox s' = cl_outbox s1"
proof -
  have inv: "journal_inv s1" "entries s1 = entries s" using journal_inv_cong [OF assms(3,4)] assms(1) by auto
  from append_journal_entries [OF inv(1), of je] obtain s' where s': "append_journal je s1 = Inr s'" "journal_inv s'"
    "cl_accounts s' = cl_accounts s1" "cl_holds s' = cl_holds s1" "cl_settled_trade_ids s' = cl_settled_trade_ids s1"
    "cl_outbox s' = cl_outbox s1" "\<And>aid. entries s' aid = entries s1 aid @ of_account aid [je]" by metis
  moreover have "posted [je] s s'" using s' assms(2) inv(2) by (simp add: posted_def)
  ultimately show thesis by (intro that [of s']) auto
qed

lemma posted_append: "posted es s s' \<Longrightarrow> posted es' s' s'' \<Longrightarrow> posted (es @ es') s s''"
  by (simp add: posted_def)

text \<open>An entry that moves the amount \<open>x\<close> between available and frozen.\<close>

definition transfer :: "double \<Rightarrow> JournalEntry \<Rightarrow> bool" where
  "transfer x e \<longleftrightarrow> je_delta_base_cost e = 0 \<and> je_delta_realized_pnl e = 0 \<and>
     (je_delta_available_quote e, je_delta_frozen_quote e, je_delta_available_base e, je_delta_frozen_base e) \<in>
       {(- x, x, 0, 0), (x, - x, 0, 0), (0, 0, - x, x), (0, 0, x, - x)}"

text \<open>A successful operation posts a transfer of \<open>x\<close>; an unsuccessful one changes nothing.\<close>

definition posts_or_nothing ::
  "double \<Rightarrow> clearing_fault + ClearingStatus \<times> AccountClearingSystem \<Rightarrow> AccountClearingSystem \<Rightarrow> bool" where
  "posts_or_nothing x r s \<longleftrightarrow> (\<exists>status s'. r = Inr (status, s') \<and>
     (status \<noteq> kApplied \<longrightarrow> s' = s) \<and>
     (status = kApplied \<longrightarrow> (\<exists>e. transfer x e \<and> posted [e] s s' \<and> je_account_id e \<in> dom (cl_accounts s)) \<and>
        cl_settled_trade_ids s' = cl_settled_trade_ids s \<and> cl_outbox s' = cl_outbox s))"

lemma posts_or_nothingI_same: "status \<noteq> kApplied \<Longrightarrow> posts_or_nothing x (Inr (status, s)) s"
  by (simp add: posts_or_nothing_def)

lemma posts_settled: "posts_or_nothing x (Inr (status, s')) s \<Longrightarrow> cl_settled_trade_ids s' = cl_settled_trade_ids s"
  by (cases "status = kApplied") (simp_all add: posts_or_nothing_def)

lemma journalled_posts:
  assumes "journal_inv s" "cl_accounts s1 = post_to (cl_accounts s) je" "cl_journals s1 = cl_journals s"
    "cl_journal_pool s1 = cl_journal_pool s \<and> cl_journal_storage s1 = cl_journal_storage s" "cl_settled_trade_ids s1 = cl_settled_trade_ids s" "cl_outbox s1 = cl_outbox s"
    "transfer x je" "je_account_id je \<in> dom (cl_accounts s)"
  shows "posts_or_nothing x (journalled je s1) s"
proof -
  obtain s' where "append_journal je s1 = Inr s'" "posted [je] s s'" "cl_settled_trade_ids s' = cl_settled_trade_ids s1"
    "cl_outbox s' = cl_outbox s1"
    using append_journal_posted [OF assms(1-4)] by metis
  then show ?thesis using assms(5-8) by (auto simp: posts_or_nothing_def journalled_def)
qed

lemma freeze_quote_posts: "journal_inv s \<Longrightarrow> posts_or_nothing amount (freeze_quote aid hid amount time s) s"
  unfolding freeze_quote_def
  by (auto intro!: posts_or_nothingI_same journalled_posts simp: post_to_def post_def double_minus_eq transfer_def
      split: option.split)

lemma freeze_base_posts: "journal_inv s \<Longrightarrow> posts_or_nothing amount (freeze_base aid hid amount time s) s"
  unfolding freeze_base_def
  by (auto intro!: posts_or_nothingI_same journalled_posts simp: post_to_def post_def double_minus_eq transfer_def
      split: option.split)

lemma journalled_drop_hold_posts:
  assumes "journal_inv s" "cl_accounts s1 = post_to (cl_accounts s) je" "cl_journals s1 = cl_journals s"
    "cl_journal_pool s1 = cl_journal_pool s \<and> cl_journal_storage s1 = cl_journal_storage s" "cl_settled_trade_ids s1 = cl_settled_trade_ids s" "cl_outbox s1 = cl_outbox s"
    "transfer x je" "je_account_id je \<in> dom (cl_accounts s)"
  shows "posts_or_nothing x (case append_journal je s1 of Inl e \<Rightarrow> Inl e
    | Inr s' \<Rightarrow> Inr (kApplied, s'\<lparr>cl_holds := (cl_holds s')(hid := None)\<rparr>)) s"
proof -
  obtain s' where s': "append_journal je s1 = Inr s'" "posted [je] s s'" "cl_settled_trade_ids s' = cl_settled_trade_ids s1"
    "cl_outbox s' = cl_outbox s1"
    using append_journal_posted [OF assms(1-4)] by metis
  have "posted [je] s (s'\<lparr>cl_holds := (cl_holds s')(hid := None)\<rparr>)"
    using s'(2) journal_inv_cong [of "s'\<lparr>cl_holds := (cl_holds s')(hid := None)\<rparr>" s'] by (simp add: posted_def)
  then show ?thesis using s' assms(5-8) by (auto simp: posts_or_nothing_def)
qed

lemma release_hold_posts:
  "journal_inv s \<Longrightarrow> posts_or_nothing (case cl_holds s hid of None \<Rightarrow> 0 | Some h \<Rightarrow> hr_amount h) (release_hold hid time s) s"
  unfolding release_hold_def Let_def
  by (auto intro!: posts_or_nothingI_same journalled_drop_hold_posts simp: post_to_def post_def double_minus_eq transfer_def
      split: option.split)

text \<open>A consumed hold is there, so settlement does not fault; it posts the buyer's and the seller's entry.\<close>

definition settlement_entries :: "TradeFill \<Rightarrow> SettlementAmounts \<Rightarrow> JournalEntry list" where
  "settlement_entries fill am =
     [\<lparr>je_account_id = tf_buyer_account_id fill, je_event_id = tf_trade_id fill, je_operation = ''spot_trade_buy'',
       je_delta_available_quote = 0, je_delta_frozen_quote = - (sa_notional am + sa_buyer_fee am),
       je_delta_available_base = tf_quantity fill, je_delta_frozen_base = 0,
       je_delta_base_cost = sa_notional am + sa_buyer_fee am, je_delta_realized_pnl = 0, je_timestamp_ms = tf_timestamp_ms fill\<rparr>,
      \<lparr>je_account_id = tf_seller_account_id fill, je_event_id = tf_trade_id fill, je_operation = ''spot_trade_sell'',
       je_delta_available_quote = sa_notional am - sa_seller_fee am, je_delta_frozen_quote = 0,
       je_delta_available_base = 0, je_delta_frozen_base = - tf_quantity fill,
       je_delta_base_cost = - sa_seller_cost_released am, je_delta_realized_pnl = sa_seller_realized_pnl am,
       je_timestamp_ms = tf_timestamp_ms fill\<rparr>]"

definition settlement_message :: "TradeFill \<Rightarrow> OutboxMessage" where
  "settlement_message fill = \<lparr>om_id = tf_trade_id fill, om_topic = ''clearing.settlement'',
     om_payload = tf_symbol fill @ '':'' @ tf_buyer_account_id fill @ '':'' @ tf_seller_account_id fill, om_state = kPending\<rparr>"

lemma consume_hold_frame:
  assumes "\<not> hold_insufficient hid aid asset amount s"
  shows "\<exists>hs. consume_hold_amount hid amount s = Inr (s\<lparr>cl_holds := hs\<rparr>) \<and> (\<forall>h. h \<noteq> hid \<longrightarrow> hs h = cl_holds s h)"
proof (cases "hid = []")
  case True
  then show ?thesis by (intro exI [of _ "cl_holds s"]) (simp add: consume_hold_amount_def)
next
  case False
  with assms obtain h where "cl_holds s hid = Some h" by (auto simp: hold_insufficient_def split: option.splits)
  let ?h = "h\<lparr>hr_amount := hr_amount h - amount\<rparr>"
  have "consume_hold_amount hid amount s =
      Inr (s\<lparr>cl_holds := (cl_holds s)(hid := (if is_zero (hr_amount ?h) then None else Some ?h))\<rparr>)"
    using False \<open>cl_holds s hid = Some h\<close> by (simp add: consume_hold_amount_def)
  then show ?thesis by (metis fun_upd_other)
qed

lemma settle_legs_post:
  assumes "sa_buyer_consumed_quote am = sa_notional am + sa_buyer_fee am" "sa_seller_consumed_base am = tf_quantity fill"
  shows "cl_accounts (update_account (tf_seller_account_id fill) (seller_leg am)
      (update_account (tf_buyer_account_id fill) (buyer_leg fill am) s)) = foldl post_to (cl_accounts s) (settlement_entries fill am)"
proof -
  have "buyer_leg fill am = (\<lambda>a. post a (settlement_entries fill am ! 0))"
    "seller_leg am = (\<lambda>a. post a (settlement_entries fill am ! 1))"
    using assms by (auto simp: settlement_entries_def post_def buyer_leg_def seller_leg_def double_minus_eq)
  then show ?thesis by (simp add: update_account_def settlement_entries_def post_to_def)
qed

lemma amounts_consumed [simp]:
  "sa_buyer_consumed_quote (calculate_settlement_amounts fill fees seller) =
     sa_notional (calculate_settlement_amounts fill fees seller) + sa_buyer_fee (calculate_settlement_amounts fill fees seller)"
  "sa_seller_consumed_base (calculate_settlement_amounts fill fees seller) = tf_quantity fill"
  by (simp_all add: calculate_settlement_amounts_def Let_def)

lemma settlement_journal_posts:
  assumes "journal_inv s" "cl_accounts s1 = foldl post_to (cl_accounts s) (settlement_entries fill am)"
    "cl_journals s1 = cl_journals s" "cl_journal_pool s1 = cl_journal_pool s \<and> cl_journal_storage s1 = cl_journal_storage s"
  shows "\<exists>s'. append_settlement_journal fill (sa_notional am) (sa_buyer_fee am) (sa_seller_fee am) (sa_seller_cost_released am)
      (sa_seller_realized_pnl am) s1 = Inr s' \<and> posted (settlement_entries fill am) s s' \<and>
      cl_settled_trade_ids s' = cl_settled_trade_ids s1 \<and> cl_outbox s' = cl_outbox s1"
proof -
  obtain e1 e2 where e: "settlement_entries fill am = [e1, e2]" by (simp add: settlement_entries_def)
  have inv: "journal_inv s1" "entries s1 = entries s" using journal_inv_cong [OF assms(3,4)] assms(1) by auto
  from append_journal_entries [OF inv(1), of e1] obtain s5 where s5: "append_journal e1 s1 = Inr s5" "journal_inv s5"
    "cl_accounts s5 = cl_accounts s1" "cl_settled_trade_ids s5 = cl_settled_trade_ids s1" "cl_outbox s5 = cl_outbox s1"
    "\<And>aid. entries s5 aid = entries s1 aid @ of_account aid [e1]" by metis
  from append_journal_entries [OF s5(2), of e2] obtain s6 where s6: "append_journal e2 s5 = Inr s6" "journal_inv s6"
    "cl_accounts s6 = cl_accounts s5" "cl_settled_trade_ids s6 = cl_settled_trade_ids s5" "cl_outbox s6 = cl_outbox s5"
    "\<And>aid. entries s6 aid = entries s5 aid @ of_account aid [e2]" by metis
  have "append_settlement_journal fill (sa_notional am) (sa_buyer_fee am) (sa_seller_fee am) (sa_seller_cost_released am)
      (sa_seller_realized_pnl am) s1 = Inr s6"
    using s5(1) s6(1) e by (auto simp: append_settlement_journal_def settlement_entries_def)
  moreover have "posted (settlement_entries fill am) s s6"
    using s5 s6 inv assms(2) e by (simp add: posted_def)
  ultimately show ?thesis using s5 s6 by auto
qed

lemma apply_settlement_posts:
  assumes inv: "journal_inv s"
    and am: "sa_buyer_consumed_quote am = sa_notional am + sa_buyer_fee am" "sa_seller_consumed_base am = tf_quantity fill"
    and holds: "sr_ok (validate_hold_coverage fill (sa_buyer_consumed_quote am) (sa_seller_consumed_base am) s)"
  shows "\<exists>s'. apply_settlement fill am s = Inr (\<lparr>sr_status = kApplied, sr_notional = sa_notional am,
        sr_buyer_fee = sa_buyer_fee am, sr_seller_fee = sa_seller_fee am, sr_seller_realized_pnl = sa_seller_realized_pnl am\<rparr>, s') \<and>
      posted (settlement_entries fill am) s s' \<and> cl_settled_trade_ids s' = insert (tf_trade_id fill) (cl_settled_trade_ids s) \<and>
      cl_outbox s' = cl_outbox s @ [settlement_message fill]"
proof -
  define s2 where "s2 = update_account (tf_seller_account_id fill) (seller_leg am)
    (update_account (tf_buyer_account_id fill) (buyer_leg fill am) s)"
  have s2_frame: "cl_holds s2 = cl_holds s" "cl_journals s2 = cl_journals s" "cl_journal_pool s2 = cl_journal_pool s \<and> cl_journal_storage s2 = cl_journal_storage s"
    "cl_settled_trade_ids s2 = cl_settled_trade_ids s" "cl_outbox s2 = cl_outbox s"
    by (simp_all add: s2_def update_account_def)
  have acc: "cl_accounts s2 = foldl post_to (cl_accounts s) (settlement_entries fill am)"
    unfolding s2_def by (rule settle_legs_post [OF am])
  have bh: "\<not> hold_insufficient (tf_buyer_hold_id fill) (tf_buyer_account_id fill) kQuote (sa_buyer_consumed_quote am) s2"
    and sh: "\<not> hold_insufficient (tf_seller_hold_id fill) (tf_seller_account_id fill) kBase (sa_seller_consumed_base am) s2"
    using holds s2_frame(1)
    by (auto simp: validate_hold_coverage_def sr_ok_def settlement_status_def hold_insufficient_def split: if_splits)
  obtain hs where s3: "consume_hold_amount (tf_buyer_hold_id fill) (sa_buyer_consumed_quote am) s2 = Inr (s2\<lparr>cl_holds := hs\<rparr>)"
    and hs: "\<forall>h. h \<noteq> tf_buyer_hold_id fill \<longrightarrow> hs h = cl_holds s2 h"
    using consume_hold_frame [OF bh] by blast
  have "\<not> hold_insufficient (tf_seller_hold_id fill) (tf_seller_account_id fill) kBase (sa_seller_consumed_base am) (s2\<lparr>cl_holds := hs\<rparr>)"
    using bh sh hs by (cases "tf_seller_hold_id fill = tf_buyer_hold_id fill") (auto simp: hold_insufficient_def split: option.splits)
  from consume_hold_frame [OF this] obtain hs' where
    s4: "consume_hold_amount (tf_seller_hold_id fill) (sa_seller_consumed_base am) (s2\<lparr>cl_holds := hs\<rparr>) = Inr (s2\<lparr>cl_holds := hs'\<rparr>)"
    by auto
  from settlement_journal_posts [of s "s2\<lparr>cl_holds := hs'\<rparr>" fill am] inv acc s2_frame obtain s5 where
    s5: "append_settlement_journal fill (sa_notional am) (sa_buyer_fee am) (sa_seller_fee am) (sa_seller_cost_released am)
      (sa_seller_realized_pnl am) (s2\<lparr>cl_holds := hs'\<rparr>) = Inr s5" "posted (settlement_entries fill am) s s5"
    "cl_settled_trade_ids s5 = cl_settled_trade_ids s" "cl_outbox s5 = cl_outbox s" by auto
  let ?s6 = "s5\<lparr>cl_outbox := cl_outbox s5 @ [settlement_message fill],
    cl_settled_trade_ids := insert (tf_trade_id fill) (cl_settled_trade_ids s5)\<rparr>"
  have "posted (settlement_entries fill am) s ?s6"
    using s5(2) journal_inv_cong [of ?s6 s5] by (simp add: posted_def)
  moreover have "apply_settlement fill am s = Inr (\<lparr>sr_status = kApplied, sr_notional = sa_notional am,
        sr_buyer_fee = sa_buyer_fee am, sr_seller_fee = sa_seller_fee am, sr_seller_realized_pnl = sa_seller_realized_pnl am\<rparr>, ?s6)"
    unfolding apply_settlement_def Let_def s2_def [symmetric]
    by (simp add: s3 s4 s5(1) enqueue_settlement_outbox_def outbox_append_def settlement_message_def)
  ultimately show ?thesis using s5(3,4) by auto
qed

lemma sr_ok_status [simp]: "sr_ok (settlement_status status) \<longleftrightarrow> status = kApplied \<or> status = kDuplicate"
  by (simp add: sr_ok_def settlement_status_def)

lemma check_rejects:
  "\<not> sr_ok (validate_balance_coverage b a x y) \<Longrightarrow>
    \<exists>status. validate_balance_coverage b a x y = settlement_status status \<and> status \<noteq> kApplied \<and> status \<noteq> kDuplicate"
  "\<not> sr_ok (validate_hold_coverage fill x y s) \<Longrightarrow>
    \<exists>status. validate_hold_coverage fill x y s = settlement_status status \<and> status \<noteq> kApplied \<and> status \<noteq> kDuplicate"
  by (auto simp: validate_balance_coverage_def validate_hold_coverage_def split: if_splits)

lemma settle_spot_trade_cases:
  assumes "journal_inv s"
  obtains (rejected) status where "settle_spot_trade fill fees s = Inr (settlement_status status, s)" "status \<noteq> kApplied"
      "status = kDuplicate \<longleftrightarrow> tf_trade_id fill \<in> cl_settled_trade_ids s"
    | (applied) buyer seller am s' where "am = calculate_settlement_amounts fill fees seller"
      "settle_spot_trade fill fees s = Inr (\<lparr>sr_status = kApplied, sr_notional = sa_notional am, sr_buyer_fee = sa_buyer_fee am,
         sr_seller_fee = sa_seller_fee am, sr_seller_realized_pnl = sa_seller_realized_pnl am\<rparr>, s')"
      "cl_accounts s (tf_buyer_account_id fill) = Some buyer" "cl_accounts s (tf_seller_account_id fill) = Some seller"
      "has_valid_trade_fill fill" "\<not> ac_frozen_quote buyer < sa_buyer_consumed_quote am"
      "\<not> ac_frozen_base seller < sa_seller_consumed_base am" "tf_trade_id fill \<notin> cl_settled_trade_ids s"
      "posted (settlement_entries fill am) s s'"
      "cl_settled_trade_ids s' = insert (tf_trade_id fill) (cl_settled_trade_ids s)"
      "cl_outbox s' = cl_outbox s @ [settlement_message fill]"
proof (cases "tf_trade_id fill \<in> cl_settled_trade_ids s")
  case True
  then show thesis using rejected [of kDuplicate] by (simp add: settle_spot_trade_def)
next
  case False
  show thesis
  proof (cases "\<exists>buyer seller. cl_accounts s (tf_buyer_account_id fill) = Some buyer \<and> cl_accounts s (tf_seller_account_id fill) = Some seller")
    case none: False
    then have "settle_spot_trade fill fees s = Inr (settlement_status kAccountNotFound, s)"
      using False by (auto simp: settle_spot_trade_def split: option.splits)
    then show thesis using rejected [of kAccountNotFound] False by simp
  next
    case True
    then obtain buyer seller where acc: "cl_accounts s (tf_buyer_account_id fill) = Some buyer"
      "cl_accounts s (tf_seller_account_id fill) = Some seller" by blast
    let ?am = "calculate_settlement_amounts fill fees seller"
    let ?bal = "validate_balance_coverage buyer seller (sa_buyer_consumed_quote ?am) (sa_seller_consumed_base ?am)"
    let ?hold = "validate_hold_coverage fill (sa_buyer_consumed_quote ?am) (sa_seller_consumed_base ?am) s"
    show thesis
    proof (cases "has_valid_trade_fill fill \<and> sr_ok ?bal \<and> sr_ok ?hold")
      case False
      then obtain status where "settle_spot_trade fill fees s = Inr (settlement_status status, s)"
        "status \<noteq> kApplied" "status \<noteq> kDuplicate"
        using acc \<open>tf_trade_id fill \<notin> _\<close>
        by (cases "has_valid_trade_fill fill"; cases "sr_ok ?bal") (auto simp: settle_spot_trade_def Let_def dest!: check_rejects)
      then show thesis using rejected \<open>tf_trade_id fill \<notin> _\<close> by blast
    next
      case True
      from apply_settlement_posts [OF assms amounts_consumed(1) [of fill fees seller] amounts_consumed(2)] True obtain s' where
        s': "apply_settlement fill ?am s = Inr (\<lparr>sr_status = kApplied, sr_notional = sa_notional ?am, sr_buyer_fee = sa_buyer_fee ?am,
          sr_seller_fee = sa_seller_fee ?am, sr_seller_realized_pnl = sa_seller_realized_pnl ?am\<rparr>, s')"
        "posted (settlement_entries fill ?am) s s'" "cl_settled_trade_ids s' = insert (tf_trade_id fill) (cl_settled_trade_ids s)"
        "cl_outbox s' = cl_outbox s @ [settlement_message fill]" by blast
      have "settle_spot_trade fill fees s = apply_settlement fill ?am s"
        using True acc \<open>tf_trade_id fill \<notin> _\<close> by (simp add: settle_spot_trade_def Let_def)
      moreover have "\<not> ac_frozen_quote buyer < sa_buyer_consumed_quote ?am" "\<not> ac_frozen_base seller < sa_seller_consumed_base ?am"
        using True by (auto simp: validate_balance_coverage_def sr_ok_def settlement_status_def split: if_splits)
      ultimately show thesis using applied [of ?am seller s' buyer] s' acc True \<open>tf_trade_id fill \<notin> _\<close> by simp
    qed
  qed
qed

section \<open>Runs\<close>

text \<open>One operation on the accounts, whatever its arguments and its result.\<close>

inductive clearing_step :: "AccountClearingSystem \<Rightarrow> AccountClearingSystem \<Rightarrow> bool" where
  step_freeze_quote: "freeze_quote aid hid amount time s = Inr (status, s') \<Longrightarrow> clearing_step s s'"
| step_freeze_base: "freeze_base aid hid amount time s = Inr (status, s') \<Longrightarrow> clearing_step s s'"
| step_release: "release_hold hid time s = Inr (status, s') \<Longrightarrow> clearing_step s s'"
| step_settle: "settle_spot_trade fill fees s = Inr (r, s') \<Longrightarrow> clearing_step s s'"
| step_dispatch: "mark_outbox_dispatched mid s = (status, s') \<Longrightarrow> clearing_step s s'"

definition open_accounts :: "(string \<times> AccountSnapshot) list \<Rightarrow> AccountClearingSystem \<Rightarrow> AccountClearingSystem" where
  "open_accounts balances s = fold (\<lambda>(aid, a). upsert_account aid a) balances s"

text \<open>Every settled trade has exactly one message in the outbox.\<close>

definition outbox_inv :: "AccountClearingSystem \<Rightarrow> bool" where
  "outbox_inv s \<longleftrightarrow> distinct (map om_id (cl_outbox s)) \<and> set (map om_id (cl_outbox s)) = cl_settled_trade_ids s"

lemma outbox_ids_dispatched [simp]: "map om_id (snd (mark_dispatched mid ms)) = map om_id ms"
  by (induction ms) (auto split: prod.splits)

lemma posted_Nil: "journal_inv s \<Longrightarrow> posted [] s s"
  by (simp add: posted_def)

lemma posts_or_nothingD:
  assumes "posts_or_nothing x (Inr (status, s')) s" "journal_inv s" "outbox_inv s"
  shows "(\<exists>es. posted es s s') \<and> outbox_inv s' \<and> cl_settled_trade_ids s \<subseteq> cl_settled_trade_ids s'"
  using assms posted_Nil [of s] by (cases "status = kApplied") (auto simp: posts_or_nothing_def outbox_inv_def)

lemma clearing_step_posts:
  assumes "clearing_step s s'" "journal_inv s" "outbox_inv s"
  shows "(\<exists>es. posted es s s') \<and> outbox_inv s' \<and> cl_settled_trade_ids s \<subseteq> cl_settled_trade_ids s'"
  using assms(1)
proof cases
  case (step_settle fill fees r)
  show ?thesis
  proof (cases rule: settle_spot_trade_cases [OF assms(2), of fill fees, consumes 0, case_names rejected applied])
    case (rejected status)
    then show ?thesis using step_settle posted_Nil [OF assms(2)] assms(3) by auto
  next
    case (applied buyer seller am s1)
    then show ?thesis using step_settle assms(3) by (auto simp: outbox_inv_def settlement_message_def)
  qed
next
  case (step_dispatch mid status)
  then have s': "s' = s\<lparr>cl_outbox := snd (mark_dispatched mid (cl_outbox s))\<rparr>"
    by (auto simp: mark_outbox_dispatched_def split: prod.splits if_splits)
  have "posted [] s s'" using assms(2) journal_inv_cong [of s' s] s' by (simp add: posted_def)
  then show ?thesis using s' assms(3) by (auto simp: outbox_inv_def simp flip: set_map)
qed (use freeze_quote_posts freeze_base_posts release_hold_posts assms(2,3) posts_or_nothingD in metis)+

lemma clearing_run_posts:
  assumes "clearing_step\<^sup>*\<^sup>* s s'" "journal_inv s" "outbox_inv s"
  shows "(\<exists>es. posted es s s') \<and> journal_inv s' \<and> outbox_inv s' \<and> cl_settled_trade_ids s \<subseteq> cl_settled_trade_ids s'"
  using assms(1)
proof induction
  case base
  then show ?case using assms posted_Nil by blast
next
  case (step s1 s2)
  then obtain es where es: "posted es s s1" by blast
  from clearing_step_posts [OF step(2)] step.IH obtain es' where "posted es' s1 s2" "outbox_inv s2"
    "cl_settled_trade_ids s1 \<subseteq> cl_settled_trade_ids s2" by blast
  moreover from this have "posted (es @ es') s s2" "journal_inv s2" using posted_append [OF es] by (auto simp: posted_def)
  ultimately show ?case using step.IH by blast
qed

lemma open_accounts_inv:
  "journal_inv (open_accounts bs s) = journal_inv s \<and> entries (open_accounts bs s) = entries s \<and>
   outbox_inv (open_accounts bs s) = outbox_inv s"
proof (induction bs arbitrary: s)
  case (Cons b bs)
  let ?s = "upsert_account (fst b) (snd b) s"
  have "journal_inv ?s = journal_inv s \<and> entries ?s = entries s" by (rule journal_inv_cong) (simp_all add: upsert_account_def)
  moreover have "outbox_inv ?s = outbox_inv s" by (simp add: outbox_inv_def upsert_account_def)
  ultimately show ?case using Cons [of ?s] by (simp add: open_accounts_def split_beta)
qed (simp add: open_accounts_def)

lemma new_system_inv:
  assumes "new_AccountClearingSystem sz = Inr s" "unat (max sz 8) * 512 < 2 ^ 64"
  shows "journal_inv s" "outbox_inv s" "entries s = (\<lambda>_. [])"
proof -
  obtain pool where pool: "new_ObjectPool sz 512 128 = Inr pool" and s: "s = \<lparr>cl_accounts = Map.empty, cl_holds = Map.empty,
      cl_journals = Map.empty, cl_settled_trade_ids = {}, cl_journal_storage = [], cl_outbox = [], cl_journal_pool = pool\<rparr>"
    using assms(1) by (auto simp: new_AccountClearingSystem_def split: sum.splits)
  have "op_inv pool" "op_objects pool = Map.empty" using op_inv_new [OF pool] assms(2) by simp_all
  then show "journal_inv s" "outbox_inv s" "entries s = (\<lambda>_. [])"
    using s by (auto simp: journal_inv_def outbox_inv_def entries_def)
qed

section \<open>Totals\<close>

text \<open>The exact total of one asset over all accounts.\<close>

definition total_quote :: "(string \<rightharpoonup> AccountSnapshot) \<Rightarrow> rat" where
  "total_quote acc = (\<Sum>aid \<in> dom acc. val (ac_available_quote (the (acc aid))) + val (ac_frozen_quote (the (acc aid))))"

definition total_base :: "(string \<rightharpoonup> AccountSnapshot) \<Rightarrow> rat" where
  "total_base acc = (\<Sum>aid \<in> dom acc. val (ac_available_base (the (acc aid))) + val (ac_frozen_base (the (acc aid))))"

text \<open>A whole number of units, small enough that two of them add up without rounding.\<close>

definition whole_units :: "double \<Rightarrow> bool" where
  "whole_units x \<longleftrightarrow> (\<exists>n. \<bar>n\<bar> \<le> 4503599627370496 \<and> x = dint n)"

definition whole_account :: "AccountSnapshot \<Rightarrow> bool" where
  "whole_account a \<longleftrightarrow> whole_units (ac_available_quote a) \<and> whole_units (ac_frozen_quote a) \<and> whole_units (ac_available_base a) \<and> whole_units (ac_frozen_base a)"

lemma whole_0 [simp]: "whole_units 0"
  unfolding whole_units_def by (rule exI [of _ 0]) simp

lemma whole_dint [simp]: "\<bar>n\<bar> \<le> 4503599627370496 \<Longrightarrow> whole_units (dint n)"
  unfolding whole_units_def by blast

lemma whole_minus [simp]: "whole_units x \<Longrightarrow> whole_units (- x)"
  unfolding whole_units_def by (elim exE conjE) (rule_tac x = "- n" in exI, simp add: exact_def)

lemma val_add_whole: "whole_units x \<Longrightarrow> whole_units y \<Longrightarrow> val (x + y) = val x + val y"
  unfolding whole_units_def by (auto simp: exact_def)

lemma val_minus_whole: "whole_units x \<Longrightarrow> val (- x) = - val x"
  unfolding whole_units_def by (auto simp: exact_def)

lemma sum_upd:
  fixes f :: "'v \<Rightarrow> 'n :: ab_group_add"
  assumes "finite (dom m)" "m k = Some v"
  shows "(\<Sum>x \<in> dom (m(k \<mapsto> w)). f (the ((m(k \<mapsto> w)) x))) = (\<Sum>x \<in> dom m. f (the (m x))) - f v + f w"
proof -
  let ?S = "\<Sum>x \<in> dom m - {k}. f (the (m x))"
  have "(\<Sum>x \<in> dom m - {k}. f (the ((m(k \<mapsto> w)) x))) = ?S" by (rule sum.cong) auto
  moreover have "dom (m(k \<mapsto> w)) = dom m" using assms(2) by auto
  ultimately have "(\<Sum>x \<in> dom (m(k \<mapsto> w)). f (the ((m(k \<mapsto> w)) x))) = f w + ?S"
    using sum.remove [of "dom m" k "\<lambda>x. f (the ((m(k \<mapsto> w)) x))"] assms by auto
  moreover have "(\<Sum>x \<in> dom m. f (the (m x))) = f v + ?S"
    using sum.remove [of "dom m" k "\<lambda>x. f (the (m x))"] assms by auto
  ultimately show ?thesis by simp
qed

definition adds_exactly :: "double \<Rightarrow> double \<Rightarrow> bool" where
  "adds_exactly x d \<longleftrightarrow> val (x + d) = val x + val d"

lemma adds_exactly_0 [simp]: "adds_exactly x 0"
  by (simp add: adds_exactly_def)

lemma adds_exactly_whole [simp]: "whole_units x \<Longrightarrow> whole_units d \<Longrightarrow> adds_exactly x d"
  by (simp add: adds_exactly_def val_add_whole)

lemma total_post_to:
  assumes "finite (dom acc)" "acc (je_account_id e) = Some a"
  shows "adds_exactly (ac_available_quote a) (je_delta_available_quote e) \<Longrightarrow>
      adds_exactly (ac_frozen_quote a) (je_delta_frozen_quote e) \<Longrightarrow>
      total_quote (post_to acc e) = total_quote acc + val (je_delta_available_quote e) + val (je_delta_frozen_quote e)"
    and "adds_exactly (ac_available_base a) (je_delta_available_base e) \<Longrightarrow>
      adds_exactly (ac_frozen_base a) (je_delta_frozen_base e) \<Longrightarrow>
      total_base (post_to acc e) = total_base acc + val (je_delta_available_base e) + val (je_delta_frozen_base e)"
  unfolding total_quote_def total_base_def post_to_def assms(2) option.map
    sum_upd [OF assms, where f = "\<lambda>a. val (ac_available_quote a) + val (ac_frozen_quote a)"]
    sum_upd [OF assms, where f = "\<lambda>a. val (ac_available_base a) + val (ac_frozen_base a)"]
  by (simp_all add: post_def adds_exactly_def)

lemma transfer_conserves:
  assumes "finite (dom acc)" "acc (je_account_id e) = Some a" "whole_account a" "transfer x e" "whole_units x"
  shows "total_quote (post_to acc e) = total_quote acc \<and> total_base (post_to acc e) = total_base acc"
  using total_post_to [OF assms(1,2)] assms(3,5) assms(4) [unfolded transfer_def]
  by (auto simp: whole_account_def val_minus_whole)

lemma posts_conserve:
  assumes "posts_or_nothing x (Inr (status, s')) s" "whole_units x" "finite (dom (cl_accounts s))"
    "\<forall>a \<in> ran (cl_accounts s). whole_account a"
  shows "total_quote (cl_accounts s') = total_quote (cl_accounts s) \<and> total_base (cl_accounts s') = total_base (cl_accounts s)"
proof (cases "status = kApplied")
  case True
  then obtain e a where "transfer x e" "posted [e] s s'" "cl_accounts s (je_account_id e) = Some a"
    using assms(1) by (auto simp: posts_or_nothing_def)
  then show ?thesis using transfer_conserves [OF assms(3) _ _ _ assms(2)] assms(4) by (auto simp: posted_def ran_def)
next
  case False
  then show ?thesis using assms(1) by (simp add: posts_or_nothing_def)
qed

lemma settlement_conserves_totals:
  assumes "finite (dom acc)" "acc (tf_buyer_account_id fill) = Some b" "acc (tf_seller_account_id fill) = Some a"
    "whole_account b" "whole_account a" "whole_units (tf_quantity fill)" "whole_units (sa_notional am + sa_buyer_fee am)"
    "whole_units (sa_notional am - sa_seller_fee am)"
  shows "total_quote (foldl post_to acc (settlement_entries fill am)) =
      total_quote acc - val (sa_notional am + sa_buyer_fee am) + val (sa_notional am - sa_seller_fee am) \<and>
    total_base (foldl post_to acc (settlement_entries fill am)) = total_base acc"
proof -
  obtain e1 e2 where e: "settlement_entries fill am = [e1, e2]" by (simp add: settlement_entries_def)
  have e1: "je_account_id e1 = tf_buyer_account_id fill" "je_delta_available_quote e1 = 0"
    "je_delta_frozen_quote e1 = - (sa_notional am + sa_buyer_fee am)" "je_delta_available_base e1 = tf_quantity fill"
    "je_delta_frozen_base e1 = 0"
    and e2: "je_account_id e2 = tf_seller_account_id fill" "je_delta_available_quote e2 = sa_notional am - sa_seller_fee am"
    "je_delta_frozen_quote e2 = 0" "je_delta_available_base e2 = 0" "je_delta_frozen_base e2 = - tf_quantity fill"
    using e by (auto simp: settlement_entries_def)
  let ?acc = "post_to acc e1"
  let ?a = "if tf_seller_account_id fill = tf_buyer_account_id fill then post b e1 else a"
  have 1: "acc (je_account_id e1) = Some b" "finite (dom ?acc)" using assms(1,2) e1 by (auto simp: post_to_def)
  have 2: "?acc (je_account_id e2) = Some ?a" using assms(2,3) e1(1) e2(1) by (auto simp: post_to_def)
  have "total_quote ?acc = total_quote acc - val (sa_notional am + sa_buyer_fee am)"
    "total_base ?acc = total_base acc + val (tf_quantity fill)"
    using total_post_to [OF assms(1) 1(1)] assms(4,6,7) e1 by (auto simp: whole_account_def val_minus_whole)
  moreover have "total_quote (post_to ?acc e2) = total_quote ?acc + val (sa_notional am - sa_seller_fee am)"
    "total_base (post_to ?acc e2) = total_base ?acc - val (tf_quantity fill)"
    using total_post_to [OF 1(2) 2] assms(2-6,8) e1 e2 by (auto simp: whole_account_def val_minus_whole post_def)
  ultimately show ?thesis using e by simp
qed

section \<open>What the operations do to balances and holds\<close>

lemma append_journal_frame:
  "append_journal je s = Inr s' \<Longrightarrow> cl_accounts s' = cl_accounts s \<and> cl_holds s' = cl_holds s"
  by (auto simp: append_journal_def split: sum.splits)

lemma freeze_quote_effect:
  assumes "freeze_quote aid hid amount time s = Inr (status, s')"
  shows "cl_accounts s' = cl_accounts s \<and> status \<noteq> kApplied \<or>
    (\<exists>a. status = kApplied \<and> cl_accounts s aid = Some a \<and> \<not> amount \<le> 0 \<and> \<not> ac_available_quote a < amount \<and>
      cl_accounts s' = (cl_accounts s)(aid \<mapsto> a\<lparr>ac_available_quote := ac_available_quote a - amount,
        ac_frozen_quote := ac_frozen_quote a + amount\<rparr>) \<and>
      cl_holds s' = (cl_holds s)(hid \<mapsto> \<lparr>hr_account_id = aid, hr_asset = kQuote, hr_amount = amount\<rparr>))"
  using assms unfolding freeze_quote_def journalled_def
  by (auto split: option.splits if_splits sum.splits dest!: append_journal_frame)

lemma freeze_base_effect:
  assumes "freeze_base aid hid amount time s = Inr (status, s')"
  shows "cl_accounts s' = cl_accounts s \<and> status \<noteq> kApplied \<or>
    (\<exists>a. status = kApplied \<and> cl_accounts s aid = Some a \<and> \<not> amount \<le> 0 \<and> \<not> ac_available_base a < amount \<and>
      cl_accounts s' = (cl_accounts s)(aid \<mapsto> a\<lparr>ac_available_base := ac_available_base a - amount,
        ac_frozen_base := ac_frozen_base a + amount\<rparr>) \<and>
      cl_holds s' = (cl_holds s)(hid \<mapsto> \<lparr>hr_account_id = aid, hr_asset = kBase, hr_amount = amount\<rparr>))"
  using assms unfolding freeze_base_def journalled_def
  by (auto split: option.splits if_splits sum.splits dest!: append_journal_frame)

lemma freeze_quote_succeeds:
  assumes "journal_inv s" "cl_accounts s aid = Some a" "\<not> amount \<le> 0" "cl_holds s hid = None" "\<not> ac_available_quote a < amount"
  shows "\<exists>s'. freeze_quote aid hid amount time s = Inr (kApplied, s') \<and> journal_inv s' \<and>
    cl_accounts s' = (cl_accounts s)(aid \<mapsto> a\<lparr>ac_available_quote := ac_available_quote a - amount,
        ac_frozen_quote := ac_frozen_quote a + amount\<rparr>) \<and>
    cl_holds s' = (cl_holds s)(hid \<mapsto> \<lparr>hr_account_id = aid, hr_asset = kQuote, hr_amount = amount\<rparr>)"
proof -
  from freeze_quote_posts [OF assms(1), of amount aid hid time] obtain status s' where
    r: "freeze_quote aid hid amount time s = Inr (status, s')" and inv: "status = kApplied \<longrightarrow> journal_inv s'"
    by (auto simp: posts_or_nothing_def posted_def)
  then have "status = kApplied"
    using assms(2-5) by (auto simp: freeze_quote_def journalled_def split: sum.splits)
  then show ?thesis using r inv freeze_quote_effect [OF r] assms(2) by auto
qed

lemma freeze_base_succeeds:
  assumes "journal_inv s" "cl_accounts s aid = Some a" "\<not> amount \<le> 0" "cl_holds s hid = None" "\<not> ac_available_base a < amount"
  shows "\<exists>s'. freeze_base aid hid amount time s = Inr (kApplied, s') \<and> journal_inv s' \<and>
    cl_accounts s' = (cl_accounts s)(aid \<mapsto> a\<lparr>ac_available_base := ac_available_base a - amount,
        ac_frozen_base := ac_frozen_base a + amount\<rparr>) \<and>
    cl_holds s' = (cl_holds s)(hid \<mapsto> \<lparr>hr_account_id = aid, hr_asset = kBase, hr_amount = amount\<rparr>)"
proof -
  from freeze_base_posts [OF assms(1), of amount aid hid time] obtain status s' where
    r: "freeze_base aid hid amount time s = Inr (status, s')" and inv: "status = kApplied \<longrightarrow> journal_inv s'"
    by (auto simp: posts_or_nothing_def posted_def)
  then have "status = kApplied"
    using assms(2-5) by (auto simp: freeze_base_def journalled_def split: sum.splits)
  then show ?thesis using r inv freeze_base_effect [OF r] assms(2) by auto
qed

lemma settle_succeeds:
  assumes "journal_inv s" "tf_trade_id fill \<notin> cl_settled_trade_ids s" "has_valid_trade_fill fill"
    "cl_accounts s (tf_buyer_account_id fill) = Some buyer" "cl_accounts s (tf_seller_account_id fill) = Some seller"
    "am = calculate_settlement_amounts fill fees seller" "\<not> ac_frozen_quote buyer < sa_buyer_consumed_quote am"
    "\<not> ac_frozen_base seller < tf_quantity fill"
    "\<not> hold_insufficient (tf_buyer_hold_id fill) (tf_buyer_account_id fill) kQuote (sa_buyer_consumed_quote am) s"
    "\<not> hold_insufficient (tf_seller_hold_id fill) (tf_seller_account_id fill) kBase (tf_quantity fill) s"
  shows "\<exists>s'. settle_spot_trade fill fees s = Inr (\<lparr>sr_status = kApplied, sr_notional = sa_notional am,
        sr_buyer_fee = sa_buyer_fee am, sr_seller_fee = sa_seller_fee am, sr_seller_realized_pnl = sa_seller_realized_pnl am\<rparr>, s') \<and>
      cl_accounts s' = foldl post_to (cl_accounts s) (settlement_entries fill am) \<and>
      cl_settled_trade_ids s' = insert (tf_trade_id fill) (cl_settled_trade_ids s)"
proof -
  have "sr_ok (validate_hold_coverage fill (sa_buyer_consumed_quote am) (sa_seller_consumed_base am) s)"
    "sr_ok (validate_balance_coverage buyer seller (sa_buyer_consumed_quote am) (sa_seller_consumed_base am))"
    using assms(6-10) by (simp_all add: validate_hold_coverage_def validate_balance_coverage_def)
  then show ?thesis using apply_settlement_posts [OF assms(1), of am fill] assms(2-6)
    by (auto simp: settle_spot_trade_def Let_def posted_def)
qed

lemma release_quote_succeeds:
  assumes "journal_inv s" "cl_holds s hid = Some h" "hr_asset h = kQuote" "cl_accounts s (hr_account_id h) = Some a"
  shows "\<exists>s'. release_hold hid time s = Inr (kApplied, s') \<and> journal_inv s' \<and>
    cl_accounts s' = (cl_accounts s)(hr_account_id h \<mapsto> a\<lparr>ac_frozen_quote := ac_frozen_quote a - hr_amount h,
        ac_available_quote := ac_available_quote a + hr_amount h\<rparr>) \<and>
    cl_holds s' = (cl_holds s)(hid := None)"
proof -
  from release_hold_posts [OF assms(1), of hid time] obtain status s' where
    r: "release_hold hid time s = Inr (status, s')" and inv: "status = kApplied \<longrightarrow> journal_inv s'"
    by (auto simp: posts_or_nothing_def posted_def)
  then have "status = kApplied \<and> cl_holds s' = (cl_holds s)(hid := None) \<and>
      cl_accounts s' = (cl_accounts s)(hr_account_id h \<mapsto> a\<lparr>ac_frozen_quote := ac_frozen_quote a - hr_amount h,
        ac_available_quote := ac_available_quote a + hr_amount h\<rparr>)"
    using assms(2-4) by (auto simp: release_hold_def Let_def split: sum.splits dest!: append_journal_frame)
  then show ?thesis using r inv by auto
qed

text \<open>Balances of an account that are finite and not negative, and not negative only.\<close>

definition funded :: "AccountSnapshot \<Rightarrow> bool" where
  "funded a \<longleftrightarrow> (\<forall>x \<in> {ac_available_quote a, ac_frozen_quote a, ac_available_base a, ac_frozen_base a}. is_finite x \<and> 0 \<le> x)"

definition nonneg_balances :: "AccountSnapshot \<Rightarrow> bool" where
  "nonneg_balances a \<longleftrightarrow> 0 \<le> ac_available_quote a \<and> 0 \<le> ac_frozen_quote a \<and> 0 \<le> ac_available_base a \<and> 0 \<le> ac_frozen_base a"

lemma take_nonneg:
  assumes "is_finite x" "0 \<le> x" "not_nan d" "\<not> d \<le> 0" "\<not> x < d"
  shows "0 \<le> x - d \<and> 0 \<le> d"
proof -
  have "d \<le> x" using assms double_not_less [of x d] finite_not_nan by blast
  moreover have "0 \<le> d" using assms(3,4) double_linear [of d 0] double_less_imp_le finite_not_nan [of 0] by auto
  ultimately show ?thesis using diff_between [OF assms(1)] by blast
qed

lemma freeze_nonneg:
  assumes "funded a" "not_nan d" "\<not> d \<le> 0"
  shows "\<not> ac_available_quote a < d \<Longrightarrow>
      nonneg_balances (a\<lparr>ac_available_quote := ac_available_quote a - d, ac_frozen_quote := ac_frozen_quote a + d\<rparr>)"
    and "\<not> ac_available_base a < d \<Longrightarrow>
      nonneg_balances (a\<lparr>ac_available_base := ac_available_base a - d, ac_frozen_base := ac_frozen_base a + d\<rparr>)"
  using assms take_nonneg [OF _ _ assms(2,3)] add_nonneg by (auto simp: funded_def nonneg_balances_def)

lemma nonneg_upd:
  "\<lbrakk>\<forall>a \<in> ran m. nonneg_balances a; nonneg_balances b\<rbrakk> \<Longrightarrow> \<forall>a \<in> ran (m(k \<mapsto> b)). nonneg_balances a"
  by (auto simp: ran_def split: if_splits)

lemma buyer_leg_nonneg:
  assumes "funded b" "is_finite (sa_buyer_consumed_quote am)" "\<not> ac_frozen_quote b < sa_buyer_consumed_quote am" "0 < tf_quantity fill"
  shows "nonneg_balances (buyer_leg fill am b)"
proof -
  have "sa_buyer_consumed_quote am \<le> ac_frozen_quote b"
    using assms(1-3) double_not_less finite_not_nan unfolding funded_def by blast
  then show ?thesis using assms diff_nonneg [OF assms(2)] add_nonneg double_less_imp_le
    by (auto simp: nonneg_balances_def buyer_leg_def funded_def)
qed

lemma seller_leg_nonneg:
  assumes "nonneg_balances a" "is_finite (ac_frozen_base a)" "\<not> ac_frozen_base a < sa_seller_consumed_base am"
    "0 < sa_seller_consumed_base am" "is_finite (sa_seller_fee am)" "sa_seller_fee am \<le> sa_notional am"
  shows "nonneg_balances (seller_leg am a)"
proof -
  have "\<not> sa_seller_consumed_base am \<le> 0" using assms(4) by (metis double_le_less_trans double_less_irrefl)
  then have "0 \<le> ac_frozen_base a - sa_seller_consumed_base am"
    using take_nonneg [OF assms(2) _ _ _ assms(3)] assms(1) less_not_nan [OF assms(4)] by (auto simp: nonneg_balances_def)
  then show ?thesis using assms(1) add_nonneg diff_nonneg [OF assms(5,6)] by (auto simp: nonneg_balances_def seller_leg_def)
qed

lemma settlement_nonneg:
  assumes "am = calculate_settlement_amounts fill fees seller"
    "acc (tf_buyer_account_id fill) = Some buyer" "acc (tf_seller_account_id fill) = Some seller"
    "has_valid_trade_fill fill" "\<not> ac_frozen_quote buyer < sa_buyer_consumed_quote am"
    "\<not> ac_frozen_base seller < sa_seller_consumed_base am"
    "acc' = foldl post_to acc (settlement_entries fill am)"
    "\<forall>a \<in> ran acc. nonneg_balances a" "funded buyer" "funded seller"
    "is_finite (sa_notional am + sa_buyer_fee am)" "is_finite (sa_seller_fee am)" "sa_seller_fee am \<le> sa_notional am"
  shows "\<forall>a \<in> ran acc'. nonneg_balances a"
proof -
  let ?b = "tf_buyer_account_id fill" and ?a = "tf_seller_account_id fill"
  let ?x = "if ?a = ?b then buyer_leg fill am buyer else seller"
  have am: "sa_buyer_consumed_quote am = sa_notional am + sa_buyer_fee am" "sa_seller_consumed_base am = tf_quantity fill"
    using assms(1) by simp_all
  have qty: "0 < tf_quantity fill" using assms(4) by (simp add: has_valid_trade_fill_def)
  have acc': "acc' = acc(?b \<mapsto> buyer_leg fill am buyer, ?a \<mapsto> seller_leg am ?x)"
    using assms(2,3,7) settle_legs_post [OF am, of "undefined\<lparr>cl_accounts := acc\<rparr>"] by (auto simp: update_account_def)
  have b: "nonneg_balances (buyer_leg fill am buyer)"
    using buyer_leg_nonneg [OF assms(9) _ assms(5) qty] assms(11) am(1) by simp
  then have "nonneg_balances ?x" "ac_frozen_base ?x = ac_frozen_base seller"
    using assms(2,3,10) by (auto simp: buyer_leg_def funded_def nonneg_balances_def)
  then have "nonneg_balances (seller_leg am ?x)"
    using seller_leg_nonneg [OF _ _ _ _ assms(12,13), of ?x] assms(6,10) qty am(2) by (simp add: funded_def)
  then show ?thesis unfolding acc' using assms(8) b by (intro nonneg_upd)
qed

section \<open>A small system\<close>

definition demo_account :: AccountSnapshot where
  "demo_account = \<lparr>ac_available_quote = dint 1000, ac_frozen_quote = 0, ac_available_base = dint 5, ac_frozen_base = 0,
     ac_base_cost = dint 300, ac_realized_pnl = 0\<rparr>"

lemma demo_system:
  obtains s0 where "new_AccountClearingSystem 152 = Inr s0" "journal_inv (open_accounts [(''alice'', demo_account)] s0)"
    "cl_accounts (open_accounts [(''alice'', demo_account)] s0) = [''alice'' \<mapsto> demo_account]"
    "cl_holds (open_accounts [(''alice'', demo_account)] s0) = Map.empty"
proof -
  obtain s0 where s0: "new_AccountClearingSystem 152 = Inr s0" "cl_accounts s0 = Map.empty" "cl_holds s0 = Map.empty"
    by (auto simp: new_AccountClearingSystem_def new_ObjectPool_def new_FixedBlockPool_def)
  moreover have "journal_inv s0" using new_system_inv [OF s0(1)] by (simp add: max_def)
  ultimately show thesis using that [OF s0(1)] open_accounts_inv [of "[(''alice'', demo_account)]" s0]
    by (simp add: open_accounts_def upsert_account_def)
qed

lemma demo_whole: "whole_account demo_account" "funded demo_account"
  by (auto simp: whole_account_def demo_account_def funded_def)

lemma demo_freeze:
  obtains s0 s where "new_AccountClearingSystem 152 = Inr s0"
    "freeze_quote ''alice'' ''h'' (dint 400) 1 (open_accounts [(''alice'', demo_account)] s0) = Inr (kApplied, s)"
    "hold_amount ''h'' s = Some (dint 400)" "journal_inv (open_accounts [(''alice'', demo_account)] s0)"
    "cl_accounts (open_accounts [(''alice'', demo_account)] s0) = [''alice'' \<mapsto> demo_account]"
proof (rule demo_system)
  fix s0
  assume s0: "new_AccountClearingSystem 152 = Inr s0" "journal_inv (open_accounts [(''alice'', demo_account)] s0)"
    "cl_accounts (open_accounts [(''alice'', demo_account)] s0) = [''alice'' \<mapsto> demo_account]"
    "cl_holds (open_accounts [(''alice'', demo_account)] s0) = Map.empty"
  have "\<not> dint 400 \<le> 0" "\<not> ac_available_quote demo_account < dint 400" by (simp_all add: demo_account_def)
  with freeze_quote_succeeds [OF s0(2), of "''alice''" demo_account "dint 400" "''h''" 1] s0(3,4) obtain s where
    "freeze_quote ''alice'' ''h'' (dint 400) 1 (open_accounts [(''alice'', demo_account)] s0) = Inr (kApplied, s)"
    "cl_holds s ''h'' = Some \<lparr>hr_account_id = ''alice'', hr_asset = kQuote, hr_amount = dint 400\<rparr>" by auto
  then show thesis using that s0 by (simp add: hold_amount_def)
qed

text \<open>A trade of two units at 100 between two such accounts, with the quote and the base frozen for it. What the settlement does depends
  on the fee schedule.\<close>

definition demo_fill :: TradeFill where
  "demo_fill = \<lparr>tf_trade_id = ''t1'', tf_symbol = ''BTC'', tf_buyer_account_id = ''alice'', tf_seller_account_id = ''bob'', tf_buyer_hold_id = ''h1'',
     tf_seller_hold_id = ''h2'', tf_price = dint 100, tf_quantity = dint 2, tf_buyer_is_taker = True, tf_timestamp_ms = 3\<rparr>"

definition demo_fees :: "int \<Rightarrow> FeeSchedule" where
  "demo_fees maker_bps = \<lparr>fs_maker_fee_bps = dint maker_bps, fs_taker_fee_bps = dint 200\<rparr>"

abbreviation demo_bobs :: "AccountSnapshot" where
  "demo_bobs \<equiv> demo_account\<lparr>ac_available_base := dint 3, ac_frozen_base := dint 2\<rparr>"

lemma demo_amounts:
  assumes "maker_bps = 100 \<or> maker_bps = 1000000" "am = calculate_settlement_amounts demo_fill (demo_fees maker_bps) demo_bobs"
  shows "sa_notional am = dint 200" "sa_buyer_fee am = dint 4" "sa_seller_fee am = dint (maker_bps div 50)"
proof -
  have "sa_notional am = dint 100 * dint 2" "sa_buyer_fee am = dint 100 * dint 2 * dint 200 / dint 10000"
    "sa_seller_fee am = dint 100 * dint 2 * dint maker_bps / dint 10000"
    unfolding assms(2) calculate_settlement_amounts_def Let_def fee_amount_def demo_fill_def demo_fees_def by simp_all
  then show "sa_notional am = dint 200" "sa_buyer_fee am = dint 4" "sa_seller_fee am = dint (maker_bps div 50)"
    using assms(1) by auto
qed

lemma demo_frozen:
  obtains s0 s where "new_AccountClearingSystem 152 = Inr s0"
    "clearing_step\<^sup>*\<^sup>* (open_accounts [(''alice'', demo_account), (''bob'', demo_account)] s0) s" "journal_inv s"
    "cl_accounts s = [''alice'' \<mapsto> demo_account\<lparr>ac_available_quote := dint 600, ac_frozen_quote := dint 400\<rparr>, ''bob'' \<mapsto> demo_bobs]"
    "cl_holds s ''h1'' = Some \<lparr>hr_account_id = ''alice'', hr_asset = kQuote, hr_amount = dint 400\<rparr>"
    "cl_holds s ''h2'' = Some \<lparr>hr_account_id = ''bob'', hr_asset = kBase, hr_amount = dint 2\<rparr>"
    "tf_trade_id demo_fill \<notin> cl_settled_trade_ids s"
proof -
  let ?bs = "[(''alice'', demo_account), (''bob'', demo_account)]"
  obtain s0 where s0: "new_AccountClearingSystem 152 = Inr s0" "cl_accounts s0 = Map.empty" "cl_holds s0 = Map.empty"
    "cl_settled_trade_ids s0 = {}"
    by (auto simp: new_AccountClearingSystem_def new_ObjectPool_def new_FixedBlockPool_def)
  let ?s = "open_accounts ?bs s0"
  have start: "journal_inv ?s" "cl_accounts ?s = [''alice'' \<mapsto> demo_account, ''bob'' \<mapsto> demo_account]" "cl_holds ?s = Map.empty"
    "cl_settled_trade_ids ?s = {}"
    using open_accounts_inv [of ?bs s0] new_system_inv [OF s0(1)] s0 by (simp_all add: open_accounts_def upsert_account_def max_def)
  obtain s1 where s1: "freeze_quote ''alice'' ''h1'' (dint 400) 1 ?s = Inr (kApplied, s1)" "journal_inv s1"
    "cl_accounts s1 = [''alice'' \<mapsto> demo_account\<lparr>ac_available_quote := dint 600, ac_frozen_quote := dint 400\<rparr>, ''bob'' \<mapsto> demo_account]"
    "cl_holds s1 = [''h1'' \<mapsto> \<lparr>hr_account_id = ''alice'', hr_asset = kQuote, hr_amount = dint 400\<rparr>]"
    using freeze_quote_succeeds [OF start(1), of "''alice''" demo_account "dint 400" "''h1''" 1] start(2,3)
    by (auto simp: demo_account_def fun_upd_twist)
  obtain s2 where s2: "freeze_base ''bob'' ''h2'' (dint 2) 2 s1 = Inr (kApplied, s2)" "journal_inv s2"
    "cl_accounts s2 = (cl_accounts s1)(''bob'' \<mapsto> demo_bobs)"
    "cl_holds s2 = (cl_holds s1)(''h2'' \<mapsto> \<lparr>hr_account_id = ''bob'', hr_asset = kBase, hr_amount = dint 2\<rparr>)"
    using freeze_base_succeeds [OF s1(2), of "''bob''" demo_account "dint 2" "''h2''" 2] s1(3,4) by (auto simp: demo_account_def)
  have run: "clearing_step\<^sup>*\<^sup>* ?s s2"
    using step_freeze_quote [OF s1(1)] step_freeze_base [OF s2(1)] by (meson r_into_rtranclp rtranclp_trans)
  have "cl_settled_trade_ids s2 = {}"
    using posts_settled [OF freeze_quote_posts [OF start(1), of "dint 400" "''alice''" "''h1''" 1, unfolded s1(1)]]
      posts_settled [OF freeze_base_posts [OF s1(2), of "dint 2" "''bob''" "''h2''" 2, unfolded s2(1)]] start(4) by simp
  then show thesis using that [OF s0(1) run s2(2)] s2(3,4) s1(3,4) by simp
qed

lemma demo_settled:
  assumes "journal_inv s" "tf_trade_id demo_fill \<notin> cl_settled_trade_ids s"
    "cl_accounts s = [''alice'' \<mapsto> demo_account\<lparr>ac_available_quote := dint 600, ac_frozen_quote := dint 400\<rparr>, ''bob'' \<mapsto> demo_bobs]"
    "cl_holds s ''h1'' = Some \<lparr>hr_account_id = ''alice'', hr_asset = kQuote, hr_amount = dint 400\<rparr>"
    "cl_holds s ''h2'' = Some \<lparr>hr_account_id = ''bob'', hr_asset = kBase, hr_amount = dint 2\<rparr>"
    "maker_bps = 100 \<or> maker_bps = 1000000"
  obtains r s' where "settle_spot_trade demo_fill (demo_fees maker_bps) s = Inr (r, s')" "sr_status r = kApplied"
    "map_option ac_available_quote (cl_accounts s' ''bob'') = Some (dint (1200 - maker_bps div 50))"
    "map_option ac_frozen_quote (cl_accounts s' ''alice'') = Some (dint 196)"
    "sr_notional r = dint 200" "sr_buyer_fee r = dint 4" "sr_seller_fee r = dint (maker_bps div 50)"
proof -
  define am where "am = calculate_settlement_amounts demo_fill (demo_fees maker_bps) demo_bobs"
  have am: "sa_notional am = dint 200" "sa_buyer_fee am = dint 4" "sa_seller_fee am = dint (maker_bps div 50)"
    using demo_amounts [OF assms(6) am_def] by auto
  have cons: "sa_buyer_consumed_quote am = dint 204" "sa_seller_consumed_base am = dint 2"
    using am by (simp_all add: am_def demo_fill_def)
  have valid: "has_valid_trade_fill demo_fill" by (simp add: has_valid_trade_fill_def demo_fill_def)
  from settle_succeeds [OF assms(1,2) valid _ _ am_def] assms(3-5) cons obtain s' where
    "settle_spot_trade demo_fill (demo_fees maker_bps) s = Inr (\<lparr>sr_status = kApplied, sr_notional = sa_notional am,
        sr_buyer_fee = sa_buyer_fee am, sr_seller_fee = sa_seller_fee am, sr_seller_realized_pnl = sa_seller_realized_pnl am\<rparr>, s')"
    "cl_accounts s' = foldl post_to (cl_accounts s) (settlement_entries demo_fill am)"
    by (auto simp: demo_fill_def hold_insufficient_def)
  then show thesis using that am assms(3,6)
    by (auto simp: settlement_entries_def post_to_def post_def demo_fill_def demo_account_def)
qed

section \<open>Properties\<close>

text \<open>C23: The journal is a complete record. Start a system, open any accounts and run any operations: the snapshot of
  every account is its opening balance with the entries of its journal added in order, field by field and in the very floating-point
  arithmetic of the program. No journal pointer dangles.\<close>

theorem journal_replays_to_balances:
  assumes "new_AccountClearingSystem sz = Inr s0" "unat (max sz 8) * 512 < 2 ^ 64"
    and "clearing_step\<^sup>*\<^sup>* (open_accounts balances s0) s"
  shows "\<exists>es. cl_journal aid s = Some es \<and>
    cl_account aid s = map_option (\<lambda>opening. foldl post opening es) (cl_account aid (open_accounts balances s0))"
proof -
  let ?s = "open_accounts balances s0"
  have inv: "journal_inv ?s" "outbox_inv ?s" "entries ?s = (\<lambda>_. [])"
    using new_system_inv [OF assms(1,2)] open_accounts_inv [of balances s0] by auto
  from clearing_run_posts [OF assms(3) inv(1,2)] obtain es where "posted es ?s s" "journal_inv s" by blast
  then show ?thesis using inv(3) cl_journal_entries [of s aid]
    by (intro exI [of _ "entries s aid"]) (simp add: cl_account_def posted_def foldl_post_to)
qed

theorem journal_replays_to_balances_witness:
  "\<exists>s0 s es. new_AccountClearingSystem 152 = Inr s0 \<and> clearing_step\<^sup>*\<^sup>* (open_accounts [(''alice'', demo_account)] s0) s \<and>
     hold_amount ''h'' s = Some (dint 400) \<and>
     cl_journal ''alice'' s = Some es \<and> cl_account ''alice'' s = Some (foldl post demo_account es)"
proof -
  obtain s0 s where s0: "new_AccountClearingSystem 152 = Inr s0"
    and s: "freeze_quote ''alice'' ''h'' (dint 400) 1 (open_accounts [(''alice'', demo_account)] s0) = Inr (kApplied, s)"
    "hold_amount ''h'' s = Some (dint 400)"
    and acc: "cl_accounts (open_accounts [(''alice'', demo_account)] s0) = [''alice'' \<mapsto> demo_account]"
    by (rule demo_freeze)
  let ?s = "open_accounts [(''alice'', demo_account)] s0"
  from s have "clearing_step\<^sup>*\<^sup>* ?s s" by (blast intro: clearing_step.intros)
  moreover have "unat (max (152 :: u64) 8) * 512 < 2 ^ 64" by (simp add: max_def)
  ultimately show ?thesis using journal_replays_to_balances [OF s0, of "[(''alice'', demo_account)]" s "''alice''"] s0 s acc
    by (auto simp: cl_account_def)
qed

text \<open>C26: No operation of a consistent system throws or runs off a hold iterator, and operations are atomic: a status other
  than applied leaves the state as it was.\<close>

theorem clearing_operations_atomic:
  assumes "journal_inv s"
  shows "(\<exists>status s'. freeze_quote aid hid amount time s = Inr (status, s') \<and> (status \<noteq> kApplied \<longrightarrow> s' = s)) \<and>
    (\<exists>status s'. freeze_base aid hid amount time s = Inr (status, s') \<and> (status \<noteq> kApplied \<longrightarrow> s' = s)) \<and>
    (\<exists>status s'. release_hold hid time s = Inr (status, s') \<and> (status \<noteq> kApplied \<longrightarrow> s' = s)) \<and>
    (\<exists>r s'. settle_spot_trade fill fees s = Inr (r, s') \<and> (sr_status r \<noteq> kApplied \<longrightarrow> s' = s))"
proof -
  have "\<exists>r s'. settle_spot_trade fill fees s = Inr (r, s') \<and> (sr_status r \<noteq> kApplied \<longrightarrow> s' = s)"
    by (cases rule: settle_spot_trade_cases [OF assms, of fill fees]) auto
  then show ?thesis
    using freeze_quote_posts [OF assms] freeze_base_posts [OF assms] release_hold_posts [OF assms]
    unfolding posts_or_nothing_def by metis
qed

theorem clearing_operations_atomic_witness:
  "\<exists>s. journal_inv s \<and> release_hold ''none'' 1 s = Inr (kHoldNotFound, s) \<and>
     (\<exists>status s'. freeze_quote ''alice'' ''h'' (dint 5000) 1 s = Inr (status, s') \<and> status = kInsufficientQuoteBalance \<and> s' = s)"
proof -
  obtain s where s: "journal_inv s" "cl_accounts s = [''alice'' \<mapsto> demo_account]" "cl_holds s = Map.empty"
    by (rule demo_system) blast
  from clearing_operations_atomic [OF s(1), of "''alice''" "''h''" "dint 5000" 1] s show ?thesis
    by (intro exI [of _ s]) (auto simp: freeze_quote_def release_hold_def demo_account_def)
qed

text \<open>C24: Settlement exactly once. In every run each settled trade has exactly one outbox message and settled trades stay
  settled; settling a trade again reports a duplicate and changes nothing; a settlement that is applied was not settled before and
  appends its one pending message.\<close>

theorem settlement_exactly_once:
  assumes "new_AccountClearingSystem sz = Inr s0" "unat (max sz 8) * 512 < 2 ^ 64"
    and "clearing_step\<^sup>*\<^sup>* (open_accounts balances s0) s" and "clearing_step\<^sup>*\<^sup>* s s'"
  shows "distinct (map om_id (cl_outbox s)) \<and> set (map om_id (cl_outbox s)) = cl_settled_trade_ids s \<and>
    cl_settled_trade_ids s \<subseteq> cl_settled_trade_ids s' \<and>
    (tf_trade_id fill \<in> cl_settled_trade_ids s \<longrightarrow> settle_spot_trade fill fees s' = Inr (settlement_status kDuplicate, s')) \<and>
    (\<forall>r s1. settle_spot_trade fill fees s = Inr (r, s1) \<and> sr_status r = kApplied \<longrightarrow>
       tf_trade_id fill \<notin> cl_settled_trade_ids s \<and> cl_outbox s1 = cl_outbox s @ [settlement_message fill] \<and>
       tf_trade_id fill \<in> cl_settled_trade_ids s1)"
proof -
  have "journal_inv s" "outbox_inv s"
    using clearing_run_posts [OF assms(3)] new_system_inv [OF assms(1,2)] open_accounts_inv [of balances s0] by auto
  moreover from this have "cl_settled_trade_ids s \<subseteq> cl_settled_trade_ids s'" using clearing_run_posts [OF assms(4)] by blast
  moreover have "tf_trade_id fill \<notin> cl_settled_trade_ids s \<and> cl_outbox s1 = cl_outbox s @ [settlement_message fill] \<and>
      tf_trade_id fill \<in> cl_settled_trade_ids s1"
    if "settle_spot_trade fill fees s = Inr (r, s1)" "sr_status r = kApplied" for r s1
    using that by (cases rule: settle_spot_trade_cases [OF \<open>journal_inv s\<close>, of fill fees]) (auto simp: settlement_status_def)
  moreover have "settle_spot_trade fill fees s' = Inr (settlement_status kDuplicate, s')"
    if "tf_trade_id fill \<in> cl_settled_trade_ids s'" using that by (simp add: settle_spot_trade_def)
  ultimately show ?thesis unfolding outbox_inv_def by blast
qed

theorem settlement_exactly_once_witness:
  "\<exists>s0 s r s1. new_AccountClearingSystem 152 = Inr s0 \<and>
     clearing_step\<^sup>*\<^sup>* (open_accounts [(''alice'', demo_account), (''bob'', demo_account)] s0) s \<and>
     settle_spot_trade demo_fill (demo_fees 100) s = Inr (r, s1) \<and> sr_status r = kApplied \<and>
     ''t1'' \<notin> cl_settled_trade_ids s \<and> ''t1'' \<in> cl_settled_trade_ids s1 \<and> cl_outbox s1 = cl_outbox s @ [settlement_message demo_fill] \<and>
     settle_spot_trade demo_fill (demo_fees 100) s1 = Inr (settlement_status kDuplicate, s1)"
proof -
  let ?bs = "[(''alice'', demo_account), (''bob'', demo_account)]"
  obtain s0 s where s0: "new_AccountClearingSystem 152 = Inr s0" and run: "clearing_step\<^sup>*\<^sup>* (open_accounts ?bs s0) s"
    and s: "journal_inv s" "tf_trade_id demo_fill \<notin> cl_settled_trade_ids s"
    "cl_accounts s = [''alice'' \<mapsto> demo_account\<lparr>ac_available_quote := dint 600, ac_frozen_quote := dint 400\<rparr>, ''bob'' \<mapsto> demo_bobs]"
    "cl_holds s ''h1'' = Some \<lparr>hr_account_id = ''alice'', hr_asset = kQuote, hr_amount = dint 400\<rparr>"
    "cl_holds s ''h2'' = Some \<lparr>hr_account_id = ''bob'', hr_asset = kBase, hr_amount = dint 2\<rparr>" by (rule demo_frozen)
  obtain r s1 where r: "settle_spot_trade demo_fill (demo_fees 100) s = Inr (r, s1)" "sr_status r = kApplied"
    by (rule demo_settled [OF s, of 100]) auto
  have slab: "unat (max (152 :: u64) 8) * 512 < 2 ^ 64" by (simp add: max_def)
  have run1: "clearing_step\<^sup>*\<^sup>* (open_accounts ?bs s0) s1" using run step_settle [OF r(1)] by (rule rtranclp.rtrancl_into_rtrancl)
  have first: "''t1'' \<notin> cl_settled_trade_ids s" "''t1'' \<in> cl_settled_trade_ids s1" "cl_outbox s1 = cl_outbox s @ [settlement_message demo_fill]"
  proof -
    have id: "tf_trade_id demo_fill = ''t1''" by (simp add: demo_fill_def)
    show "''t1'' \<notin> cl_settled_trade_ids s" "''t1'' \<in> cl_settled_trade_ids s1" "cl_outbox s1 = cl_outbox s @ [settlement_message demo_fill]"
      using settlement_exactly_once [OF s0 slab run rtranclp.rtrancl_refl, of demo_fill "demo_fees 100"] r unfolding id by blast+
  qed
  have "settle_spot_trade demo_fill (demo_fees 100) s1 = Inr (settlement_status kDuplicate, s1)"
    using settlement_exactly_once [OF s0 slab run1 rtranclp.rtrancl_refl, of demo_fill "demo_fees 100"] first(2) by (simp add: demo_fill_def)
  then show ?thesis using s0 run r first by blast
qed

text \<open>C25: Money and positions are conserved. While balances and amounts are whole numbers of units below two to the 52,
  freezing and releasing change neither total, and a settlement lowers the total of the quote asset by exactly the two fees and keeps
  the total of the base asset, also when buyer and seller are one account.\<close>

theorem clearing_conserves:
  assumes "journal_inv s" "finite (dom (cl_accounts s))" "\<forall>a \<in> ran (cl_accounts s). whole_account a"
  shows "(whole_units amount \<and> freeze_quote aid hid amount time s = Inr (status, s') \<longrightarrow>
      total_quote (cl_accounts s') = total_quote (cl_accounts s) \<and> total_base (cl_accounts s') = total_base (cl_accounts s)) \<and>
    (whole_units amount \<and> freeze_base aid hid amount time s = Inr (status, s') \<longrightarrow>
      total_quote (cl_accounts s') = total_quote (cl_accounts s) \<and> total_base (cl_accounts s') = total_base (cl_accounts s)) \<and>
    ((\<forall>h. cl_holds s hid = Some h \<longrightarrow> whole_units (hr_amount h)) \<and> release_hold hid time s = Inr (status, s') \<longrightarrow>
      total_quote (cl_accounts s') = total_quote (cl_accounts s) \<and> total_base (cl_accounts s') = total_base (cl_accounts s)) \<and>
    (settle_spot_trade fill fees s = Inr (r, s') \<and> sr_status r = kApplied \<and> whole_units (tf_quantity fill) \<and> whole_units (sr_notional r) \<and>
       whole_units (sr_buyer_fee r) \<and> whole_units (sr_seller_fee r) \<and> whole_units (sr_notional r + sr_buyer_fee r) \<and>
       whole_units (sr_notional r - sr_seller_fee r) \<longrightarrow>
      total_quote (cl_accounts s') = total_quote (cl_accounts s) - val (sr_buyer_fee r) - val (sr_seller_fee r) \<and>
      total_base (cl_accounts s') = total_base (cl_accounts s))"
    (is "?fq \<and> ?fb \<and> ?rel \<and> ?settle")
proof -
  note conserve = posts_conserve [OF _ _ assms(2,3)]
  have ?fq using conserve [of amount] freeze_quote_posts [OF assms(1), of amount aid hid time] by (auto simp del: fun_upd_apply)
  moreover have ?fb using conserve [of amount] freeze_base_posts [OF assms(1), of amount aid hid time] by (auto simp del: fun_upd_apply)
  moreover have ?rel
  proof (intro impI)
    assume "(\<forall>h. cl_holds s hid = Some h \<longrightarrow> whole_units (hr_amount h)) \<and> release_hold hid time s = Inr (status, s')"
    then have "whole_units (case cl_holds s hid of None \<Rightarrow> 0 | Some h \<Rightarrow> hr_amount h)" "release_hold hid time s = Inr (status, s')"
      by (simp_all split: option.split)
    then show "total_quote (cl_accounts s') = total_quote (cl_accounts s) \<and> total_base (cl_accounts s') = total_base (cl_accounts s)"
      using conserve release_hold_posts [OF assms(1), of hid time] by metis
  qed
  moreover have ?settle
  proof (cases rule: settle_spot_trade_cases [OF assms(1), of fill fees, consumes 0, case_names rejected applied])
    case (applied buyer seller am s1)
    have "whole_account buyer" "whole_account seller" using assms(3) applied(3,4) by (auto simp: ran_def)
    note totals = settlement_conserves_totals [OF assms(2) applied(3,4) this, of am]
    have "val (x - y) = val x - val y" if "whole_units x" "whole_units y" for x y
      using val_add_whole [of x "- y"] that by (simp add: double_minus_eq val_minus_whole)
    then show ?thesis using totals applied(2,9) val_add_whole by (auto simp: posted_def)
  qed (auto simp: settlement_status_def)
  ultimately show ?thesis by blast
qed

theorem clearing_conserves_witness:
  "\<exists>s s'. freeze_quote ''alice'' ''h'' (dint 400) 1 s = Inr (kApplied, s') \<and> cl_accounts s = [''alice'' \<mapsto> demo_account] \<and>
     total_quote (cl_accounts s') = total_quote (cl_accounts s)"
proof -
  obtain s s' where r: "freeze_quote ''alice'' ''h'' (dint 400) 1 s = Inr (kApplied, s')" and inv: "journal_inv s"
    and acc: "cl_accounts s = [''alice'' \<mapsto> demo_account]"
    by (rule demo_freeze)
  have "whole_units (dint 400)" by simp
  with clearing_conserves [OF inv, of "dint 400" "''alice''" "''h''" 1 kApplied s'] r acc demo_whole(1)
  show ?thesis by (intro exI [of _ s] exI [of _ s']) simp
qed

text \<open>C27: When freezing and settling do not overdraw. From finite, non-negative balances no balance becomes negative, provided a
  frozen amount is a number and a settlement's fees are finite and the seller's fee does not exceed the notional. The code checks none
  of these three: \<open>freeze_accepts_nan\<close> and \<open>seller_fee_overdraws\<close> below show what happens without them.\<close>

theorem clearing_no_overdraft:
  assumes "journal_inv s" "\<forall>a \<in> ran (cl_accounts s). funded a"
  shows "(not_nan amount \<and> freeze_quote aid hid amount time s = Inr (status, s') \<longrightarrow> (\<forall>a \<in> ran (cl_accounts s'). nonneg_balances a)) \<and>
    (not_nan amount \<and> freeze_base aid hid amount time s = Inr (status, s') \<longrightarrow> (\<forall>a \<in> ran (cl_accounts s'). nonneg_balances a)) \<and>
    (settle_spot_trade fill fees s = Inr (r, s') \<and> is_finite (sr_notional r + sr_buyer_fee r) \<and> is_finite (sr_seller_fee r) \<and>
       sr_seller_fee r \<le> sr_notional r \<longrightarrow> (\<forall>a \<in> ran (cl_accounts s'). nonneg_balances a))"
    (is "?fq \<and> ?fb \<and> ?settle")
proof -
  have nonneg: "\<forall>a \<in> ran (cl_accounts s). nonneg_balances a" using assms(2) by (auto simp: funded_def nonneg_balances_def)
  have funded: "funded a" if "cl_accounts s x = Some a" for x a using assms(2) that by (auto simp: ran_def)
  have ?fq
  proof (intro impI)
    assume *: "not_nan amount \<and> freeze_quote aid hid amount time s = Inr (status, s')"
    from * freeze_quote_effect [of aid hid amount time s status s'] show "\<forall>a \<in> ran (cl_accounts s'). nonneg_balances a"
      using nonneg_upd [OF nonneg freeze_nonneg(1) [OF funded]] nonneg by metis
  qed
  moreover have ?fb
  proof (intro impI)
    assume *: "not_nan amount \<and> freeze_base aid hid amount time s = Inr (status, s')"
    from * freeze_base_effect [of aid hid amount time s status s'] show "\<forall>a \<in> ran (cl_accounts s'). nonneg_balances a"
      using nonneg_upd [OF nonneg freeze_nonneg(2) [OF funded]] nonneg by metis
  qed
  moreover have ?settle
  proof (cases rule: settle_spot_trade_cases [OF assms(1), of fill fees, consumes 0, case_names rejected applied])
    case (rejected status)
    then show ?thesis using nonneg by auto
  next
    case (applied buyer seller am s1)
    then show ?thesis
      using settlement_nonneg [OF applied(1,3-7) applied(9) [unfolded posted_def, THEN conjunct1] nonneg] funded by auto
  qed
  ultimately show ?thesis by blast
qed

theorem clearing_no_overdraft_witness:
  "\<exists>s s'. freeze_quote ''alice'' ''h'' (dint 400) 1 s = Inr (kApplied, s') \<and> cl_accounts s = [''alice'' \<mapsto> demo_account] \<and>
     (\<forall>a \<in> ran (cl_accounts s'). nonneg_balances a)"
proof -
  obtain s s' where r: "freeze_quote ''alice'' ''h'' (dint 400) 1 s = Inr (kApplied, s')" and inv: "journal_inv s"
    and acc: "cl_accounts s = [''alice'' \<mapsto> demo_account]"
    by (rule demo_freeze)
  have "not_nan (dint 400)" by (rule finite_not_nan) simp
  with clearing_no_overdraft [OF inv, of "dint 400" "''alice''" "''h''" 1 kApplied s'] r acc demo_whole(2)
  show ?thesis by (intro exI [of _ s] exI [of _ s']) simp
qed

text \<open>\<open>settle_spot_trade\<close> checks the buyer's quote and the seller's base, not that the notional covers the seller's fee: with a fee of a
  hundred times the notional the settlement is applied and leaves the seller's available quote balance negative.\<close>

theorem seller_fee_overdraws:
  "\<exists>s0 s r s1 a. new_AccountClearingSystem 152 = Inr s0 \<and>
     clearing_step\<^sup>*\<^sup>* (open_accounts [(''alice'', demo_account), (''bob'', demo_account)] s0) s \<and>
     settle_spot_trade demo_fill (demo_fees 1000000) s = Inr (r, s1) \<and> sr_status r = kApplied \<and>
     cl_account ''bob'' s1 = Some a \<and> ac_available_quote a = dint (- 18800) \<and> \<not> reconcile_account ''bob'' s1"
proof -
  obtain s0 s where s0: "new_AccountClearingSystem 152 = Inr s0"
    and run: "clearing_step\<^sup>*\<^sup>* (open_accounts [(''alice'', demo_account), (''bob'', demo_account)] s0) s"
    and s: "journal_inv s" "tf_trade_id demo_fill \<notin> cl_settled_trade_ids s"
    "cl_accounts s = [''alice'' \<mapsto> demo_account\<lparr>ac_available_quote := dint 600, ac_frozen_quote := dint 400\<rparr>, ''bob'' \<mapsto> demo_bobs]"
    "cl_holds s ''h1'' = Some \<lparr>hr_account_id = ''alice'', hr_asset = kQuote, hr_amount = dint 400\<rparr>"
    "cl_holds s ''h2'' = Some \<lparr>hr_account_id = ''bob'', hr_asset = kBase, hr_amount = dint 2\<rparr>" by (rule demo_frozen)
  obtain r s1 where r: "settle_spot_trade demo_fill (demo_fees 1000000) s = Inr (r, s1)" "sr_status r = kApplied"
    and "map_option ac_available_quote (cl_accounts s1 ''bob'') = Some (dint (- 18800))"
    by (rule demo_settled [OF s, of 1000000]) auto
  then obtain a where "cl_account ''bob'' s1 = Some a" "ac_available_quote a = dint (- 18800)" by (auto simp: cl_account_def)
  moreover from this have "\<not> reconcile_account ''bob'' s1" by (simp add: reconcile_account_def)
  ultimately show ?thesis using s0 run r by blast
qed

text \<open>Releasing every hold need not bring the frozen balance back to zero: it can become negative. After freezing 0.1 and
  0.7 and releasing 0.7 and 0.1, all applied, the frozen balance is below zero by rounding, and the reconciliation of the account fails.\<close>

theorem release_can_overdraw_frozen:
  "\<exists>s0 s1 s2 s3 s4. new_AccountClearingSystem 152 = Inr s0 \<and>
     freeze_quote ''alice'' ''h1'' (dbl (1 / 10)) 1 (open_accounts [(''alice'', demo_account)] s0) = Inr (kApplied, s1) \<and>
     freeze_quote ''alice'' ''h2'' (dbl (7 / 10)) 2 s1 = Inr (kApplied, s2) \<and>
     release_hold ''h2'' 3 s2 = Inr (kApplied, s3) \<and> release_hold ''h1'' 4 s3 = Inr (kApplied, s4) \<and>
     \<not> reconcile_account ''alice'' s4"
proof -
  let ?x = "dbl (1 / 10)" and ?y = "dbl (7 / 10)"
  obtain s0 where s0: "new_AccountClearingSystem 152 = Inr s0" "journal_inv (open_accounts [(''alice'', demo_account)] s0)"
    "cl_accounts (open_accounts [(''alice'', demo_account)] s0) = [''alice'' \<mapsto> demo_account]"
    "cl_holds (open_accounts [(''alice'', demo_account)] s0) = Map.empty" by (rule demo_system)
  have num: "\<not> ?x \<le> 0" "\<not> ?y \<le> 0" "\<not> dint 1000 < ?x" "\<not> dint 1000 - ?x < ?y" "\<not> 0 \<le> 0 + ?x + ?y - ?y - ?x"
    by code_simp+
  obtain s1 where s1: "freeze_quote ''alice'' ''h1'' ?x 1 (open_accounts [(''alice'', demo_account)] s0) = Inr (kApplied, s1)"
    "journal_inv s1" "cl_accounts s1 = [''alice'' \<mapsto> demo_account\<lparr>ac_available_quote := dint 1000 - ?x, ac_frozen_quote := 0 + ?x\<rparr>]"
    "cl_holds s1 = [''h1'' \<mapsto> \<lparr>hr_account_id = ''alice'', hr_asset = kQuote, hr_amount = ?x\<rparr>]"
    using freeze_quote_succeeds [OF s0(2), of "''alice''" demo_account ?x "''h1''" 1] s0(3,4) num(1,3) by (auto simp: demo_account_def)
  let ?a1 = "demo_account\<lparr>ac_available_quote := dint 1000 - ?x, ac_frozen_quote := 0 + ?x\<rparr>"
  let ?a2 = "?a1\<lparr>ac_available_quote := dint 1000 - ?x - ?y, ac_frozen_quote := 0 + ?x + ?y\<rparr>"
  let ?a3 = "?a2\<lparr>ac_frozen_quote := 0 + ?x + ?y - ?y, ac_available_quote := dint 1000 - ?x - ?y + ?y\<rparr>"
  obtain s2 where s2: "freeze_quote ''alice'' ''h2'' ?y 2 s1 = Inr (kApplied, s2)" "journal_inv s2"
    "cl_accounts s2 = [''alice'' \<mapsto> ?a2]" "cl_holds s2 ''h1'' = Some \<lparr>hr_account_id = ''alice'', hr_asset = kQuote, hr_amount = ?x\<rparr>"
    "cl_holds s2 ''h2'' = Some \<lparr>hr_account_id = ''alice'', hr_asset = kQuote, hr_amount = ?y\<rparr>"
    using freeze_quote_succeeds [OF s1(2), of "''alice''" ?a1 ?y "''h2''" 2] s1(3,4) num(2,4) by auto
  obtain s3 where s3: "release_hold ''h2'' 3 s2 = Inr (kApplied, s3)" "journal_inv s3" "cl_accounts s3 = [''alice'' \<mapsto> ?a3]"
    "cl_holds s3 ''h1'' = Some \<lparr>hr_account_id = ''alice'', hr_asset = kQuote, hr_amount = ?x\<rparr>"
    using release_quote_succeeds [OF s2(2,5), of ?a2 3] s2(3,4) by auto
  obtain s4 where s4: "release_hold ''h1'' 4 s3 = Inr (kApplied, s4)"
    "cl_accounts s4 = [''alice'' \<mapsto> ?a3\<lparr>ac_frozen_quote := 0 + ?x + ?y - ?y - ?x,
       ac_available_quote := dint 1000 - ?x - ?y + ?y + ?x\<rparr>]"
    using release_quote_succeeds [OF s3(2,4), of ?a3 4] s3(3) by auto
  have "\<not> reconcile_account ''alice'' s4" using s4(2) num(5) by (simp add: reconcile_account_def cl_account_def)
  then show ?thesis using s0(1) s1(1) s2(1) s3(1) s4(1) by blast
qed

text \<open>A NaN passes the checks of \<open>freeze_quote\<close>, because both comparisons with it are false: the freeze is applied
  and the account's available balance is NaN from then on.\<close>

theorem freeze_accepts_nan:
  "\<exists>s0 s1 a. new_AccountClearingSystem 152 = Inr s0 \<and>
     freeze_quote ''alice'' ''h'' (0 / 0) 1 (open_accounts [(''alice'', demo_account)] s0) = Inr (kApplied, s1) \<and>
     cl_account ''alice'' s1 = Some a \<and> is_nan (ac_available_quote a)"
proof -
  obtain s0 where s0: "new_AccountClearingSystem 152 = Inr s0" "journal_inv (open_accounts [(''alice'', demo_account)] s0)"
    "cl_accounts (open_accounts [(''alice'', demo_account)] s0) = [''alice'' \<mapsto> demo_account]"
    "cl_holds (open_accounts [(''alice'', demo_account)] s0) = Map.empty" by (rule demo_system)
  have num: "\<not> (0 / 0 :: double) \<le> 0" "\<not> dint 1000 < 0 / 0" "is_nan (dint 1000 - 0 / 0)" by code_simp+
  from freeze_quote_succeeds [OF s0(2), of "''alice''" demo_account "0 / 0" "''h''" 1] s0(3,4) num(1,2) obtain s1 where
    "freeze_quote ''alice'' ''h'' (0 / 0) 1 (open_accounts [(''alice'', demo_account)] s0) = Inr (kApplied, s1)"
    "cl_accounts s1 ''alice'' = Some (demo_account\<lparr>ac_available_quote := dint 1000 - 0 / 0, ac_frozen_quote := 0 + 0 / 0\<rparr>)"
    by (auto simp: demo_account_def)
  then show ?thesis using s0(1) num(3) by (auto simp: cl_account_def)
qed

end
