(* ===== verification/Pipeline_Props.thy ===== *)
theory Pipeline_Props
  imports Pipeline Matching_Safety Risk_Props Clearing_Props
begin

text \<open>
  Properties of the pipeline as a composition: every submission completes because each component is called in a state its
  own theorems cover, the parser yields only what the later stages can handle, and money moves only through the
  operations of the clearing system.
\<close>

section \<open>Completion\<close>

text \<open>\<open>completes P x\<close>: no fault, and \<open>P\<close> holds of the result.\<close>

fun completes :: "('a \<Rightarrow> bool) \<Rightarrow> 'e + 'a \<Rightarrow> bool" where
  "completes P (Inl e) = False"
| "completes P (Inr x) = P x"

lemma completes_andthen: "completes P x \<Longrightarrow> (\<And>y. P y \<Longrightarrow> completes Q (f y)) \<Longrightarrow> completes Q (andthen x f)"
  by (cases x) auto

lemma completes_mono: "completes P x \<Longrightarrow> (\<And>y. P y \<Longrightarrow> Q y) \<Longrightarrow> completes Q x"
  by (cases x) auto

lemma completes_lift [simp]: "completes P (lift_fault c x) = completes P x"
  by (cases x) auto

lemma completes_lift_andthen: "completes P x \<Longrightarrow> (\<And>y. P y \<Longrightarrow> completes Q (f y)) \<Longrightarrow> completes Q (andthen (lift_fault c x) f)"
  by (cases x) auto

lemma completesE: "completes P x \<Longrightarrow> \<exists>y. x = Inr y \<and> P y"
  by (cases x) auto

text \<open>\<open>ends P x\<close>: the same, but for a pipeline whose clock may overflow.\<close>

fun ends :: "('a \<Rightarrow> bool) \<Rightarrow> pipeline_fault + 'a \<Rightarrow> bool" where
  "ends P (Inl e) = (e = ClockFault TimeOverflow)"
| "ends P (Inr x) = P x"

lemma ends_andthen: "ends P x \<Longrightarrow> (\<And>y. P y \<Longrightarrow> ends Q (f y)) \<Longrightarrow> ends Q (andthen x f)"
  by (cases x) auto

lemma ends_mono: "ends P x \<Longrightarrow> (\<And>y. P y \<Longrightarrow> Q y) \<Longrightarrow> ends Q x"
  by (cases x) auto

lemma completes_ends: "completes P x \<Longrightarrow> ends P x"
  by (cases x) auto

lemma ends_clock: "ends Q (f t) \<Longrightarrow> ends Q (andthen (lift_fault ClockFault (checked_i64 t)) f)"
  by (simp add: checked_i64_def)

lemma endsE: "ends P x \<Longrightarrow> (\<exists>y. x = Inr y \<and> P y) \<or> x = Inl (ClockFault TimeOverflow)"
  by (cases x) auto

section \<open>The invariant\<close>

definition pipeline_inv :: "ExchangePipeline \<Rightarrow> bool" where
  "pipeline_inv p \<longleftrightarrow> risk_inv (ep_risk p) \<and> pr_markets (ep_risk p) (ep_symbol p) \<noteq> None \<and> engine_inv (ep_matching p) \<and>
     journal_inv (ep_clearing p) \<and> rq_wf (gw_ingress_queue (ep_gateway p)) \<and> rq_contents (gw_ingress_queue (ep_gateway p)) = []"

text \<open>What every stage guarantees of the pipeline it leaves.\<close>

definition evolves :: "ExchangePipeline \<Rightarrow> ExchangePipeline \<Rightarrow> bool" where
  "evolves p p' \<longleftrightarrow> pipeline_inv p' \<and> clearing_step\<^sup>*\<^sup>* (ep_clearing p) (ep_clearing p') \<and> ep_symbol p' = ep_symbol p \<and>
     gw_user_limits (ep_gateway p') = gw_user_limits (ep_gateway p)"

lemma evolves_refl: "pipeline_inv p \<Longrightarrow> evolves p p"
  by (simp add: evolves_def)

lemma evolves_trans: "evolves p p1 \<Longrightarrow> evolves p1 p2 \<Longrightarrow> evolves p p2"
  by (auto simp: evolves_def)

lemma evolves_inv: "evolves p p' \<Longrightarrow> pipeline_inv p'"
  by (simp add: evolves_def)

lemma evolves_risk:
  assumes "pipeline_inv p" "risk_inv r" "pr_markets r (ep_symbol p) \<noteq> None"
  shows "evolves p (p\<lparr>ep_risk := r\<rparr>)"
  using assms by (simp add: evolves_def pipeline_inv_def)

lemma evolves_clearing:
  assumes "pipeline_inv p" "journal_inv c" "clearing_step (ep_clearing p) c"
  shows "evolves p (p\<lparr>ep_clearing := c\<rparr>)"
  using assms by (simp add: evolves_def pipeline_inv_def)

lemma evolves_matching: "pipeline_inv p \<Longrightarrow> engine_inv e \<Longrightarrow> evolves p (p\<lparr>ep_matching := e\<rparr>)"
  by (simp add: evolves_def pipeline_inv_def)

lemma evolves_registry: "evolves p (p'\<lparr>ep_order_registry := r\<rparr>) = evolves p p'" "evolves p (p'\<lparr>ep_resting_users := u\<rparr>) = evolves p p'"
  by (simp_all add: evolves_def pipeline_inv_def)

section \<open>Components\<close>

lemma clearing_ops_complete:
  assumes "journal_inv s"
  shows "completes (\<lambda>(status, s'). journal_inv s' \<and> clearing_step s s') (freeze_quote aid hid x t s)"
    "completes (\<lambda>(status, s'). journal_inv s' \<and> clearing_step s s') (freeze_base aid hid x t s)"
    "completes (\<lambda>(status, s'). journal_inv s' \<and> clearing_step s s') (release_hold hid t s)"
proof -
  have "completes (\<lambda>(status, s'). journal_inv s' \<and> r = Inr (status, s')) r" if "posts_or_nothing y r s" for y r
    using that assms by (auto simp: posts_or_nothing_def posted_def)
  note runs = this [OF freeze_quote_posts [OF assms]] this [OF freeze_base_posts [OF assms]] this [OF release_hold_posts [OF assms]]
  show "completes (\<lambda>(status, s'). journal_inv s' \<and> clearing_step s s') (freeze_quote aid hid x t s)"
    by (rule completes_mono [OF runs(1)]) (auto intro: step_freeze_quote)
  show "completes (\<lambda>(status, s'). journal_inv s' \<and> clearing_step s s') (freeze_base aid hid x t s)"
    by (rule completes_mono [OF runs(2)]) (auto intro: step_freeze_base)
  show "completes (\<lambda>(status, s'). journal_inv s' \<and> clearing_step s s') (release_hold hid t s)"
    by (rule completes_mono [OF runs(3)]) (auto intro: step_release)
qed

lemma settle_completes:
  assumes "journal_inv s"
  shows "completes (\<lambda>(r, s'). journal_inv s' \<and> clearing_step s s') (settle_spot_trade fill fees s)"
proof -
  have "\<exists>r s'. settle_spot_trade fill fees s = Inr (r, s') \<and> journal_inv s'"
    by (cases rule: settle_spot_trade_cases [OF assms, of fill fees]) (use assms in \<open>auto simp: posted_def\<close>)
  then show ?thesis using step_settle by fastforce
qed

lemma sync_account_evolves: "pipeline_inv p \<Longrightarrow> evolves p (sync_account_state u p)"
  using evolves_risk [of p] config_keeps_inv(3)
  by (auto simp: sync_account_state_def set_account_state_def pipeline_inv_def intro: evolves_refl split: option.split)

lemma sync_account_frame [simp]:
  "ep_matching (sync_account_state u p) = ep_matching p" "ep_order_registry (sync_account_state u p) = ep_order_registry p"
  "ep_symbol (sync_account_state u p) = ep_symbol p" "ep_clearing (sync_account_state u p) = ep_clearing p"
  by (simp_all add: sync_account_state_def split: option.split)

lemma release_residual_completes:
  assumes "pipeline_inv p"
  shows "completes (\<lambda>(status, p'). evolves p p') (release_residual_hold h t p)"
proof -
  have c: "journal_inv (ep_clearing p)" using assms by (simp add: pipeline_inv_def)
  have "completes (\<lambda>(status, p'). evolves p p')
      (andthen (lift_fault ClearingFault (release_hold h t (ep_clearing p))) (\<lambda>(status, clearing1). Inr (status, p\<lparr>ep_clearing := clearing1\<rparr>)))"
    by (rule completes_lift_andthen [OF clearing_ops_complete(3) [OF c]]) (use evolves_clearing [OF assms] in auto)
  then show ?thesis using evolves_refl [OF assms] by (auto simp: release_residual_hold_def split: option.split)
qed

lemma clear_keeps_markets [simp]: "pr_markets (clear_user_resting_orders s u r) = pr_markets r"
  by (simp add: clear_user_resting_orders_def split: option.split)

lemma clear_all_inv:
  "risk_inv r \<Longrightarrow> risk_inv (fold (clear_user_resting_orders s) us r) \<and> pr_markets (fold (clear_user_resting_orders s) us r) = pr_markets r"
  using config_keeps_inv(5) by (induction us arbitrary: r) auto

lemma track_view_evolves: "pipeline_inv p \<Longrightarrow> evolves p (track_resting_view v p)"
  using evolves_risk [of p] config_keeps_inv(4)
  by (auto simp: track_resting_view_def track_resting_order_def pipeline_inv_def evolves_registry intro: evolves_refl split: option.split)

lemma track_views_evolve: "pipeline_inv p \<Longrightarrow> evolves p (fold track_resting_view vs p)"
proof (induction vs arbitrary: p)
  case (Cons v vs)
  then show ?case using track_view_evolves [of p v] evolves_trans evolves_inv by (metis fold_simps(2))
qed (simp add: evolves_refl)

lemma sync_resting_completes:
  assumes "pipeline_inv p"
  shows "completes (evolves p) (sync_resting_orders p)"
proof -
  let ?r = "fold (clear_user_resting_orders (ep_symbol p)) (ep_resting_users p) (ep_risk p)"
  let ?p = "p\<lparr>ep_risk := ?r, ep_resting_users := []\<rparr>"
  have "engine_inv (ep_matching p)" using assms by (simp add: pipeline_inv_def)
  then obtain views where "resting_orders (ep_matching p) = Some views" using resting_orders_views by blast
  moreover have "evolves p ?p"
    using evolves_risk [OF assms, of ?r] clear_all_inv [of "ep_risk p" "ep_symbol p" "ep_resting_users p"] assms
    by (simp add: evolves_registry pipeline_inv_def)
  ultimately show ?thesis using track_views_evolve [OF evolves_inv, of p ?p views] evolves_trans by (auto simp: sync_resting_orders_def Let_def)
qed

lemma top_of_book_completes:
  assumes "risk_inv r" "pr_markets r s \<noteq> None"
  shows "completes (\<lambda>r'. risk_inv r' \<and> pr_markets r' s \<noteq> None) (update_top_of_book s b a r)"
  using assms by (auto simp: update_top_of_book_def risk_inv_def Let_def)

lemma refresh_completes:
  assumes "pipeline_inv p"
  shows "completes (evolves p) (refresh_market_reference p)"
  unfolding refresh_market_reference_def Let_def
proof (rule completes_andthen, simp only: completes_lift, rule top_of_book_completes)
  fix r assume "risk_inv r \<and> pr_markets r (ep_symbol p) \<noteq> None"
  then show "completes (evolves p) (Inr (p\<lparr>ep_best_bid := bid, ep_best_ask := ask, ep_risk := r\<rparr>))" for bid ask
    using assms by (simp add: evolves_def pipeline_inv_def)
qed (use assms in \<open>simp_all add: pipeline_inv_def\<close>)

section \<open>Stages\<close>

text \<open>The statuses of a submission that reached the matching engine.\<close>

definition late_status :: "WorkflowStatus \<Rightarrow> bool" where
  "late_status status \<longleftrightarrow> status \<in> {kCompleted, kMatchingRejected, kSettlementRejected, wf_kInvariantViolation}"

abbreviation stage_ok :: "ExchangePipeline \<Rightarrow> WorkflowResult \<Rightarrow> bool \<times> WorkflowResult \<times> ExchangePipeline \<Rightarrow> bool" where
  "stage_ok p w \<equiv> \<lambda>(ok, w', p'). evolves p p' \<and> (if ok then wf_status w' = wf_status w else late_status (wf_status w'))"

lemma settle_trades_completes: "pipeline_inv p \<Longrightarrow> completes (stage_ok p w) (settle_trades_loop order trades (w, p))"
proof (induction trades arbitrary: w p)
  case (Cons trade trades)
  show ?case
  proof (cases "map_of (ep_order_registry p) (tr_maker_order_id trade) = None \<or> map_of (ep_order_registry p) (tr_taker_order_id trade) = None")
    case True
    then show ?thesis using evolves_refl [OF Cons.prems] by (auto simp: late_status_def split: option.split)
  next
    case False
    then obtain maker taker where reg: "map_of (ep_order_registry p) (tr_maker_order_id trade) = Some maker"
      "map_of (ep_order_registry p) (tr_taker_order_id trade) = Some taker" by auto
    let ?fill = "fill_of_trade order trade maker taker (ep_symbol p)"
    have c: "journal_inv (ep_clearing p)" using Cons.prems by (simp add: pipeline_inv_def)
    show ?thesis unfolding settle_trades_loop.simps reg option.case prod.case Let_def
    proof (rule completes_lift_andthen [OF settle_completes [OF c]], clarify)
      fix settlement c1 assume "journal_inv c1" "clearing_step (ep_clearing p) c1"
      then have p1: "evolves p (p\<lparr>ep_clearing := c1\<rparr>)" (is "evolves p ?p1") using evolves_clearing [OF Cons.prems] by blast
      let ?p2 = "sync_account_state (tf_seller_account_id ?fill) (sync_account_state (tf_buyer_account_id ?fill) ?p1)"
      have p2: "evolves p ?p2" using p1 sync_account_evolves evolves_trans evolves_inv by meson
      let ?w = "w\<lparr>wf_settlements := wf_settlements w @ [settlement]\<rparr>"
      have "completes (stage_ok p w) (settle_trades_loop order trades (?w, ?p2))"
        by (rule completes_mono [OF Cons.IH [OF evolves_inv [OF p2]]]) (use p2 evolves_trans in auto)
      then show "completes (stage_ok p w)
        (if \<not> sr_ok settlement
         then Inr (False, ?w\<lparr>wf_status := kSettlementRejected, wf_error_detail := status_message (sr_status settlement), wf_accepted := False\<rparr>, ?p1)
         else settle_trades_loop order trades (?w, ?p2))"
        using p1 by (simp add: late_status_def)
    qed
  qed
qed (simp add: evolves_refl)

lemma release_loop_ends: "pipeline_inv p \<Longrightarrow> ends (stage_ok p w) (release_loop order live ids (w, p))"
proof (induction ids arbitrary: w p)
  case (Cons i ids)
  show ?case
  proof (cases "i \<in> set live \<or> map_of (ep_order_registry p) i = None")
    case True
    then show ?thesis using Cons by auto
  next
    case False
    then obtain m where m: "map_of (ep_order_registry p) i = Some m" "i \<notin> set live" by blast
    show ?thesis unfolding release_loop.simps m option.case if_False Let_def if_not_P [OF m(2)]
    proof (rule ends_clock, rule ends_andthen [OF completes_ends [OF release_residual_completes [OF Cons.prems]]], clarify)
      fix status p1 assume p1: "evolves p p1"
      let ?p2 = "sync_account_state (mo_user_id m) p1"
      let ?p3 = "?p2\<lparr>ep_order_registry := AList.delete i (ep_order_registry ?p2)\<rparr>"
      have p3: "evolves p ?p3" using p1 sync_account_evolves evolves_trans evolves_inv unfolding evolves_registry by meson
      have "ends (stage_ok p w) (release_loop order live ids (w, ?p3))"
        by (rule ends_mono [OF Cons.IH [OF evolves_inv [OF p3]]]) (use p3 evolves_trans in auto)
      then show "ends (stage_ok p w)
        (if \<not> op_result_ok status
         then Inr (False, w\<lparr>wf_status := wf_kInvariantViolation, wf_error_detail := status_message status, wf_accepted := False\<rparr>, p1)
         else release_loop order live ids (w, ?p3))"
        using p1 by (simp add: late_status_def)
    qed
  qed
qed (simp add: evolves_refl)

lemma release_closed_ends:
  assumes "pipeline_inv p"
  shows "ends (stage_ok p w) (release_closed_orders order (w, p))"
proof -
  have "engine_inv (ep_matching p)" using assms by (simp add: pipeline_inv_def)
  then obtain views where "resting_orders (ep_matching p) = Some views" using resting_orders_views by blast
  then show ?thesis using release_loop_ends [OF assms] by (simp add: release_closed_orders_def Let_def)
qed

lemma handle_rejected_ends:
  assumes "pipeline_inv p"
  shows "ends (\<lambda>(ok, w', p'). evolves p p' \<and> late_status (wf_status w')) (handle_rejected_match order h (w, p))"
  unfolding handle_rejected_match_def Let_def prod.case
proof (rule ends_clock, rule ends_andthen [OF completes_ends [OF release_residual_completes [OF assms]]], clarify)
  fix status p1 assume p1: "evolves p p1"
  let ?p2 = "p1\<lparr>ep_order_registry := AList.delete (po_order_id order) (ep_order_registry p1)\<rparr>"
  let ?p3 = "sync_account_state (po_user_id order) ?p2"
  have "evolves p ?p2" using p1 by (simp add: evolves_registry)
  then have p3: "evolves p ?p3" using sync_account_evolves evolves_trans evolves_inv by meson
  have "ends (\<lambda>p4. evolves p p4) (sync_resting_orders ?p3)"
    by (rule ends_mono [OF completes_ends [OF sync_resting_completes [OF evolves_inv [OF p3]]]]) (use p3 evolves_trans in auto)
  then have rest: "ends (\<lambda>(ok, w', p'). evolves p p' \<and> late_status (wf_status w'))
    (andthen (sync_resting_orders ?p3) (\<lambda>p4. Inr (True, w\<lparr>wf_status := kMatchingRejected,
       wf_trade_events := replay_market_data (''trades.'' @ ep_symbol p4) 0 (ep_matching p4),
       wf_depth_events := replay_market_data (''depth.'' @ ep_symbol p4) 0 (ep_matching p4)\<rparr>, p4)))"
    by (rule ends_andthen) (simp add: late_status_def)
  show "ends (\<lambda>(ok, w', p'). evolves p p' \<and> late_status (wf_status w'))
    (if \<not> op_result_ok status
     then Inr (False, w\<lparr>wf_status := kMatchingRejected, wf_status := wf_kInvariantViolation, wf_error_detail := status_message status\<rparr>, p1)
     else andthen (sync_resting_orders ?p3) (\<lambda>p4. Inr (True, w\<lparr>wf_status := kMatchingRejected,
       wf_trade_events := replay_market_data (''trades.'' @ ep_symbol p4) 0 (ep_matching p4),
       wf_depth_events := replay_market_data (''depth.'' @ ep_symbol p4) 0 (ep_matching p4)\<rparr>, p4)))"
    using rest p1 by (simp add: late_status_def)
qed

section \<open>The parser\<close>

lemma parse_decimal_finite: "parse_decimal strtod v = Some x \<Longrightarrow> is_finite x"
  by (auto simp: parse_decimal_def split: if_splits prod.splits)

lemma parse_order_fields:
  assumes "parse_order strtod request = Some order"
  shows "is_finite (po_price order) \<and> is_finite (po_quantity order) \<and> (po_risk_side order = risk_kBuy \<longleftrightarrow> po_matching_side order = kBuy) \<and>
    (po_risk_type order = risk_kLimit \<longleftrightarrow> po_matching_type order = kLimit) \<and>
    po_user_id order = fr_user_id request \<and> po_timestamp_ms order = fr_timestamp_ms request"
  using assms
  by (auto simp: parse_order_def Let_def parse_matching_side_def parse_risk_side_def parse_matching_type_def parse_risk_type_def
      split: Option.bind_splits if_splits option.splits intro: parse_decimal_finite)

section \<open>Submissions\<close>

lemma track_managed_evolves: "pipeline_inv p \<Longrightarrow> evolves p (track_managed_order order h p)"
  using sync_account_evolves by (simp add: track_managed_order_def evolves_registry Let_def)

abbreviation submission_ok :: "ExchangePipeline \<Rightarrow> WorkflowResult \<times> ExchangePipeline \<Rightarrow> bool" where
  "submission_ok p \<equiv> \<lambda>(w', p'). evolves p p' \<and> late_status (wf_status w')"

lemma submission_ok_trans: "evolves p p1 \<Longrightarrow> ends (submission_ok p1) x \<Longrightarrow> ends (submission_ok p) x"
  by (cases x) (auto intro: evolves_trans)

lemma publish_outcome_completes:
  assumes "pipeline_inv p"
  shows "completes (submission_ok p) (publish_outcome (w, p))"
  unfolding publish_outcome_def Let_def prod.case
proof (rule completes_andthen [OF sync_resting_completes [OF assms]])
  fix p1 assume p1: "evolves p p1"
  show "completes (submission_ok p) (andthen (refresh_market_reference p1) (\<lambda>p2. Inr (populate_market_outputs (w\<lparr>wf_status := kCompleted\<rparr>) p2, p2)))"
    by (rule completes_andthen [OF refresh_completes [OF evolves_inv [OF p1]]])
      (use p1 evolves_trans in \<open>auto simp: populate_market_outputs_def late_status_def\<close>)
qed

lemma settle_and_release_ends:
  assumes "pipeline_inv p"
  shows "ends (submission_ok p) (settle_and_release order (w, p))"
  unfolding settle_and_release_def settle_trades_def fst_conv
proof (rule ends_andthen [OF completes_ends [OF settle_trades_completes [OF assms]]], clarify)
  fix settled and w1 :: WorkflowResult and p1 assume s: "evolves p p1" "if settled then wf_status w1 = wf_status w else late_status (wf_status w1)"
  have pub: "ends (submission_ok p1) (publish_outcome (w2, p2))" if "evolves p1 p2" for w2 p2
    by (rule submission_ok_trans [OF that completes_ends [OF publish_outcome_completes [OF evolves_inv [OF that]]]])
  have "ends (submission_ok p1) (andthen (release_closed_orders order (w1, p1)) (\<lambda>(released, st2). if \<not> released then Inr st2 else publish_outcome st2))"
    by (rule ends_andthen [OF release_closed_ends [OF evolves_inv [OF s(1)]]])
      (use pub in \<open>auto split: if_splits\<close>)
  from submission_ok_trans [OF s(1) this] s show "ends (submission_ok p) (if \<not> settled then Inr (w1, p1)
      else andthen (release_closed_orders order (w1, p1)) (\<lambda>(released, st2). if \<not> released then Inr st2 else publish_outcome st2))" by simp
qed

lemma match_and_settle_ends:
  assumes inv: "pipeline_inv p" and ok: "request_ok (to_matching_request order)"
  shows "ends (submission_ok p) (match_and_settle order h (w, p))"
proof -
  let ?p1 = "track_managed_order order h p"
  have p1: "evolves p ?p1" by (rule track_managed_evolves [OF inv])
  then have "engine_inv (ep_matching ?p1)" using evolves_inv by (simp add: pipeline_inv_def)
  then obtain result e where run: "me_submit (to_matching_request order) (ep_matching ?p1) = Some (result, e)" "engine_inv e"
    using submit_refines ok by blast
  let ?p2 = "?p1\<lparr>ep_matching := e\<rparr>" and ?w = "w\<lparr>wf_match_result := result, wf_accepted := mr_accepted result\<rparr>"
  have p2: "evolves p ?p2" using evolves_matching [OF evolves_inv [OF p1] run(2)] p1 evolves_trans by blast
  have "ends (submission_ok ?p2) (andthen (handle_rejected_match order h (?w, ?p2)) (\<lambda>(_, st2). Inr st2))"
    by (rule ends_andthen [OF handle_rejected_ends [OF evolves_inv [OF p2]]]) auto
  moreover have "ends (submission_ok ?p2) (settle_and_release order (?w, ?p2))" by (rule settle_and_release_ends [OF evolves_inv [OF p2]])
  moreover have "match_and_settle order h (w, p) = (if \<not> mr_accepted result \<and> mr_trades result = []
      then andthen (handle_rejected_match order h (?w, ?p2)) (\<lambda>(_, st2). Inr st2) else settle_and_release order (?w, ?p2))"
    unfolding match_and_settle_def Let_def prod.case run(1) defined_or.simps andthen.simps ..
  ultimately have "ends (submission_ok ?p2) (match_and_settle order h (w, p))" by (simp only: split: if_split) blast
  then show ?thesis by (rule submission_ok_trans [OF p2])
qed

text \<open>A submission that ends before the matching engine touches neither the books, nor the accounts, nor the registry.\<close>

definition untouched :: "ExchangePipeline \<Rightarrow> ExchangePipeline \<Rightarrow> bool" where
  "untouched p p' \<longleftrightarrow> ep_matching p' = ep_matching p \<and> ep_clearing p' = ep_clearing p \<and> ep_order_registry p' = ep_order_registry p"

definition early_status :: "WorkflowStatus \<Rightarrow> bool" where
  "early_status status \<longleftrightarrow> status \<in> {kRouteRejected, kParseRejected, kRiskRejected, kClearingRejected}"

lemma route_request_ends:
  assumes "pipeline_inv p"
  shows "ends (\<lambda>(f, w', p'). evolves p p' \<and> untouched p p' \<and> wf_settlements w' = wf_settlements w \<and>
    (f = None \<longrightarrow> wf_status w' = kRouteRejected) \<and> (\<forall>forwarded. f = Some forwarded \<longrightarrow> (\<exists>backend. forwarded = make_forwarded_request request backend)))
    (route_request request (w, p))"
proof (cases "gw_route request (ep_gateway p)")
  case (Inl e)
  then show ?thesis by (cases e) (simp add: route_request_def)
next
  case (Inr routed)
  obtain result g where routed: "routed = (result, g)" by (cases routed)
  let ?q = "gw_ingress_queue (ep_gateway p)"
  have wf: "rq_wf ?q" "rq_contents ?q = []" using assms by (simp_all add: pipeline_inv_def)
  have keep: "evolves p (p\<lparr>ep_gateway := g\<rparr>) \<and> untouched p (p\<lparr>ep_gateway := g\<rparr>)"
    if "rq_wf (gw_ingress_queue g)" "rq_contents (gw_ingress_queue g) = []" "gw_user_limits g = gw_user_limits (ep_gateway p)" for g
    using assms that by (simp add: evolves_def pipeline_inv_def untouched_def)
  from gw_route_outcome [OF wf(1) Inr [unfolded routed]] show ?thesis
  proof
    assume "\<not> rt_accepted result \<and> rq_wf (gw_ingress_queue g) \<and> rq_contents (gw_ingress_queue g) = rq_contents ?q \<and> gw_user_limits g = gw_user_limits (ep_gateway p)"
    then show ?thesis using keep wf(2) Inr by (simp add: route_request_def routed Let_def)
  next
    assume "rt_accepted result \<and> rq_wf (gw_ingress_queue g) \<and> gw_user_limits g = gw_user_limits (ep_gateway p) \<and>
      (\<exists>backend. rq_contents (gw_ingress_queue g) = rq_contents ?q @ [make_forwarded_request request backend])"
    then obtain backend where g: "rt_accepted result" "rq_wf (gw_ingress_queue g)" "gw_user_limits g = gw_user_limits (ep_gateway p)"
      "rq_contents (gw_ingress_queue g) = [make_forwarded_request request backend]" using wf(2) by auto
    from rq_pop_refines [OF g(2)] g(4) obtain q where
      "rq_try_pop (gw_ingress_queue g) = (Some (make_forwarded_request request backend), q)" "rq_wf q" "rq_contents q = []"
      by (metis list.case(2) list.sel(3) prod.collapse)
    then show ?thesis using g keep [of "g\<lparr>gw_ingress_queue := q\<rparr>"] Inr
      by (simp add: route_request_def routed poll_forwarded_request_def Let_def) blast
  qed
qed

lemma risk_stage_completes:
  assumes "pipeline_inv p"
  shows "completes (\<lambda>(ok, w', p'). evolves p p' \<and> untouched p p' \<and> (\<not> ok \<longrightarrow> wf_status w' = kRiskRejected)) (evaluate_risk_stage order (w, p))"
proof -
  have "risk_inv (ep_risk p)" using assms by (simp add: pipeline_inv_def)
  then obtain d r where "risk_evaluate (to_risk_request order) (ep_risk p) = Inr (d, r)" "risk_inv r" "pr_markets r = pr_markets (ep_risk p)"
    using risk_evaluate_runs by blast
  then show ?thesis using evolves_risk [OF assms, of r] assms
    by (simp add: evaluate_risk_stage_def Let_def untouched_def pipeline_inv_def)
qed

lemma reserve_completes:
  assumes "pipeline_inv p"
  shows "completes (\<lambda>(h, w', p'). evolves p p' \<and> (h = None \<longrightarrow> untouched p p' \<and> wf_status w' = kClearingRejected)) (reserve_order_hold order (w, p))"
proof -
  have c: "journal_inv (ep_clearing p)" using assms by (simp add: pipeline_inv_def)
  let ?x = "if po_matching_side order = kBuy
    then freeze_quote (po_user_id order) (hold_id_for (po_order_id order)) (reserve_amount order p) (po_timestamp_ms order) (ep_clearing p)
    else freeze_base (po_user_id order) (hold_id_for (po_order_id order)) (reserve_amount order p) (po_timestamp_ms order) (ep_clearing p)"
  have "posts_or_nothing (reserve_amount order p) ?x (ep_clearing p)" using freeze_quote_posts [OF c] freeze_base_posts [OF c] by auto
  then obtain status s' where run: "?x = Inr (status, s')" and same: "status \<noteq> kApplied \<longrightarrow> s' = ep_clearing p" by (auto simp: posts_or_nothing_def)
  have "completes (\<lambda>(status, s'). journal_inv s' \<and> clearing_step (ep_clearing p) s') ?x" using clearing_ops_complete(1,2) [OF c] by simp
  then have "evolves p (p\<lparr>ep_clearing := s'\<rparr>)" using run evolves_clearing [OF assms] by simp
  then show ?thesis using run same evolves_refl [OF assms] unfolding reserve_order_hold_def Let_def prod.case
    by (simp only: lift_fault.simps andthen.simps) (simp add: op_result_ok_def untouched_def)
qed

definition outcome_ok :: "ExchangePipeline \<Rightarrow> WorkflowResult \<times> ExchangePipeline \<Rightarrow> bool" where
  "outcome_ok p st \<longleftrightarrow> evolves p (snd st) \<and> (late_status (wf_status (fst st)) \<or> early_status (wf_status (fst st)) \<and> untouched p (snd st))"

lemma outcome_ok_trans: "\<lbrakk>evolves p p1; untouched p p1; ends (outcome_ok p1) x\<rbrakk> \<Longrightarrow> ends (outcome_ok p) x"
  by (cases x) (auto simp: outcome_ok_def untouched_def intro: evolves_trans)

lemma hold_and_match_ends:
  assumes inv: "pipeline_inv p" and ok: "request_ok (to_matching_request order)"
  shows "ends (outcome_ok p) (andthen (reserve_order_hold order (w, p)) (\<lambda>(hold_id, st2).
    case hold_id of None \<Rightarrow> Inr st2 | Some h \<Rightarrow> match_and_settle order h st2))"
proof (rule ends_andthen [OF completes_ends [OF reserve_completes [OF inv]]], clarify)
  fix h :: "string option" and w1 :: WorkflowResult and p1
  assume h: "evolves p p1" "h = None \<longrightarrow> untouched p p1 \<and> wf_status w1 = kClearingRejected"
  have "ends (outcome_ok p) (match_and_settle order i (w1, p1))" for i
    by (rule ends_mono [OF match_and_settle_ends [OF evolves_inv [OF h(1)] ok]]) (use h(1) evolves_trans in \<open>auto simp: outcome_ok_def\<close>)
  then show "ends (outcome_ok p) (case h of None \<Rightarrow> Inr (w1, p1) | Some i \<Rightarrow> match_and_settle order i (w1, p1))"
    using h by (auto simp: outcome_ok_def early_status_def split: option.split)
qed

lemma process_order_ends:
  assumes inv: "pipeline_inv p" and ok: "request_ok (to_matching_request order)"
  shows "ends (outcome_ok p) (process_order order (w, p))"
  unfolding process_order_def
proof (rule ends_andthen [OF completes_ends [OF risk_stage_completes [OF inv]]], clarify)
  fix passed and w1 :: WorkflowResult and p1
  assume s: "evolves p p1" "untouched p p1" "\<not> passed \<longrightarrow> wf_status w1 = kRiskRejected"
  from outcome_ok_trans [OF s(1,2) hold_and_match_ends [OF evolves_inv [OF s(1)] ok]] s
  show "ends (outcome_ok p) (if \<not> passed then Inr (w1, p1) else andthen (reserve_order_hold order (w1, p1)) (\<lambda>(hold_id, st2).
    case hold_id of None \<Rightarrow> Inr st2 | Some h \<Rightarrow> match_and_settle order h st2))" by (simp add: outcome_ok_def early_status_def)
qed

lemma parse_and_process_ends:
  assumes "pipeline_inv p"
  shows "ends (outcome_ok p) (case parse_forwarded_request strtod forwarded (w, p) of (None, w2) \<Rightarrow> Inr (w2, p) | (Some order, w2) \<Rightarrow> process_order order (w2, p))"
proof (cases "parse_order strtod forwarded")
  case None
  then show ?thesis using evolves_refl [OF assms] by (simp add: parse_forwarded_request_def outcome_ok_def early_status_def untouched_def)
next
  case (Some order)
  have "request_ok (to_matching_request order)" using parse_order_fields [OF Some] by (simp add: request_ok_def to_matching_request_def)
  from process_order_ends [OF assms this] show ?thesis using Some by (simp add: parse_forwarded_request_def)
qed

lemma pl_submit_ends:
  assumes "pipeline_inv p"
  shows "ends (outcome_ok p) (pl_submit strtod request p)"
  unfolding pl_submit_def
proof (rule ends_andthen [OF route_request_ends [OF assms]], clarify)
  fix f :: "ForwardedRequest option" and w1 :: WorkflowResult and p1
  assume route: "evolves p p1" "untouched p p1" "f = None \<longrightarrow> wf_status w1 = kRouteRejected"
  show "ends (outcome_ok p) (case f of None \<Rightarrow> Inr (w1, p1) | Some forwarded \<Rightarrow>
      (case parse_forwarded_request strtod forwarded (w1, p1) of (None, w2) \<Rightarrow> Inr (w2, p1) | (Some order, w2) \<Rightarrow> process_order order (w2, p1)))"
  proof (cases f)
    case None
    then show ?thesis using route by (simp add: outcome_ok_def early_status_def)
  next
    case (Some forwarded)
    then show ?thesis using outcome_ok_trans [OF route(1,2) parse_and_process_ends [OF evolves_inv [OF route(1)]]] by simp
  qed
qed

section \<open>The clock\<close>

text \<open>The clock does not overflow when the timestamps of the requests are not among the last two of the type and no rate limit has a negative window.\<close>

definition limits_ok :: "UnifiedAccessGateway \<Rightarrow> bool" where
  "limits_ok g \<longleftrightarrow> (\<forall>limit \<in> ran (gw_user_limits g). 0 \<le> rl_window_ms limit \<and> in_i64 (rl_window_ms limit))"

fun in_time :: "pipeline_fault + 'a \<Rightarrow> bool" where
  "in_time (Inl e) = (e \<noteq> ClockFault TimeOverflow)"
| "in_time (Inr x) = True"

lemma in_time_andthen: "in_time x \<Longrightarrow> (\<And>y. x = Inr y \<Longrightarrow> in_time (f y)) \<Longrightarrow> in_time (andthen x f)"
  by (cases x) auto

lemma in_time_lift: "(\<And>e. c e \<noteq> ClockFault TimeOverflow) \<Longrightarrow> in_time (lift_fault c x)"
  by (cases x) auto

lemma in_time_defined: "e \<noteq> ClockFault TimeOverflow \<Longrightarrow> in_time (defined_or e x)"
  by (cases x) auto

lemma in_time_clock: "in_i64 t \<Longrightarrow> in_time (f t) \<Longrightarrow> in_time (andthen (lift_fault ClockFault (checked_i64 t)) f)"
  by (simp add: checked_i64_def)

lemmas in_time_rules = in_time_andthen in_time_lift in_time_defined

lemma release_residual_in_time: "in_time (release_residual_hold h t p)"
  by (auto simp: release_residual_hold_def intro!: in_time_rules split: option.split)

lemma settle_loop_in_time: "in_time (settle_trades_loop order trades (w, p))"
  by (induction trades arbitrary: w p) (auto simp: Let_def intro!: in_time_rules split: option.split)

lemma release_loop_in_time:
  assumes "in_i64 (po_timestamp_ms order + 2)"
  shows "in_time (release_loop order live ids (w, p))"
proof (induction ids arbitrary: w p)
  case (Cons i ids)
  then show ?case using assms
    by (auto simp: Let_def intro!: in_time_clock in_time_andthen [OF release_residual_in_time] split: option.split)
qed simp

lemma sync_resting_in_time: "in_time (sync_resting_orders p)"
  by (auto simp: sync_resting_orders_def Let_def intro!: in_time_rules)

lemma publish_in_time: "in_time (publish_outcome (w, p))"
  unfolding publish_outcome_def refresh_market_reference_def Let_def prod.case
  by (intro in_time_andthen sync_resting_in_time in_time_lift) simp_all

lemma settle_and_release_in_time:
  assumes "in_i64 (po_timestamp_ms order + 2)"
  shows "in_time (settle_and_release order (w, p))"
proof -
  have "in_time (release_closed_orders order (w1, p1))" for w1 p1
    unfolding release_closed_orders_def Let_def prod.case using assms by (intro in_time_andthen in_time_defined release_loop_in_time) simp_all
  note release = in_time_andthen [OF this]
  show ?thesis unfolding settle_and_release_def settle_trades_def fst_conv
    by (rule in_time_andthen [OF settle_loop_in_time]) (auto intro!: release publish_in_time)
qed

lemma handle_rejected_in_time:
  assumes "in_i64 (po_timestamp_ms order + 1)"
  shows "in_time (handle_rejected_match order h (w, p))"
  unfolding handle_rejected_match_def Let_def prod.case
  by (rule in_time_clock [OF assms], rule in_time_andthen [OF release_residual_in_time]) (auto intro!: in_time_andthen [OF sync_resting_in_time])

lemma process_order_in_time:
  assumes "in_i64 (po_timestamp_ms order + 1)" "in_i64 (po_timestamp_ms order + 2)"
  shows "in_time (process_order order (w, p))"
proof -
  have risk: "in_time (evaluate_risk_stage order (w, p))"
    unfolding evaluate_risk_stage_def Let_def prod.case by (intro in_time_andthen in_time_lift) auto
  have "in_time (reserve_order_hold order (w1, p1))" for w1 p1
    unfolding reserve_order_hold_def Let_def prod.case by (intro in_time_andthen in_time_lift) auto
  note hold = in_time_andthen [OF this]
  have "in_time (match_and_settle order h (w1, p1))" for h w1 p1
    unfolding match_and_settle_def Let_def prod.case
    by (rule in_time_andthen [OF in_time_defined])
      (auto intro!: in_time_andthen [OF handle_rejected_in_time [OF assms(1)]] settle_and_release_in_time [OF assms(2)])
  then show ?thesis unfolding process_order_def
    by (intro in_time_andthen [OF risk]) (auto intro!: hold split: option.split)
qed

lemma pl_submit_in_time:
  assumes "pipeline_inv p" "limits_ok (ep_gateway p)" "in_i64 (gr_timestamp_ms request)" "in_i64 (gr_timestamp_ms request + 2)"
  shows "in_time (pl_submit strtod request p)"
proof -
  have "gw_route request (ep_gateway p) \<noteq> Inl e" for e
  proof
    assume "gw_route request (ep_gateway p) = Inl e"
    then have "window_overflows (gr_user_id request) (gr_timestamp_ms request) (ep_gateway p)" "0 < gr_timestamp_ms request"
      using gw_route_overflows [of request "ep_gateway p" e] by (simp_all add: has_valid_request_shape_def)
    from negative_window_overflows [OF this assms(3)] assms(2) show False unfolding limits_ok_def by (metis ranI not_less)
  qed
  then have route: "in_time (route_request request (empty_workflow, p))"
    by (cases "gw_route request (ep_gateway p)") (auto simp: route_request_def Let_def split: prod.split)
  have process: "in_time (case parse_forwarded_request strtod forwarded (w1, p1) of (None, w2) \<Rightarrow> Inr (w2, p1) | (Some order, w2) \<Rightarrow> process_order order (w2, p1))"
    if "forwarded = make_forwarded_request request backend" for forwarded w1 p1 backend
  proof (cases "parse_order strtod forwarded")
    case (Some order)
    have "po_timestamp_ms order = gr_timestamp_ms request" using parse_order_fields [OF Some] that by (simp add: make_forwarded_request_def)
    then show ?thesis using process_order_in_time [of order] assms(3,4) Some by (simp add: parse_forwarded_request_def in_i64_def)
  qed (simp add: parse_forwarded_request_def)
  show ?thesis unfolding pl_submit_def
  proof (rule in_time_andthen [OF route], clarify)
    fix f :: "ForwardedRequest option" and w1 :: WorkflowResult and p1
    assume run: "route_request request (empty_workflow, p) = Inr (f, w1, p1)"
    show "in_time (case f of None \<Rightarrow> Inr (w1, p1) | Some forwarded \<Rightarrow>
        (case parse_forwarded_request strtod forwarded (w1, p1) of (None, w2) \<Rightarrow> Inr (w2, p1) | (Some order, w2) \<Rightarrow> process_order order (w2, p1)))"
    proof (cases f)
      case (Some forwarded)
      then obtain backend where "forwarded = make_forwarded_request request backend"
        using route_request_ends [OF assms(1), of empty_workflow request] run by auto
      from process [OF this] Some show ?thesis by simp
    qed simp
  qed
qed

section \<open>Payloads\<close>

text \<open>The text form of a list of fields, as clients write it.\<close>

fun render_payload :: "(string \<times> string) list \<Rightarrow> string" where
  "render_payload [] = []"
| "render_payload [(k, v)] = k @ ''='' @ v"
| "render_payload ((k, v) # kvs) = k @ ''='' @ v @ '';'' @ render_payload kvs"

definition plain_field :: "string \<times> string \<Rightarrow> bool" where
  "plain_field kv \<longleftrightarrow> CHR '';'' \<notin> set (fst kv) \<and> CHR ''='' \<notin> set (fst kv) \<and> CHR '';'' \<notin> set (snd kv)"

lemma takeWhile_until: "c \<notin> set xs \<Longrightarrow> takeWhile (\<lambda>d. d \<noteq> c) (xs @ c # ys) = xs" "c \<notin> set xs \<Longrightarrow> dropWhile (\<lambda>d. d \<noteq> c) (xs @ c # ys) = c # ys"
  by (induction xs) auto

lemma takeWhile_all: "c \<notin> set xs \<Longrightarrow> takeWhile (\<lambda>d. d \<noteq> c) xs = xs" "c \<notin> set xs \<Longrightarrow> dropWhile (\<lambda>d. d \<noteq> c) xs = []"
  by (induction xs) auto

lemma parse_step:
  assumes "payload \<noteq> []" "takeWhile (\<lambda>c. c \<noteq> CHR '';'') payload = token" "dropWhile (\<lambda>c. c \<noteq> CHR '';'') payload = rest"
    and "takeWhile (\<lambda>c. c \<noteq> CHR ''='') token = k" "CHR ''='' \<in> set token" "vals k = None" "drop (length k + 1) token = v"
  shows "parse_key_values_loop payload vals = (if rest = [] then vals(k \<mapsto> v) else parse_key_values_loop (tl rest) (vals(k \<mapsto> v)))"
  unfolding parse_key_values_loop.simps [of payload] Let_def using assms by simp

lemma parse_field:
  assumes "plain_field (k, v)" "vals k = None"
  shows "parse_key_values_loop (k @ ''='' @ v) vals = vals(k \<mapsto> v)"
    "parse_key_values_loop (k @ ''='' @ v @ '';'' @ rest) vals = parse_key_values_loop rest (vals(k \<mapsto> v))"
proof -
  let ?token = "k @ ''='' @ v"
  have k: "takeWhile (\<lambda>c. c \<noteq> CHR ''='') ?token = k" using assms(1) takeWhile_until(1) [of "CHR ''=''" k v] by (simp add: plain_field_def)
  have t: "CHR '';'' \<notin> set ?token" using assms(1) by (auto simp: plain_field_def)
  note step = parse_step [where k = k and token = ?token and vals = vals and v = v]
  show "parse_key_values_loop (k @ ''='' @ v) vals = vals(k \<mapsto> v)"
    using step [of ?token "[]"] takeWhile_all [OF t] k assms(2) by simp
  show "parse_key_values_loop (k @ ''='' @ v @ '';'' @ rest) vals = parse_key_values_loop rest (vals(k \<mapsto> v))"
    using step [of "?token @ '';'' @ rest" "'';'' @ rest"] takeWhile_until [OF t, of rest] k assms(2) by simp
qed

lemma parse_render:
  "\<lbrakk>\<forall>kv \<in> set kvs. plain_field kv; distinct (map fst kvs); \<forall>k \<in> fst ` set kvs. vals k = None\<rbrakk> \<Longrightarrow>
   parse_key_values_loop (render_payload kvs) vals = vals ++ map_of kvs"
proof (induction kvs arbitrary: vals rule: render_payload.induct)
  case 1
  then show ?case by (subst parse_key_values_loop.simps) simp
next
  case (2 k v)
  then have "parse_key_values_loop (render_payload [(k, v)]) vals = vals(k \<mapsto> v)" using parse_field(1) [of k v vals] by simp
  then show ?case by (simp only: map_of.simps map_add_upd fst_conv snd_conv map_add_empty)
next
  case (3 k v kv kvs)
  have k: "vals k = None" "plain_field (k, v)" using "3.prems" by auto
  have "parse_key_values_loop (render_payload (kv # kvs)) (vals(k \<mapsto> v)) = vals(k \<mapsto> v) ++ map_of (kv # kvs)"
    using "3.prems" by (intro "3.IH") auto
  moreover have "vals(k \<mapsto> v) ++ map_of (kv # kvs) = vals ++ map_of ((k, v) # kv # kvs)"
  proof -
    have "map_of (kv # kvs) k = None" using "3.prems"(2) by (auto simp: map_of_eq_None_iff)
    then show ?thesis by (intro ext) (auto simp: map_add_def split: option.split)
  qed
  ultimately show ?case using parse_field(2) [of k v vals] k by (simp del: render_payload.simps(3) map_of.simps add: render_payload.simps(3) [of k v kv kvs])
qed

section \<open>Starting a pipeline\<close>

text \<open>The calls of \<open>register_user\<close>: api key, secret, user, opening balances, and the rate limit.\<close>

definition register_users :: "(string \<times> string \<times> string \<times> AccountSnapshot \<times> u64 \<times> i64) list \<Rightarrow> ExchangePipeline \<Rightarrow> ExchangePipeline" where
  "register_users users p =
     fold (\<lambda>(api_key, secret, user_id, snapshot, max_requests, window_ms). register_user api_key secret user_id snapshot max_requests window_ms) users p"

fun pl_run :: "(string \<Rightarrow> bool \<times> nat \<times> double) \<Rightarrow> GatewayRequest list \<Rightarrow> ExchangePipeline \<Rightarrow> pipeline_fault + WorkflowResult list \<times> ExchangePipeline" where
  "pl_run strtod [] p = Inr ([], p)"
| "pl_run strtod (r # rs) p = andthen (pl_submit strtod r p) (\<lambda>(w, p1). andthen (pl_run strtod rs p1) (\<lambda>(ws, p2). Inr (w # ws, p2)))"

definition fresh_clearing :: "AccountClearingSystem \<Rightarrow> bool" where
  "fresh_clearing c \<longleftrightarrow> journal_inv c \<and> outbox_inv c \<and> entries c = (\<lambda>_. [])"

lemma new_pipeline_start:
  assumes "new_ExchangePipeline sz1 sz2 sort_routes symbol = Inr p0" "unat (max sz1 8) * 1024 < 2 ^ 64" "unat (max sz2 8) * 512 < 2 ^ 64"
    and "pl_configure_market bid ask fees config p0 = Inr p1"
  shows "pipeline_inv p1 \<and> fresh_clearing (ep_clearing p1) \<and> gw_user_limits (ep_gateway p1) = Map.empty"
proof -
  obtain g r e c where parts: "new_UnifiedAccessGateway 4096 = Inr g" "new_PreTradeRiskEngine 4096 = Inr r" "new_OrderbookMatchingEngine sz1 symbol 4096 = Inr e"
    "new_AccountClearingSystem sz2 = Inr c" and p0: "ep_gateway p0 = configure_route sort_routes ''/v1/orders'' kRisk ''risk_ingress'' g" "ep_risk p0 = r"
      "ep_matching p0 = e" "ep_clearing p0 = c"
    using assms(1) unfolding new_ExchangePipeline_def
    by (cases "new_UnifiedAccessGateway 4096"; cases "new_PreTradeRiskEngine 4096"; cases "new_OrderbookMatchingEngine sz1 symbol 4096";
        cases "new_AccountClearingSystem sz2") auto
  obtain r1 r2 where r: "configure_market config r = Inr r1" "update_top_of_book (ep_symbol p0) bid ask r1 = Inr r2"
    and p1: "p1 = p0\<lparr>ep_best_bid := bid, ep_best_ask := ask, ep_fee_schedule := fees, ep_risk := r2\<rparr>"
    using assms(4) p0(2) unfolding pl_configure_market_def
    by (cases "configure_market config r"; cases "update_top_of_book (ep_symbol p0) bid ask (projr (configure_market config r))") auto
  have "risk_inv r2" using config_keeps_inv(1,2) r new_risk_inv [OF parts(2)] by blast
  moreover have "pr_markets r2 (ep_symbol p0) \<noteq> None" using r(2) by (auto simp: update_top_of_book_def Let_def split: option.splits)
  moreover have "rq_wf (gw_ingress_queue g)" "rq_contents (gw_ingress_queue g) = []" "gw_user_limits g = Map.empty"
    using parts(1) rq_wf_new by (fastforce simp: new_UnifiedAccessGateway_def split: sum.splits)+
  ultimately show ?thesis using new_engine_inv(1) [OF parts(3) assms(2)] new_system_inv [OF parts(4) assms(3)]
    by (simp add: pipeline_inv_def fresh_clearing_def p1 p0 configure_route_def)
qed

lemma register_user_start:
  assumes "pipeline_inv p" "fresh_clearing (ep_clearing p)"
  shows "pipeline_inv (register_user k s u a n w p) \<and> fresh_clearing (ep_clearing (register_user k s u a n w p))"
proof -
  let ?c = "upsert_account u a (ep_clearing p)"
  let ?p = "p\<lparr>ep_gateway := set_user_rate_limit u n w (register_credential k s u (ep_gateway p)), ep_clearing := ?c,
    ep_known_users := List.insert u (ep_known_users p)\<rparr>"
  have "journal_inv ?c = journal_inv (ep_clearing p) \<and> entries ?c = entries (ep_clearing p)" by (rule journal_inv_cong) (simp_all add: upsert_account_def)
  then have c: "fresh_clearing ?c" using assms(2) by (simp add: fresh_clearing_def outbox_inv_def upsert_account_def)
  then have "pipeline_inv ?p" using assms(1) by (simp add: pipeline_inv_def fresh_clearing_def set_user_rate_limit_def register_credential_def)
  then show ?thesis using sync_account_evolves [of ?p u] evolves_inv c by (auto simp: register_user_def)
qed

lemma register_users_start:
  "\<lbrakk>pipeline_inv p; fresh_clearing (ep_clearing p)\<rbrakk> \<Longrightarrow> pipeline_inv (register_users us p) \<and> fresh_clearing (ep_clearing (register_users us p))"
  unfolding register_users_def by (induction us arbitrary: p) (auto simp: register_user_start split_beta)

lemma register_user_limits:
  "gw_user_limits (ep_gateway (register_user k s u a n w p)) = (gw_user_limits (ep_gateway p))(u \<mapsto> \<lparr>rl_max_requests = n, rl_window_ms = w\<rparr>)"
  by (simp add: register_user_def sync_account_state_def set_user_rate_limit_def register_credential_def split: option.split)

lemma register_users_limits:
  "\<lbrakk>limits_ok (ep_gateway p); \<forall>(_, _, _, _, _, window_ms) \<in> set us. 0 \<le> window_ms \<and> in_i64 window_ms\<rbrakk> \<Longrightarrow> limits_ok (ep_gateway (register_users us p))"
proof (unfold register_users_def, induction us arbitrary: p)
  case (Cons x us)
  obtain k s u a n w where x: "x = (k, s, u, a, n, w)" by (cases x)
  have "limits_ok (ep_gateway (register_user k s u a n w p))"
    using Cons.prems by (auto simp: x limits_ok_def register_user_limits ran_def)
  from Cons.IH [OF this] Cons.prems(2) show ?case by (simp add: x)
qed simp

lemma pl_run_ends: "pipeline_inv p \<Longrightarrow> ends (\<lambda>(ws, p'). length ws = length rs \<and> evolves p p') (pl_run strtod rs p)"
proof (induction rs arbitrary: p)
  case (Cons r rs)
  show ?case unfolding pl_run.simps
  proof (rule ends_andthen [OF pl_submit_ends [OF Cons.prems]], clarify)
    fix w :: WorkflowResult and p1 assume "outcome_ok p (w, p1)"
    then have p1: "evolves p p1" by (simp add: outcome_ok_def)
    show "ends (\<lambda>(ws, p'). length ws = length (r # rs) \<and> evolves p p') (andthen (pl_run strtod rs p1) (\<lambda>(ws, p2). Inr (w # ws, p2)))"
      by (rule ends_andthen [OF Cons.IH [OF evolves_inv [OF p1]]]) (use p1 evolves_trans in auto)
  qed
qed (simp add: evolves_refl)

lemma pl_run_in_time:
  "\<lbrakk>pipeline_inv p; limits_ok (ep_gateway p); \<forall>r \<in> set rs. in_i64 (gr_timestamp_ms r) \<and> in_i64 (gr_timestamp_ms r + 2)\<rbrakk> \<Longrightarrow> in_time (pl_run strtod rs p)"
proof (induction rs arbitrary: p)
  case (Cons r rs)
  have "in_time (pl_submit strtod r p)" using pl_submit_in_time [OF Cons.prems(1,2)] Cons.prems(3) by simp
  then show ?case unfolding pl_run.simps
  proof (rule in_time_andthen, clarify)
    fix w :: WorkflowResult and p1 assume "pl_submit strtod r p = Inr (w, p1)"
    then have "evolves p p1" using pl_submit_ends [OF Cons.prems(1), of strtod r] by (simp add: outcome_ok_def)
    then have "in_time (pl_run strtod rs p1)" using Cons by (simp add: evolves_def limits_ok_def)
    then show "in_time (andthen (pl_run strtod rs p1) (\<lambda>(ws, p2). Inr (w # ws, p2)))" by (rule in_time_andthen) auto
  qed
qed simp

section \<open>Properties\<close>

text \<open>C1: The pipeline keeps the books and has one undefined behaviour only: start a pipeline, configure its market, register users, and submit
  any requests at all, whatever \<open>strtod\<close> makes of their numbers. Every submission returns a result, and at the end every
  account is its opening balance with its journal entries added in order; no exception, no dangling pointer and no endless loop of any component is
  reached. The exception is the overflow of a sum or difference of timestamps, and that needs a request with one of the last two values of its timestamp's type, or a user
  registered with a negative rate-limit window.\<close>

theorem pipeline_runs_to_completion:
  assumes "new_ExchangePipeline sz1 sz2 sort_routes symbol = Inr p0" "unat (max sz1 8) * 1024 < 2 ^ 64" "unat (max sz2 8) * 512 < 2 ^ 64"
    and "pl_configure_market bid ask fees config p0 = Inr p1"
  shows "case pl_run strtod requests (register_users users p1) of
    Inl e \<Rightarrow> e = ClockFault TimeOverflow \<and>
      ((\<exists>request \<in> set requests. \<not> (in_i64 (gr_timestamp_ms request) \<and> in_i64 (gr_timestamp_ms request + 2))) \<or>
       (\<exists>(_, _, _, _, _, window_ms) \<in> set users. \<not> (0 \<le> window_ms \<and> in_i64 window_ms)))
  | Inr (ws, p) \<Rightarrow> length ws = length requests \<and>
      (\<forall>user. \<exists>es. cl_journal user (ep_clearing p) = Some es \<and>
         pl_account user p = map_option (\<lambda>opening. foldl post opening es) (pl_account user (register_users users p1)))"
proof -
  let ?p = "register_users users p1"
  have start: "pipeline_inv p1" "fresh_clearing (ep_clearing p1)" "limits_ok (ep_gateway p1)" using new_pipeline_start [OF assms] by (auto simp: limits_ok_def)
  then have inv: "pipeline_inv ?p" "fresh_clearing (ep_clearing ?p)" using register_users_start by blast+
  from endsE [OF pl_run_ends [OF inv(1), of requests strtod]] show ?thesis
  proof
    assume fault: "pl_run strtod requests ?p = Inl (ClockFault TimeOverflow)"
    then show ?thesis using pl_run_in_time [OF inv(1) register_users_limits [OF start(3)], of requests strtod] by (auto simp: split_beta)
  next
    assume "\<exists>y. pl_run strtod requests ?p = Inr y \<and> (case y of (ws, p') \<Rightarrow> length ws = length requests \<and> evolves ?p p')"
    then obtain ws p where run: "pl_run strtod requests ?p = Inr (ws, p)" "length ws = length requests" "evolves ?p p" by auto
    then obtain es where es: "posted es (ep_clearing ?p) (ep_clearing p)" "journal_inv (ep_clearing p)"
      using clearing_run_posts [of "ep_clearing ?p" "ep_clearing p"] inv(2) by (auto simp: evolves_def fresh_clearing_def)
    have "cl_journal user (ep_clearing p) = Some (entries (ep_clearing p) user) \<and>
        pl_account user p = map_option (\<lambda>opening. foldl post opening (entries (ep_clearing p) user)) (pl_account user ?p)" for user
      using es inv(2) cl_journal_entries [of "ep_clearing p" user]
      by (simp add: posted_def fresh_clearing_def pl_account_def cl_account_def foldl_post_to)
    then show ?thesis using run by auto
  qed
qed

definition example_market :: MarketRiskConfig where
  "example_market = example_config\<lparr>mc_max_requests_per_window := 100\<rparr>"

lemma example_pipeline:
  "\<exists>p0 p1. new_ExchangePipeline 64 152 (\<lambda>rs. rs) ''BTC'' = Inr p0 \<and>
    pl_configure_market (dint 99) (dint 101) \<lparr>fs_maker_fee_bps = 0, fs_taker_fee_bps = 0\<rparr> example_market p0 = Inr p1"
proof -
  have "normalize_capacity 4096 = Inr 4096" by (simp add: normalize_capacity_def bit_ceil_from.simps)
  moreover have "\<not> dint 10 \<le> 0" "\<not> dint 1000 \<le> 0" by simp_all
  ultimately show ?thesis
    by (auto simp: new_ExchangePipeline_def new_UnifiedAccessGateway_def new_PreTradeRiskEngine_def new_OrderbookMatchingEngine_def
        new_AccountClearingSystem_def new_ObjectPool_def new_FixedBlockPool_def new_SpscRingQueue_def pl_configure_market_def configure_market_def
        update_top_of_book_def example_market_def example_config_def Let_def)
qed

theorem pipeline_runs_to_completion_witness:
  "\<exists>p1 ws p. pl_run (\<lambda>text. (False, length text, dint 1)) [example_gateway_request] (register_users [(''key'', ''s'', ''u'', demo_account, 100, 1000)] p1) = Inr (ws, p) \<and>
     length ws = 1"
proof -
  let ?strtod = "\<lambda>text :: string. (False, length text, dint 1)" and ?users = "[(''key'', ''s'', ''u'', demo_account, 100, 1000)]"
  obtain p0 p1 where "new_ExchangePipeline 64 152 (\<lambda>rs. rs) ''BTC'' = Inr p0"
    "pl_configure_market (dint 99) (dint 101) \<lparr>fs_maker_fee_bps = 0, fs_taker_fee_bps = 0\<rparr> example_market p0 = Inr p1" using example_pipeline by blast
  from pipeline_runs_to_completion [OF this(1) _ _ this(2), where strtod = ?strtod and requests = "[example_gateway_request]" and users = ?users]
  show ?thesis by (cases "pl_run ?strtod [example_gateway_request] (register_users ?users p1)")
      (auto simp: example_gateway_request_def in_i64_def simp del: pl_run.simps)
qed

text \<open>C19: A submission that is refused before matching, by the gateway, the parser, the risk engine or the clearing hold, leaves
  the order books, the accounts and the order registry exactly as they were.\<close>

theorem pipeline_refusal_is_clean:
  assumes "pipeline_inv p" "pl_submit strtod request p = Inr (w, p')"
    and "wf_status w \<in> {kRouteRejected, kParseRejected, kRiskRejected, kClearingRejected}"
  shows "ep_matching p' = ep_matching p \<and> ep_clearing p' = ep_clearing p \<and> ep_order_registry p' = ep_order_registry p"
  using pl_submit_ends [OF assms(1), of strtod request] assms(2,3) by (auto simp: outcome_ok_def late_status_def untouched_def)

theorem pipeline_refusal_is_clean_witness:
  "\<exists>p w p'. pl_submit (\<lambda>text. (False, length text, dint 1)) (example_gateway_request\<lparr>gr_user_id := []\<rparr>) p = Inr (w, p') \<and>
    wf_status w = kRouteRejected \<and> ep_clearing p' = ep_clearing p"
proof -
  obtain p0 p where new: "new_ExchangePipeline 64 152 (\<lambda>rs. rs) ''BTC'' = Inr p0"
    "pl_configure_market (dint 99) (dint 101) \<lparr>fs_maker_fee_bps = 0, fs_taker_fee_bps = 0\<rparr> example_market p0 = Inr p" using example_pipeline by blast
  have inv: "pipeline_inv p" using new_pipeline_start [OF new(1) _ _ new(2)] by simp
  let ?r = "example_gateway_request\<lparr>gr_user_id := []\<rparr>" and ?strtod = "\<lambda>text :: string. (False, length text, dint 1)"
  have "gw_route ?r (ep_gateway p) = Inr (gw_rejected gw_kInvalidRequest kRisk, ep_gateway p)"
    by (simp add: gw_route_def has_valid_request_shape_def)
  then obtain w p' where run: "pl_submit ?strtod ?r p = Inr (w, p')" "wf_status w = kRouteRejected"
    by (simp add: pl_submit_def route_request_def gw_rejected_def Let_def)
  from pipeline_refusal_is_clean [OF inv run(1)] run show ?thesis by auto
qed

text \<open>C21: Payloads round-trip: the parser recovers exactly the fields of a rendered payload, for distinct field names without
  \<open>;\<close> and \<open>=\<close> and values without \<open>;\<close>.\<close>

theorem payload_roundtrip:
  assumes "\<forall>kv \<in> set kvs. plain_field kv" "distinct (map fst kvs)"
  shows "parse_key_values (render_payload kvs) = map_of kvs"
  using parse_render [of kvs Map.empty] assms by (simp add: parse_key_values_def)

theorem payload_roundtrip_witness:
  "parse_key_values (render_payload [(''side'', ''buy''), (''price'', ''10=1'')]) ''price'' = Some ''10=1''"
  using payload_roundtrip [of "[(''side'', ''buy''), (''price'', ''10=1'')]"] by (simp add: plain_field_def)

text \<open>C22: Whatever \<open>strtod\<close> returns, a parsed order has a finite price and quantity, which is what the matching engine needs of
  a request; the side and the type the risk engine sees are those the matching engine sees; and user and time are those of the
  authenticated envelope, not of the payload.\<close>

theorem parsed_order_well_typed:
  assumes "parse_order strtod request = Some order"
  shows "request_ok (to_matching_request order) \<and> is_finite (rr_price (to_risk_request order)) \<and> is_finite (rr_quantity (to_risk_request order)) \<and>
    (rr_side (to_risk_request order) = risk_kBuy \<longleftrightarrow> oq_side (to_matching_request order) = kBuy) \<and>
    (rr_type (to_risk_request order) = risk_kLimit \<longleftrightarrow> oq_type (to_matching_request order) = kLimit) \<and>
    rr_user_id (to_risk_request order) = fr_user_id request \<and> rr_timestamp_ms (to_risk_request order) = fr_timestamp_ms request"
  using parse_order_fields [OF assms] by (simp add: request_ok_def to_matching_request_def to_risk_request_def)

theorem parsed_order_well_typed_witness:
  "\<exists>order. parse_order (\<lambda>text. (False, length text, dint 7)) \<lparr>fr_request_id = ''r'', fr_user_id = ''u'', fr_path = ''/v1/orders'',
      fr_payload = render_payload [(''side'', ''buy''), (''type'', ''market''), (''tif'', ''ioc''), (''order_id'', ''o''), (''symbol'', ''BTC''),
        (''source_ip'', ''ip''), (''quantity'', ''7'')], fr_backend = kRisk, fr_protocol = kRest, fr_timestamp_ms = 3\<rparr> = Some order \<and>
    request_ok (to_matching_request order) \<and> oq_type (to_matching_request order) = kMarket"
proof -
  let ?kvs = "[(''side'', ''buy''), (''type'', ''market''), (''tif'', ''ioc''), (''order_id'', ''o''), (''symbol'', ''BTC''),
        (''source_ip'', ''ip''), (''quantity'', ''7'')]"
  let ?f = "\<lparr>fr_request_id = ''r'', fr_user_id = ''u'', fr_path = ''/v1/orders'', fr_payload = render_payload ?kvs,
      fr_backend = kRisk, fr_protocol = kRest, fr_timestamp_ms = 3\<rparr>"
  let ?strtod = "\<lambda>text :: string. (False, length text, dint 7)"
  have "parse_key_values (render_payload ?kvs) = map_of ?kvs" using parse_render [of ?kvs Map.empty] by (simp add: parse_key_values_def plain_field_def)
  then obtain order where order: "parse_order ?strtod ?f = Some order" "po_matching_type order = kMarket"
    by (simp add: parse_order_def Let_def parse_matching_side_def parse_risk_side_def parse_matching_type_def parse_risk_type_def parse_tif_def parse_decimal_def
        del: render_payload.simps)
  from parsed_order_well_typed [OF order(1)] order show ?thesis
    by (intro exI [of _ order]) (simp add: to_matching_request_def del: render_payload.simps)
qed

section \<open>Defects\<close>

text \<open>The trade id is built from the order ids, and order ids may be used again; a settlement reported as a duplicate counts as
  settled. So a trade between reused ids is reported as settled although no balance moves.\<close>

lemma reused_ids_settle_nothing:
  assumes "map_of (ep_order_registry p) (tr_maker_order_id trade) = Some maker" "map_of (ep_order_registry p) (tr_taker_order_id trade) = Some taker"
    and "tr_maker_order_id trade @ ''->'' @ tr_taker_order_id trade \<in> cl_settled_trade_ids (ep_clearing p)"
  shows "\<exists>w' p'. settle_trades_loop order [trade] (w, p) = Inr (True, w', p') \<and> ep_clearing p' = ep_clearing p"
proof -
  have "settle_spot_trade (fill_of_trade order trade maker taker (ep_symbol p)) (ep_fee_schedule p) (ep_clearing p) =
      Inr (settlement_status kDuplicate, ep_clearing p)"
    using assms(3) by (simp add: settle_spot_trade_def fill_of_trade_def Let_def)
  then show ?thesis using assms(1,2) by (simp add: Let_def)
qed

end
