(* ===== verification/Pipeline_Settle.thy ===== *)
theory Pipeline_Settle
  imports Pipeline_Props
begin

text \<open>
  What a completed submission has done, across matching engine, clearing system and registry: every trade is settled, nothing
  else is, and the holds of the orders that left the book are released. The lemmas follow the stages of \<open>submit\<close>.
\<close>

section \<open>The clearing system\<close>

text \<open>No hold above the pipeline's threshold is left under an id.\<close>

definition hold_closed :: "string \<Rightarrow> AccountClearingSystem \<Rightarrow> bool" where
  "hold_closed h c \<longleftrightarrow> (case hold_amount h c of None \<Rightarrow> True | Some amount \<Rightarrow> pl_is_zero amount)"

lemma hold_closed_mono: "hold_closed h c \<Longrightarrow> cl_holds c' \<subseteq>\<^sub>m cl_holds c \<Longrightarrow> hold_closed h c'"
  by (cases "cl_holds c' h") (auto simp: hold_closed_def hold_amount_def map_le_def dom_def)

lemma settle_returns:
  assumes "journal_inv s" "settle_spot_trade fill fees s = Inr (r, s')"
  shows "journal_inv s'" "sr_ok r \<Longrightarrow> cl_settled_trade_ids s' = insert (tf_trade_id fill) (cl_settled_trade_ids s) \<and>
    sr_status r = (if tf_trade_id fill \<in> cl_settled_trade_ids s then kDuplicate else kApplied)"
  using assms by (cases rule: settle_spot_trade_cases [OF assms(1), of fill fees]; auto simp: posted_def sr_ok_def settlement_status_def)+

lemma release_hold_returns:
  assumes "journal_inv s" "release_hold h t s = Inr (status, s')"
  shows "journal_inv s'" "cl_settled_trade_ids s' = cl_settled_trade_ids s" "status = kApplied \<Longrightarrow> cl_holds s' = (cl_holds s)(h := None)"
proof -
  show "journal_inv s'" "cl_settled_trade_ids s' = cl_settled_trade_ids s"
    using release_hold_posts [OF assms(1), of h t] assms by (auto simp: posts_or_nothing_def posted_def)
  show "status = kApplied \<Longrightarrow> cl_holds s' = (cl_holds s)(h := None)"
    using assms(2) by (auto simp: release_hold_def append_journal_def Let_def split: option.splits sum.splits prod.splits)
qed

lemma release_residual_returns:
  assumes "journal_inv (ep_clearing p)" "release_residual_hold h t p = Inr (status, p')"
  shows "\<exists>c. p' = p\<lparr>ep_clearing := c\<rparr> \<and> journal_inv c \<and> cl_settled_trade_ids c = cl_settled_trade_ids (ep_clearing p) \<and>
    (op_result_ok status \<longrightarrow> hold_closed h c \<and> cl_holds c \<subseteq>\<^sub>m cl_holds (ep_clearing p))"
proof (cases "hold_closed h (ep_clearing p)")
  case True
  then have "status = kApplied" "p' = p" using assms(2) by (auto simp: release_residual_hold_def hold_closed_def split: option.splits)
  then show ?thesis using True assms(1) by (intro exI [of _ "ep_clearing p"]) simp
next
  case False
  then obtain c where c: "release_hold h t (ep_clearing p) = Inr (status, c)" "p' = p\<lparr>ep_clearing := c\<rparr>"
    using assms(2) by (cases "release_hold h t (ep_clearing p)") (auto simp: release_residual_hold_def hold_closed_def split: option.splits if_splits)
  with release_hold_returns [OF assms(1) c(1)] show ?thesis
    by (intro exI [of _ c]) (auto simp: op_result_ok_def hold_closed_def hold_amount_def map_le_def)
qed

section \<open>The stages\<close>

abbreviation trade_id :: "Trade \<Rightarrow> string" where
  "trade_id trade \<equiv> tr_maker_order_id trade @ ''->'' @ tr_taker_order_id trade"

text \<open>The status of the settlement of each trade of a list, when a set of ids is settled already: a trade moves money only the first time its id occurs.\<close>

fun settlement_statuses :: "string set \<Rightarrow> Trade list \<Rightarrow> ClearingStatus list" where
  "settlement_statuses settled [] = []"
| "settlement_statuses settled (trade # trades) =
     (if trade_id trade \<in> settled then kDuplicate else kApplied) # settlement_statuses (insert (trade_id trade) settled) trades"

text \<open>What settlement and release leave alone.\<close>

definition same_market :: "WorkflowResult \<Rightarrow> ExchangePipeline \<Rightarrow> WorkflowResult \<Rightarrow> ExchangePipeline \<Rightarrow> bool" where
  "same_market w p w' p' \<longleftrightarrow> journal_inv (ep_clearing p') \<and> ep_matching p' = ep_matching p \<and> ep_symbol p' = ep_symbol p \<and>
     wf_match_result w' = wf_match_result w"

lemma same_market_trans: "same_market w p w1 p1 \<Longrightarrow> same_market w1 p1 w2 p2 \<Longrightarrow> same_market w p w2 p2"
  by (simp add: same_market_def)

lemma settle_trades_returns:
  assumes "settle_trades_loop order trades (w, p) = Inr (ok, w', p')" "journal_inv (ep_clearing p)"
  shows "same_market w p w' p' \<and> ep_order_registry p' = ep_order_registry p \<and> (\<not> ok \<longrightarrow> wf_status w' \<noteq> kCompleted) \<and>
    (ok \<longrightarrow> cl_settled_trade_ids (ep_clearing p') = cl_settled_trade_ids (ep_clearing p) \<union> trade_id ` set trades \<and>
       map sr_status (wf_settlements w') = map sr_status (wf_settlements w) @ settlement_statuses (cl_settled_trade_ids (ep_clearing p)) trades)"
  using assms
proof (induction trades arbitrary: w p)
  case (Cons trade trades)
  show ?case
  proof (cases "map_of (ep_order_registry p) (tr_maker_order_id trade) = None \<or> map_of (ep_order_registry p) (tr_taker_order_id trade) = None")
    case True
    then have "ok = False \<and> p' = p \<and> wf_status w' = wf_kInvariantViolation \<and> wf_match_result w' = wf_match_result w"
      using Cons.prems(1) by (auto split: option.splits)
    then show ?thesis using Cons.prems(2) by (simp add: same_market_def)
  next
    case False
    then obtain maker taker where reg: "map_of (ep_order_registry p) (tr_maker_order_id trade) = Some maker"
      "map_of (ep_order_registry p) (tr_taker_order_id trade) = Some taker" by auto
    let ?fill = "fill_of_trade order trade maker taker (ep_symbol p)"
    obtain r c where r: "settle_spot_trade ?fill (ep_fee_schedule p) (ep_clearing p) = Inr (r, c)"
      using settle_completes [OF Cons.prems(2)] by (metis completesE surj_pair)
    have id: "tf_trade_id ?fill = trade_id trade" by (simp add: fill_of_trade_def Let_def)
    let ?w = "w\<lparr>wf_settlements := wf_settlements w @ [r]\<rparr>"
    let ?p = "sync_account_state (tf_seller_account_id ?fill) (sync_account_state (tf_buyer_account_id ?fill) (p\<lparr>ep_clearing := c\<rparr>))"
    show ?thesis
    proof (cases "sr_ok r")
      case False
      then show ?thesis using Cons.prems(1) settle_returns(1) [OF Cons.prems(2) r] by (auto simp: reg r Let_def same_market_def)
    next
      case True
      then have "settle_trades_loop order trades (?w, ?p) = Inr (ok, w', p')" using Cons.prems(1) by (simp add: reg r Let_def)
      from Cons.IH [OF this] settle_returns [OF Cons.prems(2) r] True show ?thesis by (simp add: same_market_def id)
    qed
  qed
qed (auto simp: same_market_def)

lemma release_loop_returns:
  assumes "release_loop order live ids (w, p) = Inr (ok, w', p')" "journal_inv (ep_clearing p)"
  shows "same_market w p w' p' \<and> cl_settled_trade_ids (ep_clearing p') = cl_settled_trade_ids (ep_clearing p) \<and>
    wf_settlements w' = wf_settlements w \<and> (\<not> ok \<longrightarrow> wf_status w' \<noteq> kCompleted) \<and>
    (ok \<longrightarrow> cl_holds (ep_clearing p') \<subseteq>\<^sub>m cl_holds (ep_clearing p) \<and>
       map_of (ep_order_registry p') = map_of (ep_order_registry p) |` (- (set ids - set live)) \<and>
       (\<forall>i m. i \<in> set ids - set live \<and> map_of (ep_order_registry p) i = Some m \<longrightarrow> hold_closed (mo_hold_id m) (ep_clearing p')))"
  using assms
proof (induction ids arbitrary: w p)
  case (Cons i ids)
  show ?case
  proof (cases "i \<in> set live \<or> map_of (ep_order_registry p) i = None")
    case True
    then have "release_loop order live ids (w, p) = Inr (ok, w', p')" using Cons.prems(1) by (auto split: if_splits)
    note IH = Cons.IH [OF this Cons.prems(2)]
    have "map_of (ep_order_registry p) |` (- (set ids - set live)) = map_of (ep_order_registry p) |` (- (set (i # ids) - set live))"
      using True by (auto simp: restrict_map_def)
    then show ?thesis using IH True by auto
  next
    case False
    then obtain m where m: "map_of (ep_order_registry p) i = Some m" "i \<notin> set live" by blast
    obtain status p1 where t: "checked_i64 (po_timestamp_ms order + 2) = Inr (po_timestamp_ms order + 2)"
      and r: "release_residual_hold (mo_hold_id m) (po_timestamp_ms order + 2) p = Inr (status, p1)"
      using Cons.prems(1) m by (cases "release_residual_hold (mo_hold_id m) (po_timestamp_ms order + 2) p") (auto simp: checked_i64_def split: if_splits)
    from release_residual_returns [OF Cons.prems(2) r] obtain c where c: "p1 = p\<lparr>ep_clearing := c\<rparr>" "journal_inv c"
      "cl_settled_trade_ids c = cl_settled_trade_ids (ep_clearing p)" "op_result_ok status \<longrightarrow> hold_closed (mo_hold_id m) c \<and> cl_holds c \<subseteq>\<^sub>m cl_holds (ep_clearing p)" by blast
    show ?thesis
    proof (cases "op_result_ok status")
      case False
      then have "\<not> ok" "p' = p1" "w' = w\<lparr>wf_status := wf_kInvariantViolation, wf_error_detail := status_message status, wf_accepted := False\<rparr>"
        using Cons.prems(1) m by (simp_all add: t r)
      then show ?thesis using c by (simp add: same_market_def)
    next
      case True
      let ?p2 = "sync_account_state (mo_user_id m) p1"
      let ?p3 = "?p2\<lparr>ep_order_registry := AList.delete i (ep_order_registry ?p2)\<rparr>"
      have run: "release_loop order live ids (w, ?p3) = Inr (ok, w', p')" using Cons.prems(1) True m by (simp add: t r Let_def)
      have frame: "ep_clearing ?p3 = c" "ep_matching ?p3 = ep_matching p" "ep_symbol ?p3 = ep_symbol p"
        "map_of (ep_order_registry ?p3) = (map_of (ep_order_registry p))(i := None)" by (simp_all add: c(1) AList.delete_conv')
      have restrict: "(map_of (ep_order_registry p))(i := None) |` (- (set ids - set live)) = map_of (ep_order_registry p) |` (- (set (i # ids) - set live))"
        using m(2) by (auto simp: restrict_map_def)
      note IH = Cons.IH [OF run, unfolded frame restrict c(3), OF c(2)]
      then have "ok \<longrightarrow> hold_closed (mo_hold_id m) (ep_clearing p')" "ok \<longrightarrow> cl_holds (ep_clearing p') \<subseteq>\<^sub>m cl_holds (ep_clearing p)"
        using c(4) True hold_closed_mono map_le_trans by blast+
      moreover have "hold_closed (mo_hold_id m') (ep_clearing p')"
        if "ok" "j \<in> set (i # ids) - set live" "map_of (ep_order_registry p) j = Some m'" for j m'
      proof (cases "j = i")
        case False
        then have "((map_of (ep_order_registry p))(i := None)) j = Some m'" "j \<in> set ids - set live" using that by simp_all
        then show ?thesis using IH \<open>ok\<close> by blast
      qed (use that calculation(1) m(1) in simp)
      moreover have "same_market w p w' p'" using IH frame unfolding same_market_def by metis
      ultimately show ?thesis using IH by blast
    qed
  qed
qed (auto simp: same_market_def restrict_map_def)

lemma tracked_ids:
  assumes "distinct (map fst registry)"
  shows "i \<in> set (map fst (filter (\<lambda>(_, managed). mo_symbol managed = symbol) registry)) \<longleftrightarrow>
    (\<exists>m. map_of registry i = Some m \<and> mo_symbol m = symbol)"
  using assms by (auto simp: map_of_eq_Some_iff image_iff split_beta) 

lemma track_views_frame:
  "ep_matching (fold track_resting_view vs p) = ep_matching p" "ep_clearing (fold track_resting_view vs p) = ep_clearing p"
  "ep_order_registry (fold track_resting_view vs p) = ep_order_registry p" "ep_symbol (fold track_resting_view vs p) = ep_symbol p"
  by (induction vs arbitrary: p) (auto simp: track_resting_view_def split: option.split)

lemma publish_outcome_returns:
  assumes "publish_outcome (w, p) = Inr (w', p')"
  shows "ep_matching p' = ep_matching p \<and> ep_clearing p' = ep_clearing p \<and> ep_order_registry p' = ep_order_registry p \<and>
    ep_symbol p' = ep_symbol p \<and> wf_match_result w' = wf_match_result w \<and> wf_settlements w' = wf_settlements w"
proof -
  obtain p1 where p1: "sync_resting_orders p = Inr p1" and p2: "refresh_market_reference p1 = Inr p'"
    and w': "w' = populate_market_outputs (w\<lparr>wf_status := kCompleted\<rparr>) p'"
    using assms by (cases "sync_resting_orders p"; cases "refresh_market_reference (projr (sync_resting_orders p))") (auto simp: publish_outcome_def)
  have "ep_matching p1 = ep_matching p \<and> ep_clearing p1 = ep_clearing p \<and> ep_order_registry p1 = ep_order_registry p \<and> ep_symbol p1 = ep_symbol p"
    using p1 by (cases "resting_orders (ep_matching p)") (auto simp: sync_resting_orders_def Let_def track_views_frame)
  moreover have "ep_matching p' = ep_matching p1 \<and> ep_clearing p' = ep_clearing p1 \<and> ep_order_registry p' = ep_order_registry p1 \<and> ep_symbol p' = ep_symbol p1"
    using p2 unfolding refresh_market_reference_def Let_def
    by (cases "update_top_of_book (ep_symbol p1) (if ds_bids (me_snapshot 1 (ep_matching p1)) \<noteq> [] then bl_price (hd (ds_bids (me_snapshot 1 (ep_matching p1)))) else ep_best_bid p1)
      (if ds_asks (me_snapshot 1 (ep_matching p1)) \<noteq> [] then bl_price (hd (ds_asks (me_snapshot 1 (ep_matching p1)))) else ep_best_ask p1) (ep_risk p1)") auto
  ultimately show ?thesis using w' by (simp add: populate_market_outputs_def)
qed

text \<open>The ids of the orders on the pipeline's book.\<close>

definition resting_ids :: "ExchangePipeline \<Rightarrow> string set" where
  "resting_ids p = (case resting_orders (ep_matching p) of None \<Rightarrow> {} | Some views \<Rightarrow> set (map rv_order_id views))"

text \<open>The books after a submission: all trades settled, and of the registered orders of the symbol exactly the resting ones kept.\<close>

definition books_settled ::
  "WorkflowResult \<Rightarrow> ExchangePipeline \<Rightarrow> (string \<times> ManagedOrder) list \<Rightarrow> string set \<Rightarrow> bool" where
  "books_settled w p registry settled \<longleftrightarrow>
     (let closed = {i. \<exists>m. map_of registry i = Some m \<and> mo_symbol m = ep_symbol p} - resting_ids p in
      map sr_status (wf_settlements w) = settlement_statuses settled (mr_trades (wf_match_result w)) \<and>
      cl_settled_trade_ids (ep_clearing p) = settled \<union> trade_id ` set (mr_trades (wf_match_result w)) \<and>
      map_of (ep_order_registry p) = map_of registry |` (- closed) \<and>
      (\<forall>i m. i \<in> closed \<and> map_of registry i = Some m \<longrightarrow> hold_closed (mo_hold_id m) (ep_clearing p)))"

lemma settle_and_release_settles:
  assumes "settle_and_release order (w, p) = Inr (w', p')" "wf_status w' = kCompleted" "journal_inv (ep_clearing p)"
    and "distinct (map fst (ep_order_registry p))" "wf_settlements w = []"
  shows "books_settled w' p' (ep_order_registry p) (cl_settled_trade_ids (ep_clearing p))"
proof -
  let ?trades = "mr_trades (wf_match_result w)"
  obtain ok w1 p1 where s: "settle_trades_loop order ?trades (w, p) = Inr (ok, w1, p1)"
    using assms(1) by (cases "settle_trades_loop order ?trades (w, p)") (auto simp: settle_and_release_def settle_trades_def)
  note settled = settle_trades_returns [OF s assms(3)]
  have ok: ok using assms(1,2) s settled by (cases ok) (simp_all add: settle_and_release_def settle_trades_def)
  then obtain views where views: "resting_orders (ep_matching p1) = Some views"
    using assms(1) s by (cases "resting_orders (ep_matching p1)") (auto simp: settle_and_release_def settle_trades_def release_closed_orders_def)
  let ?live = "map rv_order_id views" and ?ids = "map fst (filter (\<lambda>(_, managed). mo_symbol managed = ep_symbol p1) (ep_order_registry p1))"
  obtain released w2 p2 where r: "release_loop order ?live ?ids (w1, p1) = Inr (released, w2, p2)"
    using assms(1) s ok views by (cases "release_loop order ?live ?ids (w1, p1)") (auto simp: settle_and_release_def settle_trades_def release_closed_orders_def Let_def)
  have j: "journal_inv (ep_clearing p1)" using settled by (simp add: same_market_def)
  note loop = release_loop_returns [OF r j]
  have released: released and pub: "publish_outcome (w2, p2) = Inr (w', p')"
    using assms(1,2) s ok views r loop by (auto simp: settle_and_release_def settle_trades_def release_closed_orders_def Let_def split: if_splits)
  note out = publish_outcome_returns [OF pub]
  have live: "resting_ids p' = set ?live" using views out loop by (simp add: resting_ids_def same_market_def)
  have ids: "set ?ids = {i. \<exists>m. map_of (ep_order_registry p) i = Some m \<and> mo_symbol m = ep_symbol p'}"
    using tracked_ids [of "ep_order_registry p1"] settled loop out assms(4) unfolding same_market_def by auto
  show ?thesis unfolding books_settled_def Let_def live ids [symmetric] using settled loop out ok released assms(5) unfolding same_market_def
    by (auto simp del: set_map)
qed

lemma handle_rejected_status:
  assumes "handle_rejected_match order h (w, p) = Inr (ok, w', p')"
  shows "wf_status w' \<noteq> kCompleted"
proof -
  obtain status p1 where t: "checked_i64 (po_timestamp_ms order + 1) = Inr (po_timestamp_ms order + 1)"
    and r: "release_residual_hold h (po_timestamp_ms order + 1) p = Inr (status, p1)"
    using assms by (cases "release_residual_hold h (po_timestamp_ms order + 1) p") (auto simp: handle_rejected_match_def checked_i64_def split: if_splits)
  let ?p3 = "sync_account_state (po_user_id order) (p1\<lparr>ep_order_registry := AList.delete (po_order_id order) (ep_order_registry p1)\<rparr>)"
  show ?thesis using assms t r by (cases "sync_resting_orders ?p3") (auto simp: handle_rejected_match_def Let_def split: if_splits)
qed

lemma match_and_settle_settles:
  assumes "match_and_settle order h (w, p) = Inr (w', p')" "wf_status w' = kCompleted" "journal_inv (ep_clearing p)"
    and "distinct (map fst (ep_order_registry p))" "wf_settlements w = []"
  shows "books_settled w' p' (ep_order_registry (track_managed_order order h p)) (cl_settled_trade_ids (ep_clearing p))"
proof -
  let ?p1 = "track_managed_order order h p"
  obtain result e where run: "me_submit (to_matching_request order) (ep_matching ?p1) = Some (result, e)"
    using assms(1) by (cases "me_submit (to_matching_request order) (ep_matching ?p1)") (auto simp: match_and_settle_def Let_def)
  let ?p2 = "?p1\<lparr>ep_matching := e\<rparr>" and ?w = "w\<lparr>wf_match_result := result, wf_accepted := mr_accepted result\<rparr>"
  have frame: "ep_clearing ?p2 = ep_clearing p" "ep_order_registry ?p2 = ep_order_registry ?p1" by (simp_all add: track_managed_order_def Let_def)
  have eq: "match_and_settle order h (w, p) = (if \<not> mr_accepted result \<and> mr_trades result = []
      then andthen (handle_rejected_match order h (?w, ?p2)) (\<lambda>(_, st2). Inr st2) else settle_and_release order (?w, ?p2))"
    unfolding match_and_settle_def Let_def prod.case run(1) defined_or.simps andthen.simps ..
  have "settle_and_release order (?w, ?p2) = Inr (w', p')"
  proof (cases "\<not> mr_accepted result \<and> mr_trades result = []")
    case True
    then obtain ok where "handle_rejected_match order h (?w, ?p2) = Inr (ok, w', p')"
      using assms(1) eq by (cases "handle_rejected_match order h (?w, ?p2)") auto
    then have "wf_status w' \<noteq> kCompleted" using handle_rejected_status by blast
    then show ?thesis using assms(2) by blast
  next
    case False
    then show ?thesis using assms(1) eq by (simp only: if_not_P if_False)
  qed
  moreover have "distinct (map fst (ep_order_registry ?p2))" using assms(4) by (simp add: track_managed_order_def Let_def distinct_update)
  ultimately show ?thesis using settle_and_release_settles [of order ?w ?p2 w' p'] assms(2,3,5) unfolding frame by simp
qed

lemma reserve_returns:
  assumes "reserve_order_hold order (w, p) = Inr (hold_id, w', p')" "journal_inv (ep_clearing p)"
  shows "hold_id = None \<Longrightarrow> wf_status w' = kClearingRejected"
    and "hold_id = Some h \<Longrightarrow> h = hold_id_for (po_order_id order) \<and> w' = w \<and> (\<exists>c. p' = p\<lparr>ep_clearing := c\<rparr> \<and> journal_inv c \<and>
      cl_settled_trade_ids c = cl_settled_trade_ids (ep_clearing p))"
proof -
  let ?x = "if po_matching_side order = kBuy
    then freeze_quote (po_user_id order) (hold_id_for (po_order_id order)) (reserve_amount order p) (po_timestamp_ms order) (ep_clearing p)
    else freeze_base (po_user_id order) (hold_id_for (po_order_id order)) (reserve_amount order p) (po_timestamp_ms order) (ep_clearing p)"
  have "posts_or_nothing (reserve_amount order p) ?x (ep_clearing p)" using freeze_quote_posts [OF assms(2)] freeze_base_posts [OF assms(2)] by auto
  then obtain status c where run: "?x = Inr (status, c)" and c: "journal_inv c" "cl_settled_trade_ids c = cl_settled_trade_ids (ep_clearing p)"
    using assms(2) by (cases "fst (projr ?x) = kApplied") (auto simp: posts_or_nothing_def posted_def)
  have "(hold_id, w', p') = (if \<not> op_result_ok status
             then (None, w\<lparr>wf_status := kClearingRejected, wf_error_detail := status_message status,
                     wf_risk_decision := (wf_risk_decision w)\<lparr>rd_accepted := False,
                       rd_reject_reason := to_risk_reject_reason status (po_matching_side order),
                       rd_rule_name := ''clearing_hold_reservation''\<rparr>\<rparr>, p\<lparr>ep_clearing := c\<rparr>)
             else (Some (hold_id_for (po_order_id order)), w, p\<lparr>ep_clearing := c\<rparr>))"
    using assms(1) unfolding reserve_order_hold_def Let_def prod.case by (simp only: run lift_fault.simps andthen.simps prod.case sum.inject)
  then show "hold_id = None \<Longrightarrow> wf_status w' = kClearingRejected"
    "hold_id = Some h \<Longrightarrow> h = hold_id_for (po_order_id order) \<and> w' = w \<and> (\<exists>c. p' = p\<lparr>ep_clearing := c\<rparr> \<and> journal_inv c \<and>
      cl_settled_trade_ids c = cl_settled_trade_ids (ep_clearing p))"
    using c by (auto split: if_splits)
qed

lemma track_registry:
  "ep_order_registry p = ep_order_registry p' \<Longrightarrow> ep_order_registry (track_managed_order order h p) = ep_order_registry (track_managed_order order h p')"
  by (simp add: track_managed_order_def Let_def)

lemma process_order_settles:
  assumes "process_order order (w, p) = Inr (w', p')" "wf_status w' = kCompleted" "journal_inv (ep_clearing p)"
    and "distinct (map fst (ep_order_registry p))" "wf_settlements w = []"
  shows "books_settled w' p' (ep_order_registry (track_managed_order order (hold_id_for (po_order_id order)) p)) (cl_settled_trade_ids (ep_clearing p))"
proof -
  obtain d r where d: "risk_evaluate (to_risk_request order) (ep_risk p) = Inr (d, r)"
    using assms(1) by (cases "risk_evaluate (to_risk_request order) (ep_risk p)") (auto simp: process_order_def evaluate_risk_stage_def)
  let ?w = "w\<lparr>wf_risk_decision := d\<rparr>" and ?p = "p\<lparr>ep_risk := r\<rparr>"
  have "rd_accepted d" using assms(1,2) by (auto simp: process_order_def evaluate_risk_stage_def d Let_def split: if_splits)
  then have eq: "andthen (reserve_order_hold order (?w, ?p)) (\<lambda>(hold_id, st2).
      case hold_id of None \<Rightarrow> Inr st2 | Some h \<Rightarrow> match_and_settle order h st2) = Inr (w', p')"
    using assms(1) by (simp add: process_order_def evaluate_risk_stage_def d Let_def)
  then obtain hold_id w1 p1 where hold: "reserve_order_hold order (?w, ?p) = Inr (hold_id, w1, p1)"
    by (cases "reserve_order_hold order (?w, ?p)") auto
  have j: "journal_inv (ep_clearing ?p)" using assms(3) by simp
  obtain h where h: "hold_id = Some h"
    using eq assms(2) reserve_returns(1) [OF hold j] by (cases hold_id) (auto simp: hold)
  from reserve_returns(2) [OF hold j h] obtain c where c: "h = hold_id_for (po_order_id order)" "w1 = ?w" "p1 = ?p\<lparr>ep_clearing := c\<rparr>" "journal_inv c"
    "cl_settled_trade_ids c = cl_settled_trade_ids (ep_clearing p)" by auto
  have "match_and_settle order h (w1, p1) = Inr (w', p')" using eq by (simp add: hold h)
  from match_and_settle_settles [OF this assms(2)] c assms(4,5)
  have "books_settled w' p' (ep_order_registry (track_managed_order order h p1)) (cl_settled_trade_ids (ep_clearing p))" by simp
  moreover have "ep_order_registry (track_managed_order order h p1) = ep_order_registry (track_managed_order order h p)"
    by (rule track_registry) (simp add: c)
  ultimately show ?thesis by (simp add: c(1))
qed

lemma pl_submit_settles:
  assumes "pipeline_inv p" "distinct (map fst (ep_order_registry p))" "pl_submit strtod request p = Inr (w, p')" "wf_status w = kCompleted"
  shows "\<exists>order. parse_order strtod (make_forwarded_request request kRisk) = Some order \<and>
    books_settled w p' (ep_order_registry (track_managed_order order (hold_id_for (po_order_id order)) p)) (cl_settled_trade_ids (ep_clearing p)) \<and>
    ep_symbol p' = ep_symbol p"
proof -
  obtain f w1 p1 where run: "route_request request (empty_workflow, p) = Inr (f, w1, p1)"
    using assms(3) by (cases "route_request request (empty_workflow, p)") (auto simp: pl_submit_def)
  then have route: "evolves p p1" "untouched p p1" "wf_settlements w1 = []" "f = None \<longrightarrow> wf_status w1 = kRouteRejected"
    "\<forall>forwarded. f = Some forwarded \<longrightarrow> (\<exists>backend. forwarded = make_forwarded_request request backend)"
    using route_request_ends [OF assms(1), of empty_workflow request] by (auto simp: empty_workflow_def)
  then obtain forwarded where f: "f = Some forwarded" using assms(3,4) run by (cases f) (auto simp: pl_submit_def)
  then obtain backend where b: "forwarded = make_forwarded_request request backend" using route(5) by blast
  obtain order where order: "parse_order strtod forwarded = Some order"
    using assms(3,4) run f by (cases "parse_order strtod forwarded") (auto simp: pl_submit_def parse_forwarded_request_def)
  have "process_order order (w1, p1) = Inr (w, p')" using assms(3) run f order by (simp add: pl_submit_def parse_forwarded_request_def)
  from process_order_settles [OF this assms(4)] route(1-3) assms(2)
  have "books_settled w p' (ep_order_registry (track_managed_order order (hold_id_for (po_order_id order)) p)) (cl_settled_trade_ids (ep_clearing p))"
    using track_registry [of p1 p order] by (simp add: untouched_def evolves_def pipeline_inv_def)
  moreover have "parse_order strtod (make_forwarded_request request kRisk) = Some order"
    using order by (simp add: b parse_order_def make_forwarded_request_def)
  moreover have "ep_symbol p' = ep_symbol p" using pl_submit_ends [OF assms(1), of strtod request] assms(3) by (simp add: outcome_ok_def evolves_def)
  ultimately show ?thesis by blast
qed

section \<open>The keys of the registry\<close>

abbreviation keys_distinct :: "ExchangePipeline \<Rightarrow> bool" where
  "keys_distinct p \<equiv> distinct (map fst (ep_order_registry p))"

text \<open>\<open>returns P x\<close>: \<open>P\<close> holds of the result, if there is one.\<close>

fun returns :: "('a \<Rightarrow> bool) \<Rightarrow> 'e + 'a \<Rightarrow> bool" where
  "returns P (Inl e) = True"
| "returns P (Inr x) = P x"

lemma returns_andthen: "returns P x \<Longrightarrow> (\<And>y. P y \<Longrightarrow> returns Q (f y)) \<Longrightarrow> returns Q (andthen x f)"
  by (cases x) auto

lemma returns_andthen_any: "(\<And>y. returns Q (f y)) \<Longrightarrow> returns Q (andthen x f)"
  by (cases x) auto

lemma returns_lift: "(\<And>y. returns Q (f y)) \<Longrightarrow> returns Q (andthen (lift_fault c x) f)"
  by (rule returns_andthen_any)

abbreviation keeps_keys :: "'a + 'b \<times> 'c \<times> ExchangePipeline \<Rightarrow> bool" where
  "keeps_keys \<equiv> returns (\<lambda>(_, _, p). keys_distinct p)"

lemma release_residual_keys: "keys_distinct p \<Longrightarrow> returns (\<lambda>(_, p'). keys_distinct p') (release_residual_hold h t p)"
  by (auto simp: release_residual_hold_def intro: returns_andthen_any split: option.split)

lemma settle_loop_keys: "keys_distinct p \<Longrightarrow> keeps_keys (settle_trades_loop order trades (w, p))"
  by (induction trades arbitrary: w p) (auto simp: Let_def intro!: returns_andthen_any split: option.split)

lemma release_loop_keys: "keys_distinct p \<Longrightarrow> keeps_keys (release_loop order live ids (w, p))"
proof (induction ids arbitrary: w p)
  case (Cons i ids)
  then show ?case
    by (auto simp: Let_def distinct_delete intro!: returns_lift returns_andthen [OF release_residual_keys] split: option.split)
qed simp

lemma sync_resting_keys: "keys_distinct p \<Longrightarrow> returns keys_distinct (sync_resting_orders p)"
  by (auto simp: sync_resting_orders_def Let_def track_views_frame intro: returns_andthen_any)

lemma publish_keys: "keys_distinct p \<Longrightarrow> returns (\<lambda>(_, p'). keys_distinct p') (publish_outcome (w, p))"
  unfolding publish_outcome_def refresh_market_reference_def Let_def prod.case
  by (rule returns_andthen [OF sync_resting_keys], assumption, rule returns_andthen [where P = keys_distinct], rule returns_andthen_any) auto

lemma release_closed_keys: "keys_distinct p \<Longrightarrow> keeps_keys (release_closed_orders order (w, p))"
  by (auto simp: release_closed_orders_def Let_def intro!: returns_andthen_any release_loop_keys)

lemma settle_and_release_keys: "keys_distinct p \<Longrightarrow> returns (\<lambda>(_, p'). keys_distinct p') (settle_and_release order (w, p))"
  unfolding settle_and_release_def settle_trades_def fst_conv
  by (auto intro!: returns_andthen [OF settle_loop_keys] returns_andthen [OF release_closed_keys] publish_keys)

lemma handle_rejected_keys: "keys_distinct p \<Longrightarrow> keeps_keys (handle_rejected_match order h (w, p))"
  unfolding handle_rejected_match_def Let_def prod.case
  by (auto simp: distinct_delete intro!: returns_lift returns_andthen [OF release_residual_keys] returns_andthen [OF sync_resting_keys])

lemma match_and_settle_keys:
  assumes "keys_distinct p"
  shows "returns (\<lambda>(_, p'). keys_distinct p') (match_and_settle order h (w, p))"
proof -
  have "keys_distinct (track_managed_order order h p\<lparr>ep_matching := e\<rparr>)" for e
    using assms by (simp add: track_managed_order_def Let_def distinct_update)
  then show ?thesis unfolding match_and_settle_def Let_def prod.case
    by (intro returns_andthen_any) (auto intro!: returns_andthen [OF handle_rejected_keys] settle_and_release_keys)
qed

lemma process_order_keys:
  assumes "keys_distinct p"
  shows "returns (\<lambda>(_, p'). keys_distinct p') (process_order order (w, p))"
proof -
  have risk: "keeps_keys (evaluate_risk_stage order (w, p))"
    using assms by (auto simp: evaluate_risk_stage_def Let_def intro!: returns_andthen_any)
  have "keeps_keys (reserve_order_hold order (w1, p1))" if "keys_distinct p1" for w1 p1
    using that unfolding reserve_order_hold_def Let_def prod.case by (auto intro!: returns_andthen_any)
  note hold = returns_andthen [OF this]
  show ?thesis unfolding process_order_def
    by (rule returns_andthen [OF risk]) (auto intro!: hold match_and_settle_keys split: option.split)
qed

lemma pl_submit_keys:
  assumes "keys_distinct p" "pl_submit strtod request p = Inr (w, p')"
  shows "keys_distinct p'"
proof -
  have route: "keeps_keys (route_request request (empty_workflow, p))"
    using assms(1) by (auto simp: route_request_def Let_def intro!: returns_lift split: prod.split option.split)
  have "returns (\<lambda>(_, p'). keys_distinct p') (pl_submit strtod request p)" unfolding pl_submit_def
    by (rule returns_andthen [OF route]) (auto simp: parse_forwarded_request_def intro: process_order_keys split: option.split)
  then show ?thesis using assms(2) by simp
qed

lemma pl_run_keys: "keys_distinct p \<Longrightarrow> pl_run strtod rs p = Inr (ws, p') \<Longrightarrow> keys_distinct p'"
proof (induction rs arbitrary: p ws)
  case (Cons r rs)
  then obtain w p1 ws1 where "pl_submit strtod r p = Inr (w, p1)" "pl_run strtod rs p1 = Inr (ws1, p')"
    by (cases "pl_submit strtod r p"; cases "pl_run strtod rs (snd (projr (pl_submit strtod r p)))") auto
  then show ?case using Cons.IH Cons.prems(1) pl_submit_keys by blast
qed simp

section \<open>An example market\<close>

text \<open>The market of \<open>exchange_pipeline_test.cpp\<close> with small rings, slabs and request limits, so that the kernel can run it. The
  equations below let evaluation look at a condition before it looks at what depends on it.\<close>

lemma andthen_case [code_unfold]: "andthen x f = (case x of Inl e \<Rightarrow> Inl e | Inr y \<Rightarrow> f y)"
  by (cases x) auto

lemma bind_case [code_unfold]: "Option.bind x f = (case x of None \<Rightarrow> None | Some y \<Rightarrow> f y)"
  by (cases x) auto

declare match_against_asks.simps [code] match_against_bids.simps [code]

definition small_ring :: "'a SpscRingQueue" where
  "small_ring = \<lparr>rq_capacity = 4, rq_mask = 3, rq_buffer = replicate 4 None, rq_head = 0, rq_tail = 0\<rparr>"

definition small_pool :: "'a ObjectPool" where
  "small_pool = \<lparr>op_storage = \<lparr>fp_block_size = 64, fp_blocks_per_slab = 8, fp_local_cache_limit = 4, fp_slabs = [], fp_global_free_blocks = [],
     fp_outstanding_blocks = 0, fp_local_cache_hits = 0, fp_global_cache_hits = 0, fp_slab_refills = 0, fp_local_caches = (\<lambda>_. [])\<rparr>,
     op_objects = Map.empty\<rparr>"

definition test_config :: MarketRiskConfig where
  "test_config = \<lparr>mc_symbol = ''BTCUSDT'', mc_max_order_quantity = dint 10, mc_max_order_notional = dint 1000000, mc_max_price_deviation_ratio = dbl (5 / 100),
     mc_max_requests_per_window = 8, mc_rate_limit_window_ms = 1000, mc_enable_self_trade_prevention = True\<rparr>"

definition small_pipeline :: ExchangePipeline where
  "small_pipeline = \<lparr>ep_symbol = ''BTCUSDT'', ep_best_bid = 0, ep_best_ask = 0, ep_fee_schedule = \<lparr>fs_maker_fee_bps = 0, fs_taker_fee_bps = 0\<rparr>,
     ep_gateway = configure_route (\<lambda>rs. rs) ''/v1/orders'' kRisk ''risk_ingress''
       \<lparr>gw_credentials = Map.empty, gw_routes = [], gw_user_limits = Map.empty, gw_user_windows = Map.empty,
        gw_backend_health = [kRisk \<mapsto> True, kMatching \<mapsto> True, kClearing \<mapsto> True, kMarketData \<mapsto> True],
        gw_sessions = [], gw_ingress_queue = small_ring, gw_broadcaster = new_MarketDataBroadcaster\<rparr>,
     ep_risk = \<lparr>pr_markets = Map.empty, pr_accounts = Map.empty, pr_resting_orders = Map.empty, pr_request_windows = Map.empty, pr_audit_queue = small_ring, pr_audit_history = []\<rparr>,
     ep_matching = \<lparr>me_symbol = ''BTCUSDT'', me_order_pool = small_pool, me_bids = [], me_asks = [], me_live_orders = [],
       me_depth_book = new_DepthBook ''BTCUSDT'', me_broadcaster = new_MarketDataBroadcaster, me_event_queue = small_ring\<rparr>,
     ep_clearing = \<lparr>cl_accounts = Map.empty, cl_holds = Map.empty, cl_journals = Map.empty,
       cl_settled_trade_ids = {}, cl_journal_storage = [], cl_outbox = [], cl_journal_pool = small_pool\<rparr>,
     ep_order_registry = [], ep_known_users = [], ep_resting_users = []\<rparr>"

definition test_pipeline :: "pipeline_fault + ExchangePipeline" where
  "test_pipeline =
     andthen (pl_configure_market (dint 99) (dint 101) \<lparr>fs_maker_fee_bps = dint 2, fs_taker_fee_bps = dint 5\<rparr> test_config small_pipeline) (\<lambda>p. Inr
     (register_user ''buyer-key'' ''buyer-secret'' ''taker''
       \<lparr>ac_available_quote = dint 1000, ac_frozen_quote = 0, ac_available_base = 0, ac_frozen_base = 0, ac_base_cost = 0, ac_realized_pnl = 0\<rparr> 4 1000
     (register_user ''seller-key'' ''seller-secret'' ''maker''
       \<lparr>ac_available_quote = 0, ac_frozen_quote = 0, ac_available_base = dint 1, ac_frozen_base = 0, ac_base_cost = dint 80, ac_realized_pnl = 0\<rparr> 4 1000 p)))"

definition test_request :: "string \<Rightarrow> string \<Rightarrow> string \<Rightarrow> string \<Rightarrow> string \<Rightarrow> i64 \<Rightarrow> GatewayRequest" where
  "test_request request_id user_id api_key secret payload timestamp_ms =
     \<lparr>gr_request_id = request_id, gr_user_id = user_id, gr_api_key = api_key, gr_signature = expected_signature api_key secret request_id,
      gr_path = ''/v1/orders/place'', gr_payload = payload, gr_protocol = kRest, gr_timestamp_ms = timestamp_ms\<rparr>"

definition maker_request :: GatewayRequest where
  "maker_request = test_request ''req-maker'' ''maker'' ''seller-key'' ''seller-secret''
     ''order_id=ask-1;symbol=BTCUSDT;side=sell;type=limit;tif=gtc;price=100.0;quantity=1.0;source_ip=10.0.0.1'' 1"

definition taker_request :: GatewayRequest where
  "taker_request = test_request ''req-taker'' ''taker'' ''buyer-key'' ''buyer-secret''
     ''order_id=buy-1;symbol=BTCUSDT;side=buy;type=limit;tif=ioc;price=100.0;quantity=1.0;source_ip=10.0.0.2'' 2"

definition test_strtod :: "string \<Rightarrow> bool \<times> nat \<times> double" where
  "test_strtod text = (False, length text, if text = ''100.0'' then dint 100 else dint 1)"

lemma small_ring_wf: "rq_wf small_ring" "rq_contents small_ring = []"
proof -
  have "new_SpscRingQueue 4 = Inr small_ring" by (simp add: new_SpscRingQueue_def normalize_capacity_def bit_ceil_from.simps small_ring_def)
  then show "rq_wf small_ring" "rq_contents small_ring = []" using rq_wf_new by auto
qed

lemma small_pool_inv: "op_inv small_pool" "op_objects small_pool = Map.empty"
proof -
  have "new_ObjectPool 64 8 4 = Inr small_pool" by (simp add: small_pool_def exec_simps max_def)
  then show "op_inv small_pool" "op_objects small_pool = Map.empty" using op_inv_new by (fastforce simp: max_def)+
qed

lemma small_pipeline_inv:
  "engine_inv (ep_matching small_pipeline)" "fresh_clearing (ep_clearing small_pipeline)" "risk_inv (ep_risk small_pipeline)"
  "rq_wf (gw_ingress_queue (ep_gateway small_pipeline))" "rq_contents (gw_ingress_queue (ep_gateway small_pipeline)) = []"
proof -
  have "book_of s (ep_matching small_pipeline) = []" for s by (cases s) (simp_all add: small_pipeline_def)
  moreover have "depth_at (depth_side_of s) (new_DepthBook symbol) = Map.empty" for s symbol
    by (cases s) (simp_all add: new_DepthBook_def depth_at_def)
  ultimately show "engine_inv (ep_matching small_pipeline)"
    by (simp add: engine_inv_def side_ok_def live_ok_def uncrossed_def depth_ok_def) (simp add: small_pipeline_def small_ring_wf small_pool_inv)
qed (auto simp: small_pipeline_def fresh_clearing_def journal_inv_def outbox_inv_def entries_def risk_inv_def configure_route_def small_ring_wf small_pool_inv)

lemma test_pipeline_start:
  assumes "test_pipeline = Inr p"
  shows "pipeline_inv p" "ep_order_registry p = []"
proof -
  obtain p1 where p1: "pl_configure_market (dint 99) (dint 101) \<lparr>fs_maker_fee_bps = dint 2, fs_taker_fee_bps = dint 5\<rparr> test_config small_pipeline = Inr p1"
    using assms unfolding test_pipeline_def by (metis andthen.simps(1) sum.exhaust sum.simps(4))
  then obtain r1 r2 where r: "configure_market test_config (ep_risk small_pipeline) = Inr r1" "update_top_of_book (ep_symbol small_pipeline) (dint 99) (dint 101) r1 = Inr r2"
    and p1': "p1 = small_pipeline\<lparr>ep_best_bid := dint 99, ep_best_ask := dint 101, ep_fee_schedule := \<lparr>fs_maker_fee_bps = dint 2, fs_taker_fee_bps = dint 5\<rparr>, ep_risk := r2\<rparr>"
    unfolding pl_configure_market_def
    by (cases "configure_market test_config (ep_risk small_pipeline)";
        cases "update_top_of_book (ep_symbol small_pipeline) (dint 99) (dint 101) (projr (configure_market test_config (ep_risk small_pipeline)))") auto
  have "risk_inv r2" using config_keeps_inv(1,2) r small_pipeline_inv(3) by blast
  moreover have "pr_markets r2 (ep_symbol small_pipeline) \<noteq> None" using r(2) by (auto simp: update_top_of_book_def Let_def split: option.splits)
  ultimately have "pipeline_inv p1 \<and> fresh_clearing (ep_clearing p1)"
    using small_pipeline_inv by (simp add: p1' pipeline_inv_def fresh_clearing_def)
  then show "pipeline_inv p" using assms p1 register_user_start by (auto simp: test_pipeline_def)
  show "ep_order_registry p = []" using assms p1 by (auto simp: test_pipeline_def register_user_def p1' small_pipeline_def)
qed

lemma case_InrE: "\<lbrakk>case x of Inl e \<Rightarrow> False | Inr y \<Rightarrow> P y; \<And>y. x = Inr y \<Longrightarrow> P y \<Longrightarrow> R\<rbrakk> \<Longrightarrow> R"
  by (cases x) auto

lemma case_Inr_pairE: "\<lbrakk>case x of Inl e \<Rightarrow> False | Inr (a, b) \<Rightarrow> P a b; \<And>a b. x = Inr (a, b) \<Longrightarrow> P a b \<Longrightarrow> R\<rbrakk> \<Longrightarrow> R"
  by (cases x) auto

text \<open>The first test of \<open>exchange_pipeline_test.cpp\<close>: the maker's order rests, the taker's order takes it, and the accounts are as the test expects
  (the seller's profit up to the rounding that \<open>EXPECT_DOUBLE_EQ\<close> allows).\<close>

lemma happy_path_test:
  "case test_pipeline of Inl e \<Rightarrow> False | Inr p \<Rightarrow>
   (case pl_run test_strtod [maker_request] p of Inl e \<Rightarrow> False
    | Inr (ws, p1) \<Rightarrow> map wf_status ws = [kCompleted] \<and> map (mr_trades \<circ> wf_match_result) ws = [[]] \<and> ''ask-1->buy-1'' \<notin> cl_settled_trade_ids (ep_clearing p1) \<and>
     (case pl_submit test_strtod taker_request p1 of Inl e \<Rightarrow> False
      | Inr (w, p2) \<Rightarrow> wf_status w = kCompleted \<and> map trade_id (mr_trades (wf_match_result w)) = [''ask-1->buy-1''] \<and>
         map_option (\<lambda>a. (ac_available_quote a, ac_frozen_quote a, ac_available_base a)) (pl_account ''taker'' p2) = Some (dbl (89995 / 100), 0, dint 1) \<and>
         map_option (\<lambda>a. (ac_available_quote a, ac_available_base a, ac_frozen_base a)) (pl_account ''maker'' p2) = Some (dbl (9998 / 100), 0, 0) \<and>
         map_option (\<lambda>a. \<bar>ac_realized_pnl a - dbl (1998 / 100)\<bar> < dbl (1 / 100000000000)) (pl_account ''maker'' p2) = Some True \<and>
         map om_topic (pl_pending_outbox 8 p2) = [''clearing.settlement''] \<and>
         length (pl_replay_market_data ''trades.BTCUSDT'' 0 p2) = 1 \<and> pl_replay_market_data ''depth.BTCUSDT'' 0 p2 \<noteq> [] \<and>
         length (pl_replay_route_events 0 p2) = 2 \<and> map rd_accepted (pl_audit_log p2) = [True, True]))"
  by code_simp

section \<open>Properties\<close>

text \<open>C2: A completed submission settles its trades, nothing else, and releases what closed orders reserved. Start from a
  pipeline with an empty registry and submit any requests; if a further submission completes, its payload was an order, and then: there is one
  settlement per trade, applied if the id of the trade (maker and taker order) was not settled before and a duplicate, which moves no money,
  if it was; the settled trade ids grow by exactly the ids of these trades; of the registered orders
  of the pipeline's symbol, the new one included, exactly those still on the book stay registered, and orders of other symbols stay; and
  the hold of every order that was taken off the registry is gone or at most \<open>1e-9\<close>.\<close>

theorem pipeline_settles_every_trade:
  assumes "pipeline_inv p0" "ep_order_registry p0 = []" "pl_run strtod earlier p0 = Inr (ws, p)"
    and "pl_submit strtod request p = Inr (w, p')" "wf_status w = kCompleted"
  shows "\<exists>order. parse_order strtod (make_forwarded_request request kRisk) = Some order \<and>
    (let trades = mr_trades (wf_match_result w); settled = cl_settled_trade_ids (ep_clearing p);
         registry = map_of (ep_order_registry (track_managed_order order (hold_id_for (po_order_id order)) p));
         closed = {i. \<exists>m. registry i = Some m \<and> mo_symbol m = ep_symbol p} - resting_ids p' in
     map sr_status (wf_settlements w) = settlement_statuses settled trades \<and>
     cl_settled_trade_ids (ep_clearing p') = settled \<union> trade_id ` set trades \<and>
     map_of (ep_order_registry p') = registry |` (- closed) \<and>
     (\<forall>i m. i \<in> closed \<and> registry i = Some m \<longrightarrow>
        (case hold_amount (mo_hold_id m) (ep_clearing p') of None \<Rightarrow> True | Some amount \<Rightarrow> \<bar>amount\<bar> \<le> dbl (1 / 1000000000))))"
proof -
  have "pipeline_inv p" using pl_run_ends [OF assms(1), of earlier strtod] assms(3) by (simp add: evolves_def)
  moreover have "keys_distinct p" using pl_run_keys [OF _ assms(3)] assms(2) by simp
  ultimately show ?thesis using pl_submit_settles [OF _ _ assms(4,5)]
    unfolding books_settled_def hold_closed_def pl_is_zero_def pl_kEpsilon_def Let_def by auto
qed

theorem pipeline_settles_every_trade_witness:
  "\<exists>p0 ws p w p'. test_pipeline = Inr p0 \<and> pl_run test_strtod [maker_request] p0 = Inr (ws, p) \<and>
    pl_submit test_strtod taker_request p = Inr (w, p') \<and> wf_status w = kCompleted \<and> map sr_status (wf_settlements w) = [kApplied] \<and>
    ''ask-1->buy-1'' \<in> cl_settled_trade_ids (ep_clearing p')"
proof -
  obtain p0 ws p w p' where p0: "test_pipeline = Inr p0" and earlier: "pl_run test_strtod [maker_request] p0 = Inr (ws, p)"
    and none: "''ask-1->buy-1'' \<notin> cl_settled_trade_ids (ep_clearing p)"
    and run: "pl_submit test_strtod taker_request p = Inr (w, p')" and completed: "wf_status w = kCompleted"
    and trade: "map trade_id (mr_trades (wf_match_result w)) = [''ask-1->buy-1'']"
    using happy_path_test
    by (rule case_InrE, elim case_Inr_pairE conjE case_Inr_pairE conjE) (rule that)
  obtain t where "mr_trades (wf_match_result w) = [t]" "trade_id t = ''ask-1->buy-1''" using trade by (auto simp: map_eq_Cons_conv)
  with pipeline_settles_every_trade [OF test_pipeline_start [OF p0] earlier run completed] none
  have "map sr_status (wf_settlements w) = [kApplied] \<and> ''ask-1->buy-1'' \<in> cl_settled_trade_ids (ep_clearing p')" unfolding Let_def by auto
  then show ?thesis using p0 earlier run completed by (elim conjE) (intro exI conjI, assumption+)
qed

section \<open>Defects\<close>

text \<open>The gateway accepts every positive timestamp, and the pipeline adds to it: a request with the largest timestamp makes the
  addition overflow.\<close>

theorem timestamp_overflows:
  "case test_pipeline of Inl e \<Rightarrow> False
   | Inr p \<Rightarrow> (case pl_submit test_strtod (taker_request\<lparr>gr_timestamp_ms := 2 ^ 63 - 1\<rparr>) p of Inl e \<Rightarrow> e = ClockFault TimeOverflow | Inr r \<Rightarrow> False)"
  by code_simp

end
