(* ===== verification/Candle_Aggregator.thy ===== *)
theory Candle_Aggregator
  imports Depth_Book Cxx_Text
begin

text \<open>
  The candle aggregator of \<open>infrastructure/market-data-push-system/candle_aggregator.hpp\<close>: trades are
  grouped by symbol and time bucket, under a string key built from both. Times are 64-bit.

  The lemmas show that the key determines symbol and bucket, and that the stored candle is the
  open/high/low/close/volume summary of exactly the trades of its group.
\<close>

section \<open>The aggregator\<close>

datatype candle_error = CandleIntervalZero

record CandleAggregator =
  ca_interval_ms :: u64
  ca_candles :: "string \<rightharpoonup> Candle"

definition new_CandleAggregator :: "u64 \<Rightarrow> candle_error + CandleAggregator" where
  "new_CandleAggregator interval_ms =
     (if interval_ms = 0 then Inl CandleIntervalZero
      else Inr \<lparr>ca_interval_ms = interval_ms, ca_candles = Map.empty\<rparr>)"

definition bucket_open_time :: "CandleAggregator \<Rightarrow> u64 \<Rightarrow> u64" where
  "bucket_open_time a event_time_ms = (event_time_ms div ca_interval_ms a) * ca_interval_ms a"

definition make_key :: "string \<Rightarrow> u64 \<Rightarrow> string" where
  "make_key symbol open_time_ms = symbol @ '':'' @ show_u64 open_time_ms"

definition ca_add_trade :: "md_Trade \<Rightarrow> CandleAggregator \<Rightarrow> Candle \<times> CandleAggregator" where
  "ca_add_trade trade a =
     (let bucket_time = bucket_open_time a (mt_event_time_ms trade);
          key = make_key (mt_symbol trade) bucket_time;
          candle = (case ca_candles a key of
              None \<Rightarrow> \<lparr>cd_symbol = mt_symbol trade,
                       cd_open_time_ms = bucket_time,
                       cd_close_time_ms = bucket_time + ca_interval_ms a - 1,
                       cd_open = mt_price trade,
                       cd_high = mt_price trade,
                       cd_low = mt_price trade,
                       cd_close = mt_price trade,
                       cd_volume = mt_quantity trade\<rparr>
            | Some candle \<Rightarrow> candle\<lparr>cd_high := std_max (cd_high candle) (mt_price trade),
                       cd_low := std_min (cd_low candle) (mt_price trade),
                       cd_close := mt_price trade,
                       cd_volume := cd_volume candle + mt_quantity trade\<rparr>)
      in (candle, a\<lparr>ca_candles := (ca_candles a)(key \<mapsto> candle)\<rparr>))"

definition ca_latest :: "string \<Rightarrow> u64 \<Rightarrow> CandleAggregator \<Rightarrow> Candle option" where
  "ca_latest symbol event_time_ms a = ca_candles a (make_key symbol (bucket_open_time a event_time_ms))"

definition ca_add_trades :: "md_Trade list \<Rightarrow> CandleAggregator \<Rightarrow> CandleAggregator" where
  "ca_add_trades trades a = fold (\<lambda>t b. snd (ca_add_trade t b)) trades a"

section \<open>Keys and buckets\<close>

lemma make_key_inject: "make_key s t = make_key s' t' \<longleftrightarrow> s = s' \<and> t = t'"
proof -
  have colon: "CHR '':'' \<notin> set (show_u64 w)" for w
    using show_u64_digits [of "CHR '':''" w] by auto
  show ?thesis using append_sep_inject [of s "CHR '':''" "show_u64 t" s' "show_u64 t'"] colon
    by (auto simp: make_key_def)
qed

lemma unat_bucket: "unat (bucket_open_time a t) = unat t div unat (ca_interval_ms a) * unat (ca_interval_ms a)"
proof -
  have "unat (t div ca_interval_ms a) * unat (ca_interval_ms a) < 2 ^ LENGTH(64)"
    unfolding unat_div by (rule le_less_trans [OF div_times_less_eq_dividend unsigned_less])
  then show ?thesis unfolding bucket_open_time_def by (metis unat_mult_lem unat_div)
qed

lemma bucket_open_time_le: "bucket_open_time a t \<le> t"
  by (simp add: word_le_nat_alt unat_bucket)

lemma bucket_close_time_ge:
  assumes "ca_interval_ms a \<noteq> 0" "unat (bucket_open_time a t) + unat (ca_interval_ms a) \<le> 2 ^ 64"
  shows "t \<le> bucket_open_time a t + ca_interval_ms a - 1"
proof -
  let ?b = "bucket_open_time a t" and ?i = "ca_interval_ms a"
  have i: "1 \<le> ?i" using assms(1) by (metis word_le_less_eq word_neq_0_conv word_not_simps(1) inc_le add_0)
  have "unat (?i - 1) = unat ?i - 1" using i by (simp add: unat_sub_if' word_le_nat_alt)
  moreover have "0 < unat ?i" using assms(1) by (simp add: unat_gt_0)
  ultimately have "unat ?b + unat (?i - 1) < 2 ^ LENGTH(64)" using assms(2) by simp
  then have "unat (?b + (?i - 1)) = unat ?b + (unat ?i - 1)"
    using unat_add_lem [THEN iffD1, of ?b "?i - 1"] \<open>unat (?i - 1) = unat ?i - 1\<close> by simp
  moreover have "unat t < unat ?b + unat ?i"
    using \<open>0 < unat ?i\<close> unfolding unat_bucket
    by (metis dividend_less_div_times add.commute)
  ultimately show ?thesis by (simp add: word_le_nat_alt algebra_simps)
qed

lemma interval_add_trade [simp]: "ca_interval_ms (snd (ca_add_trade t a)) = ca_interval_ms a"
  by (simp add: ca_add_trade_def Let_def)

lemma interval_add_trades [simp]: "ca_interval_ms (ca_add_trades ts a) = ca_interval_ms a"
  unfolding ca_add_trades_def by (induction ts arbitrary: a) auto

lemma bucket_candles_update [simp]: "bucket_open_time (a\<lparr>ca_candles := cs\<rparr>) t = bucket_open_time a t"
  by (simp add: bucket_open_time_def)

lemma bucket_cong: "ca_interval_ms a = ca_interval_ms b \<Longrightarrow> bucket_open_time a t = bucket_open_time b t"
  by (simp add: bucket_open_time_def)

section \<open>The reference summary of a group of trades\<close>

definition in_bucket :: "CandleAggregator \<Rightarrow> string \<Rightarrow> u64 \<Rightarrow> md_Trade \<Rightarrow> bool" where
  "in_bucket a symbol time t \<longleftrightarrow>
     mt_symbol t = symbol \<and> bucket_open_time a (mt_event_time_ms t) = bucket_open_time a time"

fun ohlcv :: "u64 \<Rightarrow> u64 \<Rightarrow> md_Trade list \<Rightarrow> Candle option" where
  "ohlcv interval bucket [] = None"
| "ohlcv interval bucket (t # ts) = Some
     \<lparr>cd_symbol = mt_symbol t, cd_open_time_ms = bucket, cd_close_time_ms = bucket + interval - 1,
      cd_open = mt_price t,
      cd_high = foldl std_max (mt_price t) (map mt_price ts),
      cd_low = foldl std_min (mt_price t) (map mt_price ts),
      cd_close = mt_price (last (t # ts)),
      cd_volume = foldl (+) (mt_quantity t) (map mt_quantity ts)\<rparr>"

lemma ohlcv_snoc:
  "ohlcv i b (ts @ [t]) = (case ohlcv i b ts of
      None \<Rightarrow> ohlcv i b [t]
    | Some c \<Rightarrow> Some (c\<lparr>cd_high := std_max (cd_high c) (mt_price t), cd_low := std_min (cd_low c) (mt_price t),
        cd_close := mt_price t, cd_volume := cd_volume c + mt_quantity t\<rparr>))"
  by (cases ts) auto

lemma ca_latest_add_trade:
  "ca_latest symbol time (snd (ca_add_trade t a)) =
     (if in_bucket a symbol time t then Some (fst (ca_add_trade t a)) else ca_latest symbol time a)"
  by (auto simp: ca_latest_def ca_add_trade_def in_bucket_def Let_def make_key_inject split: option.split)

lemma fst_ca_add_trade:
  "Some (fst (ca_add_trade t a)) =
     (case ca_latest (mt_symbol t) (mt_event_time_ms t) a of
        None \<Rightarrow> ohlcv (ca_interval_ms a) (bucket_open_time a (mt_event_time_ms t)) [t]
      | Some c \<Rightarrow> Some (c\<lparr>cd_high := std_max (cd_high c) (mt_price t), cd_low := std_min (cd_low c) (mt_price t),
          cd_close := mt_price t, cd_volume := cd_volume c + mt_quantity t\<rparr>))"
  by (auto simp: ca_add_trade_def ca_latest_def Let_def split: option.splits)

lemma ca_add_trades_snoc: "ca_add_trades (ts @ [t]) a = snd (ca_add_trade t (ca_add_trades ts a))"
  by (simp add: ca_add_trades_def)

lemma ca_latest_ohlcv:
  assumes "ca_candles a = Map.empty"
  shows "ca_latest symbol time (ca_add_trades ts a) =
    ohlcv (ca_interval_ms a) (bucket_open_time a time) (filter (in_bucket a symbol time) ts)"
proof (induction ts arbitrary: symbol time rule: rev_induct)
  case Nil
  then show ?case using assms by (simp add: ca_add_trades_def ca_latest_def)
next
  case (snoc t ts)
  have bucket: "bucket_open_time (ca_add_trades ts a) x = bucket_open_time a x" for x
    by (rule bucket_cong) simp
  have same: "in_bucket (ca_add_trades ts a) symbol time t = in_bucket a symbol time t"
    by (simp add: in_bucket_def bucket)
  show ?case
  proof (cases "in_bucket a symbol time t")
    case True
    then have "mt_symbol t = symbol" and time: "bucket_open_time a (mt_event_time_ms t) = bucket_open_time a time"
      by (auto simp: in_bucket_def)
    moreover have "in_bucket a symbol (mt_event_time_ms t) = in_bucket a symbol time"
      using time by (simp add: in_bucket_def fun_eq_iff)
    ultimately show ?thesis
      using True snoc [of symbol "mt_event_time_ms t"]
      by (simp add: ca_add_trades_snoc ca_latest_add_trade same fst_ca_add_trade bucket ohlcv_snoc split: option.split)
  next
    case False
    then show ?thesis using snoc by (simp add: ca_add_trades_snoc ca_latest_add_trade same)
  qed
qed

lemma foldl_std_max_ge:
  "\<forall>x \<in> set (p # ps). not_nan x \<Longrightarrow> \<forall>x \<in> set (p # ps). x \<le> foldl std_max p ps"
proof (induction ps arbitrary: p)
  case (Cons q ps)
  have m: "not_nan (std_max p q)" "p \<le> std_max p q" "q \<le> std_max p q"
    using Cons.prems double_not_less [of p q] double_less_imp_le by (auto simp: std_max_def)
  then have "\<forall>x \<in> set (std_max p q # ps). x \<le> foldl std_max p (q # ps)"
    using Cons.IH [of "std_max p q"] Cons.prems by simp
  then show ?case using m(2,3) by (auto intro: double_order_trans)
qed simp

lemma foldl_std_min_le:
  "\<forall>x \<in> set (p # ps). not_nan x \<Longrightarrow> \<forall>x \<in> set (p # ps). foldl std_min p ps \<le> x"
proof (induction ps arbitrary: p)
  case (Cons q ps)
  have m: "not_nan (std_min p q)" "std_min p q \<le> p" "std_min p q \<le> q"
    using Cons.prems double_not_less [of q p] double_less_imp_le by (auto simp: std_min_def)
  then have "\<forall>x \<in> set (std_min p q # ps). foldl std_min p (q # ps) \<le> x"
    using Cons.IH [of "std_min p q"] Cons.prems by simp
  then show ?case using m(2,3) by (auto intro: double_order_trans)
qed simp

section \<open>Properties\<close>

text \<open>C40: After any sequence of trades the candle stored for a symbol and a time is the open/high/low/close/volume
  summary of exactly the trades of that symbol in that time's bucket, in arrival order (there is none if there was no such trade).
  The bucket opens at or before the trade time and, unless it reaches the end of the 64-bit clock, closes at or after it; the prices
  of the group lie between low and high unless one is NaN.\<close>

theorem candle_is_ohlcv:
  assumes "new_CandleAggregator interval = Inr a"
  shows "let group = filter (in_bucket a symbol time) ts; open_time = bucket_open_time a time in
    ca_latest symbol time (ca_add_trades ts a) = ohlcv interval open_time group \<and>
    open_time \<le> time \<and>
    (unat open_time + unat interval \<le> 2 ^ 64 \<longrightarrow> time \<le> open_time + interval - 1) \<and>
    (\<forall>c. ca_latest symbol time (ca_add_trades ts a) = Some c \<and> (\<forall>t \<in> set group. not_nan (mt_price t)) \<longrightarrow>
       (\<forall>t \<in> set group. cd_low c \<le> mt_price t \<and> mt_price t \<le> cd_high c))"
proof -
  let ?g = "filter (in_bucket a symbol time) ts"
  have a: "ca_candles a = Map.empty" "ca_interval_ms a = interval" "interval \<noteq> 0"
    using assms by (auto simp: new_CandleAggregator_def split: if_splits)
  have latest: "ca_latest symbol time (ca_add_trades ts a) = ohlcv interval (bucket_open_time a time) ?g"
    using ca_latest_ohlcv [OF a(1)] a(2) by simp
  have "\<forall>t \<in> set g. cd_low c \<le> mt_price t \<and> mt_price t \<le> cd_high c"
    if "ohlcv interval b g = Some c" "\<forall>t \<in> set g. not_nan (mt_price t)" for b g c
    using that foldl_std_max_ge [of "mt_price (hd g)" "map mt_price (tl g)"]
      foldl_std_min_le [of "mt_price (hd g)" "map mt_price (tl g)"]
    by (cases g) auto
  then show ?thesis
    using latest bucket_open_time_le [of a time] bucket_close_time_ge [of a time] a by (auto simp: Let_def)
qed

theorem candle_is_ohlcv_witness:
  "let a = \<lparr>ca_interval_ms = 1000, ca_candles = Map.empty\<rparr>;
       tr = (\<lambda>p q t. \<lparr>mt_symbol = ''BTC'', mt_price = dint p, mt_quantity = dint q, mt_event_time_ms = t\<rparr>)
   in ca_latest ''BTC'' 1999 (ca_add_trades [tr 100 2 1000, tr 120 1 1500, tr 90 4 2500, tr 80 3 1999] a) =
     Some \<lparr>cd_symbol = ''BTC'', cd_open_time_ms = 1000, cd_close_time_ms = 1999, cd_open = dint 100, cd_high = dint 120,
           cd_low = dint 80, cd_close = dint 80, cd_volume = dint 6\<rparr>"
  using candle_is_ohlcv [of 1000 "\<lparr>ca_interval_ms = 1000, ca_candles = Map.empty\<rparr>" "''BTC''" 1999]
  by (simp add: new_CandleAggregator_def Let_def in_bucket_def bucket_open_time_def std_max_def std_min_def)

end
