(* ===== verification/Tcc_Wallet.thy ===== *)
theory Tcc_Wallet
  imports Binary64
begin

text \<open>
  The try/confirm/cancel wallet of \<open>infrastructure/distributed-consistency/tcc_wallet.hpp\<close>. Every
  operation holds \<open>mutex_\<close> throughout, so the wallet is a state machine whose steps are the
  operations (\<open>tcc_step\<close>).
\<close>

datatype ReservationState = kReserved | kConfirmed | kCancelled

record ReservationRecord =
  rr_reservation_id :: string
  rr_amount :: double
  rr_state :: ReservationState

record TccWallet =
  available :: double
  reserved :: double
  committed :: double
  reservations :: "(string \<times> ReservationRecord) list"

definition new_TccWallet :: "double \<Rightarrow> TccWallet" where
  "new_TccWallet balance = \<lparr>available = balance, reserved = 0, committed = 0, reservations = []\<rparr>"

definition try_reserve :: "string \<Rightarrow> double \<Rightarrow> TccWallet \<Rightarrow> bool \<times> TccWallet" where
  "try_reserve reservation_id amount w =
     (case map_of (reservations w) reservation_id of
        Some r \<Rightarrow> (rr_state r = kReserved \<and> double_eq (rr_amount r) amount, w)
      | None \<Rightarrow>
          if amount \<le> 0 \<or> available w < amount then (False, w)
          else (True, w\<lparr>available := available w - amount,
                        reserved := reserved w + amount,
                        reservations := AList.update reservation_id
                          \<lparr>rr_reservation_id = reservation_id, rr_amount = amount, rr_state = kReserved\<rparr>
                          (reservations w)\<rparr>))"

definition tcc_confirm :: "string \<Rightarrow> TccWallet \<Rightarrow> bool \<times> TccWallet" where
  "tcc_confirm reservation_id w =
     (case map_of (reservations w) reservation_id of
        None \<Rightarrow> (False, w)
      | Some r \<Rightarrow>
          if rr_state r = kConfirmed then (True, w)
          else if rr_state r \<noteq> kReserved then (False, w)
          else (True, w\<lparr>reserved := reserved w - rr_amount r,
                        committed := committed w + rr_amount r,
                        reservations := AList.update reservation_id (r\<lparr>rr_state := kConfirmed\<rparr>) (reservations w)\<rparr>))"

definition tcc_cancel :: "string \<Rightarrow> TccWallet \<Rightarrow> bool \<times> TccWallet" where
  "tcc_cancel reservation_id w =
     (case map_of (reservations w) reservation_id of
        None \<Rightarrow> (False, w)
      | Some r \<Rightarrow>
          if rr_state r = kCancelled then (True, w)
          else if rr_state r \<noteq> kReserved then (False, w)
          else (True, w\<lparr>reserved := reserved w - rr_amount r,
                        available := available w + rr_amount r,
                        reservations := AList.update reservation_id (r\<lparr>rr_state := kCancelled\<rparr>) (reservations w)\<rparr>))"

definition available_balance :: "TccWallet \<Rightarrow> double" where
  "available_balance w = available w"

definition reserved_balance :: "TccWallet \<Rightarrow> double" where
  "reserved_balance w = reserved w"

definition committed_balance :: "TccWallet \<Rightarrow> double" where
  "committed_balance w = committed w"

definition tcc_lookup :: "string \<Rightarrow> TccWallet \<Rightarrow> ReservationRecord option" where
  "tcc_lookup reservation_id w = map_of (reservations w) reservation_id"

section \<open>The state machine\<close>

inductive tcc_step :: "TccWallet \<Rightarrow> TccWallet \<Rightarrow> bool" where
  reserve: "tcc_step w (snd (try_reserve i a w))"
| confirm: "tcc_step w (snd (tcc_confirm i w))"
| cancel: "tcc_step w (snd (tcc_cancel i w))"

text \<open>A reservation that is settled is never touched again.\<close>

definition settled :: "string \<Rightarrow> ReservationRecord \<Rightarrow> TccWallet \<Rightarrow> bool" where
  "settled i r w \<longleftrightarrow> tcc_lookup i w = Some r \<and> rr_state r \<noteq> kReserved"

lemma tcc_step_settled: "tcc_step w w' \<Longrightarrow> settled i r w \<Longrightarrow> settled i r w'"
  by (induction rule: tcc_step.induct)
    (auto simp: settled_def tcc_lookup_def try_reserve_def tcc_confirm_def tcc_cancel_def
      update_conv split: option.splits)

section \<open>Whole-unit wallets\<close>

text \<open>
  When the balance and every amount are integers and the balance is at most \<open>2 ^ 53\<close>, all
  arithmetic is exact. The invariant counts the three balances and the open reservations in integers.
\<close>

definition open_amounts :: "(string \<times> ReservationRecord) list \<Rightarrow> int" where
  "open_amounts rs = (\<Sum>(i, r) \<leftarrow> rs. if rr_state r = kReserved then floor (val (rr_amount r)) else 0)"

definition whole :: "int \<Rightarrow> TccWallet \<Rightarrow> bool" where
  "whole tot w \<longleftrightarrow>
     (\<exists>a r c. available w = dint a \<and> reserved w = dint r \<and> committed w = dint c \<and>
        0 \<le> a \<and> 0 \<le> r \<and> 0 \<le> c \<and> a + r + c = tot \<and> r = open_amounts (reservations w)) \<and>
     distinct (map fst (reservations w)) \<and>
     (\<forall>(i, x) \<in> set (reservations w). \<exists>n. 0 < n \<and> n \<le> tot \<and> rr_amount x = dint n)"

inductive whole_step :: "TccWallet \<Rightarrow> TccWallet \<Rightarrow> bool" where
  reserve: "exact n \<Longrightarrow> whole_step w (snd (try_reserve i (dint n) w))"
| confirm: "whole_step w (snd (tcc_confirm i w))"
| cancel: "whole_step w (snd (tcc_cancel i w))"

lemma open_amounts_Nil [simp]: "open_amounts [] = 0"
  by (simp add: open_amounts_def)

lemma open_amounts_Cons [simp]:
  "open_amounts ((i, r) # rs) = (if rr_state r = kReserved then floor (val (rr_amount r)) else 0) + open_amounts rs"
  by (simp add: open_amounts_def)

lemma open_amounts_nonneg: "\<forall>(i, x) \<in> set rs. 0 \<le> floor (val (rr_amount x)) \<Longrightarrow> 0 \<le> open_amounts rs"
  by (induction rs) auto

lemma open_amounts_update_new:
  "map_of rs i = None \<Longrightarrow> open_amounts (AList.update i r rs) =
     open_amounts rs + (if rr_state r = kReserved then floor (val (rr_amount r)) else 0)"
  by (induction rs) (auto split: if_splits)

lemma open_amounts_update_settle:
  "map_of rs i = Some r \<Longrightarrow> rr_state r = kReserved \<Longrightarrow> rr_state r' \<noteq> kReserved \<Longrightarrow>
   open_amounts (AList.update i r' rs) = open_amounts rs - floor (val (rr_amount r))"
  by (induction rs) (auto split: if_splits)

lemma open_amounts_member:
  "map_of rs i = Some r \<Longrightarrow> rr_state r = kReserved \<Longrightarrow> \<forall>(i, x) \<in> set rs. 0 \<le> floor (val (rr_amount x)) \<Longrightarrow>
   floor (val (rr_amount r)) \<le> open_amounts rs"
proof (induction rs)
  case (Cons p rs)
  obtain j x where p: "p = (j, x)" by force
  have rs: "0 \<le> open_amounts rs" using Cons.prems(3) by (intro open_amounts_nonneg) auto
  have x: "0 \<le> floor (val (rr_amount x))" using Cons.prems(3) p by simp
  show ?case
  proof (cases "i = j")
    case True
    then have "x = r" using Cons.prems(1) by (simp add: p)
    then show ?thesis using Cons.prems(2) rs by (simp add: p)
  next
    case False
    then have "floor (val (rr_amount r)) \<le> open_amounts rs" using Cons p by simp
    then show ?thesis using x unfolding p open_amounts_Cons by (intro add_increasing) auto
  qed
qed simp

lemma whole_amounts:
  assumes "whole tot w" "exact tot"
  shows "\<forall>(i, x) \<in> set (reservations w). 0 \<le> floor (val (rr_amount x))"
proof -
  have "0 \<le> floor (val (dint n))" if "0 < n" "n \<le> tot" for n
    using that assms(2) by (subst val_dint) (auto simp: exact_def)
  then show ?thesis using assms(1) by (fastforce simp: whole_def)
qed

lemma whole_reserve:
  assumes "whole tot w" "exact tot" "exact n"
  shows "whole tot (snd (try_reserve i (dint n) w))"
proof (cases "map_of (reservations w) i = None \<and> \<not> dint n \<le> 0 \<and> \<not> available w < dint n")
  case False
  then have "snd (try_reserve i (dint n) w) = w" by (auto simp: try_reserve_def split: option.splits)
  then show ?thesis using assms(1) by simp
next
  case True
  from assms(1) obtain a r c where w: "available w = dint a" "reserved w = dint r" "committed w = dint c"
    and pos: "0 \<le> a" "0 \<le> r" "0 \<le> c" and sum: "a + r + c = tot" and r: "r = open_amounts (reservations w)"
    by (auto simp: whole_def)
  have ex: "exact a" "exact r" using pos sum assms(2) by (auto simp: exact_def)
  have n: "0 < n" "n \<le> a" using True assms(3) ex w by auto
  let ?rec = "\<lparr>rr_reservation_id = i, rr_amount = dint n, rr_state = kReserved\<rparr>"
  have *: "snd (try_reserve i (dint n) w) =
      w\<lparr>available := dint (a - n), reserved := dint (r + n), reservations := AList.update i ?rec (reservations w)\<rparr>"
    using True assms(3) ex w by (simp add: try_reserve_def)
  have "r + n = open_amounts (AList.update i ?rec (reservations w))"
    using True assms(3) r by (simp add: open_amounts_update_new)
  moreover have "\<forall>(j, x) \<in> set (AList.update i ?rec (reservations w)). \<exists>m. 0 < m \<and> m \<le> tot \<and> rr_amount x = dint m"
    using assms(1) n pos sum by (fastforce simp: whole_def dest: AList_update_member)
  moreover have "distinct (map fst (AList.update i ?rec (reservations w)))"
    using assms(1) by (simp add: whole_def distinct_update)
  ultimately show ?thesis
    unfolding * whole_def using n pos sum w(3)
    by (intro conjI exI [of _ "a - n"] exI [of _ "r + n"] exI [of _ c]) auto
qed

lemma whole_settle:
  assumes "whole tot w" "exact tot" "map_of (reservations w) i = Some x" "rr_state x = kReserved" "s \<noteq> kReserved"
  obtains a r c n where "available w = dint a" "reserved w = dint r" "committed w = dint c" "rr_amount x = dint n"
    "0 \<le> a" "0 \<le> r - n" "0 \<le> c" "0 < n" "a + r + c = tot" "exact a" "exact r" "exact c" "exact n"
    "r - n = open_amounts (AList.update i (x\<lparr>rr_state := s\<rparr>) (reservations w))"
    "distinct (map fst (AList.update i (x\<lparr>rr_state := s\<rparr>) (reservations w)))"
    "\<forall>(j, y) \<in> set (AList.update i (x\<lparr>rr_state := s\<rparr>) (reservations w)). \<exists>m. 0 < m \<and> m \<le> tot \<and> rr_amount y = dint m"
proof -
  from assms(1) obtain a r c where w: "available w = dint a" "reserved w = dint r" "committed w = dint c"
    and pos: "0 \<le> a" "0 \<le> r" "0 \<le> c" and sum: "a + r + c = tot" and r: "r = open_amounts (reservations w)"
    by (auto simp: whole_def)
  have mem: "(i, x) \<in> set (reservations w)" using assms(3) by (rule map_of_SomeD)
  then obtain n where n: "0 < n" "n \<le> tot" "rr_amount x = dint n" using assms(1) by (auto simp: whole_def)
  have ex: "exact a" "exact r" "exact c" "exact n" using pos sum n assms(2) by (auto simp: exact_def)
  have "floor (val (rr_amount x)) \<le> open_amounts (reservations w)"
    using assms(3,4) whole_amounts [OF assms(1,2)] by (rule open_amounts_member)
  then have "0 \<le> r - n" using r n ex by simp
  moreover have "r - n = open_amounts (AList.update i (x\<lparr>rr_state := s\<rparr>) (reservations w))"
    using assms(3-5) r n ex by (simp add: open_amounts_update_settle)
  moreover have "distinct (map fst (AList.update i (x\<lparr>rr_state := s\<rparr>) (reservations w)))"
    using assms(1) by (simp add: whole_def distinct_update)
  moreover have "\<forall>(j, y) \<in> set (AList.update i (x\<lparr>rr_state := s\<rparr>) (reservations w)). \<exists>m. 0 < m \<and> m \<le> tot \<and> rr_amount y = dint m"
    using assms(1) n by (fastforce simp: whole_def dest: AList_update_member)
  ultimately show ?thesis using that w n(1,3) pos(1,3) sum ex by blast
qed

lemma whole_confirm:
  assumes "whole tot w" "exact tot"
  shows "whole tot (snd (tcc_confirm i w))"
proof (cases "\<exists>x. map_of (reservations w) i = Some x \<and> rr_state x = kReserved")
  case False
  then have "snd (tcc_confirm i w) = w" by (auto simp: tcc_confirm_def split: option.splits)
  then show ?thesis using assms(1) by simp
next
  case True
  then obtain x where x: "map_of (reservations w) i = Some x" "rr_state x = kReserved" by blast
  obtain a r c n where *: "available w = dint a" "reserved w = dint r" "committed w = dint c" "rr_amount x = dint n"
    "0 \<le> a" "0 \<le> r - n" "0 \<le> c" "0 < n" "a + r + c = tot" "exact a" "exact r" "exact c" "exact n"
    "r - n = open_amounts (AList.update i (x\<lparr>rr_state := kConfirmed\<rparr>) (reservations w))"
    "distinct (map fst (AList.update i (x\<lparr>rr_state := kConfirmed\<rparr>) (reservations w)))"
    "\<forall>(j, y) \<in> set (AList.update i (x\<lparr>rr_state := kConfirmed\<rparr>) (reservations w)). \<exists>m. 0 < m \<and> m \<le> tot \<and> rr_amount y = dint m"
    using whole_settle [OF assms x, of kConfirmed] by blast
  have "snd (tcc_confirm i w) = w\<lparr>reserved := dint (r - n), committed := dint (c + n),
      reservations := AList.update i (x\<lparr>rr_state := kConfirmed\<rparr>) (reservations w)\<rparr>"
    using * x by (simp add: tcc_confirm_def)
  then show ?thesis
    unfolding whole_def using * by (intro conjI exI [of _ a] exI [of _ "r - n"] exI [of _ "c + n"]) auto
qed

lemma whole_cancel:
  assumes "whole tot w" "exact tot"
  shows "whole tot (snd (tcc_cancel i w))"
proof (cases "\<exists>x. map_of (reservations w) i = Some x \<and> rr_state x = kReserved")
  case False
  then have "snd (tcc_cancel i w) = w" by (auto simp: tcc_cancel_def split: option.splits)
  then show ?thesis using assms(1) by simp
next
  case True
  then obtain x where x: "map_of (reservations w) i = Some x" "rr_state x = kReserved" by blast
  obtain a r c n where *: "available w = dint a" "reserved w = dint r" "committed w = dint c" "rr_amount x = dint n"
    "0 \<le> a" "0 \<le> r - n" "0 \<le> c" "0 < n" "a + r + c = tot" "exact a" "exact r" "exact c" "exact n"
    "r - n = open_amounts (AList.update i (x\<lparr>rr_state := kCancelled\<rparr>) (reservations w))"
    "distinct (map fst (AList.update i (x\<lparr>rr_state := kCancelled\<rparr>) (reservations w)))"
    "\<forall>(j, y) \<in> set (AList.update i (x\<lparr>rr_state := kCancelled\<rparr>) (reservations w)). \<exists>m. 0 < m \<and> m \<le> tot \<and> rr_amount y = dint m"
    using whole_settle [OF assms x, of kCancelled] by blast
  have "snd (tcc_cancel i w) = w\<lparr>reserved := dint (r - n), available := dint (a + n),
      reservations := AList.update i (x\<lparr>rr_state := kCancelled\<rparr>) (reservations w)\<rparr>"
    using * x by (simp add: tcc_cancel_def)
  then show ?thesis
    unfolding whole_def using * by (intro conjI exI [of _ "a + n"] exI [of _ "r - n"] exI [of _ c]) auto
qed

lemma whole_step_inv: "whole_step w w' \<Longrightarrow> exact tot \<Longrightarrow> whole tot w \<Longrightarrow> whole tot w'"
  by (induction rule: whole_step.induct) (auto intro: whole_reserve whole_confirm whole_cancel)

lemma whole_reachable: "whole_step\<^sup>*\<^sup>* w w' \<Longrightarrow> exact tot \<Longrightarrow> whole tot w \<Longrightarrow> whole tot w'"
  by (induction rule: rtranclp_induct) (auto intro: whole_step_inv)

section \<open>Properties\<close>

text \<open>C38: Conservation of money: a wallet opened with a whole balance of at most \<open>2 ^ 53\<close> units, after any sequence of
  reservations of whole amounts, confirmations and cancellations, still holds exactly that balance in its available, reserved and
  committed parts, none of them negative, and the reserved part is exactly the sum of the open reservations.\<close>

theorem tcc_conservation:
  assumes "0 \<le> n" and "exact n" and "whole_step\<^sup>*\<^sup>* (new_TccWallet (dint n)) w"
  shows "available_balance w + reserved_balance w + committed_balance w = dint n \<and>
    0 \<le> available_balance w \<and> 0 \<le> reserved_balance w \<and> 0 \<le> committed_balance w \<and>
    reserved_balance w = dint (open_amounts (reservations w))"
proof -
  have "whole n (new_TccWallet (dint n))"
    unfolding whole_def using assms(1) by (intro conjI exI [of _ n] exI [of _ 0]) (auto simp: new_TccWallet_def)
  then have "whole n w" using assms(2,3) whole_reachable by blast
  then obtain a r c where *: "available w = dint a" "reserved w = dint r" "committed w = dint c"
    "0 \<le> a" "0 \<le> r" "0 \<le> c" "a + r + c = n" "r = open_amounts (reservations w)"
    by (auto simp: whole_def)
  then have "exact a" "exact r" "exact c" "exact (a + r)" using assms(2) by (auto simp: exact_def)
  then show ?thesis
    using * by (simp add: available_balance_def reserved_balance_def committed_balance_def)
qed

theorem tcc_conservation_witness:
  "reserved_balance (snd (try_reserve ''r'' (dint 30) (new_TccWallet (dint 100)))) =
     dint (open_amounts (reservations (snd (try_reserve ''r'' (dint 30) (new_TccWallet (dint 100))))))"
proof -
  have "whole_step\<^sup>*\<^sup>* (new_TccWallet (dint 100)) (snd (try_reserve ''r'' (dint 30) (new_TccWallet (dint 100))))"
    by (rule r_into_rtranclp, rule whole_step.reserve) simp
  then show ?thesis using tcc_conservation [of 100] by simp
qed

text \<open>A settled reservation is final: once confirmed or cancelled, no sequence of operations (any amounts, any
  floating-point values) changes its record; repeating the same decision succeeds and the opposite one fails, both without
  touching the wallet.\<close>

theorem tcc_settled_final:
  assumes "settled i r w" and "tcc_step\<^sup>*\<^sup>* w w'"
  shows "tcc_lookup i w' = Some r \<and>
    tcc_confirm i w' = (rr_state r = kConfirmed, w') \<and> tcc_cancel i w' = (rr_state r = kCancelled, w')"
proof -
  from assms(2,1) have "settled i r w'"
    by (induction rule: rtranclp_induct) (auto intro: tcc_step_settled)
  then show ?thesis
    by (cases "rr_state r") (auto simp: settled_def tcc_lookup_def tcc_confirm_def tcc_cancel_def)
qed

theorem tcc_settled_final_witness:
  "fst (tcc_cancel ''r'' \<lparr>available = 0, reserved = 0, committed = dint 5,
     reservations = [(''r'', \<lparr>rr_reservation_id = ''r'', rr_amount = dint 5, rr_state = kConfirmed\<rparr>)]\<rparr>) = False"
  using tcc_settled_final [of "''r''" "\<lparr>rr_reservation_id = ''r'', rr_amount = dint 5, rr_state = kConfirmed\<rparr>"
      "\<lparr>available = 0, reserved = 0, committed = dint 5,
        reservations = [(''r'', \<lparr>rr_reservation_id = ''r'', rr_amount = dint 5, rr_state = kConfirmed\<rparr>)]\<rparr>"]
  by (simp add: settled_def tcc_lookup_def)

end
