(* ===== verification/Saga.thy ===== *)
theory Saga
  imports Prelude
begin

text \<open>
  The saga coordinator of \<open>infrastructure/distributed-consistency/saga.hpp\<close>. The actions and
  compensations are the client's \<open>std::function\<close>s on the context: here functions on a state type
  \<open>'s\<close>, which the coordinator treats as opaque.
\<close>

datatype StepResult = kSuccess | kRetryableFailure | kPermanentFailure

record SagaExecutionReport =
  rep_committed :: bool
  completed_steps :: "string list"
  compensated_steps :: "string list"
  failed_step :: "string option"

record 's SagaStep =
  st_name :: string
  st_action :: "'s \<Rightarrow> StepResult \<times> 's"
  st_compensation :: "'s \<Rightarrow> 's"

definition add_step :: "'s SagaStep \<Rightarrow> 's SagaStep list \<Rightarrow> 's SagaStep list" where
  "add_step st steps = steps @ [st]"

text \<open>\<open>compensate\<close> walks the completed names backwards and looks each name up in \<open>steps_\<close>.\<close>

fun compensate_loop :: "'s SagaStep list \<Rightarrow> string list \<Rightarrow> 's \<Rightarrow> string list \<Rightarrow> 's \<times> string list" where
  "compensate_loop steps [] ctx compensated = (ctx, compensated)"
| "compensate_loop steps (name # names) ctx compensated =
     (case List.find (\<lambda>st. st_name st = name) steps of
        Some st \<Rightarrow> compensate_loop steps names (st_compensation st ctx) (compensated @ [st_name st])
      | None \<Rightarrow> compensate_loop steps names ctx compensated)"

definition compensate :: "'s SagaStep list \<Rightarrow> 's \<Rightarrow> SagaExecutionReport \<Rightarrow> 's \<times> SagaExecutionReport" where
  "compensate steps ctx report =
     (let (ctx', compensated) =
            compensate_loop steps (rev (completed_steps report)) ctx (compensated_steps report)
      in (ctx', report\<lparr>compensated_steps := compensated\<rparr>))"

fun execute_loop ::
  "'s SagaStep list \<Rightarrow> 's SagaStep list \<Rightarrow> 's \<Rightarrow> SagaExecutionReport \<Rightarrow> 's \<times> SagaExecutionReport" where
  "execute_loop steps [] ctx report = (ctx, report\<lparr>rep_committed := True\<rparr>)"
| "execute_loop steps (st # rest) ctx report =
     (let (result, ctx') = st_action st ctx
      in if result = kSuccess
         then execute_loop steps rest ctx' (report\<lparr>completed_steps := completed_steps report @ [st_name st]\<rparr>)
         else compensate steps ctx' (report\<lparr>failed_step := Some (st_name st)\<rparr>))"

definition execute :: "'s SagaStep list \<Rightarrow> 's \<Rightarrow> 's \<times> SagaExecutionReport" where
  "execute steps ctx =
     execute_loop steps steps ctx
       \<lparr>rep_committed = False, completed_steps = [], compensated_steps = [], failed_step = None\<rparr>"

section \<open>Forward and backward runs\<close>

text \<open>The contexts of the forward run, and the compensations of a list of steps, last step first.\<close>

fun run_actions :: "'s SagaStep list \<Rightarrow> 's \<Rightarrow> 's" where
  "run_actions [] s = s"
| "run_actions (st # sts) s = run_actions sts (snd (st_action st s))"

fun undo :: "'s SagaStep list \<Rightarrow> 's \<Rightarrow> 's" where
  "undo [] s = s"
| "undo (st # sts) s = st_compensation st (undo sts s)"

fun succeeds :: "'s SagaStep list \<Rightarrow> 's \<Rightarrow> bool" where
  "succeeds [] s = True"
| "succeeds (st # sts) s = (fst (st_action st s) = kSuccess \<and> succeeds sts (snd (st_action st s)))"







lemma execute_loop_prefix:
  "succeeds pre ctx \<Longrightarrow>
   execute_loop steps (pre @ rest) ctx report =
     execute_loop steps rest (run_actions pre ctx)
       (report\<lparr>completed_steps := completed_steps report @ map st_name pre\<rparr>)"
  by (induction pre arbitrary: ctx report) (auto split: prod.splits)

section \<open>Properties\<close>

text \<open>A saga commits or is rolled back. When every action succeeds, the saga commits, all steps are reported in
  order and nothing is compensated.\<close>

theorem saga_commits:
  assumes "succeeds steps ctx"
  shows "execute steps ctx =
    (run_actions steps ctx,
     \<lparr>rep_committed = True, completed_steps = map st_name steps, compensated_steps = [], failed_step = None\<rparr>)"
  using execute_loop_prefix [OF assms, of steps "[]"] by (simp add: execute_def)

theorem saga_commits_witness:
  "rep_committed (snd (execute [\<lparr>st_name = ''a'', st_action = (\<lambda>n. (kSuccess, n + 1)), st_compensation = (\<lambda>n. n - 1)\<rparr>] (0 :: int)))"
  using saga_commits [of "[\<lparr>st_name = ''a'', st_action = (\<lambda>n. (kSuccess, n + 1)), st_compensation = (\<lambda>n. n - 1)\<rparr>]" "0 :: int"]
  by simp




text \<open>With a repeated step name the rollback compensates the wrong step: both completed steps named \<open>''x''\<close> are
  compensated by the first of them, the second compensation never runs.\<close>

theorem saga_duplicate_names_miscompensate:
  "let first = \<lparr>st_name = ''x'', st_action = (\<lambda>s. (kSuccess, s @ [''first''])), st_compensation = (\<lambda>s. s @ [''undo first''])\<rparr>;
       second = \<lparr>st_name = ''x'', st_action = (\<lambda>s. (kSuccess, s @ [''second''])), st_compensation = (\<lambda>s. s @ [''undo second''])\<rparr>;
       failing = \<lparr>st_name = ''y'', st_action = (\<lambda>s. (kPermanentFailure, s)), st_compensation = id\<rparr>
   in fst (execute [first, second, failing] []) = [''first'', ''second'', ''undo first'', ''undo first'']"
  by (simp add: execute_def compensate_def)

end
