(* ===== verification/Mpmc_Queue.thy ===== *)
theory Mpmc_Queue
  imports Prelude
begin

text \<open>
  The lock-free queue of \<open>lock-free-structures/mpmc_linked_queue.hpp\<close> with the back-off of \<open>backoff.hpp\<close>: a linked list
  with a stub node, \<open>head_\<close> and \<open>tail_\<close> moved by compare-and-swap, and epoch-based reclamation of the popped nodes.

  Any number of threads call \<open>push\<close>, \<open>try_pop\<close> and the release of their token. Every atomic access, allocation and
  \<open>delete\<close> is one step of one thread, and a schedule (a list of actions) says which thread steps next, which address
  \<open>operator new\<close> returns and whether a \<open>compare_exchange_weak\<close> fails spuriously. Steps are sequentially consistent. An
  access to a node that is not allocated is undefined behaviour, the value \<open>Inl UseAfterFree\<close>. The vector \<open>retired\<close> of
  a slot is private to the thread that owns the slot, so its changes belong to the step before.

  \<open>mq_chain\<close>, \<open>mq_pushed\<close>, \<open>mq_pops\<close>, \<open>mq_log\<close>, the number in \<open>RPopped\<close> and the flag in \<open>REmpty\<close> are auxiliary: no step
  depends on them.
\<close>

section \<open>Back-off\<close>

record ExponentialBackoff =
  bk_spins :: u64

definition new_ExponentialBackoff :: ExponentialBackoff where
  "new_ExponentialBackoff = \<lparr>bk_spins = 0\<rparr>"

text \<open>\<open>pause\<close> says whether the thread yields the processor.\<close>

definition bk_pause :: "ExponentialBackoff \<Rightarrow> bool \<times> ExponentialBackoff" where
  "bk_pause b = (if bk_spins b < 16 then (False, b\<lparr>bk_spins := bk_spins b + 1\<rparr>) else (True, b))"

definition bk_reset :: "ExponentialBackoff \<Rightarrow> ExponentialBackoff" where
  "bk_reset b = b\<lparr>bk_spins := 0\<rparr>"

section \<open>State\<close>

record 'a Node =
  nd_next :: "nat option"
  nd_value :: "'a option"

record RetiredNode =
  rn_node :: nat
  rn_retire_epoch :: u64

record EpochSlot =
  es_occupied :: bool
  es_active :: bool
  es_epoch :: u64
  es_retired :: "RetiredNode list"

text \<open>\<open>tk_owned\<close>: \<open>owner_\<close> is not null.\<close>

record Token =
  tk_owned :: bool
  tk_slot :: nat

datatype 'a mq_op = OpPush 'a | OpPop

text \<open>What an operation returns: for a successful \<open>try_pop\<close> its position among the successful ones and the value, for
  an unsuccessful one whether the queue was empty when it read the null pointer, for a call that finds no free slot the exception.\<close>

datatype 'a mq_result = RPushed | RPopped nat "'a option" | REmpty bool | RThrew

text \<open>Where a thread is, with its local variables. \<open>Collect\<close> has the number of entries it has kept, the safe epoch, \<open>force_all\<close>, and
  the result of the surrounding \<open>try_pop\<close>, if there is one.\<close>

datatype 'a mq_pc =
    Idle
  | AcqCas "'a mq_op" nat | AcqLoad "'a mq_op" nat | AcqStore "'a mq_op" nat u64
  | EnterLoad "'a mq_op" | EnterStore "'a mq_op" u64 | EnterActive "'a mq_op"
  | PushNew 'a | PushTail 'a nat | PushNext 'a nat nat | PushCheck 'a nat nat "nat option"
  | PushLink 'a nat nat | PushSwing nat nat | PushCount | PushHelp 'a nat nat nat
  | PopHead | PopTail nat | PopNext nat nat | PopCheck nat nat "nat option" bool
  | PopHelp nat nat | PopCas nat nat | PopTake nat nat nat | PopReset nat nat nat "'a option"
  | PopCount nat nat "'a option" | PopRetire nat nat "'a option"
  | PopBump "'a mq_result" | ScanGlobal "'a mq_result" | ScanOccupied nat u64 "'a mq_result"
  | ScanActive nat u64 "'a mq_result" | ScanEpoch nat u64 "'a mq_result"
  | Collect nat u64 bool "'a mq_result option"
  | Leave "'a mq_result" | RelActive | RelOccupied

record 'a mq_thread =
  th_pc :: "'a mq_pc"
  th_token :: Token
  th_backoff :: ExponentialBackoff

text \<open>\<open>mq_max_threads\<close> is the template argument \<open>MaxThreads\<close>, the size of \<open>slots_\<close>.\<close>

record 'a MpmcLinkedQueue =
  mq_nodes :: "nat \<Rightarrow> 'a Node option"
  mq_head :: nat
  mq_tail :: nat
  mq_size :: u64
  mq_global_epoch :: u64
  mq_max_threads :: nat
  mq_slots :: "nat \<Rightarrow> EpochSlot"
  mq_threads :: "nat \<Rightarrow> 'a mq_thread"
  mq_chain :: "nat list"
  mq_pushed :: "'a list"
  mq_pops :: nat
  mq_log :: "'a mq_result list"

datatype mq_fault = UseAfterFree

definition new_MpmcLinkedQueue :: "nat \<Rightarrow> nat \<Rightarrow> 'a MpmcLinkedQueue" where
  "new_MpmcLinkedQueue max_threads stub =
     \<lparr>mq_nodes = [stub \<mapsto> \<lparr>nd_next = None, nd_value = None\<rparr>], mq_head = stub, mq_tail = stub, mq_size = 0, mq_global_epoch = 1,
      mq_max_threads = max_threads,
      mq_slots = (\<lambda>_. \<lparr>es_occupied = False, es_active = False, es_epoch = 0, es_retired = []\<rparr>),
      mq_threads = (\<lambda>_. \<lparr>th_pc = Idle, th_token = \<lparr>tk_owned = False, tk_slot = 0\<rparr>, th_backoff = new_ExponentialBackoff\<rparr>),
      mq_chain = [stub], mq_pushed = [], mq_pops = 0, mq_log = []\<rparr>"

section \<open>Steps\<close>

abbreviation mq_pc_of :: "'a MpmcLinkedQueue \<Rightarrow> nat \<Rightarrow> 'a mq_pc" where
  "mq_pc_of s t \<equiv> th_pc (mq_threads s t)"

abbreviation mq_slot_of :: "'a MpmcLinkedQueue \<Rightarrow> nat \<Rightarrow> nat" where
  "mq_slot_of s t \<equiv> tk_slot (th_token (mq_threads s t))"

definition goto :: "nat \<Rightarrow> 'a mq_pc \<Rightarrow> 'a MpmcLinkedQueue \<Rightarrow> 'a MpmcLinkedQueue" where
  "goto t pc s = s\<lparr>mq_threads := (mq_threads s)(t := (mq_threads s t)\<lparr>th_pc := pc\<rparr>)\<rparr>"

text \<open>\<open>backoff.pause(); continue;\<close>\<close>

definition retry :: "nat \<Rightarrow> 'a mq_pc \<Rightarrow> 'a MpmcLinkedQueue \<Rightarrow> 'a MpmcLinkedQueue" where
  "retry t pc s = s\<lparr>mq_threads := (mq_threads s)(t := (mq_threads s t)\<lparr>th_pc := pc,
     th_backoff := snd (bk_pause (th_backoff (mq_threads s t)))\<rparr>)\<rparr>"

definition set_slot :: "nat \<Rightarrow> (EpochSlot \<Rightarrow> EpochSlot) \<Rightarrow> 'a MpmcLinkedQueue \<Rightarrow> 'a MpmcLinkedQueue" where
  "set_slot i f s = s\<lparr>mq_slots := (mq_slots s)(i := f (mq_slots s i))\<rparr>"

definition set_token :: "nat \<Rightarrow> Token \<Rightarrow> 'a MpmcLinkedQueue \<Rightarrow> 'a MpmcLinkedQueue" where
  "set_token t token s = s\<lparr>mq_threads := (mq_threads s)(t := (mq_threads s t)\<lparr>th_token := token\<rparr>)\<rparr>"

definition with_node :: "nat \<Rightarrow> 'a MpmcLinkedQueue \<Rightarrow> ('a Node \<Rightarrow> 'a MpmcLinkedQueue) \<Rightarrow> mq_fault + 'a MpmcLinkedQueue" where
  "with_node p s f = (case mq_nodes s p of None \<Rightarrow> Inl UseAfterFree | Some node \<Rightarrow> Inr (f node))"

subsection \<open>Slots\<close>

text \<open>\<open>acquire_slot\<close>: the compare-and-swap of one slot, with the exception after the last one.\<close>

definition acquire_cas :: "nat \<Rightarrow> 'a mq_op \<Rightarrow> nat \<Rightarrow> 'a MpmcLinkedQueue \<Rightarrow> 'a MpmcLinkedQueue" where
  "acquire_cas t op index s =
     (if index < mq_max_threads s
      then if \<not> es_occupied (mq_slots s index)
           then goto t (AcqLoad op index) (set_slot index (\<lambda>slot. slot\<lparr>es_occupied := True, es_retired := []\<rparr>) s)
           else goto t (AcqCas op (Suc index)) s
      else goto t Idle (s\<lparr>mq_log := mq_log s @ [RThrew]\<rparr>))"

definition acquire_load :: "nat \<Rightarrow> 'a mq_op \<Rightarrow> nat \<Rightarrow> 'a MpmcLinkedQueue \<Rightarrow> 'a MpmcLinkedQueue" where
  "acquire_load t op index s = goto t (AcqStore op index (mq_global_epoch s)) s"

definition acquire_store :: "nat \<Rightarrow> 'a mq_op \<Rightarrow> nat \<Rightarrow> u64 \<Rightarrow> 'a MpmcLinkedQueue \<Rightarrow> 'a MpmcLinkedQueue" where
  "acquire_store t op index epoch s =
     goto t (EnterLoad op) (set_token t \<lparr>tk_owned = True, tk_slot = index\<rparr> (set_slot index (\<lambda>slot. slot\<lparr>es_epoch := epoch\<rparr>) s))"

text \<open>\<open>enter_critical\<close>; the constructor of the guard returns into the operation.\<close>

definition enter_load :: "nat \<Rightarrow> 'a mq_op \<Rightarrow> 'a MpmcLinkedQueue \<Rightarrow> 'a MpmcLinkedQueue" where
  "enter_load t op s = goto t (EnterStore op (mq_global_epoch s)) s"

definition enter_store :: "nat \<Rightarrow> 'a mq_op \<Rightarrow> u64 \<Rightarrow> 'a MpmcLinkedQueue \<Rightarrow> 'a MpmcLinkedQueue" where
  "enter_store t op epoch s = goto t (EnterActive op) (set_slot (mq_slot_of s t) (\<lambda>slot. slot\<lparr>es_epoch := epoch\<rparr>) s)"

definition enter_active :: "nat \<Rightarrow> 'a mq_op \<Rightarrow> 'a MpmcLinkedQueue \<Rightarrow> 'a MpmcLinkedQueue" where
  "enter_active t op s =
     (let s1 = set_slot (mq_slot_of s t) (\<lambda>slot. slot\<lparr>es_active := True\<rparr>) s;
          s2 = s1\<lparr>mq_threads := (mq_threads s1)(t := (mq_threads s1 t)\<lparr>th_backoff := new_ExponentialBackoff\<rparr>)\<rparr>
      in goto t (case op of OpPush v \<Rightarrow> PushNew v | OpPop \<Rightarrow> PopHead) s2)"

definition leave_critical :: "nat \<Rightarrow> 'a mq_result \<Rightarrow> 'a MpmcLinkedQueue \<Rightarrow> 'a MpmcLinkedQueue" where
  "leave_critical t result s =
     goto t Idle (set_slot (mq_slot_of s t) (\<lambda>slot. slot\<lparr>es_active := False\<rparr>) (s\<lparr>mq_log := mq_log s @ [result]\<rparr>))"

subsection \<open>Push\<close>

text \<open>An address that is in use is not one \<open>operator new\<close> returns: then nothing happens.\<close>

definition push_new :: "nat \<Rightarrow> 'a \<Rightarrow> nat \<Rightarrow> 'a MpmcLinkedQueue \<Rightarrow> 'a MpmcLinkedQueue" where
  "push_new t v address s =
     (if mq_nodes s address \<noteq> None then s
      else goto t (PushTail v address) (s\<lparr>mq_nodes := (mq_nodes s)(address \<mapsto> \<lparr>nd_next = None, nd_value = Some v\<rparr>)\<rparr>))"

definition push_tail :: "nat \<Rightarrow> 'a \<Rightarrow> nat \<Rightarrow> 'a MpmcLinkedQueue \<Rightarrow> 'a MpmcLinkedQueue" where
  "push_tail t v node s = goto t (PushNext v node (mq_tail s)) s"

definition push_next :: "nat \<Rightarrow> 'a \<Rightarrow> nat \<Rightarrow> nat \<Rightarrow> 'a MpmcLinkedQueue \<Rightarrow> mq_fault + 'a MpmcLinkedQueue" where
  "push_next t v node tail s = with_node tail s (\<lambda>n. goto t (PushCheck v node tail (nd_next n)) s)"

definition push_check :: "nat \<Rightarrow> 'a \<Rightarrow> nat \<Rightarrow> nat \<Rightarrow> nat option \<Rightarrow> 'a MpmcLinkedQueue \<Rightarrow> 'a MpmcLinkedQueue" where
  "push_check t v node tail next s =
     (if tail \<noteq> mq_tail s then retry t (PushTail v node) s
      else case next of None \<Rightarrow> goto t (PushLink v node tail) s | Some x \<Rightarrow> goto t (PushHelp v node tail x) s)"

definition push_link :: "nat \<Rightarrow> 'a \<Rightarrow> nat \<Rightarrow> nat \<Rightarrow> bool \<Rightarrow> 'a MpmcLinkedQueue \<Rightarrow> mq_fault + 'a MpmcLinkedQueue" where
  "push_link t v node tail spurious s =
     with_node tail s (\<lambda>n.
       if nd_next n = None \<and> \<not> spurious
       then goto t (PushSwing node tail)
              (s\<lparr>mq_nodes := (mq_nodes s)(tail \<mapsto> n\<lparr>nd_next := Some node\<rparr>),
                 mq_chain := mq_chain s @ [node], mq_pushed := mq_pushed s @ [v]\<rparr>)
       else retry t (PushTail v node) s)"

definition push_swing :: "nat \<Rightarrow> nat \<Rightarrow> nat \<Rightarrow> 'a MpmcLinkedQueue \<Rightarrow> 'a MpmcLinkedQueue" where
  "push_swing t node tail s = goto t PushCount (if mq_tail s = tail then s\<lparr>mq_tail := node\<rparr> else s)"

definition push_count :: "nat \<Rightarrow> 'a MpmcLinkedQueue \<Rightarrow> 'a MpmcLinkedQueue" where
  "push_count t s = goto t (Leave RPushed) (s\<lparr>mq_size := mq_size s + 1\<rparr>)"

definition push_help :: "nat \<Rightarrow> 'a \<Rightarrow> nat \<Rightarrow> nat \<Rightarrow> nat \<Rightarrow> bool \<Rightarrow> 'a MpmcLinkedQueue \<Rightarrow> 'a MpmcLinkedQueue" where
  "push_help t v node tail next spurious s =
     retry t (PushTail v node) (if mq_tail s = tail \<and> \<not> spurious then s\<lparr>mq_tail := next\<rparr> else s)"

subsection \<open>Pop\<close>

definition pop_head :: "nat \<Rightarrow> 'a MpmcLinkedQueue \<Rightarrow> 'a MpmcLinkedQueue" where
  "pop_head t s = goto t (PopTail (mq_head s)) s"

definition pop_tail :: "nat \<Rightarrow> nat \<Rightarrow> 'a MpmcLinkedQueue \<Rightarrow> 'a MpmcLinkedQueue" where
  "pop_tail t head s = goto t (PopNext head (mq_tail s)) s"

definition pop_next :: "nat \<Rightarrow> nat \<Rightarrow> nat \<Rightarrow> 'a MpmcLinkedQueue \<Rightarrow> mq_fault + 'a MpmcLinkedQueue" where
  "pop_next t head tail s = with_node head s (\<lambda>n. goto t (PopCheck head tail (nd_next n) (tl (mq_chain s) = [])) s)"

definition pop_check :: "nat \<Rightarrow> nat \<Rightarrow> nat \<Rightarrow> nat option \<Rightarrow> bool \<Rightarrow> 'a MpmcLinkedQueue \<Rightarrow> 'a MpmcLinkedQueue" where
  "pop_check t head tail next was_empty s =
     (if head \<noteq> mq_head s then retry t PopHead s
      else case next of
             None \<Rightarrow> goto t (Leave (REmpty was_empty)) s
           | Some x \<Rightarrow> if head = tail then goto t (PopHelp head x) s else goto t (PopCas head x) s)"

definition pop_help :: "nat \<Rightarrow> nat \<Rightarrow> nat \<Rightarrow> bool \<Rightarrow> 'a MpmcLinkedQueue \<Rightarrow> 'a MpmcLinkedQueue" where
  "pop_help t tail next spurious s =
     retry t PopHead (if mq_tail s = tail \<and> \<not> spurious then s\<lparr>mq_tail := next\<rparr> else s)"

definition pop_cas :: "nat \<Rightarrow> nat \<Rightarrow> nat \<Rightarrow> bool \<Rightarrow> 'a MpmcLinkedQueue \<Rightarrow> 'a MpmcLinkedQueue" where
  "pop_cas t head next spurious s =
     (if mq_head s = head \<and> \<not> spurious
      then goto t (PopTake head next (mq_pops s)) (s\<lparr>mq_head := next, mq_chain := tl (mq_chain s), mq_pops := Suc (mq_pops s)\<rparr>)
      else retry t PopHead s)"

definition pop_take :: "nat \<Rightarrow> nat \<Rightarrow> nat \<Rightarrow> nat \<Rightarrow> 'a MpmcLinkedQueue \<Rightarrow> mq_fault + 'a MpmcLinkedQueue" where
  "pop_take t head next ticket s = with_node next s (\<lambda>n. goto t (PopReset head next ticket (nd_value n)) s)"

definition pop_reset :: "nat \<Rightarrow> nat \<Rightarrow> nat \<Rightarrow> nat \<Rightarrow> 'a option \<Rightarrow> 'a MpmcLinkedQueue \<Rightarrow> mq_fault + 'a MpmcLinkedQueue" where
  "pop_reset t head next ticket v s =
     with_node next s (\<lambda>n. goto t (PopCount head ticket v) (s\<lparr>mq_nodes := (mq_nodes s)(next \<mapsto> n\<lparr>nd_value := None\<rparr>)\<rparr>))"

definition pop_count :: "nat \<Rightarrow> nat \<Rightarrow> nat \<Rightarrow> 'a option \<Rightarrow> 'a MpmcLinkedQueue \<Rightarrow> 'a MpmcLinkedQueue" where
  "pop_count t head ticket v s = goto t (PopRetire head ticket v) (s\<lparr>mq_size := mq_size s - 1\<rparr>)"

subsection \<open>Reclamation\<close>

definition kRetireThreshold :: nat where
  "kRetireThreshold = 32"

definition retire_node :: "nat \<Rightarrow> nat \<Rightarrow> nat \<Rightarrow> 'a option \<Rightarrow> 'a MpmcLinkedQueue \<Rightarrow> 'a MpmcLinkedQueue" where
  "retire_node t head ticket v s =
     (let i = mq_slot_of s t; retired = es_retired (mq_slots s i) @ [\<lparr>rn_node = head, rn_retire_epoch = mq_global_epoch s\<rparr>]
      in goto t (if kRetireThreshold \<le> length retired then PopBump (RPopped ticket v) else Leave (RPopped ticket v))
           (set_slot i (\<lambda>slot. slot\<lparr>es_retired := retired\<rparr>) s))"

definition bump_epoch :: "nat \<Rightarrow> 'a mq_result \<Rightarrow> 'a MpmcLinkedQueue \<Rightarrow> 'a MpmcLinkedQueue" where
  "bump_epoch t result s =
     goto t (if es_retired (mq_slots s (mq_slot_of s t)) = [] then Leave result else ScanGlobal result)
       (s\<lparr>mq_global_epoch := mq_global_epoch s + 1\<rparr>)"

text \<open>\<open>min_active_epoch\<close>: the three loads per slot.\<close>

definition scan_global :: "nat \<Rightarrow> 'a mq_result \<Rightarrow> 'a MpmcLinkedQueue \<Rightarrow> 'a MpmcLinkedQueue" where
  "scan_global t result s = goto t (ScanOccupied 0 (mq_global_epoch s + 1) result) s"

definition scan_occupied :: "nat \<Rightarrow> nat \<Rightarrow> u64 \<Rightarrow> 'a mq_result \<Rightarrow> 'a MpmcLinkedQueue \<Rightarrow> 'a MpmcLinkedQueue" where
  "scan_occupied t index minimum result s =
     goto t (if index < mq_max_threads s
             then if es_occupied (mq_slots s index) then ScanActive index minimum result else ScanOccupied (Suc index) minimum result
             else Collect 0 minimum False (Some result)) s"

definition scan_active :: "nat \<Rightarrow> nat \<Rightarrow> u64 \<Rightarrow> 'a mq_result \<Rightarrow> 'a MpmcLinkedQueue \<Rightarrow> 'a MpmcLinkedQueue" where
  "scan_active t index minimum result s =
     goto t (if es_active (mq_slots s index) then ScanEpoch index minimum result else ScanOccupied (Suc index) minimum result) s"

definition scan_epoch :: "nat \<Rightarrow> nat \<Rightarrow> u64 \<Rightarrow> 'a mq_result \<Rightarrow> 'a MpmcLinkedQueue \<Rightarrow> 'a MpmcLinkedQueue" where
  "scan_epoch t index minimum result s = goto t (ScanOccupied (Suc index) (min minimum (es_epoch (mq_slots s index))) result) s"

text \<open>One entry of the loop of \<open>collect_retired\<close>: the first \<open>kept\<close> entries stay, the next one is deleted or kept.\<close>

definition collect_retired ::
  "nat \<Rightarrow> nat \<Rightarrow> u64 \<Rightarrow> bool \<Rightarrow> 'a mq_result option \<Rightarrow> 'a MpmcLinkedQueue \<Rightarrow> mq_fault + 'a MpmcLinkedQueue" where
  "collect_retired t kept safe_epoch force_all result s =
     (let i = mq_slot_of s t; retired = es_retired (mq_slots s i)
      in if kept < length retired
         then let entry = retired ! kept
              in if force_all \<or> rn_retire_epoch entry < safe_epoch
                 then with_node (rn_node entry) s (\<lambda>_. set_slot i (\<lambda>slot. slot\<lparr>es_retired := take kept retired @ drop (Suc kept) retired\<rparr>)
                        (s\<lparr>mq_nodes := (mq_nodes s)(rn_node entry := None)\<rparr>))
                 else Inr (goto t (Collect (Suc kept) safe_epoch force_all result) s)
         else Inr (goto t (case result of None \<Rightarrow> RelActive | Some r \<Rightarrow> Leave r) s))"

text \<open>The two stores at the end of \<open>unregister_slot\<close>, the second with the reset of the token in \<open>release\<close>.\<close>

definition unregister_active :: "nat \<Rightarrow> 'a MpmcLinkedQueue \<Rightarrow> 'a MpmcLinkedQueue" where
  "unregister_active t s = goto t RelOccupied (set_slot (mq_slot_of s t) (\<lambda>slot. slot\<lparr>es_active := False\<rparr>) s)"

definition unregister_occupied :: "nat \<Rightarrow> 'a MpmcLinkedQueue \<Rightarrow> 'a MpmcLinkedQueue" where
  "unregister_occupied t s =
     goto t Idle (set_token t ((th_token (mq_threads s t))\<lparr>tk_owned := False\<rparr>)
       (set_slot (mq_slot_of s t) (\<lambda>slot. slot\<lparr>es_occupied := False\<rparr>) s))"

section \<open>Schedules\<close>

datatype 'a mq_action = Call nat "'a mq_op" | Release nat | Step nat nat bool

text \<open>A call looks for the token of the thread (\<open>local_token_for\<close>); a thread that is in an operation does not begin another.\<close>

definition mq_call :: "nat \<Rightarrow> 'a mq_op \<Rightarrow> 'a MpmcLinkedQueue \<Rightarrow> 'a MpmcLinkedQueue" where
  "mq_call t op s =
     (if mq_pc_of s t = Idle
      then goto t (if tk_owned (th_token (mq_threads s t)) then EnterLoad op else AcqCas op 0) s else s)"

definition mq_release :: "nat \<Rightarrow> 'a MpmcLinkedQueue \<Rightarrow> 'a MpmcLinkedQueue" where
  "mq_release t s =
     (if mq_pc_of s t = Idle \<and> tk_owned (th_token (mq_threads s t)) then goto t (Collect 0 (- 1) True None) s else s)"

definition thread_step :: "nat \<Rightarrow> nat \<Rightarrow> bool \<Rightarrow> 'a MpmcLinkedQueue \<Rightarrow> mq_fault + 'a MpmcLinkedQueue" where
  "thread_step t address spurious s =
     (case mq_pc_of s t of
        Idle \<Rightarrow> Inr s
      | AcqCas op i \<Rightarrow> Inr (acquire_cas t op i s)
      | AcqLoad op i \<Rightarrow> Inr (acquire_load t op i s)
      | AcqStore op i epoch \<Rightarrow> Inr (acquire_store t op i epoch s)
      | EnterLoad op \<Rightarrow> Inr (enter_load t op s)
      | EnterStore op epoch \<Rightarrow> Inr (enter_store t op epoch s)
      | EnterActive op \<Rightarrow> Inr (enter_active t op s)
      | PushNew v \<Rightarrow> Inr (push_new t v address s)
      | PushTail v node \<Rightarrow> Inr (push_tail t v node s)
      | PushNext v node tail \<Rightarrow> push_next t v node tail s
      | PushCheck v node tail next \<Rightarrow> Inr (push_check t v node tail next s)
      | PushLink v node tail \<Rightarrow> push_link t v node tail spurious s
      | PushSwing node tail \<Rightarrow> Inr (push_swing t node tail s)
      | PushCount \<Rightarrow> Inr (push_count t s)
      | PushHelp v node tail next \<Rightarrow> Inr (push_help t v node tail next spurious s)
      | PopHead \<Rightarrow> Inr (pop_head t s)
      | PopTail head \<Rightarrow> Inr (pop_tail t head s)
      | PopNext head tail \<Rightarrow> pop_next t head tail s
      | PopCheck head tail next was_empty \<Rightarrow> Inr (pop_check t head tail next was_empty s)
      | PopHelp tail next \<Rightarrow> Inr (pop_help t tail next spurious s)
      | PopCas head next \<Rightarrow> Inr (pop_cas t head next spurious s)
      | PopTake head next ticket \<Rightarrow> pop_take t head next ticket s
      | PopReset head next ticket v \<Rightarrow> pop_reset t head next ticket v s
      | PopCount head ticket v \<Rightarrow> Inr (pop_count t head ticket v s)
      | PopRetire head ticket v \<Rightarrow> Inr (retire_node t head ticket v s)
      | PopBump result \<Rightarrow> Inr (bump_epoch t result s)
      | ScanGlobal result \<Rightarrow> Inr (scan_global t result s)
      | ScanOccupied i minimum result \<Rightarrow> Inr (scan_occupied t i minimum result s)
      | ScanActive i minimum result \<Rightarrow> Inr (scan_active t i minimum result s)
      | ScanEpoch i minimum result \<Rightarrow> Inr (scan_epoch t i minimum result s)
      | Collect kept safe_epoch force_all result \<Rightarrow> collect_retired t kept safe_epoch force_all result s
      | Leave result \<Rightarrow> Inr (leave_critical t result s)
      | RelActive \<Rightarrow> Inr (unregister_active t s)
      | RelOccupied \<Rightarrow> Inr (unregister_occupied t s))"

fun mq_step :: "'a mq_action \<Rightarrow> 'a MpmcLinkedQueue \<Rightarrow> mq_fault + 'a MpmcLinkedQueue" where
  "mq_step (Call t op) s = Inr (mq_call t op s)"
| "mq_step (Release t) s = Inr (mq_release t s)"
| "mq_step (Step t address spurious) s = thread_step t address spurious s"

fun mq_run :: "'a mq_action list \<Rightarrow> 'a MpmcLinkedQueue \<Rightarrow> mq_fault + 'a MpmcLinkedQueue" where
  "mq_run [] s = Inr s"
| "mq_run (action # actions) s = (case mq_step action s of Inl e \<Rightarrow> Inl e | Inr s' \<Rightarrow> mq_run actions s')"

section \<open>Queries and destruction\<close>

definition mq_size_approx :: "'a MpmcLinkedQueue \<Rightarrow> u64" where
  "mq_size_approx s = mq_size s"

definition mq_empty :: "'a MpmcLinkedQueue \<Rightarrow> bool" where
  "mq_empty s = (mq_size_approx s = 0)"

text \<open>The destructor: \<open>drain_all_nodes\<close> follows the list from \<open>head_\<close>, \<open>reclaim_all_retired\<close> frees what the slots have
  retired. \<open>Inl\<close> is a null-terminated walk that meets a freed node or a second \<open>delete\<close> of a node. The walk may be endless on a
  cyclic list, so it has fuel; \<open>None\<close> is running out of it.\<close>

fun drain_all_nodes :: "nat \<Rightarrow> nat option \<Rightarrow> (nat \<rightharpoonup> 'a Node) \<Rightarrow> (mq_fault + (nat \<rightharpoonup> 'a Node)) option" where
  "drain_all_nodes fuel None nodes = Some (Inr nodes)"
| "drain_all_nodes 0 (Some p) nodes = None"
| "drain_all_nodes (Suc fuel) (Some p) nodes =
     (case nodes p of None \<Rightarrow> Some (Inl UseAfterFree) | Some n \<Rightarrow> drain_all_nodes fuel (nd_next n) (nodes(p := None)))"

fun delete_retired :: "RetiredNode list \<Rightarrow> (nat \<rightharpoonup> 'a Node) \<Rightarrow> mq_fault + (nat \<rightharpoonup> 'a Node)" where
  "delete_retired [] nodes = Inr nodes"
| "delete_retired (entry # retired) nodes =
     (case nodes (rn_node entry) of None \<Rightarrow> Inl UseAfterFree | Some n \<Rightarrow> delete_retired retired (nodes(rn_node entry := None)))"

definition reclaim_all_retired :: "'a MpmcLinkedQueue \<Rightarrow> (nat \<rightharpoonup> 'a Node) \<Rightarrow> mq_fault + (nat \<rightharpoonup> 'a Node)" where
  "reclaim_all_retired s nodes = delete_retired (concat (map (\<lambda>i. es_retired (mq_slots s i)) [0 ..< mq_max_threads s])) nodes"

definition mq_destroy :: "nat \<Rightarrow> 'a MpmcLinkedQueue \<Rightarrow> (mq_fault + (nat \<rightharpoonup> 'a Node)) option" where
  "mq_destroy fuel s =
     (case drain_all_nodes fuel (Some (mq_head s)) (mq_nodes s) of
        None \<Rightarrow> None
      | Some (Inl e) \<Rightarrow> Some (Inl e)
      | Some (Inr nodes) \<Rightarrow> Some (reclaim_all_retired s nodes))"

end
