(* ===== verification/Mpmc_Inv.thy ===== *)
theory Mpmc_Inv
  imports Mpmc_Queue
begin

text \<open>
  The invariant of the interleaved queue. Every allocated node is in exactly one place: in the list between \<open>head_\<close> and its
  end (\<open>mq_chain\<close>), in the retired vector of a slot, or in the hands of one thread, either not yet linked (\<open>fresh\<close>) or just unlinked
  (\<open>popped\<close>). A thread may dereference the nodes \<open>refs\<close> of its program point; such a node is protected: if it is retired, then
  with an epoch that is not below the epoch the thread announced. A thread that scans the slots has a bound that no protected node
  of the slots already scanned falls below. Last comes the lemma that lifts a step of one thread to the invariant: what the
  others rely on is the predicate \<open>steady\<close>.
\<close>

section \<open>What a program point says\<close>

fun refs :: "'a mq_pc \<Rightarrow> nat set" where
  "refs (PushNext v n x) = {x}"
| "refs (PushCheck v n x y) = {x}"
| "refs (PushLink v n x) = {x}"
| "refs (PushSwing n x) = {x}"
| "refs (PushHelp v n x y) = {x}"
| "refs (PopTail x) = {x}"
| "refs (PopNext x y) = {x}"
| "refs (PopCheck x y z b) = {x}"
| "refs (PopHelp x y) = {x}"
| "refs (PopCas x y) = {x}"
| "refs (PopTake h x i) = {x}"
| "refs (PopReset h x i v) = {x}"
| "refs _ = {}"

fun fresh :: "'a mq_pc \<Rightarrow> nat set" where
  "fresh (PushTail v n) = {n}"
| "fresh (PushNext v n x) = {n}"
| "fresh (PushCheck v n x y) = {n}"
| "fresh (PushLink v n x) = {n}"
| "fresh (PushHelp v n x y) = {n}"
| "fresh _ = {}"

fun popped :: "'a mq_pc \<Rightarrow> nat set" where
  "popped (PopTake h x i) = {h}"
| "popped (PopReset h x i v) = {h}"
| "popped (PopCount h i v) = {h}"
| "popped (PopRetire h i v) = {h}"
| "popped _ = {}"

fun taking :: "'a mq_pc \<Rightarrow> nat set" where
  "taking (PopTake h x i) = {x}"
| "taking (PopReset h x i v) = {x}"
| "taking _ = {}"

fun result_tickets :: "'a mq_result \<Rightarrow> nat list" where
  "result_tickets (RPopped i v) = [i]"
| "result_tickets _ = []"

fun result_of :: "'a mq_pc \<Rightarrow> 'a mq_result option" where
  "result_of (PopBump r) = Some r"
| "result_of (ScanGlobal r) = Some r"
| "result_of (ScanOccupied i m r) = Some r"
| "result_of (ScanActive i m r) = Some r"
| "result_of (ScanEpoch i m r) = Some r"
| "result_of (Collect k m f r) = r"
| "result_of (Leave r) = Some r"
| "result_of (PopReset h x i v) = Some (RPopped i v)"
| "result_of (PopCount h i v) = Some (RPopped i v)"
| "result_of (PopRetire h i v) = Some (RPopped i v)"
| "result_of _ = None"

fun tickets :: "'a mq_pc \<Rightarrow> nat set" where
  "tickets (PopTake h x i) = {i}"
| "tickets pc = (case result_of pc of None \<Rightarrow> {} | Some r \<Rightarrow> set (result_tickets r))"

text \<open>Between \<open>enter_critical\<close> and \<open>leave_critical\<close>; looking for a slot; outside of every operation.\<close>

fun acquiring :: "'a mq_pc \<Rightarrow> bool" where
  "acquiring (AcqCas op i) = True"
| "acquiring (AcqLoad op i) = True"
| "acquiring (AcqStore op i e) = True"
| "acquiring _ = False"

fun inside :: "'a mq_pc \<Rightarrow> bool" where
  "inside (EnterLoad op) = False"
| "inside (EnterStore op e) = False"
| "inside (EnterActive op) = False"
| "inside (Collect k m f r) = (\<not> f)"
| "inside RelActive = False"
| "inside RelOccupied = False"
| "inside Idle = False"
| "inside pc = (\<not> acquiring pc)"

text \<open>The slot a thread holds.\<close>

definition holds :: "'a mq_thread \<Rightarrow> nat option" where
  "holds th = (case th_pc th of
       AcqLoad op i \<Rightarrow> Some i
     | AcqStore op i e \<Rightarrow> Some i
     | _ \<Rightarrow> if tk_owned (th_token th) then Some (tk_slot (th_token th)) else None)"

text \<open>How far a scan has come, and its minimum so far.\<close>

fun scan_bound :: "'a mq_pc \<Rightarrow> (nat option \<times> u64) option" where
  "scan_bound (ScanOccupied i m r) = Some (Some i, m)"
| "scan_bound (ScanActive i m r) = Some (Some i, m)"
| "scan_bound (ScanEpoch i m r) = Some (Some i, m)"
| "scan_bound (Collect k m f r) = (if f then None else Some (None, m))"
| "scan_bound _ = None"

lemma taking_refs: "taking pc \<subseteq> refs pc"
  by (cases pc) auto

lemma refs_inside: "x \<in> refs pc \<Longrightarrow> inside pc"
  by (cases pc) auto

lemma scan_no_refs: "scan_bound pc = Some b \<Longrightarrow> refs pc = {} \<and> inside pc"
  by (cases pc) (auto split: if_splits)

section \<open>The invariant\<close>

definition next_of :: "'a MpmcLinkedQueue \<Rightarrow> nat \<Rightarrow> nat option" where
  "next_of s x = (case mq_nodes s x of None \<Rightarrow> None | Some n \<Rightarrow> nd_next n)"

definition value_of :: "'a MpmcLinkedQueue \<Rightarrow> nat \<Rightarrow> 'a option" where
  "value_of s x = (case mq_nodes s x of None \<Rightarrow> None | Some n \<Rightarrow> nd_value n)"

definition retired_of :: "'a MpmcLinkedQueue \<Rightarrow> nat \<Rightarrow> nat set" where
  "retired_of s i = rn_node ` set (es_retired (mq_slots s i))"

fun linked :: "(nat \<Rightarrow> nat option) \<Rightarrow> nat list \<Rightarrow> bool" where
  "linked nx [] = True"
| "linked nx [x] = (nx x = None)"
| "linked nx (x # y # zs) = (nx x = Some y \<and> linked nx (y # zs))"

definition chain_ok :: "'a MpmcLinkedQueue \<Rightarrow> bool" where
  "chain_ok s \<longleftrightarrow> mq_chain s \<noteq> [] \<and> distinct (mq_chain s) \<and> hd (mq_chain s) = mq_head s \<and> mq_tail s \<in> set (mq_chain s) \<and>
     linked (next_of s) (mq_chain s) \<and> mq_pops s \<le> length (mq_pushed s) \<and>
     map (value_of s) (tl (mq_chain s)) = map Some (drop (mq_pops s) (mq_pushed s))"

definition heap_ok :: "'a MpmcLinkedQueue \<Rightarrow> bool" where
  "heap_ok s \<longleftrightarrow>
     (\<forall>x. mq_nodes s x \<noteq> None \<longleftrightarrow>
        x \<in> set (mq_chain s) \<or> (\<exists>i. x \<in> retired_of s i) \<or> (\<exists>t. x \<in> fresh (mq_pc_of s t) \<or> x \<in> popped (mq_pc_of s t))) \<and>
     (\<forall>x \<in> set (mq_chain s). (\<forall>i. x \<notin> retired_of s i) \<and> (\<forall>t. x \<notin> fresh (mq_pc_of s t) \<and> x \<notin> popped (mq_pc_of s t))) \<and>
     (\<forall>i. \<forall>x \<in> retired_of s i. next_of s x \<noteq> None \<and> (\<forall>t. x \<notin> fresh (mq_pc_of s t) \<and> x \<notin> popped (mq_pc_of s t))) \<and>
     (\<forall>t. \<forall>x \<in> popped (mq_pc_of s t). next_of s x \<noteq> None)"

definition slots_ok :: "'a MpmcLinkedQueue \<Rightarrow> bool" where
  "slots_ok s \<longleftrightarrow>
     (\<forall>i. (es_occupied (mq_slots s i) \<or> \<not> es_active (mq_slots s i) \<and> es_retired (mq_slots s i) = []) \<and>
       es_epoch (mq_slots s i) \<le> mq_global_epoch s \<and> distinct (map rn_node (es_retired (mq_slots s i)))) \<and>
     (\<forall>i. es_occupied (mq_slots s i) \<longrightarrow> i < mq_max_threads s) \<and>
     (\<forall>i j. i \<noteq> j \<longrightarrow> retired_of s i \<inter> retired_of s j = {})"

definition prot :: "'a MpmcLinkedQueue \<Rightarrow> nat \<Rightarrow> nat \<Rightarrow> bool" where
  "prot s t x \<longleftrightarrow> mq_nodes s x \<noteq> None \<and> (\<forall>u. x \<notin> fresh (mq_pc_of s u)) \<and>
     (\<forall>i. \<forall>r \<in> set (es_retired (mq_slots s i)). rn_node r = x \<longrightarrow> es_epoch (mq_slots s (mq_slot_of s t)) \<le> rn_retire_epoch r)"

definition at_head :: "'a MpmcLinkedQueue \<Rightarrow> nat \<Rightarrow> bool" where
  "at_head s h \<longleftrightarrow> (h \<in> set (mq_chain s) \<longrightarrow> h = mq_head s)"

fun result_ok :: "'a MpmcLinkedQueue \<Rightarrow> 'a mq_result \<Rightarrow> bool" where
  "result_ok s (RPopped i v) = (i < mq_pops s \<and> v = Some (mq_pushed s ! i))"
| "result_ok s (REmpty b) = b"
| "result_ok s _ = True"

definition fresh_node :: "'a MpmcLinkedQueue \<Rightarrow> nat \<Rightarrow> 'a \<Rightarrow> bool" where
  "fresh_node s n v \<longleftrightarrow> mq_nodes s n = Some \<lparr>nd_next = None, nd_value = Some v\<rparr>"

fun pc_ok :: "'a MpmcLinkedQueue \<Rightarrow> 'a mq_pc \<Rightarrow> bool" where
  "pc_ok s (AcqStore op i e) = (e \<le> mq_global_epoch s)"
| "pc_ok s (EnterStore op e) = (e \<le> mq_global_epoch s)"
| "pc_ok s (PushTail v n) = fresh_node s n v"
| "pc_ok s (PushNext v n x) = fresh_node s n v"
| "pc_ok s (PushCheck v n x y) = (fresh_node s n v \<and> (\<forall>z. y = Some z \<longrightarrow> next_of s x = Some z))"
| "pc_ok s (PushLink v n x) = fresh_node s n v"
| "pc_ok s (PushSwing n x) = (next_of s x = Some n)"
| "pc_ok s (PushHelp v n x y) = (fresh_node s n v \<and> next_of s x = Some y)"
| "pc_ok s (PopTail h) = at_head s h"
| "pc_ok s (PopNext h x) = (at_head s h \<and> (h \<noteq> x \<longrightarrow> mq_tail s \<noteq> h))"
| "pc_ok s (PopCheck h x y b) = (at_head s h \<and> (h \<noteq> x \<longrightarrow> mq_tail s \<noteq> h) \<and> (case y of None \<Rightarrow> b | Some z \<Rightarrow> next_of s h = Some z))"
| "pc_ok s (PopHelp h y) = (next_of s h = Some y)"
| "pc_ok s (PopCas h y) = (at_head s h \<and> mq_tail s \<noteq> h \<and> next_of s h = Some y)"
| "pc_ok s (PopTake h x i) = (x \<notin> set (tl (mq_chain s)) \<and> value_of s x = Some (mq_pushed s ! i) \<and> i < mq_pops s)"
| "pc_ok s (PopReset h x i v) = (x \<notin> set (tl (mq_chain s)) \<and> result_ok s (RPopped i v))"
| "pc_ok s (Collect k m f r) = ((f \<longleftrightarrow> r = None) \<and> (f \<longrightarrow> k = 0) \<and> (\<forall>x. r = Some x \<longrightarrow> result_ok s x))"
| "pc_ok s pc = (case result_of pc of None \<Rightarrow> True | Some r \<Rightarrow> result_ok s r)"

text \<open>At the end of a release the slot is cleared.\<close>

fun released :: "'a mq_pc \<Rightarrow> EpochSlot \<Rightarrow> bool" where
  "released RelActive slot = (es_retired slot = [])"
| "released RelOccupied slot = (es_retired slot = [] \<and> \<not> es_active slot)"
| "released _ slot = True"

definition thread_ok :: "'a MpmcLinkedQueue \<Rightarrow> nat \<Rightarrow> bool" where
  "thread_ok s t \<longleftrightarrow> pc_ok s (mq_pc_of s t) \<and> (\<forall>x \<in> refs (mq_pc_of s t). prot s t x) \<and>
     (inside (mq_pc_of s t) \<longrightarrow> es_active (mq_slots s (mq_slot_of s t))) \<and> released (mq_pc_of s t) (mq_slots s (mq_slot_of s t)) \<and>
     (mq_pc_of s t \<noteq> Idle \<longrightarrow> (acquiring (mq_pc_of s t) \<longleftrightarrow> \<not> tk_owned (th_token (mq_threads s t)))) \<and>
     (\<forall>i. holds (mq_threads s t) = Some i \<longrightarrow> i < mq_max_threads s \<and> es_occupied (mq_slots s i))"

text \<open>Two threads share no slot, no unlinked node, no value being taken and no position in the order of pops.\<close>

definition apart :: "'a mq_thread \<Rightarrow> 'a mq_thread \<Rightarrow> bool" where
  "apart th th' \<longleftrightarrow> (\<forall>i. holds th = Some i \<longrightarrow> holds th' \<noteq> Some i) \<and>
     (fresh (th_pc th) \<union> popped (th_pc th)) \<inter> (fresh (th_pc th') \<union> popped (th_pc th')) = {} \<and>
     taking (th_pc th) \<inter> taking (th_pc th') = {} \<and> tickets (th_pc th) \<inter> tickets (th_pc th') = {}"

definition scan_ok :: "'a MpmcLinkedQueue \<Rightarrow> nat \<Rightarrow> nat \<Rightarrow> bool" where
  "scan_ok s c t \<longleftrightarrow> (\<forall>i m. scan_bound (mq_pc_of s c) = Some (i, m) \<longrightarrow> (\<forall>j. i = Some j \<longrightarrow> mq_slot_of s t < j) \<longrightarrow>
     (\<forall>x \<in> refs (mq_pc_of s t). \<forall>r \<in> set (es_retired (mq_slots s (mq_slot_of s c))). rn_node r = x \<longrightarrow> m \<le> rn_retire_epoch r))"

definition log_ok :: "'a MpmcLinkedQueue \<Rightarrow> bool" where
  "log_ok s \<longleftrightarrow> (\<forall>r \<in> set (mq_log s). result_ok s r) \<and> distinct (concat (map result_tickets (mq_log s))) \<and>
     (\<forall>t. tickets (mq_pc_of s t) \<inter> set (concat (map result_tickets (mq_log s))) = {})"

definition mq_inv :: "'a MpmcLinkedQueue \<Rightarrow> bool" where
  "mq_inv s \<longleftrightarrow> chain_ok s \<and> heap_ok s \<and> slots_ok s \<and> log_ok s \<and> (\<forall>t. thread_ok s t) \<and>
     (\<forall>t u. t \<noteq> u \<longrightarrow> apart (mq_threads s t) (mq_threads s u) \<and> scan_ok s t u)"

lemma mq_invD:
  assumes "mq_inv s"
  shows "chain_ok s" "heap_ok s" "slots_ok s" "log_ok s" "thread_ok s t"
    "t \<noteq> u \<Longrightarrow> apart (mq_threads s t) (mq_threads s u)" "t \<noteq> u \<Longrightarrow> scan_ok s t u"
  using assms by (simp_all add: mq_inv_def)

text \<open>A thread in an operation owns the slot of its token.\<close>

lemma holds_owned:
  assumes "thread_ok s t" "mq_pc_of s t \<noteq> Idle" "\<not> acquiring (mq_pc_of s t)"
  shows "holds (mq_threads s t) = Some (mq_slot_of s t)"
  using assms by (cases "mq_pc_of s t") (auto simp: thread_ok_def holds_def)

lemma inside_owned:
  assumes "thread_ok s t" "inside (mq_pc_of s t)"
  shows "holds (mq_threads s t) = Some (mq_slot_of s t)" "es_active (mq_slots s (mq_slot_of s t))"
proof -
  have "mq_pc_of s t \<noteq> Idle" "\<not> acquiring (mq_pc_of s t)" using assms(2) by (cases "mq_pc_of s t"; auto)+
  then show "holds (mq_threads s t) = Some (mq_slot_of s t)" using holds_owned [OF assms(1)] by blast
  show "es_active (mq_slots s (mq_slot_of s t))" using assms by (simp add: thread_ok_def)
qed

section \<open>Lists of nodes\<close>

lemma linked_cong: "(\<And>x. x \<in> set xs \<Longrightarrow> nx x = nx' x) \<Longrightarrow> linked nx xs = linked nx' xs"
  by (induction nx xs rule: linked.induct) auto

lemma linked_tl: "linked nx xs \<Longrightarrow> linked nx (tl xs)"
  by (induction nx xs rule: linked.induct) auto

lemma linked_end: "linked nx xs \<Longrightarrow> x \<in> set xs \<Longrightarrow> nx x = None \<Longrightarrow> x = last xs"
  by (induction nx xs rule: linked.induct) auto

lemma linked_next: "linked nx xs \<Longrightarrow> x \<in> set xs \<Longrightarrow> nx x = Some y \<Longrightarrow> y \<in> set (tl xs)"
  by (induction nx xs rule: linked.induct) auto

lemma linked_snoc:
  "linked nx xs \<Longrightarrow> xs \<noteq> [] \<Longrightarrow> distinct xs \<Longrightarrow> n \<notin> set xs \<Longrightarrow> nx n = None \<Longrightarrow> linked (nx(last xs := Some n)) (xs @ [n])"
proof (induction nx xs rule: linked.induct)
  case (3 nx x y zs)
  then have "x \<noteq> last (y # zs)" using last_in_set [of "y # zs"] by auto
  then show ?case using 3 by auto
qed auto

section \<open>A step of one thread\<close>

text \<open>What the step of \<open>t\<close> leaves to the other threads.\<close>

definition steady :: "nat \<Rightarrow> 'a MpmcLinkedQueue \<Rightarrow> 'a MpmcLinkedQueue \<Rightarrow> bool" where
  "steady t s s' \<longleftrightarrow> mq_global_epoch s \<le> mq_global_epoch s' \<and> mq_max_threads s' = mq_max_threads s \<and>
     mq_pops s \<le> mq_pops s' \<and> (\<forall>i < mq_pops s. mq_pushed s' ! i = mq_pushed s ! i) \<and>
     (\<forall>u. u \<noteq> t \<longrightarrow> mq_threads s' u = mq_threads s u \<and>
       (\<forall>i. holds (mq_threads s u) = Some i \<longrightarrow> mq_slots s' i = mq_slots s i) \<and>
       (\<forall>x \<in> fresh (mq_pc_of s u). mq_nodes s' x = mq_nodes s x) \<and>
       (\<forall>x \<in> taking (mq_pc_of s u). value_of s' x = value_of s x \<and> (x \<notin> set (tl (mq_chain s)) \<longrightarrow> x \<notin> set (tl (mq_chain s')))) \<and>
       (\<forall>x \<in> refs (mq_pc_of s u). (prot s u x \<longrightarrow> prot s' u x) \<and> (next_of s x \<noteq> None \<longrightarrow> next_of s' x = next_of s x) \<and>
          (at_head s x \<longrightarrow> at_head s' x \<and> (mq_tail s \<noteq> x \<longrightarrow> mq_tail s' \<noteq> x))))"

lemma steady_result: "steady t s s' \<Longrightarrow> result_ok s r \<Longrightarrow> result_ok s' r"
  by (cases r) (auto simp: steady_def)

lemma steady_pc_ok:
  assumes "steady t s s'" "u \<noteq> t" "pc_ok s (mq_pc_of s u)"
  shows "pc_ok s' (mq_pc_of s u)"
proof -
  note st = steady_result [OF assms(1)]
  have e: "mq_global_epoch s \<le> mq_global_epoch s'" "mq_pops s \<le> mq_pops s'" "\<forall>i < mq_pops s. mq_pushed s' ! i = mq_pushed s ! i"
    and f: "\<And>x. x \<in> fresh (mq_pc_of s u) \<Longrightarrow> mq_nodes s' x = mq_nodes s x"
    and v: "\<And>x. x \<in> taking (mq_pc_of s u) \<Longrightarrow> value_of s' x = value_of s x \<and> (x \<notin> set (tl (mq_chain s)) \<longrightarrow> x \<notin> set (tl (mq_chain s')))"
    and r: "\<And>x. x \<in> refs (mq_pc_of s u) \<Longrightarrow> (next_of s x \<noteq> None \<longrightarrow> next_of s' x = next_of s x) \<and>
          (at_head s x \<longrightarrow> at_head s' x \<and> (mq_tail s \<noteq> x \<longrightarrow> mq_tail s' \<noteq> x))"
    using assms(1,2) by (simp_all add: steady_def)
  show ?thesis using assms(3) e f v r st
    by (cases "mq_pc_of s u") (auto simp: fresh_node_def split: option.splits)
qed

lemma steady_thread_ok:
  assumes "steady t s s'" "u \<noteq> t" "thread_ok s u"
  shows "thread_ok s' u"
proof -
  have th: "mq_threads s' u = mq_threads s u" and m: "mq_max_threads s' = mq_max_threads s"
    and sl: "\<And>i. holds (mq_threads s u) = Some i \<Longrightarrow> mq_slots s' i = mq_slots s i"
    and p: "\<And>x. x \<in> refs (mq_pc_of s u) \<Longrightarrow> prot s u x \<Longrightarrow> prot s' u x"
    using assms(1,2) by (simp_all add: steady_def)
  have "inside (mq_pc_of s u) \<Longrightarrow> es_active (mq_slots s' (mq_slot_of s u))"
    using inside_owned [OF assms(3)] sl by simp
  moreover have "released (mq_pc_of s u) (mq_slots s' (mq_slot_of s u))"
    using assms(3) holds_owned [OF assms(3)] sl by (cases "mq_pc_of s u") (auto simp: thread_ok_def)
  ultimately show ?thesis using steady_pc_ok [OF assms(1,2)] assms(3) sl p unfolding thread_ok_def th m by auto
qed

lemma steady_scan_ok:
  assumes "steady t s s'" "u \<noteq> t" "w \<noteq> t" "thread_ok s u" "scan_ok s u w"
  shows "scan_ok s' u w"
proof -
  have th: "mq_threads s' u = mq_threads s u" "mq_threads s' w = mq_threads s w"
    and sl: "\<And>i. holds (mq_threads s u) = Some i \<Longrightarrow> mq_slots s' i = mq_slots s i"
    using assms(1-3) by (simp_all add: steady_def)
  have "mq_slots s' (mq_slot_of s u) = mq_slots s (mq_slot_of s u)" if "scan_bound (mq_pc_of s u) = Some b" for b
    using inside_owned(1) [OF assms(4)] scan_no_refs [OF that] sl by blast
  then show ?thesis using assms(5) unfolding scan_ok_def th by fastforce
qed

lemma mq_inv_step:
  assumes "mq_inv s" "steady t s s'" "chain_ok s'" "heap_ok s'" "slots_ok s'" "log_ok s'" "thread_ok s' t"
    and "\<And>u. u \<noteq> t \<Longrightarrow> apart (mq_threads s' t) (mq_threads s u) \<and> scan_ok s' t u \<and> scan_ok s' u t"
  shows "mq_inv s'"
proof -
  have th: "mq_threads s' u = mq_threads s u" if "u \<noteq> t" for u using assms(2) that by (simp add: steady_def)
  have "thread_ok s' u" for u using assms(7) steady_thread_ok [OF assms(2)] mq_invD(5) [OF assms(1)] by (cases "u = t") auto
  moreover have "apart (mq_threads s' u) (mq_threads s' w) \<and> scan_ok s' u w" if "u \<noteq> w" for u w
  proof (cases "u = t \<or> w = t")
    case True
    then show ?thesis using assms(8) [of u] assms(8) [of w] th that by (auto simp: apart_def)
  next
    case False
    then show ?thesis using mq_invD(5-7) [OF assms(1)] steady_scan_ok [OF assms(2)] th that by (simp add: th)
  qed
  ultimately show ?thesis using assms(3-6) by (simp add: mq_inv_def)
qed

end
