(* ===== verification/Mpmc_Steps.thy ===== *)
theory Mpmc_Steps
  imports Mpmc_Inv
begin

text \<open>
  Every step keeps the invariant of the interleaved queue and finds the nodes it accesses allocated. First the general lemma for steps
  that do not touch the list of nodes, then the steps that do, then the case distinction over the program points.
\<close>

section \<open>Steps that leave the nodes alone\<close>

definition same_list :: "'a MpmcLinkedQueue \<Rightarrow> 'a MpmcLinkedQueue \<Rightarrow> bool" where
  "same_list s s' \<longleftrightarrow> mq_nodes s' = mq_nodes s \<and> mq_head s' = mq_head s \<and> mq_tail s' = mq_tail s \<and> mq_chain s' = mq_chain s \<and>
     mq_pushed s' = mq_pushed s \<and> mq_pops s' = mq_pops s \<and> mq_max_threads s' = mq_max_threads s"

lemma result_ok_frame: "mq_pops s' = mq_pops s \<Longrightarrow> mq_pushed s' = mq_pushed s \<Longrightarrow> result_ok s' = result_ok s"
proof
  show "result_ok s' r = result_ok s r" if "mq_pops s' = mq_pops s" "mq_pushed s' = mq_pushed s" for r using that by (cases r) auto
qed

lemma same_list_of:
  assumes "same_list s s'"
  shows "next_of s' = next_of s" "value_of s' = value_of s" "at_head s' = at_head s" "result_ok s' = result_ok s"
    "fresh_node s' = fresh_node s" "chain_ok s' = chain_ok s"
proof -
  show v: "next_of s' = next_of s" "value_of s' = value_of s" using assms by (auto simp: same_list_def next_of_def value_of_def)
  show "at_head s' = at_head s" "fresh_node s' = fresh_node s"
    using assms by (auto simp: same_list_def at_head_def fresh_node_def fun_eq_iff)
  show "result_ok s' = result_ok s" using assms by (intro result_ok_frame) (simp_all add: same_list_def)
  show "chain_ok s' = chain_ok s" using assms v by (auto simp: same_list_def chain_ok_def)
qed

lemma same_list_pc_ok:
  assumes "same_list s s'" "mq_global_epoch s \<le> mq_global_epoch s'" "pc_ok s pc"
  shows "pc_ok s' pc"
  using assms(2,3) same_list_of [OF assms(1)] assms(1) by (cases pc) (auto simp: same_list_def split: option.splits)

lemma same_sets_heap_ok:
  assumes "same_list s s'" "heap_ok s" "\<And>i. es_retired (mq_slots s' i) = es_retired (mq_slots s i)"
    and "\<And>u. fresh (mq_pc_of s' u) = fresh (mq_pc_of s u)" "\<And>u. popped (mq_pc_of s' u) = popped (mq_pc_of s u)"
  shows "heap_ok s'"
proof -
  have r: "retired_of s' = retired_of s" using assms(3) by (auto simp: retired_of_def)
  show ?thesis using assms(1,2) same_list_of(1) [OF assms(1)] unfolding heap_ok_def assms(4,5) r same_list_def by simp
qed

text \<open>A node of the list is protected, and no scan is concerned with it.\<close>

lemma chain_prot:
  assumes "heap_ok s" "x \<in> set (mq_chain s)"
  shows "prot s t x" "r \<in> set (es_retired (mq_slots s i)) \<Longrightarrow> rn_node r \<noteq> x" "mq_nodes s x \<noteq> None"
  using assms unfolding heap_ok_def prot_def retired_of_def by (blast, blast, blast)

lemma mq_inv_quiet:
  fixes th :: "'a mq_thread"
  assumes inv: "mq_inv s" and list: "same_list s s'" and threads: "mq_threads s' = (mq_threads s)(t := th)"
    and retired: "\<And>i. es_retired (mq_slots s' i) = es_retired (mq_slots s i)"
    and slots: "\<And>i u. u \<noteq> t \<Longrightarrow> holds (mq_threads s u) = Some i \<Longrightarrow> mq_slots s' i = mq_slots s i"
    and epoch: "mq_global_epoch s \<le> mq_global_epoch s'" and sl: "slots_ok s'" and log: "log_ok s'"
    and sets: "fresh (th_pc th) = fresh (mq_pc_of s t)" "popped (th_pc th) = popped (mq_pc_of s t)"
      "taking (th_pc th) \<subseteq> taking (mq_pc_of s t)" "tickets (th_pc th) \<subseteq> tickets (mq_pc_of s t)"
    and refs: "refs (th_pc th) \<subseteq> refs (mq_pc_of s t) \<union> set (mq_chain s)"
      "refs (th_pc th) \<noteq> {} \<Longrightarrow> tk_slot (th_token th) = mq_slot_of s t \<and>
         es_epoch (mq_slots s' (mq_slot_of s t)) = es_epoch (mq_slots s (mq_slot_of s t))"
    and pc: "pc_ok s' (th_pc th)" and active: "inside (th_pc th) \<Longrightarrow> es_active (mq_slots s' (tk_slot (th_token th)))"
    and own: "th_pc th \<noteq> Idle \<Longrightarrow> acquiring (th_pc th) \<longleftrightarrow> \<not> tk_owned (th_token th)"
    and rel: "released (th_pc th) (mq_slots s' (tk_slot (th_token th)))"
    and held: "\<And>i. holds th = Some i \<Longrightarrow> i < mq_max_threads s \<and> es_occupied (mq_slots s' i) \<and> (\<forall>u. u \<noteq> t \<longrightarrow> holds (mq_threads s u) \<noteq> Some i)"
    and scan: "\<And>u. u \<noteq> t \<Longrightarrow> scan_ok s' t u"
  shows "mq_inv s'"
proof -
  note D = mq_invD [OF inv]
  have f: "fresh (mq_pc_of s' u) = fresh (mq_pc_of s u)" "popped (mq_pc_of s' u) = popped (mq_pc_of s u)" for u
    using sets threads by simp_all
  have nodes: "mq_nodes s' = mq_nodes s" and chain: "mq_chain s' = mq_chain s" using list by (simp_all add: same_list_def)
  have ep: "es_epoch (mq_slots s' (mq_slot_of s u)) = es_epoch (mq_slots s (mq_slot_of s u))" if "u \<noteq> t" "x \<in> refs (mq_pc_of s u)" for u x
    using slots [OF that(1)] inside_owned(1) [OF D(5) refs_inside [OF that(2)]] by simp
  have st: "steady t s s'"
    using epoch list slots ep same_list_of [OF list] unfolding steady_def
    by (auto simp: threads prot_def nodes retired sets(1) same_list_def)
  have p: "prot s' t x" if "x \<in> refs (th_pc th)" for x
  proof -
    have "prot s t x" using that refs(1) D(5) [of t] chain_prot(1) [OF D(2)] by (auto simp: thread_ok_def)
    moreover have "tk_slot (th_token th) = mq_slot_of s t" "es_epoch (mq_slots s' (mq_slot_of s t)) = es_epoch (mq_slots s (mq_slot_of s t))"
      using refs(2) that by blast+
    ultimately show ?thesis by (auto simp: prot_def nodes retired sets(1) threads)
  qed
  have ok: "thread_ok s' t" unfolding thread_ok_def using p pc active own rel held list by (auto simp: threads same_list_def)
  have "apart th (mq_threads s u) \<and> scan_ok s' t u \<and> scan_ok s' u t" if u: "u \<noteq> t" for u
  proof -
    have a: "apart th (mq_threads s u)" using D(6) [of t u] u held sets unfolding apart_def by fast
    have "scan_ok s u t" using D(7) u by blast
    then have "scan_ok s' u t"
      unfolding scan_ok_def threads retired using refs chain_prot(2) [OF D(2)] u by (fastforce simp: threads)
    then show ?thesis using a scan [OF u] by blast
  qed
  then show ?thesis
    using mq_inv_step [OF inv st] same_list_of(6) [OF list] same_sets_heap_ok [OF list D(2) retired f] D(1) sl log ok
    by (simp add: threads)
qed


text \<open>The frame of the helpers.\<close>

lemma goto_frame [simp]:
  "mq_nodes (goto t pc s) = mq_nodes s" "mq_head (goto t pc s) = mq_head s" "mq_tail (goto t pc s) = mq_tail s"
  "mq_size (goto t pc s) = mq_size s" "mq_global_epoch (goto t pc s) = mq_global_epoch s"
  "mq_max_threads (goto t pc s) = mq_max_threads s" "mq_slots (goto t pc s) = mq_slots s" "mq_chain (goto t pc s) = mq_chain s"
  "mq_pushed (goto t pc s) = mq_pushed s" "mq_pops (goto t pc s) = mq_pops s" "mq_log (goto t pc s) = mq_log s"
  "mq_threads (goto t pc s) = (mq_threads s)(t := (mq_threads s t)\<lparr>th_pc := pc\<rparr>)"
  by (simp_all add: goto_def)

lemma set_slot_frame [simp]:
  "mq_nodes (set_slot i f s) = mq_nodes s" "mq_head (set_slot i f s) = mq_head s" "mq_tail (set_slot i f s) = mq_tail s"
  "mq_global_epoch (set_slot i f s) = mq_global_epoch s" "mq_max_threads (set_slot i f s) = mq_max_threads s"
  "mq_slots (set_slot i f s) = (mq_slots s)(i := f (mq_slots s i))" "mq_chain (set_slot i f s) = mq_chain s"
  "mq_pushed (set_slot i f s) = mq_pushed s" "mq_pops (set_slot i f s) = mq_pops s" "mq_log (set_slot i f s) = mq_log s"
  "mq_threads (set_slot i f s) = mq_threads s"
  by (simp_all add: set_slot_def)

text \<open>A step that changes nothing but the program point, the back-off and the size of \<open>t\<close>.\<close>

lemma mq_inv_local:
  fixes th :: "'a mq_thread"
  assumes inv: "mq_inv s" and list: "same_list s s'" and threads: "mq_threads s' = (mq_threads s)(t := th)"
    and rest: "mq_slots s' = mq_slots s" "mq_global_epoch s' = mq_global_epoch s" "mq_log s' = mq_log s"
    and tok: "th_token th = th_token (mq_threads s t)" and held: "holds th = holds (mq_threads s t)"
    and sets: "fresh (th_pc th) = fresh (mq_pc_of s t)" "popped (th_pc th) = popped (mq_pc_of s t)"
      "taking (th_pc th) \<subseteq> taking (mq_pc_of s t)" "tickets (th_pc th) \<subseteq> tickets (mq_pc_of s t)"
    and refs: "refs (th_pc th) \<subseteq> refs (mq_pc_of s t) \<union> set (mq_chain s)"
    and pc: "pc_ok s (th_pc th)" and active: "inside (th_pc th) \<Longrightarrow> inside (mq_pc_of s t)"
    and own: "th_pc th \<noteq> Idle \<Longrightarrow> acquiring (th_pc th) \<longleftrightarrow> \<not> tk_owned (th_token (mq_threads s t))"
    and rel: "released (th_pc th) (mq_slots s (mq_slot_of s t))"
    and scan: "\<And>u. u \<noteq> t \<Longrightarrow> scan_bound (th_pc th) \<noteq> None \<Longrightarrow> scan_ok s' t u"
  shows "mq_inv s'"
proof -
  note D = mq_invD [OF inv]
  have "tickets (mq_pc_of s' u) \<subseteq> tickets (mq_pc_of s u)" for u using sets(4) by (simp add: threads)
  then have log: "log_ok s'" using D(4) unfolding log_ok_def same_list_of(4) [OF list] rest by blast
  have slots: "slots_ok s'" using D(3) list by (simp add: slots_ok_def retired_of_def rest same_list_def)
  have "i < mq_max_threads s \<and> es_occupied (mq_slots s' i) \<and> (\<forall>u. u \<noteq> t \<longrightarrow> holds (mq_threads s u) \<noteq> Some i)" if "holds th = Some i" for i
    using that held D(5) [of t] D(6) [of t] rest(1) by (auto simp: thread_ok_def apart_def)
  moreover have "scan_ok s' t u" if "u \<noteq> t" for u using scan [OF that] by (cases "scan_bound (th_pc th)") (auto simp: scan_ok_def threads)
  moreover have "es_active (mq_slots s' (tk_slot (th_token th)))" if "inside (th_pc th)" using active [OF that] inside_owned [OF D(5)] rest tok by simp
  ultimately show ?thesis
    using mq_inv_quiet [OF inv list threads] rest slots log sets refs same_list_pc_ok [OF list] pc own rel tok by simp
qed

section \<open>Steps on the list\<close>

lemma mq_inv_steady:
  assumes "mq_inv s" "\<And>t. steady t s s'" "chain_ok s'" "heap_ok s'" "slots_ok s'" "log_ok s'"
  shows "mq_inv s'"
proof -
  have "mq_threads s' u = mq_threads s u" for u using assms(2) [of "Suc u"] by (simp add: steady_def)
  then have th: "mq_threads s' = mq_threads s" by blast
  have "thread_ok s' u" for u using steady_thread_ok [OF assms(2) [of "Suc u"]] mq_invD(5) [OF assms(1)] by simp
  moreover have "scan_ok s' u w" if "u \<noteq> w" for u w
    using steady_scan_ok [OF assms(2) [of "Suc (max u w)"]] mq_invD(5,7) [OF assms(1)] that by (simp add: less_Suc_eq_le)
  ultimately show ?thesis using assms(3-6) mq_invD(6) [OF assms(1)] by (simp add: mq_inv_def th)
qed

lemma chain_ok_frame:
  assumes "chain_ok s" "mq_chain s' = mq_chain s" "mq_head s' = mq_head s" "mq_tail s' \<in> set (mq_chain s)"
    and "mq_pushed s' = mq_pushed s" "mq_pops s' = mq_pops s"
    and "\<And>z. z \<in> set (mq_chain s) \<Longrightarrow> next_of s' z = next_of s z" "\<And>z. z \<in> set (tl (mq_chain s)) \<Longrightarrow> value_of s' z = value_of s z"
  shows "chain_ok s'"
proof -
  have "map (value_of s') (tl (mq_chain s)) = map (value_of s) (tl (mq_chain s))" using assms(8) by (rule map_cong [OF refl])
  then show ?thesis using assms(1-6) linked_cong [OF assms(7), of "mq_chain s" "\<lambda>x. x"] by (simp add: chain_ok_def del: map_eq_conv)
qed

text \<open>Where an allocated node can be, seen from thread \<open>t\<close>.\<close>

lemma ex_but: "(\<exists>u. Q u) \<longleftrightarrow> Q t \<or> (\<exists>u. u \<noteq> t \<and> Q u)"
  by (cases "Q t") metis+

lemma alloc_iff:
  assumes "heap_ok s"
  shows "mq_nodes s z \<noteq> None \<longleftrightarrow> z \<in> set (mq_chain s) \<or> (\<exists>i. z \<in> retired_of s i) \<or>
    z \<in> fresh (mq_pc_of s t) \<or> z \<in> popped (mq_pc_of s t) \<or> (\<exists>u. u \<noteq> t \<and> (z \<in> fresh (mq_pc_of s u) \<or> z \<in> popped (mq_pc_of s u)))"
  using conjunct1 [OF assms [unfolded heap_ok_def], rule_format, of z]
  by (simp only: ex_but [where t = t and Q = "\<lambda>u. z \<in> fresh (mq_pc_of s u) \<or> z \<in> popped (mq_pc_of s u)"] disj_assoc)

lemma heap_okI:
  assumes "\<And>z. mq_nodes s z \<noteq> None \<longleftrightarrow> z \<in> set (mq_chain s) \<or> (\<exists>i. z \<in> retired_of s i) \<or>
      z \<in> fresh (mq_pc_of s t) \<or> z \<in> popped (mq_pc_of s t) \<or> (\<exists>u. u \<noteq> t \<and> (z \<in> fresh (mq_pc_of s u) \<or> z \<in> popped (mq_pc_of s u)))"
    and "\<And>x i u. x \<in> set (mq_chain s) \<Longrightarrow> x \<notin> retired_of s i \<and> x \<notin> fresh (mq_pc_of s u) \<and> x \<notin> popped (mq_pc_of s u)"
    and "\<And>x i u. x \<in> retired_of s i \<Longrightarrow> next_of s x \<noteq> None \<and> x \<notin> fresh (mq_pc_of s u) \<and> x \<notin> popped (mq_pc_of s u)"
    and "\<And>x u. x \<in> popped (mq_pc_of s u) \<Longrightarrow> next_of s x \<noteq> None"
  shows "heap_ok s"
  unfolding heap_ok_def ex_but [where t = t and Q = "\<lambda>u. z \<in> fresh (mq_pc_of s u) \<or> z \<in> popped (mq_pc_of s u)" for z]
  using assms by (simp only: disj_assoc) blast

lemma heap_okD:
  assumes "heap_ok s"
  shows "x \<in> set (mq_chain s) \<Longrightarrow> x \<notin> retired_of s i \<and> x \<notin> fresh (mq_pc_of s u) \<and> x \<notin> popped (mq_pc_of s u)"
    "x \<in> retired_of s i \<Longrightarrow> next_of s x \<noteq> None \<and> x \<notin> fresh (mq_pc_of s u) \<and> x \<notin> popped (mq_pc_of s u)"
    "x \<in> popped (mq_pc_of s u) \<Longrightarrow> next_of s x \<noteq> None"
  using assms unfolding heap_ok_def by blast+

lemma ref_prot: "mq_inv s \<Longrightarrow> x \<in> refs (mq_pc_of s t) \<Longrightarrow> prot s t x"
  by (simp add: mq_inv_def thread_ok_def)

lemma in_set_tlD: "x \<in> set (tl xs) \<Longrightarrow> x \<in> set xs"
  by (cases xs) auto

text \<open>\<open>tail_\<close> moves to the next node.\<close>

lemma mq_inv_tail:
  assumes inv: "mq_inv s" and nx: "next_of s (mq_tail s) = Some y"
  shows "mq_inv (s\<lparr>mq_tail := y\<rparr>)"
proof -
  note D = mq_invD [OF inv]
  let ?s = "s\<lparr>mq_tail := y\<rparr>"
  have c: "mq_tail s \<in> set (mq_chain s)" "linked (next_of s) (mq_chain s)" "distinct (mq_chain s)" "mq_chain s \<noteq> []" "hd (mq_chain s) = mq_head s"
    using D(1) by (auto simp: chain_ok_def)
  have y: "y \<in> set (tl (mq_chain s))" using linked_next [OF c(2) c(1) nx] .
  have y': "y \<in> set (mq_chain s)" "y \<noteq> mq_head s" using y c by (cases "mq_chain s"; auto)+
  have same: "next_of ?s = next_of s" "value_of ?s = value_of s" "at_head ?s = at_head s" "retired_of ?s = retired_of s"
    by (simp_all add: next_of_def value_of_def at_head_def retired_of_def fun_eq_iff)
  have "at_head s x \<Longrightarrow> y \<noteq> x" for x using y' by (auto simp: at_head_def)
  then have st: "steady t s ?s" for t unfolding steady_def same by (simp add: prot_def)
  have r: "result_ok ?s = result_ok s" by (rule result_ok_frame) simp_all
  show ?thesis
    by (rule mq_inv_steady [OF inv st])
      (use D y' in \<open>simp_all add: chain_ok_def heap_ok_def slots_ok_def log_ok_def same r\<close>)
qed

text \<open>A popped value is cleared.\<close>

lemma mq_inv_clear:
  assumes inv: "mq_inv s" and x: "mq_nodes s x = Some n" "x \<notin> set (tl (mq_chain s))" "\<And>t. x \<notin> fresh (mq_pc_of s t)" "\<And>t. x \<notin> taking (mq_pc_of s t)"
  shows "mq_inv (s\<lparr>mq_nodes := (mq_nodes s)(x \<mapsto> n\<lparr>nd_value := None\<rparr>)\<rparr>)"
proof -
  note D = mq_invD [OF inv]
  let ?s = "s\<lparr>mq_nodes := (mq_nodes s)(x \<mapsto> n\<lparr>nd_value := None\<rparr>)\<rparr>"
  have same: "next_of ?s = next_of s" "at_head ?s = at_head s" "retired_of ?s = retired_of s"
    using x(1) by (auto simp: next_of_def at_head_def retired_of_def fun_eq_iff)
  have alloc: "mq_nodes ?s z = None \<longleftrightarrow> mq_nodes s z = None" for z using x(1) by auto
  have v: "value_of ?s z = value_of s z" if "z \<noteq> x" for z using that by (simp add: value_of_def)
  have r: "result_ok ?s = result_ok s" by (rule result_ok_frame) simp_all
  have w: "value_of ?s z = value_of s z" if "z \<in> taking (mq_pc_of s u)" for z u using v [of z] x(4) [of u] that by metis
  have f: "mq_nodes ?s z = mq_nodes s z" if "z \<in> fresh (mq_pc_of s u)" for z u using x(3) [of u] that by auto
  have "prot ?s t = prot s t" for t unfolding prot_def alloc by simp
  then have st: "steady t s ?s" for t unfolding steady_def same using w f by simp
  have "chain_ok ?s" by (rule chain_ok_frame [OF D(1)]) (use x(2) v same D(1) in \<open>auto simp: chain_ok_def, metis\<close>)
  moreover have "heap_ok ?s" using D(2) unfolding heap_ok_def same alloc by simp
  ultimately show ?thesis
    using mq_inv_steady [OF inv st] D(3,4) by (simp add: slots_ok_def log_ok_def same r)
qed


text \<open>A new node.\<close>

lemma mq_inv_new:
  assumes inv: "mq_inv s" and pc: "mq_pc_of s t = PushNew v" and a: "mq_nodes s a = None"
  shows "mq_inv (goto t (PushTail v a) (s\<lparr>mq_nodes := (mq_nodes s)(a \<mapsto> \<lparr>nd_next = None, nd_value = Some v\<rparr>)\<rparr>))" (is "mq_inv ?s")
proof -
  note D = mq_invD [OF inv]
  have out: "a \<notin> set (mq_chain s)" "a \<notin> retired_of s i" "a \<notin> fresh (mq_pc_of s u)" "a \<notin> popped (mq_pc_of s u)" for i u
    using D(2) a unfolding heap_ok_def by blast+
  have same: "retired_of ?s = retired_of s" "at_head ?s = at_head s" by (auto simp: retired_of_def at_head_def fun_eq_iff)
  have nv: "next_of ?s z = next_of s z" "value_of ?s z = value_of s z" if "z \<noteq> a" for z using that by (simp_all add: next_of_def value_of_def)
  have fr: "fresh (mq_pc_of ?s u) = (if u = t then {a} else fresh (mq_pc_of s u))" "popped (mq_pc_of ?s u) = popped (mq_pc_of s u)"
    "tickets (mq_pc_of ?s u) = tickets (mq_pc_of s u)" for u using pc by simp_all
  have t: "fresh (mq_pc_of s t) = {}" "popped (mq_pc_of s t) = {}" using pc by simp_all
  have alloc: "mq_nodes ?s z \<noteq> None \<longleftrightarrow> z = a \<or> mq_nodes s z \<noteq> None" for z by simp
  have r: "result_ok ?s = result_ok s" by (rule result_ok_frame) simp_all
  have inchain: "next_of ?s z = next_of s z" "value_of ?s z = value_of s z" if "z \<in> set (mq_chain s)" for z using nv out(1) that by metis+
  have c: "chain_ok ?s" by (rule chain_ok_frame [OF D(1)]) (use inchain D(1) in \<open>auto simp: chain_ok_def dest: in_set_tlD\<close>)
  have n: "next_of ?s z \<noteq> None" if "next_of s z \<noteq> None" for z using nv(1) [of z] that a by (auto simp: next_of_def)
  have h: "heap_ok ?s"
    by (rule heap_okI [where t = t], unfold alloc same fr alloc_iff [OF D(2), where t = t])
      (use t heap_okD [OF D(2)] out n in \<open>auto split: if_splits\<close>)
  have ra: "prot s u x" "x \<noteq> a" if "x \<in> refs (mq_pc_of s u)" for u x using ref_prot [OF inv that] a by (auto simp: prot_def)
  have st: "steady t s ?s"
    unfolding steady_def same
  proof (intro conjI allI impI ballI)
    fix u x assume u: "u \<noteq> t" and x: "x \<in> refs (mq_pc_of s u)"
    then show "prot ?s u x" "next_of s x \<noteq> None \<Longrightarrow> next_of ?s x = next_of s x"
      using ra [OF x] nv unfolding prot_def fr alloc by auto
  next
    fix u x assume "x \<in> taking (mq_pc_of s u)"
    then show "value_of ?s x = value_of s x" using nv(2) ra(2) taking_refs by blast
  qed (use out in auto)
  have "thread_ok ?s t" using D(5) [of t] pc by (simp add: thread_ok_def fresh_node_def holds_def)
  moreover have "apart (mq_threads ?s t) (mq_threads s u) \<and> scan_ok ?s t u \<and> scan_ok ?s u t" if "u \<noteq> t" for u
    using that D(6) [of t u] out pc by (auto simp: apart_def scan_ok_def holds_def)
  ultimately show ?thesis using mq_inv_step [OF inv st c h] D(3,4) by (simp add: slots_ok_def log_ok_def same fr r)
qed


text \<open>A node is linked.\<close>

lemma mq_inv_link:
  assumes inv: "mq_inv s" and pc: "mq_pc_of s t = PushLink v n x" and x: "mq_nodes s x = Some nd" "nd_next nd = None"
  shows "mq_inv (goto t (PushSwing n x) (s\<lparr>mq_nodes := (mq_nodes s)(x \<mapsto> nd\<lparr>nd_next := Some n\<rparr>),
    mq_chain := mq_chain s @ [n], mq_pushed := mq_pushed s @ [v]\<rparr>))" (is "mq_inv ?s")
proof -
  note D = mq_invD [OF inv]
  have px: "prot s t x" using ref_prot [OF inv, of x t] pc by simp
  have nx: "next_of s x = None" using x by (simp add: next_of_def)
  have c: "mq_chain s \<noteq> []" "distinct (mq_chain s)" "hd (mq_chain s) = mq_head s" "mq_tail s \<in> set (mq_chain s)" "linked (next_of s) (mq_chain s)"
    "mq_pops s \<le> length (mq_pushed s)" "map (value_of s) (tl (mq_chain s)) = map Some (drop (mq_pops s) (mq_pushed s))"
    using D(1) unfolding chain_ok_def by blast+
  have "x \<in> set (mq_chain s)" using D(2) px nx x(1) unfolding heap_ok_def prot_def by (metis option.discI)
  then have xl: "x = last (mq_chain s)" using linked_end [OF c(5)] nx by blast
  have n: "mq_nodes s n = Some \<lparr>nd_next = None, nd_value = Some v\<rparr>" using D(5) [of t] pc by (simp add: thread_ok_def fresh_node_def)
  have nf: "n \<in> fresh (mq_pc_of s t)" using pc by simp
  have out: "n \<notin> set (mq_chain s)" "n \<notin> retired_of s i" for i using D(2) nf unfolding heap_ok_def by blast+
  have out': "n \<notin> fresh (mq_pc_of s u)" "n \<notin> popped (mq_pc_of s u)" if "u \<noteq> t" for u
    using D(6) [of t u] that nf unfolding apart_def by blast+
  have pn: "popped (mq_pc_of s t) = {}" using pc by simp
  have nr: "y \<noteq> n" if "y \<in> refs (mq_pc_of s u)" for u y using ref_prot [OF inv that] nf unfolding prot_def by blast
  have same: "value_of ?s = value_of s" "retired_of ?s = retired_of s" "next_of ?s = (next_of s)(x := Some n)"
    using x by (auto simp: value_of_def retired_of_def next_of_def fun_eq_iff)
  have fr: "fresh (mq_pc_of ?s u) = (if u = t then {} else fresh (mq_pc_of s u))" "popped (mq_pc_of ?s u) = popped (mq_pc_of s u)"
    "tickets (mq_pc_of ?s u) = tickets (mq_pc_of s u)" for u using pc by simp_all
  have alloc: "mq_nodes ?s z \<noteq> None \<longleftrightarrow> mq_nodes s z \<noteq> None" for z using x by simp
  have "value_of s n = Some v" "next_of s n = None" using n by (simp_all add: value_of_def next_of_def)
  then have ch: "chain_ok ?s"
    using c linked_snoc [OF c(5) c(1) c(2) out(1)] unfolding chain_ok_def same by (simp add: xl out(1) del: map_eq_conv)
  have h: "heap_ok ?s"
    by (rule heap_okI [where t = t], unfold alloc same fr alloc_iff [OF D(2), where t = t])
      (use pc heap_okD [OF D(2)] out out' in \<open>auto split: if_splits\<close>)
  have r: "result_ok s r \<Longrightarrow> result_ok ?s r" for r using c(6) by (cases r) (auto simp: nth_append)
  have st: "steady t s ?s"
    unfolding steady_def same
  proof (intro conjI allI impI ballI)
    fix u y assume u: "u \<noteq> t" and y: "y \<in> refs (mq_pc_of s u)"
    show "prot ?s u y" if "prot s u y" using that u unfolding prot_def fr alloc by auto
    show "((next_of s)(x := Some n)) y = next_of s y" if "next_of s y \<noteq> None" using that nx by auto
    show "at_head ?s y" if "at_head s y" using that nr [OF y] by (simp add: at_head_def)
  next
    fix u y assume "y \<in> taking (mq_pc_of s u)"
    then have "y \<noteq> n" using nr taking_refs by blast
    then show "y \<notin> set (tl (mq_chain ?s))" if "y \<notin> set (tl (mq_chain s))" using that c(1) by simp
  next
    fix u y assume "y \<in> fresh (mq_pc_of s u)"
    then have "y \<noteq> x" using px unfolding prot_def by blast
    then show "mq_nodes ?s y = mq_nodes s y" by simp
  qed (use c(6) in \<open>auto simp: nth_append\<close>)
  have "prot ?s t x" using px unfolding prot_def fr alloc by auto
  then have "thread_ok ?s t" using D(5) [of t] pc same(3) by (simp add: thread_ok_def holds_def)
  moreover have "apart (mq_threads ?s t) (mq_threads s u) \<and> scan_ok ?s t u \<and> scan_ok ?s u t" if "u \<noteq> t" for u
    using that D(6) [of t u] D(7) [of u t] pc by (auto simp: apart_def scan_ok_def holds_def)
  moreover have "log_ok ?s" using D(4) r unfolding log_ok_def fr by simp
  ultimately show ?thesis using mq_inv_step [OF inv st ch h] D(3) by (simp add: slots_ok_def same)
qed

lemma tickets_bound: "pc_ok s pc \<Longrightarrow> i \<in> tickets pc \<Longrightarrow> i < mq_pops s"
proof -
  have r: "i \<in> set (result_tickets r) \<Longrightarrow> result_ok s r \<Longrightarrow> i < mq_pops s" for r by (cases r) auto
  show "pc_ok s pc \<Longrightarrow> i \<in> tickets pc \<Longrightarrow> i < mq_pops s" using r by (cases pc) (auto split: option.splits)
qed

text \<open>The first node is unlinked.\<close>

lemma mq_inv_unlink:
  assumes inv: "mq_inv s" and pc: "mq_pc_of s t = PopCas h y" and hd: "mq_head s = h"
  shows "mq_inv (goto t (PopTake h y (mq_pops s)) (s\<lparr>mq_head := y, mq_chain := tl (mq_chain s), mq_pops := Suc (mq_pops s)\<rparr>))" (is "mq_inv ?s")
proof -
  note D = mq_invD [OF inv]
  have k: "mq_tail s \<noteq> h" "next_of s h = Some y" using D(5) [of t] pc by (auto simp: thread_ok_def)
  have c: "mq_chain s \<noteq> []" "distinct (mq_chain s)" "hd (mq_chain s) = mq_head s" "mq_tail s \<in> set (mq_chain s)" "linked (next_of s) (mq_chain s)"
    "mq_pops s \<le> length (mq_pushed s)" "map (value_of s) (tl (mq_chain s)) = map Some (drop (mq_pops s) (mq_pushed s))"
    using D(1) unfolding chain_ok_def by blast+
  obtain rest where ch: "mq_chain s = h # y # rest"
    using c(1,3,5) hd k(2) by (cases "mq_chain s" rule: remdups_adj.cases) auto
  have lt: "mq_pops s < length (mq_pushed s)" using arg_cong [OF c(7), of length] ch by simp
  have vals: "value_of s y = Some (mq_pushed s ! mq_pops s)" "map (value_of s) rest = map Some (drop (Suc (mq_pops s)) (mq_pushed s))"
    using c(7) by (simp_all add: ch Cons_nth_drop_Suc [OF lt, symmetric] del: map_eq_conv)
  have same: "value_of ?s = value_of s" "retired_of ?s = retired_of s" "next_of ?s = next_of s"
    by (auto simp: value_of_def retired_of_def next_of_def fun_eq_iff)
  have fr: "fresh (mq_pc_of ?s u) = fresh (mq_pc_of s u)" "popped (mq_pc_of ?s u) = (if u = t then {h} else popped (mq_pc_of s u))" for u
    using pc by simp_all
  have pt: "popped (mq_pc_of s t) = {}" "tickets (mq_pc_of s t) = {}" using pc by simp_all
  have chain: "chain_ok ?s" using c(2,4,5) k(1) lt vals(2) unfolding chain_ok_def same by (simp add: ch del: map_eq_conv)
  have out: "h \<notin> retired_of s i" "h \<notin> fresh (mq_pc_of s u)" "h \<notin> popped (mq_pc_of s u)" for i u
    using D(2) ch unfolding heap_ok_def by (metis list.set_intros(1))+
  have alloc: "mq_nodes ?s z \<noteq> None \<longleftrightarrow> mq_nodes s z \<noteq> None" for z by simp
  have h: "heap_ok ?s"
    by (rule heap_okI [where t = t], unfold alloc same fr alloc_iff [OF D(2), where t = t])
      (use pc heap_okD [OF D(2)] out ch c(2) k(2) in \<open>auto split: if_splits\<close>)
  have hd': "\<not> (at_head s x \<and> x \<in> set (y # rest))" for x using c(2) hd by (auto simp: at_head_def ch)
  have st: "steady t s ?s"
    unfolding steady_def same
  proof (intro conjI allI impI ballI)
    fix u x
    show "prot ?s u x" if "prot s u x" "u \<noteq> t" using that unfolding prot_def fr by simp
    show "at_head ?s x" if "at_head s x" using that hd' [of x] by (simp add: at_head_def ch)
  qed (auto simp: ch)
  have "prot s t y" using chain_prot(1) [OF D(2), of y] ch by simp
  then have "prot ?s t y" unfolding prot_def fr by simp
  then have ok: "thread_ok ?s t" using D(5) [of t] pc c(2) vals(1) same by (simp add: thread_ok_def holds_def ch)
  have "apart (mq_threads ?s t) (mq_threads s u) \<and> scan_ok ?s t u \<and> scan_ok ?s u t" if u: "u \<noteq> t" for u
  proof -
    have "y \<notin> taking (mq_pc_of s u)" using D(5) [of u] ch by (cases "mq_pc_of s u") (auto simp: thread_ok_def)
    moreover have "mq_pops s \<notin> tickets (mq_pc_of s u)" using D(5) [of u] tickets_bound [of s "mq_pc_of s u"] by (auto simp: thread_ok_def)
    ultimately have "apart (mq_threads ?s t) (mq_threads s u)" using D(6) [of t u] u pc out by (auto simp: apart_def holds_def)
    moreover have "scan_ok ?s u t" using u chain_prot(2) [OF D(2), of y] ch by (auto simp: scan_ok_def)
    ultimately show ?thesis by (simp add: scan_ok_def)
  qed
  moreover have "log_ok ?s"
  proof -
    have r: "result_ok s r \<Longrightarrow> result_ok ?s r" "result_ok s r \<Longrightarrow> mq_pops s \<notin> set (result_tickets r)" for r by (cases r; auto)+
    show ?thesis using D(4) r unfolding log_ok_def by (auto split: if_splits)
  qed
  ultimately show ?thesis using mq_inv_step [OF inv st chain h] D(3) ok by (simp add: slots_ok_def same)
qed


text \<open>A popped node is retired with the current epoch.\<close>

lemma mq_inv_retire:
  assumes inv: "mq_inv s" and pc: "mq_pc_of s t = PopRetire h i v" and k: "mq_slot_of s t = k"
    and pc': "pc' = PopBump (RPopped i v) \<or> pc' = Leave (RPopped i v)"
  shows "mq_inv (goto t pc' (set_slot k (\<lambda>slot. slot\<lparr>es_retired := es_retired (mq_slots s k) @ [\<lparr>rn_node = h, rn_retire_epoch = mq_global_epoch s\<rparr>]\<rparr>) s))"
    (is "mq_inv ?s")
proof -
  note D = mq_invD [OF inv]
  have hk: "holds (mq_threads s t) = Some k" using inside_owned(1) [OF D(5), of t] pc k by simp
  have same: "value_of ?s = value_of s" "next_of ?s = next_of s" "at_head ?s = at_head s"
    by (auto simp: value_of_def next_of_def at_head_def fun_eq_iff)
  have ret: "retired_of ?s j = (if j = k then insert h (retired_of s k) else retired_of s j)" for j by (auto simp: retired_of_def)
  have ex: "(\<exists>j. z \<in> retired_of ?s j) \<longleftrightarrow> z = h \<or> (\<exists>j. z \<in> retired_of s j)" for z unfolding ret by (auto split: if_splits)
  have fr: "fresh (mq_pc_of ?s u) = fresh (mq_pc_of s u)" "popped (mq_pc_of ?s u) = (if u = t then {} else popped (mq_pc_of s u))"
    "tickets (mq_pc_of ?s u) = tickets (mq_pc_of s u)" for u using pc pc' by auto
  have hp: "h \<in> popped (mq_pc_of s t)" using pc by simp
  have out: "h \<notin> retired_of s j" "h \<notin> set (mq_chain s)" "next_of s h \<noteq> None" for j
    using heap_okD [OF D(2)] hp by blast+
  have out': "h \<notin> fresh (mq_pc_of s u)" "u \<noteq> t \<Longrightarrow> h \<notin> popped (mq_pc_of s u)" for u
    using D(6) [of t u] pc hp unfolding apart_def by (cases "u = t"; auto)+
  have chain: "chain_ok ?s" using D(1) unfolding chain_ok_def same by simp
  have alloc: "mq_nodes ?s z \<noteq> None \<longleftrightarrow> mq_nodes s z \<noteq> None" for z by simp
  have h: "heap_ok ?s"
  proof (rule heap_okI [where t = t], unfold alloc same fr ex alloc_iff [OF D(2), where t = t], unfold ret, goal_cases)
    case (1 z)
    show ?case using pc by auto
  next
    case (2 x j u)
    then show ?case using heap_okD(1) [OF D(2)] out(2) by auto
  next
    case (3 x j u)
    then show ?case using heap_okD(2) [OF D(2)] out(3) out' by (auto split: if_splits)
  next
    case (4 x u)
    then show ?case using heap_okD(3) [OF D(2)] by (auto split: if_splits)
  qed
  have "distinct (map rn_node (es_retired (mq_slots s k)))" using D(3) by (simp add: slots_ok_def)
  then have slots: "slots_ok ?s"
    using D(3) D(5) [of t] hk out(1) [of k] out(1) unfolding slots_ok_def ret
    by (auto simp: thread_ok_def retired_of_def)
  have sl: "mq_slots ?s j = mq_slots s j" if "u \<noteq> t" "holds (mq_threads s u) = Some j" for u j
    using D(6) [of t u] that hk by (auto simp: apart_def)
  have st: "steady t s ?s"
    unfolding steady_def same
  proof (intro conjI allI impI ballI)
    fix u x assume "prot s u x" "u \<noteq> t"
    moreover have "es_epoch (mq_slots ?s j) = es_epoch (mq_slots s j)" "es_epoch (mq_slots s j) \<le> mq_global_epoch s" for j
      using D(3) by (simp_all add: slots_ok_def)
    ultimately show "prot ?s u x" unfolding prot_def fr by (auto split: if_splits)
  qed (use sl in auto)
  have "thread_ok ?s t" using D(5) [of t] pc pc' by (auto simp: thread_ok_def holds_def)
  moreover have "apart (mq_threads ?s t) (mq_threads s u) \<and> scan_ok ?s t u \<and> scan_ok ?s u t" if u: "u \<noteq> t" for u
  proof -
    have q: "fresh pc' = {}" "popped pc' = {}" "taking pc' = {}" "tickets pc' = tickets (mq_pc_of s t)" "scan_bound pc' = None" "refs pc' = {}"
      using pc pc' by auto
    have "holds (mq_threads ?s t) = Some k" using pc' hk pc by (auto simp: holds_def)
    then have "apart (mq_threads ?s t) (mq_threads s u)" using D(6) [of t u] u hk q by (simp add: apart_def)
    then show ?thesis using u q by (simp add: scan_ok_def)
  qed
  moreover have "log_ok ?s" using D(4) result_ok_frame [of ?s s] unfolding log_ok_def fr by simp
  ultimately show ?thesis using mq_inv_step [OF inv st chain h slots] by blast
qed

text \<open>A retired node is deleted. Nobody refers to it: a scan has seen no epoch up to its own, or no other slot is active.\<close>

lemma remove_nth:
  assumes "distinct (map f xs)" "k < length xs"
  shows "f ` set (take k xs @ drop (Suc k) xs) = f ` set xs - {f (xs ! k)}" "distinct (map f (take k xs @ drop (Suc k) xs))"
    "set (take k xs @ drop (Suc k) xs) \<subseteq> set xs"
proof -
  have "xs = take k xs @ xs ! k # drop (Suc k) xs" using id_take_nth_drop [OF assms(2)] .
  then obtain ys zs where xs: "xs = ys @ xs ! k # zs" "ys = take k xs" "zs = drop (Suc k) xs" by blast
  have "distinct (map f (ys @ xs ! k # zs))" using assms(1) xs(1) by simp
  then show "f ` set (take k xs @ drop (Suc k) xs) = f ` set xs - {f (xs ! k)}" "distinct (map f (take k xs @ drop (Suc k) xs))"
    using arg_cong [OF xs(1), of "\<lambda>l. f ` set l"] unfolding xs(2,3) [symmetric] by (simp_all add: image_Un)
  show "set (take k xs @ drop (Suc k) xs) \<subseteq> set xs" using set_take_subset [of k xs] set_drop_subset [of "Suc k" xs] by auto
qed

definition others_inactive :: "nat \<Rightarrow> 'a MpmcLinkedQueue \<Rightarrow> bool" where
  "others_inactive t s \<longleftrightarrow> (\<forall>i < mq_max_threads s. i \<noteq> mq_slot_of s t \<longrightarrow> \<not> es_active (mq_slots s i))"

lemma delete_unreferenced:
  assumes inv: "mq_inv s" and pc: "mq_pc_of s t = Collect k m f r" and e: "e \<in> set (es_retired (mq_slots s (mq_slot_of s t)))"
    and ok: "\<not> f \<Longrightarrow> rn_retire_epoch e < m" "f \<Longrightarrow> others_inactive t s"
  shows "rn_node e \<notin> refs (mq_pc_of s u)"
proof
  assume x: "rn_node e \<in> refs (mq_pc_of s u)"
  note D = mq_invD [OF inv]
  have u: "u \<noteq> t" using x pc by auto
  note own = inside_owned [OF D(5) refs_inside [OF x]]
  show False
  proof (cases f)
    case True
    have "holds (mq_threads s t) = Some (mq_slot_of s t)" using holds_owned [OF D(5), of t] pc by simp
    then have "mq_slot_of s u \<noteq> mq_slot_of s t" "mq_slot_of s u < mq_max_threads s"
      using D(6) [of t u] D(5) [of u] u own(1) by (auto simp: apart_def thread_ok_def)
    then show ?thesis using ok(2) [OF True] own(2) by (simp add: others_inactive_def)
  next
    case False
    then have "m \<le> rn_retire_epoch e" using D(7) [of t u] u pc x e by (auto simp: scan_ok_def)
    then show ?thesis using ok(1) [OF False] by simp
  qed
qed

lemma mq_inv_delete:
  assumes inv: "mq_inv s" and pc: "mq_pc_of s t = Collect k m f r" and i: "mq_slot_of s t = i" and ret: "es_retired (mq_slots s i) = retired"
    and lt: "k < length retired" and ok: "\<not> f \<Longrightarrow> rn_retire_epoch (retired ! k) < m" "f \<Longrightarrow> others_inactive t s"
  shows "mq_nodes s (rn_node (retired ! k)) \<noteq> None"
    "mq_inv (set_slot i (\<lambda>slot. slot\<lparr>es_retired := take k retired @ drop (Suc k) retired\<rparr>)
      (s\<lparr>mq_nodes := (mq_nodes s)(rn_node (retired ! k) := None)\<rparr>))" (is "mq_inv ?s")
proof -
  note D = mq_invD [OF inv]
  let ?x = "rn_node (retired ! k)"
  have mem: "retired ! k \<in> set retired" using lt by simp
  then have x: "?x \<in> retired_of s i" using ret by (auto simp: retired_of_def)
  then show "mq_nodes s ?x \<noteq> None" using alloc_iff [OF D(2)] by blast
  have nref: "?x \<notin> refs (mq_pc_of s u)" for u using delete_unreferenced [OF inv pc, of "retired ! k" u] ok mem i ret by auto
  have dist: "distinct (map rn_node retired)" using D(3) ret unfolding slots_ok_def by blast
  note rm = remove_nth [OF dist lt]
  have hk: "holds (mq_threads s t) = Some i" using holds_owned [OF D(5), of t] pc i by simp
  have others: "?x \<notin> retired_of s j" if "j \<noteq> i" for j using D(3) x that unfolding slots_ok_def by blast
  have rs: "retired_of ?s j = retired_of s j - {?x}" for j
    using rm(1) ret others [of j] by (cases "j = i") (auto simp: retired_of_def)
  have sub: "set (es_retired (mq_slots ?s j)) \<subseteq> set (es_retired (mq_slots s j))" for j using rm(3) ret by simp
  have nv: "next_of ?s z = next_of s z" "value_of ?s z = value_of s z" if "z \<noteq> ?x" for z using that by (simp_all add: next_of_def value_of_def)
  have th: "mq_threads ?s = mq_threads s" by simp
  have alloc: "mq_nodes ?s z \<noteq> None \<longleftrightarrow> z \<noteq> ?x \<and> mq_nodes s z \<noteq> None" for z by simp
  have xo: "?x \<notin> set (mq_chain s)" "?x \<notin> fresh (mq_pc_of s u)" "?x \<notin> popped (mq_pc_of s u)" for u using heap_okD [OF D(2)] x by blast+
  have inchain: "next_of ?s z = next_of s z" "value_of ?s z = value_of s z" if "z \<in> set (mq_chain s)" for z using nv xo(1) that by metis+
  have np: "next_of ?s z = next_of s z" if "z \<in> popped (mq_pc_of s u)" for z u using nv(1) xo(3) that by metis
  have chain: "chain_ok ?s"
    by (rule chain_ok_frame [OF D(1)]) (use D(1) inchain in \<open>auto simp: chain_ok_def dest: in_set_tlD\<close>)
  have h: "heap_ok ?s"
    by (rule heap_okI [where t = t], unfold alloc rs th alloc_iff [OF D(2), where t = t])
      (use heap_okD [OF D(2)] xo np nv(1) in auto)
  have slots: "slots_ok ?s"
    unfolding slots_ok_def rs
  proof (intro conjI allI impI)
    show "(retired_of s j - {?x}) \<inter> (retired_of s j' - {?x}) = {}" if "j \<noteq> j'" for j j' using D(3) that unfolding slots_ok_def by blast
  qed (use D(3) rm(2) ret in \<open>auto simp: slots_ok_def split: if_splits\<close>)
  have p: "prot ?s u z" if "prot s u z" "z \<noteq> ?x" for u z using that sub unfolding prot_def th alloc by fastforce
  have st: "steady t s ?s"
    unfolding steady_def
  proof (intro conjI allI impI ballI)
    fix u z assume u: "u \<noteq> t"
    show "mq_slots ?s j = mq_slots s j" if "holds (mq_threads s u) = Some j" for j using D(6) [of t u] u that hk by (auto simp: apart_def)
    show "prot ?s u z" if "z \<in> refs (mq_pc_of s u)" "prot s u z" using p nref that by metis
    show "next_of ?s z = next_of s z" if "z \<in> refs (mq_pc_of s u)" using nv(1) nref that by metis
    show "value_of ?s z = value_of s z" if "z \<in> taking (mq_pc_of s u)" using nv(2) nref taking_refs that by (metis subsetD)
    show "mq_nodes ?s z = mq_nodes s z" if "z \<in> fresh (mq_pc_of s u)" using xo(2) that by auto
  qed (simp_all add: at_head_def)
  have r: "result_ok ?s = result_ok s" by (rule result_ok_frame) simp_all
  have "thread_ok ?s t" using D(5) [of t] pc r by (auto simp: thread_ok_def split: option.splits)
  moreover have "log_ok ?s" using D(4) r unfolding log_ok_def by simp
  moreover have "apart (mq_threads ?s t) (mq_threads s u) \<and> scan_ok ?s t u \<and> scan_ok ?s u t" if "u \<noteq> t" for u
    using that D(6) [of t u] D(7) [of t u] pc sub [of i] i unfolding scan_ok_def by auto
  ultimately show "mq_inv ?s" using mq_inv_step [OF inv st chain h slots] by blast
qed

end
