(* ===== verification/Mpmc_Safety.thy ===== *)
theory Mpmc_Safety
  imports Mpmc_Steps
begin

text \<open>
  The case distinction over all steps of the interleaved queue, and what follows for schedules: no step accesses freed memory, and the
  results are those of a queue. The forced collection in the release of a token is the exception: it is safe only while no
  other thread is inside an operation, and a schedule shows that it is not otherwise.
\<close>

section \<open>Program points\<close>

lemma mq_inv_goto:
  assumes inv: "mq_inv s" and pc: "mq_pc_of s t = pc" and held: "holds ((mq_threads s t)\<lparr>th_pc := pc'\<rparr>) = holds (mq_threads s t)"
    and sets: "fresh pc' = fresh pc" "popped pc' = popped pc" "taking pc' \<subseteq> taking pc" "tickets pc' \<subseteq> tickets pc"
      "refs pc' \<subseteq> refs pc \<union> set (mq_chain s)"
    and ok: "pc_ok s pc'" "inside pc' \<Longrightarrow> inside pc" "pc' \<noteq> Idle \<Longrightarrow> acquiring pc' \<longleftrightarrow> \<not> tk_owned (th_token (mq_threads s t))"
    and rel: "released pc' (mq_slots s (mq_slot_of s t))"
    and scan: "\<And>u. u \<noteq> t \<Longrightarrow> scan_bound pc' \<noteq> None \<Longrightarrow> scan_ok (goto t pc' s) t u"
  shows "mq_inv (goto t pc' s)" "scan_bound pc' = None \<Longrightarrow> mq_inv (retry t pc' s)"
    "scan_bound pc' = None \<Longrightarrow> mq_inv (goto t pc' (s\<lparr>mq_size := z\<rparr>))"
proof -
  note sets' = sets [folded pc]
  show "mq_inv (goto t pc' s)"
    by (rule mq_inv_local [OF inv, where th = "(mq_threads s t)\<lparr>th_pc := pc'\<rparr>" and t = t])
      (use held sets' ok rel pc scan in \<open>auto simp: same_list_def\<close>)
  assume b: "scan_bound pc' = None"
  have held': "holds ((mq_threads s t)\<lparr>th_pc := pc', th_backoff := b\<rparr>) = holds (mq_threads s t)" for b
    unfolding held [symmetric] by (cases pc') (simp_all add: holds_def)
  show "mq_inv (retry t pc' s)"
    by (rule mq_inv_local [OF inv, where t = t and th = "(mq_threads s t)\<lparr>th_pc := pc', th_backoff := snd (bk_pause (th_backoff (mq_threads s t)))\<rparr>"])
      (use held' sets' ok rel pc b in \<open>auto simp: same_list_def retry_def\<close>)
  show "mq_inv (goto t pc' (s\<lparr>mq_size := z\<rparr>))"
    by (rule mq_inv_local [OF inv, where th = "(mq_threads s t)\<lparr>th_pc := pc'\<rparr>" and t = t])
      (use held sets' ok rel pc b in \<open>auto simp: same_list_def\<close>)
qed

text \<open>A thread changes its own slot, outside of the list and without references.\<close>

lemma mq_inv_own_slot:
  fixes th :: "'a mq_thread"
  assumes inv: "mq_inv s" and i: "holds (mq_threads s t) = Some i" "holds th = Some i" and list: "same_list s s'"
    and threads: "mq_threads s' = (mq_threads s)(t := th)" and slots: "mq_slots s' = (mq_slots s)(i := slot)"
    and slot: "es_retired slot = es_retired (mq_slots s i)" "es_occupied slot" "es_epoch slot \<le> mq_global_epoch s"
    and rest: "mq_global_epoch s' = mq_global_epoch s" "log_ok s'"
    and pcs: "fresh (th_pc th) = fresh (mq_pc_of s t)" "popped (th_pc th) = popped (mq_pc_of s t)" "taking (th_pc th) = {}"
      "tickets (th_pc th) \<subseteq> tickets (mq_pc_of s t)" "refs (th_pc th) = {}" "scan_bound (th_pc th) = None"
    and ok: "pc_ok s' (th_pc th)" "inside (th_pc th) \<Longrightarrow> tk_slot (th_token th) = i \<and> es_active slot"
      "th_pc th \<noteq> Idle \<Longrightarrow> acquiring (th_pc th) \<longleftrightarrow> \<not> tk_owned (th_token th)"
      "released (th_pc th) (mq_slots s' (tk_slot (th_token th)))"
  shows "mq_inv s'"
proof -
  note D = mq_invD [OF inv]
  have free: "i < mq_max_threads s" "\<And>u. u \<noteq> t \<Longrightarrow> holds (mq_threads s u) \<noteq> Some i"
    using D(5) [of t] D(6) [of t] i(1) by (auto simp: thread_ok_def apart_def)
  have sl: "slots_ok s'" using D(3) slot free(1) list unfolding slots_ok_def retired_of_def slots rest(1) same_list_def by auto
  show ?thesis
    by (rule mq_inv_quiet [OF inv list threads])
      (use free sl slot rest pcs ok i(2) in \<open>auto simp: slots scan_ok_def threads\<close>)
qed

lemma log_ok_frame:
  assumes "log_ok s" "mq_log s' = mq_log s" "mq_pops s' = mq_pops s" "mq_pushed s' = mq_pushed s" "\<And>u. tickets (mq_pc_of s' u) \<subseteq> tickets (mq_pc_of s u)"
  shows "log_ok s'"
  using assms(1,5) unfolding log_ok_def assms(2) result_ok_frame [OF assms(3,4)] by blast

text \<open>The scan passes a slot.\<close>

lemma scan_ok_next:
  assumes inv: "mq_inv s" and pc: "scan_bound (mq_pc_of s t) = Some (Some i, m)" and pc': "scan_bound pc' = Some (j, m')" "m' \<le> m"
    and j: "\<And>k. j = Some k \<Longrightarrow> k \<le> Suc i" "j = None \<Longrightarrow> mq_max_threads s \<le> i"
    and slot: "\<And>u r. u \<noteq> t \<Longrightarrow> mq_slot_of s u = i \<Longrightarrow> j \<noteq> Some i \<Longrightarrow> r \<in> set (es_retired (mq_slots s (mq_slot_of s t))) \<Longrightarrow> rn_node r \<in> refs (mq_pc_of s u) \<Longrightarrow>
      m' \<le> rn_retire_epoch r"
    and u: "u \<noteq> t"
  shows "scan_ok (goto t pc' s) t u"
proof -
  note D = mq_invD [OF inv]
  have "m' \<le> rn_retire_epoch r" if jb: "\<And>k. j = Some k \<Longrightarrow> mq_slot_of s u < k" and r: "r \<in> set (es_retired (mq_slots s (mq_slot_of s t)))" "rn_node r \<in> refs (mq_pc_of s u)" for r
  proof (cases "mq_slot_of s u < i")
    case True
    then have "m \<le> rn_retire_epoch r" using D(7) [of t u] u pc r by (auto simp: scan_ok_def)
    then show ?thesis using pc'(2) by (rule order.trans [rotated])
  next
    case False
    have "mq_slot_of s u < mq_max_threads s" using D(5) [of u] inside_owned(1) [OF D(5) refs_inside [OF r(2)]] by (simp add: thread_ok_def)
    then have "mq_slot_of s u = i" "j \<noteq> Some i" using False j jb by (cases j; force)+
    then show ?thesis using slot [OF u] r by blast
  qed
  then show ?thesis using pc'(1) u by (auto simp: scan_ok_def)
qed

text \<open>A protected node at the end of a list is the last one of the queue.\<close>

lemma null_next_last:
  assumes "mq_inv s" "prot s t x" "next_of s x = None"
  shows "x \<in> set (mq_chain s)" "x = last (mq_chain s)"
proof -
  note D = mq_invD [OF assms(1)]
  show "x \<in> set (mq_chain s)" using assms(2,3) alloc_iff [OF D(2), of x t] heap_okD [OF D(2)] unfolding prot_def by blast
  then show "x = last (mq_chain s)" using linked_end assms(3) D(1) by (auto simp: chain_ok_def)
qed


section \<open>Slot steps\<close>

lemma acquire_steps:
  assumes inv: "mq_inv s"
  shows "mq_pc_of s t = AcqCas op i \<Longrightarrow> mq_inv (acquire_cas t op i s)"
    and "mq_pc_of s t = AcqLoad op i \<Longrightarrow> mq_inv (acquire_load t op i s)"
    and "mq_pc_of s t = AcqStore op i e \<Longrightarrow> mq_inv (acquire_store t op i e s)"
proof -
  note D = mq_invD [OF inv]
  {
    assume pc: "mq_pc_of s t = AcqCas op i"
    have own: "\<not> tk_owned (th_token (mq_threads s t))" using D(5) [of t] pc by (simp add: thread_ok_def)
    let ?claim = "goto t (AcqLoad op i) (set_slot i (\<lambda>slot. slot\<lparr>es_occupied := True, es_retired := []\<rparr>) s)"
    let ?fail = "goto t Idle (s\<lparr>mq_log := mq_log s @ [RThrew]\<rparr>)"
    have "mq_inv ?claim" if i: "i < mq_max_threads s" "\<not> es_occupied (mq_slots s i)"
    proof -
      have r: "es_retired (mq_slots s i) = []" "\<not> es_active (mq_slots s i)" using D(3) i(2) unfolding slots_ok_def by blast+
      have h: "holds (mq_threads s u) \<noteq> Some i" for u using D(5) [of u] i(2) by (auto simp: thread_ok_def)
      have sl: "slots_ok ?claim" using D(3) r i(1) unfolding slots_ok_def retired_of_def by auto
      have lg: "log_ok ?claim" by (rule log_ok_frame [OF D(4)]) (use pc in auto)
      show ?thesis
        by (rule mq_inv_quiet [OF inv, where t = t and th = "(mq_threads s t)\<lparr>th_pc := AcqLoad op i\<rparr>"])
          (use pc own i r h sl lg in \<open>auto simp: same_list_def holds_def scan_ok_def\<close>)
    qed
    moreover have "mq_inv (goto t (AcqCas op (Suc i)) s)"
      by (rule mq_inv_goto(1) [OF inv pc]) (use pc own in \<open>auto simp: holds_def\<close>)
    moreover have "mq_inv ?fail"
    proof -
      have lg: "log_ok ?fail" using D(4) pc result_ok_frame [of ?fail s] unfolding log_ok_def by auto
      have sl: "slots_ok ?fail" using D(3) by (simp add: slots_ok_def retired_of_def)
      show ?thesis
        by (rule mq_inv_quiet [OF inv, where t = t and th = "(mq_threads s t)\<lparr>th_pc := Idle\<rparr>"])
          (use pc own sl lg in \<open>auto simp: same_list_def holds_def scan_ok_def\<close>)
    qed
    ultimately show "mq_inv (acquire_cas t op i s)" unfolding acquire_cas_def by simp
  next
    assume pc: "mq_pc_of s t = AcqLoad op i"
    show "mq_inv (acquire_load t op i s)" unfolding acquire_load_def
      by (rule mq_inv_goto(1) [OF inv pc]) (use pc D(5) [of t] in \<open>auto simp: thread_ok_def holds_def\<close>)
  next
    assume pc: "mq_pc_of s t = AcqStore op i e"
    have h: "holds (mq_threads s t) = Some i" using pc by (simp add: holds_def)
    have ok: "e \<le> mq_global_epoch s" "es_occupied (mq_slots s i)" using D(5) [of t] pc h by (auto simp: thread_ok_def)
    have lg: "log_ok (acquire_store t op i e s)" by (rule log_ok_frame [OF D(4)]) (use pc in \<open>auto simp: acquire_store_def set_token_def\<close>)
    show "mq_inv (acquire_store t op i e s)"
      by (rule mq_inv_own_slot [OF inv h, where slot = "(mq_slots s i)\<lparr>es_epoch := e\<rparr>" and
            th = "(mq_threads s t)\<lparr>th_pc := EnterLoad op, th_token := \<lparr>tk_owned = True, tk_slot = i\<rparr>\<rparr>"])
        (use pc ok lg in \<open>auto simp: same_list_def holds_def acquire_store_def set_token_def\<close>)
  }
qed

lemma enter_steps:
  assumes inv: "mq_inv s"
  shows "mq_pc_of s t = EnterLoad op \<Longrightarrow> mq_inv (enter_load t op s)"
    and "mq_pc_of s t = EnterStore op e \<Longrightarrow> mq_inv (enter_store t op e s)"
    and "mq_pc_of s t = EnterActive op \<Longrightarrow> mq_inv (enter_active t op s)"
    and "mq_pc_of s t = Leave r \<Longrightarrow> mq_inv (leave_critical t r s)"
proof -
  note D = mq_invD [OF inv]
  have own: "holds (mq_threads s t) = Some (mq_slot_of s t)" "es_occupied (mq_slots s (mq_slot_of s t))" "tk_owned (th_token (mq_threads s t))"
    if "mq_pc_of s t \<noteq> Idle" "\<not> acquiring (mq_pc_of s t)" using holds_owned [OF D(5), of t] that D(5) [of t] by (auto simp: thread_ok_def)
  have ep: "es_epoch (mq_slots s i) \<le> mq_global_epoch s" for i using D(3) by (simp add: slots_ok_def)
  {
    assume pc: "mq_pc_of s t = EnterLoad op"
    show "mq_inv (enter_load t op s)" unfolding enter_load_def
      by (rule mq_inv_goto(1) [OF inv pc]) (use pc own in \<open>auto simp: holds_def\<close>)
  next
    assume pc: "mq_pc_of s t = EnterStore op e"
    have e: "e \<le> mq_global_epoch s" using D(5) [of t] pc by (auto simp: thread_ok_def)
    have lg: "log_ok (enter_store t op e s)" by (rule log_ok_frame [OF D(4)]) (use pc in \<open>auto simp: enter_store_def\<close>)
    show "mq_inv (enter_store t op e s)"
      by (rule mq_inv_own_slot [OF inv, where t = t and i = "mq_slot_of s t" and slot = "(mq_slots s (mq_slot_of s t))\<lparr>es_epoch := e\<rparr>" and
            th = "(mq_threads s t)\<lparr>th_pc := EnterActive op\<rparr>"])
        (use pc own e lg in \<open>auto simp: same_list_def holds_def enter_store_def\<close>)
  next
    assume pc: "mq_pc_of s t = EnterActive op"
    have lg: "log_ok (enter_active t op s)"
      by (rule log_ok_frame [OF D(4)]) (use pc in \<open>auto simp: enter_active_def Let_def split: mq_op.splits\<close>)
    show "mq_inv (enter_active t op s)"
      by (rule mq_inv_own_slot [OF inv, where t = t and i = "mq_slot_of s t" and slot = "(mq_slots s (mq_slot_of s t))\<lparr>es_active := True\<rparr>" and
            th = "(mq_threads s t)\<lparr>th_backoff := new_ExponentialBackoff, th_pc := (case op of OpPush v \<Rightarrow> PushNew v | OpPop \<Rightarrow> PopHead)\<rparr>"])
        (use pc own ep lg in \<open>auto simp: same_list_def holds_def enter_active_def Let_def split: mq_op.splits\<close>)
  next
    assume pc: "mq_pc_of s t = Leave r"
    let ?s = "leave_critical t r s"
    have r: "result_ok s r" using D(5) [of t] pc by (simp add: thread_ok_def)
    have tick: "tickets (mq_pc_of s t) = set (result_tickets r)" using pc by simp
    have d: "distinct (result_tickets r)" by (cases r) auto
    have lt: "tickets (mq_pc_of s u) \<inter> set (concat (map result_tickets (mq_log s))) = {}" for u using D(4) by (simp add: log_ok_def)
    have "tickets (mq_pc_of ?s u) \<inter> set (concat (map result_tickets (mq_log s @ [r]))) = {}" for u
      using lt [of u] D(6) [of t u] tick pc unfolding apart_def by (cases "u = t") (auto simp: leave_critical_def)
    then have lg: "log_ok ?s"
      using D(4) r lt [of t] tick d result_ok_frame [of ?s s] unfolding log_ok_def by (auto simp: leave_critical_def)
    show "mq_inv ?s"
      by (rule mq_inv_own_slot [OF inv, where t = t and i = "mq_slot_of s t" and slot = "(mq_slots s (mq_slot_of s t))\<lparr>es_active := False\<rparr>" and
            th = "(mq_threads s t)\<lparr>th_pc := Idle\<rparr>"])
        (use pc own ep lg in \<open>auto simp: same_list_def holds_def leave_critical_def\<close>)
  }
qed

lemma unregister_steps:
  assumes inv: "mq_inv s"
  shows "mq_pc_of s t = RelActive \<Longrightarrow> mq_inv (unregister_active t s)"
    and "mq_pc_of s t = RelOccupied \<Longrightarrow> mq_inv (unregister_occupied t s)"
proof -
  note D = mq_invD [OF inv]
  let ?i = "mq_slot_of s t"
  have ep: "es_epoch (mq_slots s i) \<le> mq_global_epoch s" for i using D(3) by (simp add: slots_ok_def)
  {
    assume pc: "mq_pc_of s t = RelActive"
    have own: "tk_owned (th_token (mq_threads s t))" "holds (mq_threads s t) = Some ?i" "es_occupied (mq_slots s ?i)" "es_retired (mq_slots s ?i) = []"
      using D(5) [of t] holds_owned [OF D(5), of t] pc by (auto simp: thread_ok_def)
    have lg: "log_ok (unregister_active t s)" by (rule log_ok_frame [OF D(4)]) (use pc in \<open>auto simp: unregister_active_def\<close>)
    show "mq_inv (unregister_active t s)"
      by (rule mq_inv_own_slot [OF inv own(2), where slot = "(mq_slots s ?i)\<lparr>es_active := False\<rparr>" and th = "(mq_threads s t)\<lparr>th_pc := RelOccupied\<rparr>"])
        (use pc own ep lg in \<open>auto simp: same_list_def holds_def unregister_active_def\<close>)
  next
    assume pc: "mq_pc_of s t = RelOccupied"
    let ?s = "unregister_occupied t s"
    have own: "holds (mq_threads s t) = Some ?i" "es_retired (mq_slots s ?i) = []" "\<not> es_active (mq_slots s ?i)"
      using D(5) [of t] holds_owned [OF D(5), of t] pc by (auto simp: thread_ok_def)
    have others: "holds (mq_threads s u) \<noteq> Some ?i" if "u \<noteq> t" for u using D(6) [of t u] that own(1) by (simp add: apart_def)
    have lg: "log_ok ?s" by (rule log_ok_frame [OF D(4)]) (use pc in \<open>auto simp: unregister_occupied_def set_token_def\<close>)
    have sl: "slots_ok ?s" using D(3) own(2,3) unfolding slots_ok_def retired_of_def by (auto simp: unregister_occupied_def set_token_def)
    show "mq_inv ?s"
      by (rule mq_inv_quiet [OF inv, where t = t and th = "(mq_threads s t)\<lparr>th_pc := Idle, th_token := (th_token (mq_threads s t))\<lparr>tk_owned := False\<rparr>\<rparr>"])
        (use pc others sl lg in \<open>auto simp: same_list_def holds_def scan_ok_def unregister_occupied_def set_token_def\<close>)
  }
qed


section \<open>Push and pop\<close>

lemma inside_own:
  assumes "mq_inv s" "inside (mq_pc_of s t)"
  shows "tk_owned (th_token (mq_threads s t))" "pc_ok s (mq_pc_of s t)"
  using mq_invD(5) [OF assms(1), of t] assms(2) by (cases "mq_pc_of s t"; auto simp: thread_ok_def)+

lemma ref_node:
  assumes "mq_inv s" "x \<in> refs (mq_pc_of s t)"
  obtains n where "mq_nodes s x = Some n" "next_of s x = nd_next n" "value_of s x = nd_value n"
  using ref_prot [OF assms] that by (auto simp: prot_def next_of_def value_of_def)

lemma push_steps:
  assumes inv: "mq_inv s"
  shows "mq_pc_of s t = PushNew v \<Longrightarrow> mq_inv (push_new t v a s)"
    and "mq_pc_of s t = PushTail v n \<Longrightarrow> mq_inv (push_tail t v n s)"
    and "mq_pc_of s t = PushNext v n x \<Longrightarrow> \<exists>s'. push_next t v n x s = Inr s' \<and> mq_inv s'"
    and "mq_pc_of s t = PushCheck v n x y \<Longrightarrow> mq_inv (push_check t v n x y s)"
    and "mq_pc_of s t = PushLink v n x \<Longrightarrow> \<exists>s'. push_link t v n x w s = Inr s' \<and> mq_inv s'"
    and "mq_pc_of s t = PushSwing n x \<Longrightarrow> mq_inv (push_swing t n x s)"
    and "mq_pc_of s t = PushCount \<Longrightarrow> mq_inv (push_count t s)"
    and "mq_pc_of s t = PushHelp v n x z \<Longrightarrow> mq_inv (push_help t v n x z w s)"
proof -
  note D = mq_invD [OF inv] and own = inside_own [OF inv, of t]
  have tail: "mq_tail s \<in> set (mq_chain s)" using D(1) by (simp add: chain_ok_def)
  show "mq_inv (push_new t v a s)" if pc: "mq_pc_of s t = PushNew v" unfolding push_new_def using mq_inv_new [OF inv pc, of a] inv by simp
  show "mq_inv (push_tail t v n s)" if pc: "mq_pc_of s t = PushTail v n" unfolding push_tail_def
    by (rule mq_inv_goto(1) [OF inv pc]) (use pc own tail in \<open>auto simp: holds_def\<close>)
  show "\<exists>s'. push_next t v n x s = Inr s' \<and> mq_inv s'" if pc: "mq_pc_of s t = PushNext v n x"
  proof -
    obtain nd where nd: "mq_nodes s x = Some nd" "next_of s x = nd_next nd" using ref_node [OF inv, of x t] pc by auto
    have "mq_inv (goto t (PushCheck v n x (nd_next nd)) s)" by (rule mq_inv_goto(1) [OF inv pc]) (use pc own nd in \<open>auto simp: holds_def\<close>)
    then show ?thesis using nd by (simp add: push_next_def with_node_def)
  qed
  show "mq_inv (push_check t v n x y s)" if pc: "mq_pc_of s t = PushCheck v n x y"
  proof -
    have "mq_inv (retry t (PushTail v n) s)" by (rule mq_inv_goto(2) [OF inv pc]) (use pc own in \<open>auto simp: holds_def\<close>)
    moreover have "mq_inv (goto t (PushLink v n x) s)" by (rule mq_inv_goto(1) [OF inv pc]) (use pc own in \<open>auto simp: holds_def\<close>)
    moreover have "mq_inv (goto t (PushHelp v n x z) s)" if "y = Some z" for z
      by (rule mq_inv_goto(1) [OF inv pc]) (use pc own that in \<open>auto simp: holds_def\<close>)
    ultimately show ?thesis by (auto simp: push_check_def split: option.split)
  qed
  show "\<exists>s'. push_link t v n x w s = Inr s' \<and> mq_inv s'" if pc: "mq_pc_of s t = PushLink v n x"
  proof -
    obtain nd where nd: "mq_nodes s x = Some nd" using ref_node [OF inv, of x t] pc by auto
    have "mq_inv (retry t (PushTail v n) s)" by (rule mq_inv_goto(2) [OF inv pc]) (use pc own in \<open>auto simp: holds_def\<close>)
    then show ?thesis using mq_inv_link [OF inv pc nd] nd by (simp add: push_link_def with_node_def)
  qed
  show "mq_inv (push_swing t n x s)" if pc: "mq_pc_of s t = PushSwing n x"
  proof -
    have "next_of s x = Some n" using own(2) pc by simp
    then have s: "mq_inv (if mq_tail s = x then s\<lparr>mq_tail := n\<rparr> else s)" (is "mq_inv ?s") using mq_inv_tail [OF inv] inv by simp
    have pc': "mq_pc_of ?s t = PushSwing n x" using pc by simp
    show ?thesis unfolding push_swing_def
      by (rule mq_inv_goto(1) [OF s pc']) (use pc own(1) in \<open>auto simp: holds_def\<close>)
  qed
  show "mq_inv (push_count t s)" if pc: "mq_pc_of s t = PushCount" unfolding push_count_def
    by (rule mq_inv_goto(3) [OF inv pc]) (use pc own in \<open>auto simp: holds_def\<close>)
  show "mq_inv (push_help t v n x z w s)" if pc: "mq_pc_of s t = PushHelp v n x z"
  proof -
    have nx: "next_of s x = Some z" "fresh_node s n v" using own(2) pc by simp_all
    then have s: "mq_inv (if mq_tail s = x \<and> \<not> w then s\<lparr>mq_tail := z\<rparr> else s)" (is "mq_inv ?s") using mq_inv_tail [OF inv] inv by simp
    have pc': "mq_pc_of ?s t = PushHelp v n x z" using pc by simp
    show ?thesis unfolding push_help_def
      by (rule mq_inv_goto(2) [OF s pc']) (use pc own(1) nx in \<open>auto simp: holds_def fresh_node_def\<close>)
  qed
qed

lemma pop_steps:
  assumes inv: "mq_inv s"
  shows "mq_pc_of s t = PopHead \<Longrightarrow> mq_inv (pop_head t s)"
    and "mq_pc_of s t = PopTail h \<Longrightarrow> mq_inv (pop_tail t h s)"
    and "mq_pc_of s t = PopNext h x \<Longrightarrow> \<exists>s'. pop_next t h x s = Inr s' \<and> mq_inv s'"
    and "mq_pc_of s t = PopCheck h x y b \<Longrightarrow> mq_inv (pop_check t h x y b s)"
    and "mq_pc_of s t = PopHelp h z \<Longrightarrow> mq_inv (pop_help t h z w s)"
    and "mq_pc_of s t = PopCas h z \<Longrightarrow> mq_inv (pop_cas t h z w s)"
    and "mq_pc_of s t = PopTake h z i \<Longrightarrow> \<exists>s'. pop_take t h z i s = Inr s' \<and> mq_inv s'"
    and "mq_pc_of s t = PopReset h z i v \<Longrightarrow> \<exists>s'. pop_reset t h z i v s = Inr s' \<and> mq_inv s'"
    and "mq_pc_of s t = PopCount h i v \<Longrightarrow> mq_inv (pop_count t h i v s)"
proof -
  note D = mq_invD [OF inv] and own = inside_own [OF inv, of t]
  have c: "mq_head s \<in> set (mq_chain s)" "hd (mq_chain s) = mq_head s" "distinct (mq_chain s)" "mq_chain s \<noteq> []"
    using D(1) unfolding chain_ok_def by (metis list.set_sel(1), blast+)
  show "mq_inv (pop_head t s)" if pc: "mq_pc_of s t = PopHead" unfolding pop_head_def
    by (rule mq_inv_goto(1) [OF inv pc]) (use pc own c in \<open>auto simp: holds_def at_head_def\<close>)
  show "mq_inv (pop_tail t h s)" if pc: "mq_pc_of s t = PopTail h" unfolding pop_tail_def
    by (rule mq_inv_goto(1) [OF inv pc]) (use pc own in \<open>auto simp: holds_def\<close>)
  show "\<exists>s'. pop_next t h x s = Inr s' \<and> mq_inv s'" if pc: "mq_pc_of s t = PopNext h x"
  proof -
    obtain nd where nd: "mq_nodes s h = Some nd" "next_of s h = nd_next nd" using ref_node [OF inv, of h t] pc by auto
    have "tl (mq_chain s) = []" if n: "next_of s h = None"
    proof -
      note l = null_next_last [OF inv ref_prot [OF inv, of h t] n]
      have "h = hd (mq_chain s)" "h = last (mq_chain s)" using l own(2) pc c by (auto simp: at_head_def)
      then show ?thesis using c(3,4) by (cases "mq_chain s") (auto split: if_splits)
    qed
    then have "mq_inv (goto t (PopCheck h x (nd_next nd) (tl (mq_chain s) = [])) s)"
      using nd by (intro mq_inv_goto(1) [OF inv pc]) (use pc own in \<open>auto simp: holds_def split: option.split\<close>)
    then show ?thesis using nd by (simp add: pop_next_def with_node_def)
  qed
  show "mq_inv (pop_check t h x y b s)" if pc: "mq_pc_of s t = PopCheck h x y b"
  proof -
    have "mq_inv (retry t PopHead s)" by (rule mq_inv_goto(2) [OF inv pc]) (use pc own in \<open>auto simp: holds_def\<close>)
    moreover have "mq_inv (goto t (Leave (REmpty b)) s)" if "y = None"
      by (rule mq_inv_goto(1) [OF inv pc]) (use pc own that in \<open>auto simp: holds_def\<close>)
    moreover have "mq_inv (goto t (PopHelp h z) s)" if "y = Some z" for z
      by (rule mq_inv_goto(1) [OF inv pc]) (use pc own that in \<open>auto simp: holds_def\<close>)
    moreover have "mq_inv (goto t (PopCas h z) s)" if "y = Some z" "h \<noteq> x" for z
      by (rule mq_inv_goto(1) [OF inv pc]) (use pc own that in \<open>auto simp: holds_def\<close>)
    ultimately show ?thesis by (auto simp: pop_check_def split: option.split)
  qed
  show "mq_inv (pop_help t h z w s)" if pc: "mq_pc_of s t = PopHelp h z"
  proof -
    have "next_of s h = Some z" using own(2) pc by simp
    then have s: "mq_inv (if mq_tail s = h \<and> \<not> w then s\<lparr>mq_tail := z\<rparr> else s)" (is "mq_inv ?s") using mq_inv_tail [OF inv] inv by simp
    have pc': "mq_pc_of ?s t = PopHelp h z" using pc by simp
    show ?thesis unfolding pop_help_def
      by (rule mq_inv_goto(2) [OF s pc']) (use pc own(1) in \<open>auto simp: holds_def\<close>)
  qed
  show "mq_inv (pop_cas t h z w s)" if pc: "mq_pc_of s t = PopCas h z"
  proof -
    have "mq_inv (retry t PopHead s)" by (rule mq_inv_goto(2) [OF inv pc]) (use pc own in \<open>auto simp: holds_def\<close>)
    then show ?thesis using mq_inv_unlink [OF inv pc] by (simp add: pop_cas_def)
  qed
  show "\<exists>s'. pop_take t h z i s = Inr s' \<and> mq_inv s'" if pc: "mq_pc_of s t = PopTake h z i"
  proof -
    obtain nd where nd: "mq_nodes s z = Some nd" "value_of s z = nd_value nd" using ref_node [OF inv, of z t] pc by auto
    have "mq_inv (goto t (PopReset h z i (nd_value nd)) s)" by (rule mq_inv_goto(1) [OF inv pc]) (use pc own nd in \<open>auto simp: holds_def\<close>)
    then show ?thesis using nd by (simp add: pop_take_def with_node_def)
  qed
  show "\<exists>s'. pop_reset t h z i v s = Inr s' \<and> mq_inv s'" if pc: "mq_pc_of s t = PopReset h z i v"
  proof -
    obtain nd where nd: "mq_nodes s z = Some nd" using ref_node [OF inv, of z t] pc by auto
    have s: "mq_inv (goto t (PopCount h i v) s)" by (rule mq_inv_goto(1) [OF inv pc]) (use pc own in \<open>auto simp: holds_def\<close>)
    have z: "z \<notin> set (tl (mq_chain s))" "\<And>u. z \<notin> fresh (mq_pc_of s u)" using own(2) pc ref_prot [OF inv, of z t] by (auto simp: prot_def)
    have tk: "z \<notin> taking (mq_pc_of (goto t (PopCount h i v) s) u)" for u
      using D(6) [of t u] pc unfolding apart_def by (cases "u = t") auto
    have "mq_inv ((goto t (PopCount h i v) s)\<lparr>mq_nodes := (mq_nodes (goto t (PopCount h i v) s))(z \<mapsto> nd\<lparr>nd_value := None\<rparr>)\<rparr>)"
      by (rule mq_inv_clear [OF s]) (use nd z tk in auto)
    moreover have "goto t (PopCount h i v) (s\<lparr>mq_nodes := m\<rparr>) = (goto t (PopCount h i v) s)\<lparr>mq_nodes := m\<rparr>" for m by (cases s) (simp add: goto_def)
    ultimately have "mq_inv (goto t (PopCount h i v) (s\<lparr>mq_nodes := (mq_nodes s)(z \<mapsto> nd\<lparr>nd_value := None\<rparr>)\<rparr>))" by (simp only: goto_frame)
    then show ?thesis using nd by (simp add: pop_reset_def with_node_def)
  qed
  show "mq_inv (pop_count t h i v s)" if pc: "mq_pc_of s t = PopCount h i v" unfolding pop_count_def
    by (rule mq_inv_goto(3) [OF inv pc]) (use pc own in \<open>auto simp: holds_def\<close>)
qed


section \<open>Reclamation\<close>

lemma retire_steps:
  assumes inv: "mq_inv s"
  shows "mq_pc_of s t = PopRetire h i v \<Longrightarrow> mq_inv (retire_node t h i v s)"
    and "mq_pc_of s t = PopBump r \<Longrightarrow> mq_global_epoch s \<noteq> - 1 \<Longrightarrow> mq_inv (bump_epoch t r s)"
proof -
  note D = mq_invD [OF inv] and own = inside_own [OF inv, of t]
  show "mq_inv (retire_node t h i v s)" if pc: "mq_pc_of s t = PopRetire h i v"
    unfolding retire_node_def Let_def by (rule mq_inv_retire [OF inv pc refl]) simp
  assume pc: "mq_pc_of s t = PopBump r" and e: "mq_global_epoch s \<noteq> - 1"
  let ?pc = "if es_retired (mq_slots s (mq_slot_of s t)) = [] then Leave r else ScanGlobal r"
  have up: "mq_global_epoch s < mq_global_epoch s + 1" using u64_less_inc [OF order.refl e] .
  have sl: "slots_ok (bump_epoch t r s)"
    using D(3) up unfolding slots_ok_def retired_of_def bump_epoch_def by (auto intro: order.trans [OF _ less_imp_le])
  have lg: "log_ok (bump_epoch t r s)" by (rule log_ok_frame [OF D(4)]) (use pc in \<open>auto simp: bump_epoch_def\<close>)
  have r: "result_ok (bump_epoch t r s) = result_ok s" by (rule result_ok_frame) (simp_all add: bump_epoch_def)
  have h: "holds (mq_threads s t) = Some (mq_slot_of s t)" "es_active (mq_slots s (mq_slot_of s t))" using inside_owned [OF D(5), of t] pc by simp_all
  have hh: "holds ((mq_threads s t)\<lparr>th_pc := ?pc\<rparr>) = Some (mq_slot_of s t)"
    using own pc by (cases "es_retired (mq_slots s (mq_slot_of s t)) = []") (simp_all add: holds_def)
  have free: "mq_slot_of s t < mq_max_threads s" "es_occupied (mq_slots s (mq_slot_of s t))" "\<And>u. u \<noteq> t \<Longrightarrow> holds (mq_threads s u) \<noteq> Some (mq_slot_of s t)"
    using D(5) [of t] D(6) [of t] h(1) by (auto simp: thread_ok_def apart_def)
  show "mq_inv (bump_epoch t r s)"
    by (rule mq_inv_quiet [OF inv, where t = t and th = "(mq_threads s t)\<lparr>th_pc := ?pc\<rparr>"])
      (use pc own up sl lg r h hh free in \<open>auto simp: bump_epoch_def same_list_def scan_ok_def\<close>)
qed

text \<open>A thread with a reference has a slot that is occupied, active, and with an epoch up to the node's.\<close>

lemma ref_slot:
  assumes inv: "mq_inv s" and r: "r \<in> set (es_retired (mq_slots s j))" "rn_node r \<in> refs (mq_pc_of s u)"
  shows "es_occupied (mq_slots s (mq_slot_of s u))" "es_active (mq_slots s (mq_slot_of s u))"
    "es_epoch (mq_slots s (mq_slot_of s u)) \<le> rn_retire_epoch r" "mq_slot_of s u < mq_max_threads s"
proof -
  note own = inside_owned [OF mq_invD(5) [OF inv] refs_inside [OF r(2)]]
  show "es_active (mq_slots s (mq_slot_of s u))" using own(2) .
  show "es_occupied (mq_slots s (mq_slot_of s u))" "mq_slot_of s u < mq_max_threads s"
    using mq_invD(5) [OF inv, of u] own(1) by (simp_all add: thread_ok_def)
  show "es_epoch (mq_slots s (mq_slot_of s u)) \<le> rn_retire_epoch r" using ref_prot [OF inv r(2)] r(1) unfolding prot_def by blast
qed

lemma scan_steps:
  assumes inv: "mq_inv s"
  shows "mq_pc_of s t = ScanGlobal r \<Longrightarrow> mq_inv (scan_global t r s)"
    and "mq_pc_of s t = ScanOccupied i m r \<Longrightarrow> mq_inv (scan_occupied t i m r s)"
    and "mq_pc_of s t = ScanActive i m r \<Longrightarrow> mq_inv (scan_active t i m r s)"
    and "mq_pc_of s t = ScanEpoch i m r \<Longrightarrow> mq_inv (scan_epoch t i m r s)"
proof -
  note D = mq_invD [OF inv] and own = inside_own [OF inv, of t] and ref = ref_slot [OF inv]
  show "mq_inv (scan_global t r s)" if pc: "mq_pc_of s t = ScanGlobal r" unfolding scan_global_def
    by (rule mq_inv_goto(1) [OF inv pc]) (use pc own in \<open>auto simp: holds_def scan_ok_def\<close>)
  show "mq_inv (scan_occupied t i m r s)" if pc: "mq_pc_of s t = ScanOccupied i m r"
  proof -
    let ?pc = "if i < mq_max_threads s then if es_occupied (mq_slots s i) then ScanActive i m r else ScanOccupied (Suc i) m r
      else Collect 0 m False (Some r)"
    have "scan_ok (goto t ?pc s) t u" if "u \<noteq> t" for u
      by (rule scan_ok_next [OF inv, where i = i and m = m and m' = m and
            j = "if i < mq_max_threads s then if es_occupied (mq_slots s i) then Some i else Some (Suc i) else None"])
        (use pc that ref(1,4) in \<open>auto split: if_splits\<close>)
    then show ?thesis unfolding scan_occupied_def
      by (intro mq_inv_goto(1) [OF inv pc]) (use pc own in \<open>auto simp: holds_def\<close>)
  qed
  show "mq_inv (scan_active t i m r s)" if pc: "mq_pc_of s t = ScanActive i m r"
  proof -
    let ?pc = "if es_active (mq_slots s i) then ScanEpoch i m r else ScanOccupied (Suc i) m r"
    have "scan_ok (goto t ?pc s) t u" if "u \<noteq> t" for u
      by (rule scan_ok_next [OF inv, where i = i and m = m and m' = m and j = "if es_active (mq_slots s i) then Some i else Some (Suc i)"])
        (use pc that ref(2) in \<open>auto split: if_splits\<close>)
    then show ?thesis unfolding scan_active_def
      by (intro mq_inv_goto(1) [OF inv pc]) (use pc own in \<open>auto simp: holds_def\<close>)
  qed
  show "mq_inv (scan_epoch t i m r s)" if pc: "mq_pc_of s t = ScanEpoch i m r"
  proof -
    let ?m = "min m (es_epoch (mq_slots s i))"
    have "scan_ok (goto t (ScanOccupied (Suc i) ?m r) s) t u" if "u \<noteq> t" for u
      by (rule scan_ok_next [OF inv, where i = i and m = m and m' = ?m and j = "Some (Suc i)"])
        (use pc that ref(3) in \<open>auto simp: min.coboundedI2\<close>)
    then show ?thesis unfolding scan_epoch_def
      by (intro mq_inv_goto(1) [OF inv pc]) (use pc own in \<open>auto simp: holds_def\<close>)
  qed
qed

lemma collect_steps:
  assumes inv: "mq_inv s" and pc: "mq_pc_of s t = Collect k m f r" and calm: "f \<Longrightarrow> others_inactive t s"
  shows "\<exists>s'. collect_retired t k m f r s = Inr s' \<and> mq_inv s'"
proof -
  note D = mq_invD [OF inv]
  let ?ret = "es_retired (mq_slots s (mq_slot_of s t))"
  have ok: "pc_ok s (Collect k m f r)" "tk_owned (th_token (mq_threads s t))" using D(5) [of t] pc by (auto simp: thread_ok_def)
  consider (delete) "k < length ?ret" "f \<or> rn_retire_epoch (?ret ! k) < m" | (keep) "k < length ?ret" "\<not> f" "\<not> rn_retire_epoch (?ret ! k) < m"
    | (finish) "\<not> k < length ?ret" by blast
  then show ?thesis
  proof cases
    case delete
    then show ?thesis using mq_inv_delete [OF inv pc refl refl delete(1)] calm
      by (auto simp: collect_retired_def with_node_def Let_def)
  next
    case keep
    have "scan_ok (goto t (Collect (Suc k) m f r) s) t u" if "u \<noteq> t" for u using D(7) [of t u] that pc by (auto simp: scan_ok_def)
    then have "mq_inv (goto t (Collect (Suc k) m f r) s)"
      by (intro mq_inv_goto(1) [OF inv pc]) (use pc ok keep in \<open>auto simp: holds_def\<close>)
    then show ?thesis using keep by (simp add: collect_retired_def Let_def)
  next
    case finish
    have "mq_inv (goto t (case r of None \<Rightarrow> RelActive | Some r' \<Rightarrow> Leave r') s)"
      by (rule mq_inv_goto(1) [OF inv pc]) (use pc ok finish in \<open>auto simp: holds_def split: option.splits\<close>)
    then show ?thesis using finish by (simp add: collect_retired_def Let_def)
  qed
qed

section \<open>Schedules\<close>

text \<open>A schedule is calm when no node is deleted by force while another slot is active.\<close>

fun calm :: "'a mq_action \<Rightarrow> 'a MpmcLinkedQueue \<Rightarrow> bool" where
  "calm (Step t address spurious) s = (case mq_pc_of s t of Collect k m f r \<Rightarrow> f \<longrightarrow> others_inactive t s | _ \<Rightarrow> True)"
| "calm _ s = True"

fun calm_run :: "'a mq_action list \<Rightarrow> 'a MpmcLinkedQueue \<Rightarrow> bool" where
  "calm_run [] s = True"
| "calm_run (action # actions) s = (calm action s \<and> (case mq_step action s of Inl e \<Rightarrow> True | Inr s' \<Rightarrow> calm_run actions s'))"

lemma call_steps:
  assumes inv: "mq_inv s"
  shows "mq_inv (mq_call t op s)" "mq_inv (mq_release t s)"
proof -
  note D = mq_invD [OF inv]
  show "mq_inv (mq_call t op s)"
  proof (cases "mq_pc_of s t = Idle")
    case True
    then show ?thesis using mq_inv_goto(1) [OF inv True, where pc' = "if tk_owned (th_token (mq_threads s t)) then EnterLoad op else AcqCas op 0"]
      by (auto simp: mq_call_def holds_def split: if_splits)
  qed (use inv in \<open>simp add: mq_call_def\<close>)
  show "mq_inv (mq_release t s)"
  proof (cases "mq_pc_of s t = Idle \<and> tk_owned (th_token (mq_threads s t))")
    case True
    then have "mq_inv (goto t (Collect 0 (- 1) True None) s)"
      by (intro mq_inv_goto(1) [OF inv conjunct1 [OF True]]) (auto simp: holds_def)
    then show ?thesis using True by (simp add: mq_release_def)
  qed (use inv in \<open>auto simp: mq_release_def\<close>)
qed

lemma thread_step_inv:
  assumes inv: "mq_inv s" and e: "mq_global_epoch s \<noteq> - 1" and calm: "calm (Step t a w) s"
  shows "\<exists>s'. thread_step t a w s = Inr s' \<and> mq_inv s'"
  unfolding thread_step_def
  using acquire_steps [OF inv, of t] enter_steps [OF inv, of t] push_steps [OF inv, of t] pop_steps [OF inv, of t] retire_steps [OF inv, of t]
    scan_steps [OF inv, of t] collect_steps [OF inv, of t] unregister_steps [OF inv, of t] inv e calm
  by (cases "mq_pc_of s t") simp_all


lemma mq_step_inv:
  assumes inv: "mq_inv s" and e: "mq_global_epoch s \<noteq> - 1" and calm: "calm action s"
  shows "\<exists>s'. mq_step action s = Inr s' \<and> mq_inv s'"
  using call_steps [OF inv] thread_step_inv [OF inv e] calm by (cases action) simp_all

lemmas mq_op_defs = acquire_cas_def acquire_load_def acquire_store_def enter_load_def enter_store_def enter_active_def leave_critical_def
  push_new_def push_tail_def push_next_def push_check_def push_link_def push_swing_def push_count_def push_help_def pop_head_def pop_tail_def
  pop_next_def pop_check_def pop_help_def pop_cas_def pop_take_def pop_reset_def pop_count_def retire_node_def bump_epoch_def scan_global_def
  scan_occupied_def scan_active_def scan_epoch_def collect_retired_def unregister_active_def unregister_occupied_def

text \<open>A step raises the epoch by at most one.\<close>

lemma mq_step_epoch:
  assumes "mq_step action s = Inr s'"
  shows "mq_global_epoch s' = mq_global_epoch s \<or> mq_global_epoch s' = mq_global_epoch s + 1"
proof (cases action)
  case (Step t a w)
  then have "thread_step t a w s = Inr s'" using assms by simp
  then show ?thesis unfolding thread_step_def mq_op_defs
    by (cases "mq_pc_of s t") (auto simp: Let_def with_node_def retry_def set_token_def split: if_splits option.splits)
qed (use assms in \<open>auto simp: mq_call_def mq_release_def split: if_splits\<close>)

lemma epoch_below: "unat (e :: u64) + n < 2 ^ 64 - 1 \<Longrightarrow> e \<noteq> - 1"
  by (auto simp: unsigned_minus_1_eq_mask mask_eq_exp_minus_1)

lemma mq_step_epoch_le:
  assumes "mq_step action s = Inr s'" "mq_global_epoch s \<noteq> - 1"
  shows "unat (mq_global_epoch s') \<le> Suc (unat (mq_global_epoch s))"
  using mq_step_epoch [OF assms(1)] u64_unat_inc [OF assms(2)] by auto

lemma mq_run_inv:
  assumes "mq_inv s" "calm_run actions s" "unat (mq_global_epoch s) + length actions < 2 ^ 64 - 1"
  shows "\<exists>s'. mq_run actions s = Inr s' \<and> mq_inv s' \<and> unat (mq_global_epoch s') \<le> unat (mq_global_epoch s) + length actions"
  using assms
proof (induction actions arbitrary: s)
  case (Cons action actions)
  have e: "mq_global_epoch s \<noteq> - 1" using Cons.prems(3) by (rule epoch_below)
  then obtain s1 where s1: "mq_step action s = Inr s1" "mq_inv s1" using mq_step_inv [OF Cons.prems(1)] Cons.prems(2) by auto
  have le: "unat (mq_global_epoch s1) \<le> Suc (unat (mq_global_epoch s))" by (rule mq_step_epoch_le [OF s1(1) e])
  have "\<exists>s'. mq_run actions s1 = Inr s' \<and> mq_inv s' \<and> unat (mq_global_epoch s') \<le> unat (mq_global_epoch s1) + length actions"
    using Cons.IH [OF s1(2)] Cons.prems(2,3) s1(1) le by simp
  then show ?case using s1(1) le by auto
qed simp

text \<open>What a schedule from a new queue leads to.\<close>

lemma new_queue_inv: "mq_inv (new_MpmcLinkedQueue n stub)"
  by (simp add: mq_inv_def chain_ok_def heap_ok_def slots_ok_def log_ok_def thread_ok_def apart_def scan_ok_def holds_def retired_of_def
      new_MpmcLinkedQueue_def next_of_def)

lemma new_run_inv:
  assumes "calm_run actions (new_MpmcLinkedQueue n stub)" "length actions < 2 ^ 64 - 2"
  obtains s where "mq_run actions (new_MpmcLinkedQueue n stub) = Inr s" "mq_inv s" "unat (mq_global_epoch s) \<le> Suc (length actions)"
proof -
  have "mq_global_epoch (new_MpmcLinkedQueue n stub :: 'a MpmcLinkedQueue) = 1" by (simp add: new_MpmcLinkedQueue_def)
  then show thesis using mq_run_inv [OF new_queue_inv assms(1)] assms(2) that by auto
qed

end
