(* ===== verification/Mpmc_Live.thy ===== *)
theory Mpmc_Live
  imports Mpmc_Safety
begin

text \<open>
  Progress: a thread that runs alone finishes its operation, wherever the other threads were stopped. \<open>steps_left\<close> counts the
  steps it needs at most: with stale local variables it goes round its loop once more, a tail that lags behind the end of the list
  costs one round per node, a reclamation three steps per slot and one per retired node.
\<close>

section \<open>The measure\<close>

definition behind :: "nat \<Rightarrow> nat list \<Rightarrow> nat" where
  "behind tail chain = length (dropWhile (\<lambda>x. x \<noteq> tail) chain) - 1"

lemma behind_next:
  assumes "linked nx xs" "distinct xs" "x \<in> set xs" "nx x = Some y"
  shows "behind x xs = Suc (behind y xs)"
  using assms
proof (induction nx xs rule: linked.induct)
  case (3 nx a b zs)
  show ?case
  proof (cases "x = a")
    case True
    then show ?thesis using 3 by (simp add: behind_def)
  next
    case False
    then have "x \<in> set (b # zs)" "behind x (b # zs) = Suc (behind y (b # zs))" using 3 by auto
    moreover have "y \<noteq> a" using linked_next [of nx "b # zs" x y] 3 False by auto
    ultimately show ?thesis using False by (simp add: behind_def)
  qed
qed (auto simp: behind_def)

definition operation_work :: "nat \<Rightarrow> nat \<Rightarrow> nat \<Rightarrow> 'a mq_op \<Rightarrow> nat" where
  "operation_work lag slots retired op = (case op of OpPush v \<Rightarrow> 4 * lag + 8 | OpPop \<Rightarrow> 5 * lag + 3 * slots + retired + 17)"

definition steps_left :: "'a MpmcLinkedQueue \<Rightarrow> nat \<Rightarrow> nat" where
  "steps_left s t =
     (let head = mq_head s; tail = mq_tail s; lag = behind tail (mq_chain s); N = mq_max_threads s;
          R = length (es_retired (mq_slots s (mq_slot_of s t))); K = 3 * N + R + 12
      in case mq_pc_of s t of
           Idle \<Rightarrow> 0
         | AcqCas op i \<Rightarrow> N - i + operation_work lag N 0 op + 6
         | AcqLoad op i \<Rightarrow> operation_work lag N (length (es_retired (mq_slots s i))) op + 5
         | AcqStore op i e \<Rightarrow> operation_work lag N (length (es_retired (mq_slots s i))) op + 4
         | EnterLoad op \<Rightarrow> operation_work lag N R op + 3
         | EnterStore op e \<Rightarrow> operation_work lag N R op + 2
         | EnterActive op \<Rightarrow> operation_work lag N R op + 1
         | PushNew v \<Rightarrow> 4 * lag + 8
         | PushTail v n \<Rightarrow> 4 * lag + 7
         | PushNext v n x \<Rightarrow> if x = tail then 4 * lag + 6 else 4 * lag + 9
         | PushCheck v n x y \<Rightarrow> if x \<noteq> tail then 4 * lag + 8 else if y = next_of s x then 4 * lag + 5 else 4 * lag + 9
         | PushLink v n x \<Rightarrow> if next_of s x = None then 4 else 4 * lag + 8
         | PushHelp v n x y \<Rightarrow> if x = tail then 4 * lag + 4 else 4 * lag + 8
         | PushSwing n x \<Rightarrow> 3
         | PushCount \<Rightarrow> 2
         | PopHead \<Rightarrow> 5 * lag + K + 5
         | PopTail h \<Rightarrow> if h = head then 5 * lag + K + 4 else 5 * lag + K + 8
         | PopNext h x \<Rightarrow> if h \<noteq> head then 5 * lag + K + 7 else if h = x \<and> tail \<noteq> x then 5 * lag + K + 8 else 5 * lag + K + 3
         | PopCheck h x y b \<Rightarrow> if h \<noteq> head then 5 * lag + K + 6 else if y = None then 2
             else if h = x \<and> tail \<noteq> x then 5 * lag + K + 7 else 5 * lag + K + 2
         | PopHelp h y \<Rightarrow> if h = tail then 5 * lag + K + 1 else 5 * lag + K + 6
         | PopCas h y \<Rightarrow> if h = head then K + 1 else 5 * lag + K + 6
         | PopTake h x i \<Rightarrow> K
         | PopReset h x i v \<Rightarrow> K - 1
         | PopCount h i v \<Rightarrow> K - 2
         | PopRetire h i v \<Rightarrow> K - 3
         | PopBump r \<Rightarrow> K - 5
         | ScanGlobal r \<Rightarrow> K - 6
         | ScanOccupied i m r \<Rightarrow> 3 * (N - i) + R + 5
         | ScanActive i m r \<Rightarrow> 3 * (N - Suc i) + R + 7
         | ScanEpoch i m r \<Rightarrow> 3 * (N - Suc i) + R + 6
         | Collect k m f r \<Rightarrow> R - k + 3
         | Leave r \<Rightarrow> 1
         | RelActive \<Rightarrow> 2
         | RelOccupied \<Rightarrow> 1)"

text \<open>A thread in \<open>push\<close> or \<open>try_pop\<close>; one that has not yet allocated its node.\<close>

fun operating :: "'a mq_pc \<Rightarrow> bool" where
  "operating Idle = False"
| "operating (Collect k m f r) = (\<not> f)"
| "operating RelActive = False"
| "operating RelOccupied = False"
| "operating _ = True"

fun needs_node :: "'a mq_pc \<Rightarrow> bool" where
  "needs_node (AcqCas op i) = True"
| "needs_node (AcqLoad op i) = True"
| "needs_node (AcqStore op i e) = True"
| "needs_node (EnterLoad op) = True"
| "needs_node (EnterStore op e) = True"
| "needs_node (EnterActive op) = True"
| "needs_node (PushNew v) = True"
| "needs_node _ = False"

lemma helped:
  assumes "mq_inv s" "next_of s (mq_tail s) = Some y"
  shows "behind (mq_tail s) (mq_chain s) = Suc (behind y (mq_chain s))"
  using mq_invD(1) [OF assms(1)] assms(2) behind_next unfolding chain_ok_def by blast

lemma operating_ok:
  assumes "mq_inv s" "operating (mq_pc_of s t)"
  shows "pc_ok s (mq_pc_of s t)"
  using mq_invD(5) [OF assms(1)] by (simp add: thread_ok_def)

section \<open>One step\<close>

lemmas progress_simps = steps_left_def thread_step_def operation_work_def Let_def goto_def retry_def set_slot_def set_token_def with_node_def

lemma begin_progress:
  assumes "mq_inv s" "needs_node (mq_pc_of s t)" "mq_nodes s a = None" "thread_step t a False s = Inr s'"
  shows "steps_left s' t < steps_left s t"
  using assms(2-4)
  by (cases "mq_pc_of s t")
    (auto simp: progress_simps acquire_cas_def acquire_load_def acquire_store_def enter_load_def enter_store_def enter_active_def push_new_def
      split: if_splits mq_op.splits)

fun pushing :: "'a mq_pc \<Rightarrow> bool" where
  "pushing (PushTail v n) = True"
| "pushing (PushNext v n x) = True"
| "pushing (PushCheck v n x y) = True"
| "pushing (PushLink v n x) = True"
| "pushing (PushHelp v n x y) = True"
| "pushing (PushSwing n x) = True"
| "pushing PushCount = True"
| "pushing _ = False"

lemma push_progress:
  assumes inv: "mq_inv s" and pushing: "pushing (mq_pc_of s t)" and step: "thread_step t a False s = Inr s'"
  shows "steps_left s' t < steps_left s t"
proof -
  have ok: "pc_ok s (mq_pc_of s t)" using mq_invD(5) [OF inv] by (simp add: thread_ok_def)
  show ?thesis
  proof (cases "mq_pc_of s t")
    case (PushHelp v n x y)
    then have s': "s' = push_help t v n x y False s" and "next_of s x = Some y" using ok step by (simp_all add: thread_step_def)
    then show ?thesis using helped [OF inv, of y] PushHelp by (cases "mq_tail s = x") (simp_all add: progress_simps push_help_def)
  next
    case (PushNext v n x)
    then obtain nd where "mq_nodes s x = Some nd" "s' = goto t (PushCheck v n x (nd_next nd)) s"
      using step by (auto simp: thread_step_def push_next_def with_node_def split: option.splits)
    then show ?thesis using PushNext by (auto simp: progress_simps next_of_def)
  next
    case (PushLink v n x)
    then obtain nd where nd: "mq_nodes s x = Some nd" using step by (auto simp: thread_step_def push_link_def with_node_def split: option.splits)
    then have "next_of s x = nd_next nd" by (simp add: next_of_def)
    then show ?thesis using PushLink step nd by (auto simp: progress_simps push_link_def split: if_splits)
  next
    case (PushCheck v n x y)
    then show ?thesis using step ok
      by (cases y) (auto simp: progress_simps push_check_def next_of_def split: if_splits)
  qed (use pushing step in \<open>auto simp: progress_simps push_tail_def push_swing_def push_count_def\<close>)
qed

fun popping :: "'a mq_pc \<Rightarrow> bool" where
  "popping PopHead = True"
| "popping (PopTail h) = True"
| "popping (PopNext h x) = True"
| "popping (PopCheck h x y b) = True"
| "popping (PopHelp h y) = True"
| "popping (PopCas h y) = True"
| "popping (PopTake h x i) = True"
| "popping (PopReset h x i v) = True"
| "popping (PopCount h i v) = True"
| "popping (PopRetire h i v) = True"
| "popping _ = False"

lemma pop_progress:
  assumes inv: "mq_inv s" and popping: "popping (mq_pc_of s t)" and step: "thread_step t a False s = Inr s'"
  shows "steps_left s' t < steps_left s t"
proof -
  have ok: "pc_ok s (mq_pc_of s t)" using mq_invD(5) [OF inv] by (simp add: thread_ok_def)
  show ?thesis
  proof (cases "mq_pc_of s t")
    case (PopHelp h y)
    then have s': "s' = pop_help t h y False s" and "next_of s h = Some y" using ok step by (simp_all add: thread_step_def)
    then show ?thesis using helped [OF inv, of y] PopHelp by (cases "mq_tail s = h") (simp_all add: progress_simps pop_help_def)
  next
    case (PopCheck h x y b)
    then show ?thesis using step by (cases y) (auto simp: progress_simps pop_check_def split: if_splits)
  next
    case (PopNext h x)
    then obtain nd where "mq_nodes s h = Some nd" "s' = goto t (PopCheck h x (nd_next nd) (tl (mq_chain s) = [])) s"
      using step by (auto simp: thread_step_def pop_next_def with_node_def split: option.splits)
    then show ?thesis using PopNext by (simp add: progress_simps)
  next
    case (PopCas h y)
    then show ?thesis using step by (auto simp: progress_simps pop_cas_def split: if_splits)
  qed (use popping step in \<open>auto simp: progress_simps pop_head_def pop_tail_def pop_take_def pop_reset_def pop_count_def retire_node_def
      split: option.splits if_splits\<close>)
qed

lemma end_progress:
  assumes "operating (mq_pc_of s t)" "\<not> needs_node (mq_pc_of s t)" "\<not> pushing (mq_pc_of s t)" "\<not> popping (mq_pc_of s t)"
    "thread_step t a False s = Inr s'"
  shows "steps_left s' t < steps_left s t"
  using assms
  by (cases "mq_pc_of s t")
    (auto simp: progress_simps bump_epoch_def scan_global_def scan_occupied_def scan_active_def scan_epoch_def collect_retired_def leave_critical_def
      split: if_splits option.splits)

lemma step_progress:
  assumes "mq_inv s" "operating (mq_pc_of s t)" "needs_node (mq_pc_of s t) \<Longrightarrow> mq_nodes s a = None" "thread_step t a False s = Inr s'"
  shows "steps_left s' t < steps_left s t"
  using begin_progress push_progress pop_progress end_progress assms by blast

text \<open>A step of an operation stays in it, or is its last one and returns one result. The node is allocated once.\<close>

lemma step_result:
  assumes "mq_inv s" "operating (mq_pc_of s t)" "thread_step t a False s = Inr s'"
  shows "operating (mq_pc_of s' t) \<and> mq_log s' = mq_log s \<or> mq_pc_of s' t = Idle \<and> (\<exists>r. mq_log s' = mq_log s @ [r])"
proof -
  have "pc_ok s (mq_pc_of s t)" using mq_invD(5) [OF assms(1)] by (simp add: thread_ok_def)
  then show ?thesis using assms(2,3) unfolding thread_step_def mq_op_defs
    by (cases "mq_pc_of s t") (auto simp: goto_def retry_def set_slot_def set_token_def with_node_def Let_def split: if_splits option.splits mq_op.splits)
qed

lemma step_needs_node:
  assumes "needs_node (mq_pc_of s' t)" "operating (mq_pc_of s t)" "thread_step t a False s = Inr s'" "needs_node (mq_pc_of s t) \<Longrightarrow> mq_nodes s a = None"
  shows "mq_nodes s' a = None"
  using assms unfolding thread_step_def mq_op_defs
  by (cases "mq_pc_of s t") (auto simp: goto_def retry_def set_slot_def set_token_def with_node_def Let_def split: if_splits option.splits mq_op.splits)

section \<open>A thread that runs alone\<close>

definition solo :: "nat \<Rightarrow> nat \<Rightarrow> nat \<Rightarrow> 'a mq_action list" where
  "solo t n address = replicate n (Step t address False)"

lemma solo_idle: "mq_pc_of s t = Idle \<Longrightarrow> mq_run (solo t n a) s = Inr s"
  unfolding solo_def by (induction n) (simp_all add: thread_step_def)

lemma solo_returns:
  assumes "mq_inv s" "operating (mq_pc_of s t)" "needs_node (mq_pc_of s t) \<Longrightarrow> mq_nodes s a = None" "steps_left s t \<le> n"
    "unat (mq_global_epoch s) + n < 2 ^ 64 - 1"
  shows "\<exists>s' r. mq_run (solo t n a) s = Inr s' \<and> mq_inv s' \<and> mq_pc_of s' t = Idle \<and> mq_log s' = mq_log s @ [r]"
  using assms
proof (induction n arbitrary: s)
  case 0
  have "calm (Step t a False) s" using 0(2) by (cases "mq_pc_of s t") auto
  moreover have "mq_global_epoch s \<noteq> - 1" using 0(5) by (rule epoch_below)
  ultimately obtain s1 where "thread_step t a False s = Inr s1" using thread_step_inv [OF 0(1)] by blast
  then show ?case using step_progress [OF 0(1-3)] 0(4) by simp
next
  case (Suc n)
  have calm: "calm (Step t a False) s" using Suc.prems(2) by (cases "mq_pc_of s t") auto
  have e: "mq_global_epoch s \<noteq> - 1" using Suc.prems(5) by (rule epoch_below)
  obtain s1 where s1: "thread_step t a False s = Inr s1" "mq_inv s1" using thread_step_inv [OF Suc.prems(1) e calm] by blast
  have run: "mq_run (solo t (Suc n) a) s = mq_run (solo t n a) s1" using s1(1) by (simp add: solo_def)
  have "unat (mq_global_epoch s1) \<le> Suc (unat (mq_global_epoch s))"
    using mq_step_epoch_le [of "Step t a False" s s1] s1(1) e by simp
  then have epoch: "unat (mq_global_epoch s1) + n < 2 ^ 64 - 1" using Suc.prems(5) by simp
  have left: "steps_left s1 t \<le> n" using step_progress [OF Suc.prems(1-3) s1(1)] Suc.prems(4) by simp
  consider "operating (mq_pc_of s1 t)" "mq_log s1 = mq_log s" | r where "mq_pc_of s1 t = Idle" "mq_log s1 = mq_log s @ [r]"
    using step_result [OF Suc.prems(1,2) s1(1)] by blast
  then show ?case
  proof cases
    case 1
    have "needs_node (mq_pc_of s1 t) \<Longrightarrow> mq_nodes s1 a = None" using step_needs_node [OF _ Suc.prems(2) s1(1) Suc.prems(3)] .
    then show ?thesis using Suc.IH [OF s1(2) 1(1) _ left epoch] run 1(2) by simp
  next
    case 2
    then show ?thesis using solo_idle [OF 2(1), of n a] run s1(2) by simp
  qed
qed

end
