(* ===== verification/Mpmc_Count.thy ===== *)
theory Mpmc_Count
  imports Mpmc_Live
begin

text \<open>
  Counting: a quantity that every step changes by the change of a weight of the thread's program point is the sum of the weights of all
  threads. This accounts for the pushes and pops in progress, and so for the log and the counter \<open>size_\<close> of a queue at rest.
\<close>

section \<open>Weights\<close>

fun actor :: "'a mq_action \<Rightarrow> nat" where
  "actor (Call t op) = t"
| "actor (Release t) = t"
| "actor (Step t address spurious) = t"

lemma mq_step_others:
  assumes "mq_step action s = Inr s'" "u \<noteq> actor action"
  shows "mq_threads s' u = mq_threads s u"
proof (cases action)
  case (Step t address spurious)
  then show ?thesis using assms
    by (cases "mq_pc_of s t") (auto simp: thread_step_def mq_op_defs goto_def retry_def set_slot_def set_token_def with_node_def Let_def split: if_splits option.splits)
qed (use assms in \<open>auto simp: mq_call_def mq_release_def goto_def split: if_splits\<close>)

lemma mq_run_others:
  assumes "mq_run actions s = Inr s'" "u \<notin> actor ` set actions"
  shows "mq_threads s' u = mq_threads s u"
  using assms
proof (induction actions arbitrary: s)
  case (Cons action actions)
  then obtain s1 where "mq_step action s = Inr s1" "mq_run actions s1 = Inr s'" by (auto split: sum.splits)
  then show ?case using Cons.IH [of s1] mq_step_others [of action s s1 u] Cons.prems(2) by simp
qed simp

definition weighted :: "('a MpmcLinkedQueue \<Rightarrow> 'r :: ab_group_add) \<Rightarrow> ('a mq_pc \<Rightarrow> 'r) \<Rightarrow> bool" where
  "weighted f w \<longleftrightarrow> (\<forall>action s s'. mq_step action s = Inr s' \<longrightarrow>
     f s' - w (mq_pc_of s' (actor action)) = f s - w (mq_pc_of s (actor action)))"

lemma weighted_run:
  assumes "weighted f w" "finite T" "actor ` set actions \<subseteq> T" "mq_run actions s = Inr s'" "f s = (\<Sum>t \<in> T. w (mq_pc_of s t))"
  shows "f s' = (\<Sum>t \<in> T. w (mq_pc_of s' t))"
  using assms(3-5)
proof (induction actions arbitrary: s)
  case (Cons action actions)
  obtain s1 where s1: "mq_step action s = Inr s1" "mq_run actions s1 = Inr s'" using Cons.prems(2) by (auto split: sum.splits)
  let ?t = "actor action"
  have t: "?t \<in> T" using Cons.prems(1) by simp
  have rest: "(\<Sum>t \<in> T - {?t}. w (mq_pc_of s1 t)) = (\<Sum>t \<in> T - {?t}. w (mq_pc_of s t))"
    by (rule sum.cong) (use mq_step_others [OF s1(1)] in auto)
  have "f s1 - w (mq_pc_of s1 ?t) = f s - w (mq_pc_of s ?t)" using assms(1) s1(1) unfolding weighted_def by blast
  then have "f s1 = (\<Sum>t \<in> T. w (mq_pc_of s1 t))"
    using Cons.prems(3) rest sum.remove [OF assms(2) t, of "\<lambda>t. w (mq_pc_of s t)"] sum.remove [OF assms(2) t, of "\<lambda>t. w (mq_pc_of s1 t)"]
    by (simp add: algebra_simps)
  then show ?case using Cons.IH [OF _ s1(2)] Cons.prems(1) by simp
qed simp

lemma weightedI:
  assumes "\<And>t a w' s s'. thread_step t a w' s = Inr s' \<Longrightarrow> f s' - w (mq_pc_of s' t) = f s - w (mq_pc_of s t)"
    and "\<And>t op s. f (mq_call t op s) - w (mq_pc_of (mq_call t op s) t) = f s - w (mq_pc_of s t)"
    and "\<And>t s. f (mq_release t s) - w (mq_pc_of (mq_release t s) t) = f s - w (mq_pc_of s t)"
  shows "weighted f w"
  unfolding weighted_def
proof (intro allI impI)
  fix action :: "'a mq_action" and s s'
  assume "mq_step action s = Inr s'"
  then show "f s' - w (mq_pc_of s' (actor action)) = f s - w (mq_pc_of s (actor action))" using assms by (cases action) auto
qed

section \<open>What is in progress\<close>

fun is_popped :: "'a mq_result \<Rightarrow> bool" where
  "is_popped (RPopped i v) = True"
| "is_popped _ = False"

definition pushes_returned :: "'a MpmcLinkedQueue \<Rightarrow> nat" where
  "pushes_returned s = length (filter (\<lambda>r. r = RPushed) (mq_log s))"

definition pops_returned :: "'a MpmcLinkedQueue \<Rightarrow> nat" where
  "pops_returned s = length (filter is_popped (mq_log s))"

fun push_weight :: "'a mq_pc \<Rightarrow> int" where
  "push_weight (PushSwing n x) = 1"
| "push_weight PushCount = 1"
| "push_weight pc = of_bool (result_of pc = Some RPushed)"

fun pop_weight :: "'a mq_pc \<Rightarrow> int" where
  "pop_weight (PopTake h x i) = 1"
| "pop_weight pc = (case result_of pc of None \<Rightarrow> 0 | Some r \<Rightarrow> of_bool (is_popped r))"

fun size_weight :: "'a mq_pc \<Rightarrow> u64" where
  "size_weight (PushSwing n x) = 1"
| "size_weight PushCount = 1"
| "size_weight (PopTake h x i) = - 1"
| "size_weight (PopReset h x i v) = - 1"
| "size_weight (PopCount h i v) = - 1"
| "size_weight pc = 0"

lemmas weight_simps = thread_step_def mq_op_defs goto_def retry_def set_slot_def set_token_def with_node_def mq_call_def mq_release_def Let_def

lemma push_weighted: "weighted (\<lambda>s. int (length (mq_pushed s)) - int (pushes_returned s)) push_weight"
proof (rule weightedI)
  fix t a w' and s s' :: "'a MpmcLinkedQueue"
  assume "thread_step t a w' s = Inr s'"
  then show "int (length (mq_pushed s')) - int (pushes_returned s') - push_weight (mq_pc_of s' t) =
    int (length (mq_pushed s)) - int (pushes_returned s) - push_weight (mq_pc_of s t)"
    by (cases "mq_pc_of s t") (auto simp: weight_simps pushes_returned_def split: if_splits option.splits mq_op.splits)
qed (auto simp: weight_simps pushes_returned_def)

lemma pop_weighted: "weighted (\<lambda>s. int (mq_pops s) - int (pops_returned s)) pop_weight"
proof (rule weightedI)
  fix t a w' and s s' :: "'a MpmcLinkedQueue"
  assume "thread_step t a w' s = Inr s'"
  then show "int (mq_pops s') - int (pops_returned s') - pop_weight (mq_pc_of s' t) = int (mq_pops s) - int (pops_returned s) - pop_weight (mq_pc_of s t)"
    by (cases "mq_pc_of s t") (auto simp: weight_simps pops_returned_def split: if_splits option.splits mq_op.splits)
qed (auto simp: weight_simps pops_returned_def)

lemma size_weighted: "weighted (\<lambda>s. of_nat (length (mq_pushed s)) - of_nat (mq_pops s) - mq_size s) size_weight"
proof (rule weightedI)
  fix t a w' and s s' :: "'a MpmcLinkedQueue"
  assume "thread_step t a w' s = Inr s'"
  then show "of_nat (length (mq_pushed s')) - of_nat (mq_pops s') - mq_size s' - size_weight (mq_pc_of s' t) =
    of_nat (length (mq_pushed s)) - of_nat (mq_pops s) - mq_size s - size_weight (mq_pc_of s t)"
    by (cases "mq_pc_of s t") (auto simp: weight_simps split: if_splits option.splits mq_op.splits)
qed (auto simp: weight_simps)

section \<open>A queue at rest\<close>

lemma at_rest:
  assumes run: "mq_run actions (new_MpmcLinkedQueue n stub) = Inr s" and idle: "\<And>t. mq_pc_of s t = Idle"
  shows "pushes_returned s = length (mq_pushed s)" "pops_returned s = mq_pops s" "mq_size s = of_nat (length (mq_pushed s)) - of_nat (mq_pops s)"
proof -
  let ?new = "new_MpmcLinkedQueue n stub :: 'a MpmcLinkedQueue"
  have fin: "finite (actor ` set actions)" "actor ` set actions \<subseteq> actor ` set actions" by simp_all
  note run = weighted_run [OF _ fin run]
  have "int (length (mq_pushed s)) - int (pushes_returned s) = 0"
    using run [OF push_weighted] idle by (simp add: new_MpmcLinkedQueue_def pushes_returned_def)
  then show "pushes_returned s = length (mq_pushed s)" by simp
  have "int (mq_pops s) - int (pops_returned s) = 0"
    using run [OF pop_weighted] idle by (simp add: new_MpmcLinkedQueue_def pops_returned_def)
  then show "pops_returned s = mq_pops s" by simp
  have "of_nat (length (mq_pushed s)) - of_nat (mq_pops s) - mq_size s = 0"
    using run [OF size_weighted] idle by (simp add: new_MpmcLinkedQueue_def)
  then show "mq_size s = of_nat (length (mq_pushed s)) - of_nat (mq_pops s)" by simp
qed

lemma pushed_length: "mq_run actions s = Inr s' \<Longrightarrow> length (mq_pushed s') \<le> length (mq_pushed s) + length actions"
proof (induction actions arbitrary: s)
  case (Cons action actions)
  then obtain s1 where s1: "mq_step action s = Inr s1" "mq_run actions s1 = Inr s'" by (auto split: sum.splits)
  have "length (mq_pushed s1) \<le> Suc (length (mq_pushed s))"
  proof (cases action)
    case (Step t address spurious)
    then show ?thesis using s1(1) by (cases "mq_pc_of s t") (auto simp: weight_simps split: if_splits option.splits)
  qed (use s1(1) in \<open>auto simp: weight_simps\<close>)
  then show ?case using Cons.IH [OF s1(2)] by simp
qed simp

end
