(* ===== verification/Mpmc_Buffer.thy ===== *)
theory Mpmc_Buffer
  imports Mpmc_Count
begin

text \<open>
  The linked queue on a machine with store buffers (x86-TSO). The stores of \<open>enter_critical\<close> and \<open>leave_critical\<close> are release stores, not sequentially
  consistent ones: they may wait in the store buffer of the processor while the thread goes on to load \<open>head_\<close>, \<open>tail_\<close> and nodes.

  The model adds to the state of \<open>Mpmc_Queue\<close> a buffer of pending stores per thread. Stores of a thread reach memory in order, at any later time. A step
  that is neither one of these stores nor a load of the list waits until the buffer of its thread is empty, as a locked instruction does;
  so every run here is one of the machine, with some of its freedom left out.
\<close>

section \<open>Store buffers\<close>

datatype slot_store = SetEpoch u64 | SetActive bool

record 'a buffered =
  bf_queue :: "'a MpmcLinkedQueue"
  bf_pending :: "nat \<Rightarrow> (nat \<times> slot_store) list"

fun apply_store :: "slot_store \<Rightarrow> EpochSlot \<Rightarrow> EpochSlot" where
  "apply_store (SetEpoch epoch) slot = slot\<lparr>es_epoch := epoch\<rparr>"
| "apply_store (SetActive active) slot = slot\<lparr>es_active := active\<rparr>"

text \<open>The release stores to the slot of the thread: the two of \<open>enter_critical\<close> and the one of \<open>leave_critical\<close>.\<close>

fun buffered_store :: "'a mq_pc \<Rightarrow> slot_store option" where
  "buffered_store (EnterStore op epoch) = Some (SetEpoch epoch)"
| "buffered_store (EnterActive op) = Some (SetActive True)"
| "buffered_store (Leave result) = Some (SetActive False)"
| "buffered_store _ = None"

text \<open>The loads of \<open>head_\<close>, \<open>tail_\<close>, \<open>global_epoch_\<close> and of nodes, none of which can be in a buffer.\<close>

fun loads_list :: "'a mq_pc \<Rightarrow> bool" where
  "loads_list (EnterLoad op) = True"
| "loads_list (PushTail v node) = True"
| "loads_list (PushNext v node tail) = True"
| "loads_list (PushCheck v node tail next) = True"
| "loads_list PopHead = True"
| "loads_list (PopTail head) = True"
| "loads_list (PopNext head tail) = True"
| "loads_list (PopCheck head tail next was_empty) = True"
| "loads_list _ = False"

definition buffered_step :: "nat \<Rightarrow> nat \<Rightarrow> bool \<Rightarrow> 'a buffered \<Rightarrow> mq_fault + 'a buffered" where
  "buffered_step t address spurious b =
     (let s = bf_queue b; pc = mq_pc_of s t in
      if buffered_store pc = None \<and> \<not> loads_list pc \<and> bf_pending b t \<noteq> [] then Inr b
      else case thread_step t address spurious s of
             Inl e \<Rightarrow> Inl e
           | Inr s' \<Rightarrow> (case buffered_store pc of
                 None \<Rightarrow> Inr (b\<lparr>bf_queue := s'\<rparr>)
               | Some w \<Rightarrow> Inr (b\<lparr>bf_queue := s'\<lparr>mq_slots := mq_slots s\<rparr>,
                                 bf_pending := (bf_pending b)(t := bf_pending b t @ [(mq_slot_of s t, w)])\<rparr>)))"

definition flush_store :: "nat \<Rightarrow> 'a buffered \<Rightarrow> 'a buffered" where
  "flush_store t b =
     (case bf_pending b t of
        [] \<Rightarrow> b
      | (i, w) # pending \<Rightarrow> b\<lparr>bf_queue := set_slot i (apply_store w) (bf_queue b), bf_pending := (bf_pending b)(t := pending)\<rparr>)"

datatype 'a bf_action = Do "'a mq_action" | Flush nat

fun bf_step :: "'a bf_action \<Rightarrow> 'a buffered \<Rightarrow> mq_fault + 'a buffered" where
  "bf_step (Do (Call t op)) b = Inr (b\<lparr>bf_queue := mq_call t op (bf_queue b)\<rparr>)"
| "bf_step (Do (Release t)) b = Inr (b\<lparr>bf_queue := mq_release t (bf_queue b)\<rparr>)"
| "bf_step (Do (Step t address spurious)) b = buffered_step t address spurious b"
| "bf_step (Flush t) b = Inr (flush_store t b)"

fun bf_run :: "'a bf_action list \<Rightarrow> 'a buffered \<Rightarrow> mq_fault + 'a buffered" where
  "bf_run [] b = Inr b"
| "bf_run (action # actions) b = (case bf_step action b of Inl e \<Rightarrow> Inl e | Inr b' \<Rightarrow> bf_run actions b')"

definition no_pending :: "'a MpmcLinkedQueue \<Rightarrow> 'a buffered" where
  "no_pending s = \<lparr>bf_queue = s, bf_pending = (\<lambda>_. [])\<rparr>"

text \<open>A fence after every step: the run of a queue whose stores are all sequentially consistent.\<close>

fun fenced :: "'a mq_action \<Rightarrow> 'a bf_action list" where
  "fenced (Step t address spurious) = [Do (Step t address spurious), Flush t]"
| "fenced action = [Do action]"

lemma bf_run_append: "bf_run (as @ bs) b = (case bf_run as b of Inl e \<Rightarrow> Inl e | Inr b' \<Rightarrow> bf_run bs b')"
  by (induction as arbitrary: b) (simp_all split: sum.splits)

section \<open>Fences\<close>

lemma storing_step:
  assumes "buffered_store (mq_pc_of s t) = Some w"
  shows "\<exists>s'. thread_step t address spurious s = Inr s' \<and> set_slot (mq_slot_of s t) (apply_store w) (s'\<lparr>mq_slots := mq_slots s\<rparr>) = s'"
  using assms
  by (cases "mq_pc_of s t")
     (auto simp: thread_step_def enter_store_def enter_active_def leave_critical_def goto_def set_slot_def Let_def)

text \<open>A fenced step of a thread without pending stores is a step of the sequentially consistent queue, whatever other threads have pending.\<close>

lemma fenced_step:
  assumes "bf_pending b t = []"
  shows "bf_run (fenced (Step t address spurious)) b =
    (case thread_step t address spurious (bf_queue b) of Inl e \<Rightarrow> Inl e | Inr s' \<Rightarrow> Inr (b\<lparr>bf_queue := s'\<rparr>))"
proof (cases "buffered_store (mq_pc_of (bf_queue b) t)")
  case None
  then show ?thesis using assms by (auto simp: buffered_step_def flush_store_def Let_def split: sum.splits)
next
  case (Some w)
  obtain s' where s': "thread_step t address spurious (bf_queue b) = Inr s'"
    "set_slot (mq_slot_of (bf_queue b) t) (apply_store w) (s'\<lparr>mq_slots := mq_slots (bf_queue b)\<rparr>) = s'"
    using storing_step [OF Some] by blast
  have "(bf_pending b)(t := []) = bf_pending b" using assms by auto
  then show ?thesis using s' Some assms by (simp add: buffered_step_def flush_store_def Let_def)
qed

fun acting :: "'a mq_action \<Rightarrow> nat" where
  "acting (Call t op) = t"
| "acting (Release t) = t"
| "acting (Step t address spurious) = t"

lemma fenced_run:
  assumes "\<forall>a \<in> set actions. bf_pending b (acting a) = []"
  shows "bf_run (concat (map fenced actions)) b = (case mq_run actions (bf_queue b) of Inl e \<Rightarrow> Inl e | Inr s' \<Rightarrow> Inr (b\<lparr>bf_queue := s'\<rparr>))"
  using assms
proof (induction actions arbitrary: b)
  case (Cons a actions)
  have step: "bf_run (fenced a) b = (case mq_step a (bf_queue b) of Inl e \<Rightarrow> Inl e | Inr s' \<Rightarrow> Inr (b\<lparr>bf_queue := s'\<rparr>))"
    using Cons.prems fenced_step [of b] by (cases a) simp_all
  show ?case
  proof (cases "mq_step a (bf_queue b)")
    case (Inr s')
    then show ?thesis using step Cons.IH [of "b\<lparr>bf_queue := s'\<rparr>"] Cons.prems by (simp add: bf_run_append split: sum.splits)
  qed (simp add: step bf_run_append)
qed simp

section \<open>Thread 0 while thread 1 is stalled\<close>

lemma mq_run_append: "mq_run (as @ bs) s = (case mq_run as s of Inl e \<Rightarrow> Inl e | Inr s' \<Rightarrow> mq_run bs s')"
  by (induction as arbitrary: s) (simp_all split: sum.splits)

lemma solo_add: "solo t (m + n) address = solo t m address @ solo t n address"
  by (simp add: solo_def replicate_add)

text \<open>Thread 1 has loaded \<open>head_\<close>, its two stores are still in its buffer: its slot 0 is not active. Thread 0 has slot 1 and has popped \<open>k\<close> of \<open>k\<close> pushed values.\<close>

definition stalled_state :: "u64 \<Rightarrow> EpochSlot \<Rightarrow> nat mq_pc \<Rightarrow> nat \<Rightarrow> nat mq_result list \<Rightarrow> nat MpmcLinkedQueue" where
  "stalled_state epoch slot pc k results =
     \<lparr>mq_nodes = (\<lambda>i. if i < k then Some \<lparr>nd_next = Some (Suc i), nd_value = None\<rparr> else if i = k then Some \<lparr>nd_next = None, nd_value = None\<rparr> else None),
      mq_head = k, mq_tail = k, mq_size = 0, mq_global_epoch = epoch, mq_max_threads = 64,
      mq_slots = (\<lambda>_. \<lparr>es_occupied = False, es_active = False, es_epoch = 0, es_retired = []\<rparr>)
        (0 := \<lparr>es_occupied = True, es_active = False, es_epoch = 1, es_retired = []\<rparr>, 1 := slot),
      mq_threads = (\<lambda>_. \<lparr>th_pc = Idle, th_token = \<lparr>tk_owned = False, tk_slot = 0\<rparr>, th_backoff = new_ExponentialBackoff\<rparr>)
        (1 := \<lparr>th_pc = PopTail 0, th_token = \<lparr>tk_owned = True, tk_slot = 0\<rparr>, th_backoff = new_ExponentialBackoff\<rparr>,
         0 := \<lparr>th_pc = pc, th_token = \<lparr>tk_owned = True, tk_slot = 1\<rparr>, th_backoff = new_ExponentialBackoff\<rparr>),
      mq_chain = [k], mq_pushed = replicate k 7, mq_pops = k, mq_log = results\<rparr>"

definition own_slot :: "bool \<Rightarrow> u64 \<Rightarrow> RetiredNode list \<Rightarrow> EpochSlot" where
  "own_slot active epoch retired = \<lparr>es_occupied = True, es_active = active, es_epoch = epoch, es_retired = retired\<rparr>"

definition pushed_state :: "u64 \<Rightarrow> RetiredNode list \<Rightarrow> nat \<Rightarrow> nat mq_result list \<Rightarrow> nat MpmcLinkedQueue" where
  "pushed_state g retired k results =
     (let s = stalled_state g (own_slot False g retired) Idle k (results @ [RPushed])
      in s\<lparr>mq_nodes := (mq_nodes s)(k \<mapsto> \<lparr>nd_next = Some (Suc k), nd_value = None\<rparr>, Suc k \<mapsto> \<lparr>nd_next = None, nd_value = Some 7\<rparr>),
           mq_tail := Suc k, mq_size := 1, mq_chain := [k, Suc k], mq_pushed := replicate k 7 @ [7]\<rparr>)"

lemmas state_defs = stalled_state_def own_slot_def goto_def set_slot_def with_node_def Let_def

lemmas step_defs = solo_def thread_step_def mq_call_def enter_load_def enter_store_def enter_active_def leave_critical_def

lemma stalled_push:
  "mq_run (Call 0 (OpPush 7) # solo 0 11 (Suc k)) (stalled_state g (own_slot False e retired) Idle k results) = Inr (pushed_state g retired k results)"
  by (simp add: state_defs step_defs pushed_state_def numeral_eq_Suc push_new_def push_tail_def push_next_def push_check_def push_link_def push_swing_def
      push_count_def fun_upd_twist)

lemma stalled_pop:
  "mq_run (Call 0 OpPop # solo 0 12 0) (pushed_state g retired k results) =
   Inr (stalled_state g (own_slot True g (retired @ [\<lparr>rn_node = k, rn_retire_epoch = g\<rparr>]))
     (if kRetireThreshold \<le> Suc (length retired) then PopBump (RPopped k (Some 7)) else Leave (RPopped k (Some 7))) (Suc k) (results @ [RPushed]))"
  by (simp add: state_defs step_defs pushed_state_def numeral_eq_Suc pop_head_def pop_tail_def pop_next_def pop_check_def pop_cas_def pop_take_def
      pop_reset_def pop_count_def retire_node_def fun_eq_iff replicate_append_same)

lemma stalled_leave:
  "mq_run (solo 0 (Suc 0) 0) (stalled_state g (own_slot True e retired) (Leave r) k results) = Inr (stalled_state g (own_slot False e retired) Idle k (results @ [r]))"
  by (simp add: state_defs step_defs fun_upd_twist)

lemma stalled_bump:
  "retired \<noteq> [] \<Longrightarrow> mq_run (solo 0 (Suc 0) 0) (stalled_state g (own_slot True e retired) (PopBump r) k results) =
   Inr (stalled_state (g + 1) (own_slot True e retired) (ScanGlobal r) k results)"
  by (simp add: state_defs step_defs bump_epoch_def)

lemma scan_free_slots:
  "2 \<le> i \<Longrightarrow> i + n \<le> 64 \<Longrightarrow> mq_run (solo 0 n 0) (stalled_state g slot (ScanOccupied i m r) k results) =
   Inr (stalled_state g slot (ScanOccupied (i + n) m r) k results)"
proof (induction n arbitrary: i)
  case (Suc n)
  have "thread_step 0 0 False (stalled_state g slot (ScanOccupied i m r) k results) = Inr (stalled_state g slot (ScanOccupied (Suc i) m r) k results)"
    using Suc.prems by (simp add: state_defs thread_step_def scan_occupied_def)
  then show ?case using Suc.IH [of "Suc i"] Suc.prems by (simp add: solo_def)
qed (simp add: solo_def)

text \<open>The scan for the oldest active epoch passes over slot 0 of thread 1.\<close>

lemma stalled_scan:
  "mq_run (solo 0 69 0) (stalled_state g (own_slot True e retired) (ScanGlobal r) k results) =
   Inr (stalled_state g (own_slot True e retired) (Collect 0 (min (g + 1) e) False (Some r)) k results)"
proof -
  let ?s = "\<lambda>pc. stalled_state g (own_slot True e retired) pc k results"
  have "(solo 0 69 0 :: nat mq_action list) = solo 0 6 0 @ solo 0 62 0 @ solo 0 (Suc 0) 0" 
    using solo_add [of 0 6 63 0, where 'a = nat] solo_add [of 0 62 1 0, where 'a = nat] by simp
  moreover have "mq_run (solo 0 6 0) (?s (ScanGlobal r)) = Inr (?s (ScanOccupied 2 (min (g + 1) e) r))"
    by (simp add: state_defs step_defs scan_global_def scan_occupied_def scan_active_def scan_epoch_def numeral_eq_Suc)
  moreover have "mq_run (solo 0 62 0) (?s (ScanOccupied 2 (min (g + 1) e) r)) = Inr (?s (ScanOccupied 64 (min (g + 1) e) r))"
    using scan_free_slots [of 2 62] by simp
  moreover have "mq_run (solo 0 (Suc 0) 0) (?s (ScanOccupied 64 (min (g + 1) e) r)) = Inr (?s (Collect 0 (min (g + 1) e) False (Some r)))"
    by (simp add: state_defs step_defs scan_occupied_def)
  ultimately show ?thesis by (simp add: mq_run_append)
qed

lemma stalled_keep:
  assumes "\<And>i. i < length retired \<Longrightarrow> \<not> rn_retire_epoch (retired ! i) < e"
  shows "i + n = length retired \<Longrightarrow> mq_run (solo 0 (Suc n) 0) (stalled_state g (own_slot True e' retired) (Collect i e False (Some r)) k results) =
    Inr (stalled_state g (own_slot True e' retired) (Leave r) k results)"
proof (induction n arbitrary: i)
  case 0
  then show ?case by (simp add: state_defs step_defs collect_retired_def)
next
  case (Suc n)
  let ?s = "\<lambda>pc. stalled_state g (own_slot True e' retired) pc k results"
  have "thread_step 0 0 False (?s (Collect i e False (Some r))) = Inr (?s (Collect (Suc i) e False (Some r)))"
    using assms [of i] Suc.prems by (simp add: state_defs thread_step_def collect_retired_def)
  then show ?case using Suc.IH [of "Suc i"] Suc.prems by (simp add: solo_def)
qed

text \<open>Rounds of a push and a pop, up to the threshold; one more, in which every retired node is kept because thread 0 itself is still in the
  epoch in which they were retired; and the next, in which the first of them is freed.\<close>

definition push_pop :: "nat \<Rightarrow> nat mq_action list" where
  "push_pop k = (Call 0 (OpPush 7) # solo 0 11 (Suc k)) @ (Call 0 OpPop # solo 0 12 0)"

definition retired_upto :: "nat \<Rightarrow> RetiredNode list" where
  "retired_upto k = map (\<lambda>i. \<lparr>rn_node = i, rn_retire_epoch = 1\<rparr>) [0 ..< k]"

lemma retired_upto_Suc: "retired_upto (Suc k) = retired_upto k @ [\<lparr>rn_node = k, rn_retire_epoch = 1\<rparr>]"
  by (simp add: retired_upto_def)

lemma stalled_round:
  "mq_run (push_pop k) (stalled_state g (own_slot False e retired) Idle k results) =
   Inr (stalled_state g (own_slot True g (retired @ [\<lparr>rn_node = k, rn_retire_epoch = g\<rparr>]))
     (if kRetireThreshold \<le> Suc (length retired) then PopBump (RPopped k (Some 7)) else Leave (RPopped k (Some 7))) (Suc k) (results @ [RPushed]))"
  unfolding push_pop_def by (simp only: mq_run_append stalled_push stalled_pop sum.case)

lemma stalled_rounds:
  "n \<le> 31 \<Longrightarrow> \<exists>results'. mq_run (concat (map (\<lambda>k. push_pop k @ solo 0 (Suc 0) 0) [0 ..< n])) (stalled_state 1 (own_slot False 1 []) Idle 0 results) =
     Inr (stalled_state 1 (own_slot False 1 (retired_upto n)) Idle n results')"
proof (induction n)
  case (Suc n)
  then obtain results' where "mq_run (concat (map (\<lambda>k. push_pop k @ solo 0 (Suc 0) 0) [0 ..< n])) (stalled_state 1 (own_slot False 1 []) Idle 0 results) =
     Inr (stalled_state 1 (own_slot False 1 (retired_upto n)) Idle n results')" by auto
  then show ?case using Suc.prems
    by (auto simp: mq_run_append stalled_round stalled_leave retired_upto_def kRetireThreshold_def)
qed (auto simp: retired_upto_def)

definition thread_0 :: "nat mq_action list" where
  "thread_0 = (Call 0 OpPop # solo 0 12 0) @ concat (map (\<lambda>k. push_pop k @ solo 0 (Suc 0) 0) [0 ..< 31]) @
     push_pop 31 @ solo 0 (Suc 0) 0 @ solo 0 69 0 @ solo 0 33 0 @ solo 0 (Suc 0) 0 @ push_pop 32 @ solo 0 (Suc 0) 0 @ solo 0 69 0 @ solo 0 (Suc 0) 0"

text \<open>Thread 1 begins a \<open>try_pop\<close> and stops after its load of \<open>head_\<close>; thread 0 works alone; thread 1 goes on.\<close>

definition overtaking_schedule :: "nat bf_action list" where
  "overtaking_schedule = map Do ([Call 1 OpPop] @ solo 1 7 0) @ concat (map fenced thread_0) @ map Do (solo 1 2 0)"

definition entered_state :: "nat MpmcLinkedQueue" where
  "entered_state = (new_MpmcLinkedQueue 64 0)
     \<lparr>mq_slots := (\<lambda>_. \<lparr>es_occupied = False, es_active = False, es_epoch = 0, es_retired = []\<rparr>)
        (0 := \<lparr>es_occupied = True, es_active = False, es_epoch = 1, es_retired = []\<rparr>),
      mq_threads := (\<lambda>_. \<lparr>th_pc = Idle, th_token = \<lparr>tk_owned = False, tk_slot = 0\<rparr>, th_backoff = new_ExponentialBackoff\<rparr>)
        (1 := \<lparr>th_pc = PopTail 0, th_token = \<lparr>tk_owned = True, tk_slot = 0\<rparr>, th_backoff = new_ExponentialBackoff\<rparr>)\<rparr>"

lemma thread_1_enters:
  "bf_run (map Do ([Call 1 OpPop] @ solo 1 7 0)) (no_pending (new_MpmcLinkedQueue 64 0)) =
   Inr \<lparr>bf_queue = entered_state, bf_pending = (\<lambda>_. [])(1 := [(0, SetEpoch 1), (0, SetActive True)])\<rparr>"
  by (simp add: step_defs numeral_eq_Suc no_pending_def buffered_step_def entered_state_def new_MpmcLinkedQueue_def acquire_cas_def acquire_load_def
      acquire_store_def set_token_def pop_head_def goto_def set_slot_def Let_def)

lemma thread_0_begins:
  "mq_run (Call 0 OpPop # solo 0 12 0) entered_state = Inr (stalled_state 1 (own_slot False 1 []) Idle 0 [REmpty True])"
  by (simp add: state_defs step_defs numeral_eq_Suc entered_state_def new_MpmcLinkedQueue_def acquire_cas_def acquire_load_def
      acquire_store_def set_token_def pop_head_def pop_tail_def pop_next_def pop_check_def fun_eq_iff)

lemma collect_frees_first:
  "rn_retire_epoch x < e \<Longrightarrow> \<exists>s. mq_run (solo 0 (Suc 0) 0) (stalled_state g (own_slot True e' (x # retired)) (Collect 0 e False r) k results) = Inr s \<and>
     mq_pc_of s 1 = PopTail 0 \<and> mq_nodes s (rn_node x) = None" if "rn_node x \<le> k"
  using that by (simp add: state_defs step_defs collect_retired_def)

lemma thread_0_frees:
  "\<exists>s. mq_run thread_0 entered_state = Inr s \<and> mq_pc_of s 1 = PopTail 0 \<and> mq_nodes s 0 = None"
proof -
  obtain r1 where r1: "mq_run (concat (map (\<lambda>k. push_pop k @ solo 0 (Suc 0) 0) [0 ..< 31])) (stalled_state 1 (own_slot False 1 []) Idle 0 [REmpty True]) =
     Inr (stalled_state 1 (own_slot False 1 (retired_upto 31)) Idle 31 r1)" using stalled_rounds [of 31] by blast
  let ?first = "\<lparr>rn_node = 0, rn_retire_epoch = 1\<rparr>" and ?last = "\<lparr>rn_node = 32, rn_retire_epoch = 2\<rparr>"
  have upto: "retired_upto 31 @ [\<lparr>rn_node = 31, rn_retire_epoch = 1\<rparr>] = retired_upto 32" using retired_upto_Suc [of 31] by simp
  have len: "length (retired_upto n) = n" for n by (simp add: retired_upto_def)
  have nonempty: "retired_upto 32 \<noteq> []" using len [of 32] by force
  have late: "retired_upto 32 @ [?last] \<noteq> []" by simp
  obtain rest where rest: "retired_upto 32 = ?first # rest" using nonempty by (auto simp: retired_upto_def upt_conv_Cons)
  have "\<not> rn_retire_epoch (retired_upto 32 ! i) < 1" if "i < 32" for i using that by (simp add: retired_upto_def)
  then have keep: "mq_run (solo 0 33 0) (stalled_state 2 (own_slot True 1 (retired_upto 32)) (Collect 0 1 False (Some r)) 32 res) =
      Inr (stalled_state 2 (own_slot True 1 (retired_upto 32)) (Leave r) 32 res)" for r res
    using stalled_keep [of "retired_upto 32" 1 0 32] by (simp add: len)
  have free: "\<exists>s. mq_run (solo 0 (Suc 0) 0) (stalled_state 3 (own_slot True 2 (retired_upto 32 @ [?last])) (Collect 0 2 False r) 33 res) = Inr s \<and>
      mq_pc_of s 1 = PopTail 0 \<and> mq_nodes s 0 = None" for r res
    using collect_frees_first [of ?first 33 2] unfolding rest by simp
  have k: "kRetireThreshold \<le> 32" "kRetireThreshold \<le> 33" "Suc 31 = 32" "Suc 32 = 33" by (simp_all add: kRetireThreshold_def)
  have w: "(1 :: u64) + 1 = 2" "(2 :: u64) + 1 = 3" "(3 :: u64) + 1 = 4" "min 3 (1 :: u64) = 1" "min 4 (2 :: u64) = 2" by (simp_all add: min_def word_le_nat_alt)
  show ?thesis
    unfolding thread_0_def
    by (simp only: mq_run_append thread_0_begins sum.case r1 stalled_round len k if_True upto stalled_bump nonempty late not_False_eq_True w stalled_scan keep stalled_leave) (rule free)
qed

lemma overtaking_fails: "bf_run overtaking_schedule (no_pending (new_MpmcLinkedQueue 64 0)) = Inl UseAfterFree"
proof -
  let ?b = "\<lparr>bf_queue = entered_state, bf_pending = (\<lambda>_. [])(1 := [(0, SetEpoch 1), (0, SetActive True)])\<rparr>"
  obtain s where s: "mq_run thread_0 entered_state = Inr s" "mq_pc_of s 1 = PopTail 0" "mq_nodes s 0 = None" using thread_0_frees by blast
  have "acting a = 0" if "a \<in> set thread_0" for a using that by (auto simp: thread_0_def push_pop_def solo_def)
  then have "bf_run (concat (map fenced thread_0)) ?b = Inr (?b\<lparr>bf_queue := s\<rparr>)" using fenced_run [of thread_0 ?b] s(1) by simp
  moreover have "bf_run (map Do (solo 1 2 0)) (?b\<lparr>bf_queue := s\<rparr>) = Inl UseAfterFree"
    using s(2,3) by (simp add: solo_def numeral_eq_Suc buffered_step_def thread_step_def pop_tail_def pop_next_def with_node_def goto_def Let_def)
  ultimately show ?thesis using thread_1_enters unfolding overtaking_schedule_def by (simp add: bf_run_append)
qed

end
