(* ===== verification/Mpmc_Props.thy ===== *)
theory Mpmc_Props
  imports Mpmc_Count Mpmc_Buffer
begin

text \<open>
  The properties of the interleaved queue: memory safety and linearizability of all calm schedules, the schedule on which the release of a token
  frees a node in use, the one on which a store buffer does, destruction without a leak, progress of a thread that runs alone, and the counter \<open>size_\<close>.
\<close>

section \<open>Destruction\<close>

lemma drain_chain:
  assumes "linked (\<lambda>x. case nodes x of None \<Rightarrow> None | Some n \<Rightarrow> nd_next n) xs" "distinct xs" "\<And>x. x \<in> set xs \<Longrightarrow> nodes x \<noteq> None" "length xs \<le> fuel"
  shows "drain_all_nodes fuel (case xs of [] \<Rightarrow> None | x # _ \<Rightarrow> Some x) nodes = Some (Inr (nodes |` (- set xs)))"
  using assms
proof (induction xs arbitrary: nodes fuel)
  case (Cons x xs)
  obtain n where n: "nodes x = Some n" using Cons.prems(3) by auto
  obtain f where f: "fuel = Suc f" "length xs \<le> f" using Cons.prems(4) by (cases fuel) auto
  have nxt: "nd_next n = (case xs of [] \<Rightarrow> None | y # _ \<Rightarrow> Some y)" using Cons.prems(1) n by (cases xs) auto
  let ?nodes = "nodes(x := None)"
  have "linked (\<lambda>x. case nodes x of None \<Rightarrow> None | Some n \<Rightarrow> nd_next n) xs" using linked_tl [OF Cons.prems(1)] by simp
  then have lk: "linked (\<lambda>z. case ?nodes z of None \<Rightarrow> None | Some n \<Rightarrow> nd_next n) xs"
    using Cons.prems(2) by (subst linked_cong [where nx' = "\<lambda>x. case nodes x of None \<Rightarrow> None | Some n \<Rightarrow> nd_next n"]) auto
  have kept: "?nodes z \<noteq> None" if "z \<in> set xs" for z using that Cons.prems(2,3) by auto
  have d: "distinct xs" using Cons.prems(2) by simp
  have "drain_all_nodes f (case xs of [] \<Rightarrow> None | y # _ \<Rightarrow> Some y) ?nodes = Some (Inr (?nodes |` (- set xs)))"
    by (rule Cons.IH [OF lk d kept f(2)])
  moreover have "?nodes |` (- set xs) = nodes |` (- set (x # xs))" by (rule ext) (simp add: restrict_map_def)
  ultimately show ?case using n f(1) by (simp add: nxt)
qed (simp add: restrict_map_def)

lemma delete_all:
  assumes "distinct (map rn_node rs)" "\<And>r. r \<in> set rs \<Longrightarrow> nodes (rn_node r) \<noteq> None"
  shows "delete_retired rs nodes = Inr (nodes |` (- (rn_node ` set rs)))"
  using assms
proof (induction rs arbitrary: nodes)
  case (Cons r rs)
  obtain n where n: "nodes (rn_node r) = Some n" using Cons.prems(2) by auto
  have d: "distinct (map rn_node rs)" using Cons.prems(1) by simp
  have kept: "(nodes(rn_node r := None)) (rn_node x) \<noteq> None" if "x \<in> set rs" for x
  proof -
    have "rn_node x \<in> rn_node ` set rs" using that by (rule imageI)
    then have "rn_node x \<noteq> rn_node r" using Cons.prems(1) by (metis distinct.simps(2) list.simps(9) list.set_map)
    then show ?thesis using that Cons.prems(2) by auto
  qed
  have "delete_retired rs (nodes(rn_node r := None)) = Inr ((nodes(rn_node r := None)) |` (- (rn_node ` set rs)))"
    using d kept by (rule Cons.IH)
  moreover have "(nodes(rn_node r := None)) |` (- (rn_node ` set rs)) = nodes |` (- (rn_node ` set (r # rs)))"
    by (rule ext) (simp add: restrict_map_def)
  ultimately show ?case using n by simp
qed (simp add: restrict_map_def)

lemma distinct_concat_map:
  assumes "distinct js" "\<And>i. i \<in> set js \<Longrightarrow> distinct (f i)" "\<And>i j. i \<in> set js \<Longrightarrow> j \<in> set js \<Longrightarrow> i \<noteq> j \<Longrightarrow> set (f i) \<inter> set (f j) = {}"
  shows "distinct (concat (map f js))"
  using assms by (induction js) fastforce+

lemma destroy_frees_all:
  assumes inv: "mq_inv s" and idle: "\<And>t. mq_pc_of s t = Idle" and fuel: "length (mq_chain s) \<le> fuel"
  shows "mq_destroy fuel s = Some (Inr Map.empty)"
proof -
  note D = mq_invD [OF inv]
  let ?rs = "concat (map (\<lambda>i. es_retired (mq_slots s i)) [0 ..< mq_max_threads s])"
  have c: "mq_chain s \<noteq> []" "hd (mq_chain s) = mq_head s" "distinct (mq_chain s)" "linked (next_of s) (mq_chain s)" using D(1) unfolding chain_ok_def by blast+
  have alloc: "mq_nodes s z \<noteq> None \<longleftrightarrow> z \<in> set (mq_chain s) \<or> (\<exists>i. z \<in> retired_of s i)" for z using alloc_iff [OF D(2), of z 0] idle by simp
  have "drain_all_nodes fuel (Some (mq_head s)) (mq_nodes s) = Some (Inr (mq_nodes s |` (- set (mq_chain s))))"
    using drain_chain [of "mq_nodes s" "mq_chain s" fuel] c fuel alloc unfolding next_of_def [abs_def] by (cases "mq_chain s") auto
  moreover have "delete_retired ?rs (mq_nodes s |` (- set (mq_chain s))) = Inr ((mq_nodes s |` (- set (mq_chain s))) |` (- (rn_node ` set ?rs)))"
  proof (rule delete_all)
    have "distinct (concat (map (\<lambda>i. map rn_node (es_retired (mq_slots s i))) [0 ..< mq_max_threads s]))"
      using D(3) by (intro distinct_concat_map) (auto simp: slots_ok_def retired_of_def)
    then show "distinct (map rn_node ?rs)" by (simp add: map_concat comp_def)
    show "(mq_nodes s |` (- set (mq_chain s))) (rn_node r) \<noteq> None" if r: "r \<in> set ?rs" for r
    proof -
      obtain i where "r \<in> set (es_retired (mq_slots s i))" using r by auto
      then have i: "rn_node r \<in> retired_of s i" by (simp add: retired_of_def)
      then have "rn_node r \<notin> set (mq_chain s)" "mq_nodes s (rn_node r) \<noteq> None" using heap_okD(1) [OF D(2)] alloc by blast+
      then show ?thesis by (simp add: restrict_map_def)
    qed
  qed
  moreover have "(mq_nodes s |` (- set (mq_chain s))) |` (- (rn_node ` set ?rs)) = Map.empty"
  proof
    fix z
    have "z \<in> rn_node ` set ?rs" if "z \<in> retired_of s i" for i
    proof -
      have "i < mq_max_threads s" using that D(3) unfolding slots_ok_def retired_of_def by fastforce
      then have "retired_of s i \<subseteq> rn_node ` set ?rs" unfolding retired_of_def by (intro image_mono) auto
      then show ?thesis using that by blast
    qed
    then show "((mq_nodes s |` (- set (mq_chain s))) |` (- (rn_node ` set ?rs))) z = None" using alloc [of z] by (auto simp: restrict_map_def)
  qed
  ultimately show ?thesis by (simp add: mq_destroy_def reclaim_all_retired_def)
qed

section \<open>Properties\<close>

text \<open>Thread 1 begins a pop while thread 0 pushes; a second push of thread 0 is interleaved with the pop, and then both values are popped.\<close>

definition fifo_schedule :: "nat mq_action list" where
  "fifo_schedule = [Call 0 (OpPush 7), Call 1 OpPop] @ solo 0 9 1 @ solo 1 9 2 @ solo 0 9 3 @ [Call 0 (OpPush 8)] @
     concat (replicate 12 [Step 0 4 False, Step 1 5 True, Step 1 5 False]) @ [Call 0 OpPop] @ solo 0 20 6"

lemma fifo_length: "length fifo_schedule < 2 ^ 64 - 2"
  by (simp add: fifo_schedule_def solo_def length_concat sum_list_replicate)

definition mpmc_idle :: "'a MpmcLinkedQueue \<Rightarrow> bool" where
  "mpmc_idle s \<longleftrightarrow> (\<forall>t. mq_pc_of s t = Idle)"

lemma fifo_idle:
  assumes "mq_run fifo_schedule (new_MpmcLinkedQueue 4 0) = Inr s" "mq_pc_of s 0 = Idle" "mq_pc_of s 1 = Idle"
  shows "mpmc_idle s"
  unfolding mpmc_idle_def
proof
  fix t
  show "mq_pc_of s t = Idle"
  proof (cases "t = 0 \<or> t = 1")
    case False
    then have "t \<notin> actor ` set fifo_schedule" by (auto simp: fifo_schedule_def solo_def)
    then show ?thesis using mq_run_others [OF assms(1)] by (simp add: new_MpmcLinkedQueue_def)
  qed (use assms(2,3) in auto)
qed

text \<open>C8: Linearizability under sequential consistency. When the atomic accesses of all threads take effect one after the other, in the order of
  the schedule, or on a store-buffer machine with a fence after every step, then on every schedule of any number of threads in which no token is
  released while another thread is in an operation, and that is too short for the epoch counter to wrap, no thread dereferences or frees a node that
  is not allocated; every successful \<open>try_pop\<close> returns the value of the push with its own position in the order of the pushes, no position is
  returned twice, an unsuccessful one has found the queue empty at one of its steps, and the list holds the values pushed and not yet popped, in the
  order of the pushes. The code asks for release and acquire only, which does not give the safety (C12).\<close>

theorem mpmc_sc_linearizable:
  assumes "calm_run actions (new_MpmcLinkedQueue n stub)" "length actions < 2 ^ 64 - 2"
  shows "\<exists>s. mq_run actions (new_MpmcLinkedQueue n stub) = Inr s \<and>
    bf_run (concat (map fenced actions)) (no_pending (new_MpmcLinkedQueue n stub)) = Inr (no_pending s) \<and>
    (\<forall>i v. RPopped i v \<in> set (mq_log s) \<longrightarrow> i < mq_pops s \<and> v = Some (mq_pushed s ! i)) \<and>
    distinct (concat (map result_tickets (mq_log s))) \<and> REmpty False \<notin> set (mq_log s) \<and>
    mq_pops s \<le> length (mq_pushed s) \<and> map (value_of s) (tl (mq_chain s)) = map Some (drop (mq_pops s) (mq_pushed s))"
proof -
  obtain s where s: "mq_run actions (new_MpmcLinkedQueue n stub) = Inr s" and inv: "mq_inv s" using new_run_inv [OF assms] by blast
  have ok: "result_ok s r" if "r \<in> set (mq_log s)" for r using mq_invD(4) [OF inv] that by (simp add: log_ok_def)
  have "\<forall>i v. RPopped i v \<in> set (mq_log s) \<longrightarrow> i < mq_pops s \<and> v = Some (mq_pushed s ! i)" "REmpty False \<notin> set (mq_log s)"
    using ok [of "RPopped _ _"] ok [of "REmpty False"] by auto
  moreover have "bf_run (concat (map fenced actions)) (no_pending (new_MpmcLinkedQueue n stub)) = Inr (no_pending s)"
    using fenced_run [of actions "no_pending (new_MpmcLinkedQueue n stub)"] s by (simp add: no_pending_def)
  ultimately show ?thesis using s mq_invD(1,4) [OF inv] by (auto simp: chain_ok_def log_ok_def)
qed

theorem mpmc_sc_linearizable_witness:
  "calm_run fifo_schedule (new_MpmcLinkedQueue 4 0) \<and> length fifo_schedule < 2 ^ 64 - 2 \<and>
   (\<exists>s. mq_run fifo_schedule (new_MpmcLinkedQueue 4 0) = Inr s \<and> distinct (concat (map result_tickets (mq_log s)))) \<and>
   (case mq_run fifo_schedule (new_MpmcLinkedQueue 4 0) of Inl _ \<Rightarrow> [] | Inr s \<Rightarrow> mq_log s) = [RPushed, RPopped 0 (Some 7), RPushed, RPopped 1 (Some 8)]"
proof (intro conjI)
  show c: "calm_run fifo_schedule (new_MpmcLinkedQueue 4 0)" by code_simp
  show l: "length fifo_schedule < 2 ^ 64 - 2" by (rule fifo_length)
  show "\<exists>s. mq_run fifo_schedule (new_MpmcLinkedQueue 4 0) = Inr s \<and> distinct (concat (map result_tickets (mq_log s)))"
    using mpmc_sc_linearizable [OF c l] by blast
  show "(case mq_run fifo_schedule (new_MpmcLinkedQueue 4 0) of Inl _ \<Rightarrow> [] | Inr s \<Rightarrow> mq_log s) = [RPushed, RPopped 0 (Some 7), RPushed, RPopped 1 (Some 8)]"
    by code_simp
qed

text \<open>Thread 1 has read \<open>head_\<close> when thread 0 pops that node, retires it and releases its token.\<close>

definition release_schedule :: "nat mq_action list" where
  "release_schedule = [Call 0 (OpPush 7)] @ solo 0 20 1 @ [Call 1 OpPop] @ solo 1 8 2 @ [Call 0 OpPop] @ solo 0 20 3 @ [Release 0] @ solo 0 2 4 @ solo 1 2 5"

text \<open>The release of a token does not look at the epochs of the other slots (\<open>collect_retired\<close> with \<open>force_all\<close>): on this schedule thread 0
  frees a node that thread 1, in the middle of a \<open>try_pop\<close>, then dereferences. The schedule without the release is safe.\<close>

theorem mpmc_release_use_after_free:
  "isl (mq_run release_schedule (new_MpmcLinkedQueue 64 0)) \<and>
   \<not> isl (mq_run (filter (\<lambda>a. case a of Release _ \<Rightarrow> False | _ \<Rightarrow> True) release_schedule) (new_MpmcLinkedQueue 64 0))"
  by code_simp

text \<open>C14: Destroying a queue that no thread is using any more, after any such schedule of sequentially consistent steps, frees every node exactly once and leaves none
  allocated; the walk along the list ends.\<close>

theorem mpmc_destroy_frees_all:
  assumes "calm_run actions (new_MpmcLinkedQueue n stub)" "length actions < 2 ^ 64 - 2"
    and "mq_run actions (new_MpmcLinkedQueue n stub) = Inr s" "\<And>t. mq_pc_of s t = Idle"
  shows "mq_destroy (length (mq_chain s)) s = Some (Inr Map.empty)"
proof -
  have "mq_inv s" using new_run_inv [OF assms(1,2)] assms(3) by (metis sum.inject(2))
  then show ?thesis using assms(4) by (rule destroy_frees_all) simp
qed

theorem mpmc_destroy_frees_all_witness:
  "(case mq_run fifo_schedule (new_MpmcLinkedQueue 4 0) of Inl _ \<Rightarrow> False
    | Inr s \<Rightarrow> length (mq_chain s) = 1 \<and> mq_nodes s 0 \<noteq> None \<and> mq_destroy (length (mq_chain s)) s = Some (Inr Map.empty))"
proof -
  let ?new = "new_MpmcLinkedQueue 4 0 :: nat MpmcLinkedQueue"
  have c: "calm_run fifo_schedule ?new" by code_simp
  have e: "case mq_run fifo_schedule ?new of Inl _ \<Rightarrow> False
    | Inr s \<Rightarrow> mq_pc_of s 0 = Idle \<and> mq_pc_of s 1 = Idle \<and> length (mq_chain s) = 1 \<and> mq_nodes s 0 \<noteq> None" by code_simp
  then obtain s where s: "mq_run fifo_schedule ?new = Inr s" "mq_pc_of s 0 = Idle" "mq_pc_of s 1 = Idle" "length (mq_chain s) = 1" "mq_nodes s 0 \<noteq> None"
    by (auto split: sum.splits)
  have "mq_pc_of s t = Idle" for t using fifo_idle [OF s(1-3)] by (simp add: mpmc_idle_def)
  then have "mq_destroy (length (mq_chain s)) s = Some (Inr Map.empty)" by (rule mpmc_destroy_frees_all [OF c fifo_length s(1)])
  then show ?thesis using s by simp
qed

text \<open>C10: When no thread is in an operation, after any such schedule of sequentially consistent steps, nothing is lost: every linked value belongs to a push that has returned, the values
  that were pushed and not returned by a pop are the ones in the list, \<open>size_approx\<close> is their exact number and \<open>empty\<close> is exact.\<close>

theorem mpmc_at_rest_exact:
  assumes "calm_run actions (new_MpmcLinkedQueue n stub)" "length actions < 2 ^ 64 - 2"
    and "mq_run actions (new_MpmcLinkedQueue n stub) = Inr s" "\<And>t. mq_pc_of s t = Idle"
  shows "pushes_returned s = length (mq_pushed s) \<and> pushes_returned s = pops_returned s + length (tl (mq_chain s)) \<and>
    mq_size_approx s = of_nat (length (tl (mq_chain s))) \<and> mq_empty s = (tl (mq_chain s) = [])"
proof -
  have inv: "mq_inv s" using new_run_inv [OF assms(1,2)] assms(3) by (metis sum.inject(2))
  then have le: "mq_pops s \<le> length (mq_pushed s)" and "map (value_of s) (tl (mq_chain s)) = map Some (drop (mq_pops s) (mq_pushed s))"
    using mq_invD(1) [OF inv] by (simp_all add: chain_ok_def)
  then have len: "length (tl (mq_chain s)) = length (mq_pushed s) - mq_pops s" by (metis length_drop length_map)
  note rest = at_rest [OF assms(3,4)]
  have size: "mq_size_approx s = of_nat (length (tl (mq_chain s)))" unfolding mq_size_approx_def len using rest(3) le by (simp add: of_nat_diff)
  have "length (mq_pushed s) \<le> length actions" using pushed_length [OF assms(3)] by (simp add: new_MpmcLinkedQueue_def)
  then have "length (tl (mq_chain s)) < 2 ^ 64" unfolding len using assms(2) by simp
  then have "(of_nat (length (tl (mq_chain s))) :: u64) = 0 \<longleftrightarrow> length (tl (mq_chain s)) = 0"
    by (simp add: word_of_nat_eq_0_iff dvd_eq_mod_eq_0 del: length_tl)
  then have "mq_empty s = (tl (mq_chain s) = [])" unfolding mq_empty_def size by (simp only: length_0_conv)
  then show ?thesis using rest(1,2) len le size by (simp del: length_tl)
qed

theorem mpmc_at_rest_exact_witness:
  "case mq_run fifo_schedule (new_MpmcLinkedQueue 4 0) of Inl _ \<Rightarrow> False
   | Inr s \<Rightarrow> pushes_returned s = 2 \<and> pushes_returned s = pops_returned s + length (tl (mq_chain s)) \<and> mq_size_approx s = 0 \<and> mq_empty s"
proof -
  let ?new = "new_MpmcLinkedQueue 4 0 :: nat MpmcLinkedQueue"
  have c: "calm_run fifo_schedule ?new" by code_simp
  have e: "case mq_run fifo_schedule ?new of Inl _ \<Rightarrow> False
    | Inr s \<Rightarrow> mq_pc_of s 0 = Idle \<and> mq_pc_of s 1 = Idle \<and> tl (mq_chain s) = [] \<and> pushes_returned s = 2" by code_simp
  then obtain s where s: "mq_run fifo_schedule ?new = Inr s" "mq_pc_of s 0 = Idle" "mq_pc_of s 1 = Idle" "tl (mq_chain s) = []" "pushes_returned s = 2"
    by (auto split: sum.splits)
  have "mpmc_idle s" by (rule fifo_idle [OF s(1-3)])
  then show ?thesis using mpmc_at_rest_exact [OF c fifo_length s(1)] s unfolding mpmc_idle_def by simp
qed

text \<open>C9: Obstruction freedom under sequential consistency. After any calm run of sequentially consistent steps, a thread in the middle of a \<open>push\<close> or
  \<open>try_pop\<close>, wherever the other threads were stopped, returns from it within \<open>steps_left\<close> steps of its own if it runs alone, its weak
  compare-exchange does not fail spuriously and the allocator has a fresh address for its node.\<close>

theorem mpmc_sc_obstruction_free:
  assumes "calm_run actions (new_MpmcLinkedQueue n stub)" "mq_run actions (new_MpmcLinkedQueue n stub) = Inr s"
    and "operating (mq_pc_of s t)" "mq_nodes s address = None" "length actions + steps_left s t < 2 ^ 64 - 2"
  shows "\<exists>s' r. mq_run (solo t (steps_left s t) address) s = Inr s' \<and> mq_pc_of s' t = Idle \<and> mq_log s' = mq_log s @ [r]"
proof -
  have "length actions < 2 ^ 64 - 2" using assms(5) by simp
  from new_run_inv [OF assms(1) this] assms(2) have inv: "mq_inv s" and e: "unat (mq_global_epoch s) \<le> Suc (length actions)"
    by (metis sum.inject(2))+
  then show ?thesis using solo_returns [OF inv assms(3,4) order.refl] assms(5) by fastforce
qed

text \<open>Thread 0 is stopped after it has linked its node and before it has moved \<open>tail_\<close>; thread 1 begins a \<open>try_pop\<close>.\<close>

definition stalled_schedule :: "nat mq_action list" where
  "stalled_schedule = [Call 0 (OpPush 7)] @ solo 0 11 1 @ [Call 1 OpPop] @ solo 1 4 2"

theorem mpmc_sc_obstruction_free_witness:
  "case mq_run stalled_schedule (new_MpmcLinkedQueue 4 0) of Inl _ \<Rightarrow> False
   | Inr s \<Rightarrow> operating (mq_pc_of s 1) \<and> mq_pc_of s 0 = PushSwing 1 0 \<and>
       (\<exists>s' r. mq_run (solo 1 (steps_left s 1) 9) s = Inr s' \<and> mq_pc_of s' 1 = Idle \<and> mq_log s' = mq_log s @ [r])"
proof -
  let ?new = "new_MpmcLinkedQueue 4 0 :: nat MpmcLinkedQueue"
  have c: "calm_run stalled_schedule ?new" by code_simp
  have e: "case mq_run stalled_schedule ?new of Inl _ \<Rightarrow> False
    | Inr s \<Rightarrow> operating (mq_pc_of s 1) \<and> mq_pc_of s 0 = PushSwing 1 0 \<and> mq_nodes s 9 = None \<and> steps_left s 1 \<le> 40" by code_simp
  then obtain s where s: "mq_run stalled_schedule ?new = Inr s" "operating (mq_pc_of s 1)" "mq_pc_of s 0 = PushSwing 1 0" "mq_nodes s 9 = None"
    "steps_left s 1 \<le> 40"
    by (auto split: sum.splits)
  have "length stalled_schedule \<le> 17" by (simp add: stalled_schedule_def solo_def)
  then have "length stalled_schedule + steps_left s 1 < 2 ^ 64 - 2" using s(5) by simp
  then show ?thesis using mpmc_sc_obstruction_free [OF c s(1,2,4)] s by simp
qed

text \<open>\<open>size_\<close> is decremented by a \<open>try_pop\<close> that may overtake the \<open>push\<close> of the same value, which has linked its node but not
  yet counted it: the counter is \<open>2 ^ 64 - 1\<close> then, and \<open>empty\<close> says false of a queue that holds nothing; once the push has returned
  the counter is right again.\<close>

theorem mpmc_size_wraps:
  "(case mq_run (stalled_schedule @ solo 1 30 9) (new_MpmcLinkedQueue 4 0) of Inl _ \<Rightarrow> False
    | Inr s \<Rightarrow> mq_log s = [RPopped 0 (Some 7)] \<and> tl (mq_chain s) = [] \<and> mq_size_approx s = - 1 \<and> \<not> mq_empty s) \<and>
   (case mq_run (stalled_schedule @ solo 1 30 9 @ solo 0 3 9) (new_MpmcLinkedQueue 4 0) of Inl _ \<Rightarrow> False
    | Inr s \<Rightarrow> mq_log s = [RPopped 0 (Some 7), RPushed] \<and> mq_size_approx s = 0 \<and> mq_empty s)"
  by code_simp

text \<open>C12: The release stores of \<open>enter_critical\<close> are too weak. On a machine with store buffers there is a schedule, without any release of a token, on which
  thread 1 announces itself, loads \<open>head_\<close> before the announcement leaves its store buffer, and then dereferences a node that thread 0 has freed, because thread 0 saw
  no active thread. With a fence after every store (sequentially consistent stores) every calm schedule is safe on this machine as well.\<close>

theorem mpmc_store_buffer_use_after_free:
  "bf_run overtaking_schedule (no_pending (new_MpmcLinkedQueue 64 0)) = Inl UseAfterFree \<and>
   (\<forall>t. Do (Release t) \<notin> set overtaking_schedule) \<and>
   (calm_run actions (new_MpmcLinkedQueue n stub) \<and> length actions < 2 ^ 64 - 2 \<longrightarrow>
     \<not> isl (bf_run (concat (map fenced actions)) (no_pending (new_MpmcLinkedQueue n stub))))"
proof (intro conjI impI)
  show "bf_run overtaking_schedule (no_pending (new_MpmcLinkedQueue 64 0)) = Inl UseAfterFree" by (rule overtaking_fails)
  show "\<forall>t. Do (Release t) \<notin> set overtaking_schedule"
    by (auto simp: overtaking_schedule_def thread_0_def push_pop_def solo_def)
  assume "calm_run actions (new_MpmcLinkedQueue n stub) \<and> length actions < 2 ^ 64 - 2"
  then obtain s where "mq_run actions (new_MpmcLinkedQueue n stub) = Inr s" using new_run_inv by blast
  then show "\<not> isl (bf_run (concat (map fenced actions)) (no_pending (new_MpmcLinkedQueue n stub)))"
    using fenced_run [of actions "no_pending (new_MpmcLinkedQueue n stub)"] by (simp add: no_pending_def)
qed

theorem mpmc_store_buffer_use_after_free_witness:
  "calm_run fifo_schedule (new_MpmcLinkedQueue 4 0) \<and> \<not> isl (bf_run (concat (map fenced fifo_schedule)) (no_pending (new_MpmcLinkedQueue 4 0)))"
proof
  show c: "calm_run fifo_schedule (new_MpmcLinkedQueue 4 0)" by code_simp
  show "\<not> isl (bf_run (concat (map fenced fifo_schedule)) (no_pending (new_MpmcLinkedQueue 4 0)))"
    using mpmc_store_buffer_use_after_free [of fifo_schedule 4 0] c fifo_length by blast
qed

end
