(* ===== verification/Mpmc_Token.thy ===== *)
theory Mpmc_Token
  imports Mpmc_Live
begin

text \<open>
  Ownership of the slots of \<open>MpmcLinkedQueue\<close>: the class \<open>Token\<close> with its move operations, \<open>make_token\<close> and the thread-local tokens of
  \<open>local_token_for\<close> (\<open>mpmc_linked_queue.hpp\<close>).

  A token object is a variable, or the entry of a thread for the address of a queue in its \<open>thread_local\<close> map, or a temporary. Of a queue only the
  flags \<open>occupied\<close> of its slots matter here; \<open>Mpmc_Queue\<close> has the rest, including the single steps of \<open>acquire_slot\<close> and
  \<open>unregister_slot\<close>. A call on a queue that has been destroyed is undefined behaviour, \<open>Inl DanglingOwner\<close>.
\<close>

section \<open>Tokens\<close>

record TokenObject =
  to_owner :: "nat option"
  to_slot :: nat

datatype token_ref = Variable nat | Local nat nat | Temporary

datatype token_fault = DanglingOwner

record token_world =
  tw_slots :: "nat \<rightharpoonup> bool list"
  tw_tokens :: "(token_ref \<times> TokenObject) list"

definition new_token_world :: token_world where
  "new_token_world = \<lparr>tw_slots = Map.empty, tw_tokens = []\<rparr>"

definition empty_token :: TokenObject where
  "empty_token = \<lparr>to_owner = None, to_slot = 0\<rparr>"

definition put_token :: "token_ref \<Rightarrow> TokenObject \<Rightarrow> token_world \<Rightarrow> token_world" where
  "put_token r token w = w\<lparr>tw_tokens := AList.update r token (tw_tokens w)\<rparr>"

definition drop_token :: "token_ref \<Rightarrow> token_world \<Rightarrow> token_world" where
  "drop_token r w = w\<lparr>tw_tokens := AList.delete r (tw_tokens w)\<rparr>"

text \<open>The token an operation works on; only objects that exist are used.\<close>

definition token_at :: "token_ref \<Rightarrow> token_world \<Rightarrow> TokenObject" where
  "token_at r w = (case map_of (tw_tokens w) r of Some token \<Rightarrow> token | None \<Rightarrow> empty_token)"

definition set_occupied :: "nat \<Rightarrow> nat \<Rightarrow> bool \<Rightarrow> token_world \<Rightarrow> token_fault + token_world" where
  "set_occupied q slot flag w =
     (case tw_slots w q of
        None \<Rightarrow> Inl DanglingOwner
      | Some occupied \<Rightarrow> Inr (w\<lparr>tw_slots := (tw_slots w)(q \<mapsto> occupied[slot := flag])\<rparr>))"

text \<open>\<open>release\<close>, with \<open>unregister_slot\<close> of the owner.\<close>

definition token_release :: "token_ref \<Rightarrow> token_world \<Rightarrow> token_fault + token_world" where
  "token_release r w =
     (let token = token_at r w in
      case to_owner token of
        None \<Rightarrow> Inr w
      | Some q \<Rightarrow> (case set_occupied q (to_slot token) False w of
            Inl e \<Rightarrow> Inl e
          | Inr w' \<Rightarrow> Inr (put_token r (token\<lparr>to_owner := None\<rparr>) w')))"

definition token_swap :: "token_ref \<Rightarrow> token_ref \<Rightarrow> token_world \<Rightarrow> token_world" where
  "token_swap r r' w = put_token r' (token_at r w) (put_token r (token_at r' w) w)"

definition move_construct :: "token_ref \<Rightarrow> token_ref \<Rightarrow> token_world \<Rightarrow> token_world" where
  "move_construct r source w = token_swap r source (put_token r empty_token w)"

definition move_assign :: "token_ref \<Rightarrow> token_ref \<Rightarrow> token_world \<Rightarrow> token_fault + token_world" where
  "move_assign r source w =
     (if r = source then Inr w
      else case token_release r w of Inl e \<Rightarrow> Inl e | Inr w' \<Rightarrow> Inr (token_swap r source w'))"

definition token_destroy :: "token_ref \<Rightarrow> token_world \<Rightarrow> token_fault + token_world" where
  "token_destroy r w = (case token_release r w of Inl e \<Rightarrow> Inl e | Inr w' \<Rightarrow> Inr (drop_token r w'))"

text \<open>\<open>acquire_slot\<close> takes the first free slot; \<open>None\<close> is the exception.\<close>

fun first_free :: "bool list \<Rightarrow> nat option" where
  "first_free [] = None"
| "first_free (occupied # slots) = (if occupied then map_option Suc (first_free slots) else Some 0)"

text \<open>\<open>make_token\<close>, whose result initialises the token \<open>r\<close>; the flag says whether it returned.\<close>

definition make_token :: "token_ref \<Rightarrow> nat \<Rightarrow> token_world \<Rightarrow> token_fault + bool \<times> token_world" where
  "make_token r q w =
     (case tw_slots w q of
        None \<Rightarrow> Inl DanglingOwner
      | Some occupied \<Rightarrow> (case first_free occupied of
            None \<Rightarrow> Inr (False, w)
          | Some slot \<Rightarrow> Inr (True, put_token r \<lparr>to_owner = Some q, to_slot = slot\<rparr>
                                  (w\<lparr>tw_slots := (tw_slots w)(q \<mapsto> occupied[slot := True])\<rparr>))))"

text \<open>\<open>local_token_for\<close>: the entry is inserted empty, then assigned from the temporary that \<open>make_token\<close> returns.\<close>

definition local_token_for :: "nat \<Rightarrow> nat \<Rightarrow> token_world \<Rightarrow> token_fault + bool \<times> token_world" where
  "local_token_for t q w =
     (let r = Local t q; w1 = (if map_of (tw_tokens w) r = None then put_token r empty_token w else w) in
      if to_owner (token_at r w1) \<noteq> None then Inr (True, w1)
      else case make_token Temporary q w1 of
             Inl e \<Rightarrow> Inl e
           | Inr (False, w2) \<Rightarrow> Inr (False, w2)
           | Inr (True, w2) \<Rightarrow> (case move_assign r Temporary w2 of
                 Inl e \<Rightarrow> Inl e
               | Inr w3 \<Rightarrow> (case token_destroy Temporary w3 of Inl e \<Rightarrow> Inl e | Inr w4 \<Rightarrow> Inr (True, w4))))"

text \<open>At the exit of a thread its map is destroyed with all its tokens.\<close>

fun destroy_tokens :: "token_ref list \<Rightarrow> token_world \<Rightarrow> token_fault + token_world" where
  "destroy_tokens [] w = Inr w"
| "destroy_tokens (r # rs) w = (case token_destroy r w of Inl e \<Rightarrow> Inl e | Inr w' \<Rightarrow> destroy_tokens rs w')"

fun local_of :: "nat \<Rightarrow> token_ref \<Rightarrow> bool" where
  "local_of t (Local u q) = (t = u)"
| "local_of t r = False"

section \<open>Programs\<close>

datatype token_op = NewQueue nat nat | DestroyQueue nat | MakeToken nat nat | MoveConstruct nat nat | MoveAssign nat nat | DestroyToken nat
  | UseQueue nat nat | ExitThread nat

definition exists_token :: "nat \<Rightarrow> token_world \<Rightarrow> bool" where
  "exists_token v w = (map_of (tw_tokens w) (Variable v) \<noteq> None)"

text \<open>A program that declares a name twice, or uses a token or a queue that is not there, is no program: the operation is skipped.\<close>

fun token_step :: "token_op \<Rightarrow> token_world \<Rightarrow> token_fault + bool \<times> token_world" where
  "token_step (NewQueue q n) w = Inr (True, if tw_slots w q = None then w\<lparr>tw_slots := (tw_slots w)(q \<mapsto> replicate n False)\<rparr> else w)"
| "token_step (DestroyQueue q) w = Inr (True, w\<lparr>tw_slots := (tw_slots w)(q := None)\<rparr>)"
| "token_step (MakeToken v q) w = (if exists_token v w \<or> tw_slots w q = None then Inr (True, w) else make_token (Variable v) q w)"
| "token_step (MoveConstruct v u) w =
     (if \<not> exists_token v w \<and> exists_token u w then Inr (True, move_construct (Variable v) (Variable u) w) else Inr (True, w))"
| "token_step (MoveAssign v u) w =
     (if exists_token v w \<and> exists_token u w then map_sum id (Pair True) (move_assign (Variable v) (Variable u) w) else Inr (True, w))"
| "token_step (DestroyToken v) w =
     (if exists_token v w then map_sum id (Pair True) (token_destroy (Variable v) w) else Inr (True, w))"
| "token_step (UseQueue t q) w = (if tw_slots w q = None then Inr (True, w) else local_token_for t q w)"
| "token_step (ExitThread t) w = map_sum id (Pair True) (destroy_tokens (filter (local_of t) (map fst (tw_tokens w))) w)"

fun token_run :: "token_op list \<Rightarrow> token_world \<Rightarrow> token_fault + bool list \<times> token_world" where
  "token_run [] w = Inr ([], w)"
| "token_run (op # ops) w =
     (case token_step op w of
        Inl e \<Rightarrow> Inl e
      | Inr (ok, w') \<Rightarrow> (case token_run ops w' of Inl e \<Rightarrow> Inl e | Inr (oks, w'') \<Rightarrow> Inr (ok # oks, w'')))"

text \<open>A program in which queues outlive their tokens, the thread-local ones included.\<close>

definition owns :: "token_world \<Rightarrow> token_ref \<Rightarrow> nat \<Rightarrow> nat \<Rightarrow> bool" where
  "owns w r q slot = (to_owner (token_at r w) = Some q \<and> to_slot (token_at r w) = slot)"

definition unowned :: "nat \<Rightarrow> token_world \<Rightarrow> bool" where
  "unowned q w = list_all (\<lambda>r. to_owner (token_at r w) \<noteq> Some q) (map fst (tw_tokens w))"

fun orderly :: "token_op list \<Rightarrow> token_world \<Rightarrow> bool" where
  "orderly [] w = True"
| "orderly (op # ops) w =
     ((case op of DestroyQueue q \<Rightarrow> unowned q w | _ \<Rightarrow> True) \<and>
      (case token_step op w of Inl e \<Rightarrow> True | Inr (ok, w') \<Rightarrow> orderly ops w'))"

section \<open>Invariant\<close>

definition occupied_slot :: "token_world \<Rightarrow> nat \<Rightarrow> nat \<Rightarrow> bool" where
  "occupied_slot w q i = (case tw_slots w q of None \<Rightarrow> False | Some occupied \<Rightarrow> i < length occupied \<and> occupied ! i)"

text \<open>The occupied slots are the owned ones, and a slot has one owner.\<close>

definition token_inv :: "token_world \<Rightarrow> bool" where
  "token_inv w \<longleftrightarrow> (\<forall>q i. occupied_slot w q i = (\<exists>r. owns w r q i)) \<and> (\<forall>r r' q i. owns w r q i \<and> owns w r' q i \<longrightarrow> r = r')"

lemma token_invI:
  assumes "\<And>q i. occupied_slot w q i = (\<exists>r. owns w r q i)" "\<And>r r' q i. owns w r q i \<Longrightarrow> owns w r' q i \<Longrightarrow> r = r'"
  shows "token_inv w"
  unfolding token_inv_def using assms by blast

lemma token_invD:
  assumes "token_inv w"
  shows "occupied_slot w q i = (\<exists>r. owns w r q i)" "owns w r q i \<Longrightarrow> owns w r' q i \<Longrightarrow> r = r'"
  using assms unfolding token_inv_def by blast+

lemma token_at_put [simp]: "token_at r' (put_token r token w) = (if r' = r then token else token_at r' w)"
  by (simp add: token_at_def put_token_def update_conv')

lemma token_at_drop [simp]: "token_at r' (drop_token r w) = (if r' = r then empty_token else token_at r' w)"
  by (simp add: token_at_def drop_token_def delete_conv')

lemma token_at_slots [simp]: "token_at r (w\<lparr>tw_slots := x\<rparr>) = token_at r w"
  by (simp add: token_at_def)

lemma slots_put [simp]: "tw_slots (put_token r token w) = tw_slots w" "tw_slots (drop_token r w) = tw_slots w"
  by (simp_all add: put_token_def drop_token_def)

lemma empty_token_owner [simp]: "to_owner empty_token = None"
  by (simp add: empty_token_def)

lemma token_inv_cong:
  assumes "token_inv w" "\<And>r. to_owner (token_at r w') = to_owner (token_at r w)" "\<And>r. to_owner (token_at r w) \<noteq> None \<Longrightarrow> to_slot (token_at r w') = to_slot (token_at r w)"
    and "tw_slots w' = tw_slots w"
  shows "token_inv w'"
proof -
  have "owns w' = owns w" using assms(2,3) by (auto simp: owns_def fun_eq_iff)
  moreover have "occupied_slot w' = occupied_slot w" using assms(4) by (simp add: occupied_slot_def fun_eq_iff)
  ultimately show ?thesis using assms(1) by (simp add: token_inv_def)
qed

lemma release_inv:
  assumes "token_inv w"
  obtains w' where "token_release r w = Inr w'" "token_inv w'" "to_owner (token_at r w') = None" "\<And>x. x \<noteq> r \<Longrightarrow> token_at x w' = token_at x w"
    "\<And>q. tw_slots w' q = None \<longleftrightarrow> tw_slots w q = None"
proof (cases "to_owner (token_at r w)")
  case None
  then have "token_release r w = Inr w" by (simp add: token_release_def)
  then show thesis using that assms None by blast
next
  case (Some q)
  let ?i = "to_slot (token_at r w)"
  have own: "owns w r q ?i" using Some by (simp add: owns_def)
  then have "occupied_slot w q ?i" using assms by (auto simp: token_inv_def)
  then obtain occ where occ: "tw_slots w q = Some occ" "?i < length occ" by (auto simp: occupied_slot_def split: option.splits)
  let ?w = "put_token r ((token_at r w)\<lparr>to_owner := None\<rparr>) (w\<lparr>tw_slots := (tw_slots w)(q \<mapsto> occ[?i := False])\<rparr>)"
  have rel: "token_release r w = Inr ?w" using Some occ by (simp add: token_release_def set_occupied_def Let_def)
  have o: "owns ?w x p j = (x \<noteq> r \<and> owns w x p j)" for x p j by (auto simp: owns_def)
  have c: "occupied_slot ?w p j = (occupied_slot w p j \<and> (p \<noteq> q \<or> j \<noteq> ?i))" for p j
    using occ by (auto simp: occupied_slot_def nth_list_update)
  have uniq: "x = r" if "owns w x q ?i" for x using that own by (rule token_invD(2) [OF assms])
  have "p \<noteq> q \<or> j \<noteq> ?i" if "owns w x p j" "x \<noteq> r" for x p j using that uniq by blast
  then have "token_inv ?w"
  proof (intro token_invI)
    show "occupied_slot ?w p j = (\<exists>x. owns ?w x p j)" if "\<And>x p j. owns w x p j \<Longrightarrow> x \<noteq> r \<Longrightarrow> p \<noteq> q \<or> j \<noteq> ?i" for p j
      unfolding o c token_invD(1) [OF assms] using that own by (metis owns_def option.inject)
    show "owns ?w x p j \<Longrightarrow> owns ?w y p j \<Longrightarrow> x = y" for x y p j unfolding o using token_invD(2) [OF assms] by blast
  qed
  then show thesis using that [of ?w] rel occ by auto
qed

lemma swap_inv:
  assumes "token_inv w"
  shows "token_inv (token_swap r r' w)"
proof -
  let ?f = "\<lambda>x. if x = r then r' else if x = r' then r else x"
  have o: "owns (token_swap r r' w) x q i = owns w (?f x) q i" for x q i by (auto simp: owns_def token_swap_def)
  have f: "?f (?f x) = x" for x by auto
  have c: "occupied_slot (token_swap r r' w) q i = occupied_slot w q i" for q i by (simp add: occupied_slot_def token_swap_def)
  have ex: "(\<exists>x. owns w (?f x) q i) = (\<exists>x. owns w x q i)" for q i
  proof
    assume "\<exists>x. owns w x q i"
    then obtain x where "owns w (?f (?f x)) q i" unfolding f by blast
    then show "\<exists>x. owns w (?f x) q i" by (rule exI)
  qed blast
  have uniq: "x = y" if "owns w (?f x) q i" "owns w (?f y) q i" for x y q i
  proof -
    have "?f (?f x) = ?f (?f y)" using token_invD(2) [OF assms that] by (rule arg_cong)
    then show ?thesis unfolding f .
  qed
  show ?thesis
  proof (rule token_invI)
    show "occupied_slot (token_swap r r' w) q i = (\<exists>x. owns (token_swap r r' w) x q i)" for q i
      unfolding o c ex by (rule token_invD(1) [OF assms])
    show "owns (token_swap r r' w) x q i \<Longrightarrow> owns (token_swap r r' w) y q i \<Longrightarrow> x = y" for x y q i unfolding o by (rule uniq)
  qed
qed

lemma first_free_Some: "first_free occ = Some i \<Longrightarrow> i < length occ \<and> \<not> occ ! i"
  by (induction occ arbitrary: i) (auto split: if_splits)

lemma first_free_None: "first_free occ = None \<longleftrightarrow> list_all id occ"
  by (induction occ) auto

lemma make_token_inv:
  assumes "token_inv w" "tw_slots w q \<noteq> None" "to_owner (token_at r w) = None"
  obtains ok w' where "make_token r q w = Inr (ok, w')" "token_inv w'" "\<And>x. x \<noteq> r \<Longrightarrow> token_at x w' = token_at x w"
proof -
  obtain occ where occ: "tw_slots w q = Some occ" using assms(2) by auto
  show thesis
  proof (cases "first_free occ")
    case None
    then show thesis using that [of False w] assms(1) occ by (simp add: make_token_def)
  next
    case (Some i)
    note i = first_free_Some [OF Some]
    let ?w = "put_token r \<lparr>to_owner = Some q, to_slot = i\<rparr> (w\<lparr>tw_slots := (tw_slots w)(q \<mapsto> occ[i := True])\<rparr>)"
    have o: "owns ?w x p j = (if x = r then p = q \<and> j = i else owns w x p j)" for x p j by (auto simp: owns_def)
    have c: "occupied_slot ?w p j = (occupied_slot w p j \<or> (p = q \<and> j = i))" for p j
      using occ i by (auto simp: occupied_slot_def nth_list_update)
    have free: "\<not> owns w x q i" for x using token_invD(1) [OF assms(1), of q i] occ i by (simp add: occupied_slot_def)
    have r: "\<not> owns w r p j" for p j using assms(3) by (simp add: owns_def)
    have "token_inv ?w"
    proof (rule token_invI)
      show "occupied_slot ?w p j = (\<exists>x. owns ?w x p j)" for p j unfolding o c token_invD(1) [OF assms(1)] using r by metis
      show "owns ?w x p j \<Longrightarrow> owns ?w y p j \<Longrightarrow> x = y" for x y p j
        unfolding o using free token_invD(2) [OF assms(1)] by (auto split: if_splits)
    qed
    then show thesis using that [of True ?w] occ Some by (simp add: make_token_def)
  qed
qed

section \<open>Operations\<close>

lemma move_construct_inv:
  assumes "token_inv w" "to_owner (token_at r w) = None"
  shows "token_inv (move_construct r source w)"
  unfolding move_construct_def
  by (rule swap_inv, rule token_inv_cong [OF assms(1)]) (use assms(2) in auto)

lemma move_assign_inv:
  assumes "token_inv w"
  obtains w' where "move_assign r source w = Inr w'" "token_inv w'" "to_owner (token_at source w) = None \<or> r \<noteq> source \<Longrightarrow> to_owner (token_at source w') = None"
    "\<And>x. x \<noteq> r \<Longrightarrow> x \<noteq> source \<Longrightarrow> token_at x w' = token_at x w"
proof (cases "r = source")
  case True
  then show thesis using that [of w] assms by (auto simp: move_assign_def)
next
  case False
  obtain w' where "token_release r w = Inr w'" "token_inv w'" "to_owner (token_at r w') = None" "\<And>x. x \<noteq> r \<Longrightarrow> token_at x w' = token_at x w"
    using release_inv [OF assms] by metis
  then show thesis using that [of "token_swap r source w'"] swap_inv [of w' r source] False by (simp add: move_assign_def token_swap_def)
qed

lemma destroy_inv:
  assumes "token_inv w"
  obtains w' where "token_destroy r w = Inr w'" "token_inv w'" "\<And>x. to_owner (token_at x w) = None \<Longrightarrow> to_owner (token_at x w') = None"
proof -
  obtain w' where w': "token_release r w = Inr w'" "token_inv w'" "to_owner (token_at r w') = None" "\<And>x. x \<noteq> r \<Longrightarrow> token_at x w' = token_at x w"
    using release_inv [OF assms] by metis
  have "token_inv (drop_token r w')" by (rule token_inv_cong [OF w'(2)]) (use w'(3) in auto)
  then show thesis using that [of "drop_token r w'"] w' by (auto simp: token_destroy_def)
qed

lemma destroy_tokens_inv:
  "token_inv w \<Longrightarrow> to_owner (token_at x w) = None \<Longrightarrow> \<exists>w'. destroy_tokens rs w = Inr w' \<and> token_inv w' \<and> to_owner (token_at x w') = None"
proof (induction rs arbitrary: w)
  case (Cons r rs)
  obtain w' where "token_destroy r w = Inr w'" "token_inv w'" "to_owner (token_at x w') = None"
    using destroy_inv [OF Cons.prems(1)] Cons.prems(2) by metis
  then show ?case using Cons.IH by auto
qed simp

lemma local_token_inv:
  assumes "token_inv w" "tw_slots w q \<noteq> None" "to_owner (token_at Temporary w) = None"
  shows "\<exists>ok w'. local_token_for t q w = Inr (ok, w') \<and> token_inv w' \<and> to_owner (token_at Temporary w') = None"
proof -
  let ?r = "Local t q" and ?w1 = "if map_of (tw_tokens w) (Local t q) = None then put_token (Local t q) empty_token w else w"
  have w1: "token_inv ?w1" "tw_slots ?w1 q \<noteq> None" "to_owner (token_at Temporary ?w1) = None"
  proof -
    show "token_inv ?w1" by (rule token_inv_cong [OF assms(1)]) (auto simp: token_at_def put_token_def update_conv')
  qed (use assms(2,3) in auto)
  show ?thesis
  proof (cases "to_owner (token_at ?r ?w1)")
    case None
    obtain ok w2 where w2: "make_token Temporary q ?w1 = Inr (ok, w2)" "token_inv w2" using make_token_inv [OF w1] by metis
    obtain w3 where w3: "move_assign ?r Temporary w2 = Inr w3" "token_inv w3" "to_owner (token_at Temporary w3) = None"
      using move_assign_inv [OF w2(2), of ?r Temporary] by (metis token_ref.distinct(5))
    obtain w4 where w4: "token_destroy Temporary w3 = Inr w4" "token_inv w4" using destroy_inv [OF w3(2)] by metis
    have "to_owner (token_at Temporary w4) = None" using w4(1) by (auto simp: token_destroy_def split: sum.splits)
    moreover have "to_owner (token_at Temporary w2) = None" if "\<not> ok" using that w2(1) w1(3) by (auto simp: make_token_def split: option.splits)
    ultimately show ?thesis using None w2 w3 w4 unfolding local_token_for_def Let_def by (cases ok) auto
  qed (use w1 in \<open>auto simp: local_token_for_def Let_def\<close>)
qed

definition world_ok :: "token_world \<Rightarrow> bool" where
  "world_ok w \<longleftrightarrow> token_inv w \<and> to_owner (token_at Temporary w) = None"

lemma exists_token_fresh: "\<not> exists_token v w \<Longrightarrow> to_owner (token_at (Variable v) w) = None"
  by (simp add: exists_token_def token_at_def)

lemma queue_inv:
  assumes "token_inv w" "\<And>r. to_owner (token_at r w) \<noteq> Some q" "slots = None \<or> slots = Some (replicate n False)"
  shows "token_inv (w\<lparr>tw_slots := (tw_slots w)(q := slots)\<rparr>)" (is "token_inv ?w")
proof (rule token_invI)
  have o: "owns ?w = owns w" by (simp add: owns_def fun_eq_iff)
  have none: "\<not> owns w r q i" for r i using assms(2) by (simp add: owns_def)
  have "occupied_slot ?w p i = (p \<noteq> q \<and> occupied_slot w p i)" for p i using assms(3) by (auto simp: occupied_slot_def)
  then show "occupied_slot ?w p i = (\<exists>r. owns ?w r p i)" for p i unfolding o using none token_invD(1) [OF assms(1)] by auto
  show "owns ?w r p i \<Longrightarrow> owns ?w r' p i \<Longrightarrow> r = r'" for r r' p i unfolding o by (rule token_invD(2) [OF assms(1)])
qed

lemma unowned_iff: "unowned q w \<longleftrightarrow> (\<forall>r. to_owner (token_at r w) \<noteq> Some q)"
proof
  assume *: "unowned q w"
  show "\<forall>r. to_owner (token_at r w) \<noteq> Some q"
  proof
    fix r
    show "to_owner (token_at r w) \<noteq> Some q"
    proof (cases "map_of (tw_tokens w) r")
      case (Some token)
      then have "r \<in> set (map fst (tw_tokens w))" by (metis domI dom_map_of_conv_image_fst list.set_map)
      then show ?thesis using * by (auto simp: unowned_def list_all_iff)
    qed (simp add: token_at_def)
  qed
qed (simp add: unowned_def list_all_iff)

lemma absent_unowned: "token_inv w \<Longrightarrow> tw_slots w q = None \<Longrightarrow> to_owner (token_at r w) \<noteq> Some q"
  using token_invD(1) [of w q "to_slot (token_at r w)"] by (auto simp: occupied_slot_def owns_def)

lemma token_step_ok:
  assumes "world_ok w" "\<And>q. op = DestroyQueue q \<Longrightarrow> unowned q w"
  shows "\<exists>ok w'. token_step op w = Inr (ok, w') \<and> world_ok w'"
proof -
  have inv: "token_inv w" "to_owner (token_at Temporary w) = None" using assms(1) by (simp_all add: world_ok_def)
  show ?thesis
  proof (cases op)
    case (NewQueue q n)
    then show ?thesis using queue_inv [OF inv(1) absent_unowned [OF inv(1)], of q] inv by (auto simp: world_ok_def)
  next
    case (DestroyQueue q)
    then show ?thesis using queue_inv [OF inv(1), of q None] assms(2) inv by (auto simp: world_ok_def unowned_iff)
  next
    case (MakeToken v q)
    have "\<exists>ok w'. make_token (Variable v) q w = Inr (ok, w') \<and> world_ok w'" if "\<not> exists_token v w" "tw_slots w q \<noteq> None"
      using make_token_inv [OF inv(1) that(2) exists_token_fresh [OF that(1)]] inv(2) by (metis world_ok_def token_ref.distinct(3))
    then show ?thesis using MakeToken assms(1) by auto
  next
    case (MoveConstruct v u)
    have "world_ok (move_construct (Variable v) (Variable u) w)" if "\<not> exists_token v w"
      using move_construct_inv [OF inv(1) exists_token_fresh [OF that]] inv(2) by (simp add: world_ok_def) (simp add: move_construct_def token_swap_def)
    then show ?thesis using MoveConstruct assms(1) by auto
  next
    case (MoveAssign v u)
    obtain w' where "move_assign (Variable v) (Variable u) w = Inr w'" "world_ok w'"
      using move_assign_inv [OF inv(1), of "Variable v" "Variable u"] inv(2) by (metis world_ok_def token_ref.distinct(3))
    then show ?thesis using MoveAssign assms(1) by auto
  next
    case (DestroyToken v)
    obtain w' where "token_destroy (Variable v) w = Inr w'" "world_ok w'" using destroy_inv [OF inv(1)] inv(2) by (metis world_ok_def)
    then show ?thesis using DestroyToken assms(1) by auto
  next
    case (UseQueue t q)
    then show ?thesis using local_token_inv [OF inv(1) _ inv(2)] assms(1) by (auto simp: world_ok_def)
  next
    case (ExitThread t)
    then show ?thesis using destroy_tokens_inv [OF inv, of "filter (local_of t) (map fst (tw_tokens w))"] by (auto simp: world_ok_def)
  qed
qed

lemma token_run_ok: "world_ok w \<Longrightarrow> orderly ops w \<Longrightarrow> \<exists>oks w'. token_run ops w = Inr (oks, w') \<and> world_ok w'"
proof (induction ops arbitrary: w)
  case (Cons op ops)
  have "unowned q w" if "op = DestroyQueue q" for q using Cons.prems(2) that by simp
  then obtain ok w' where w': "token_step op w = Inr (ok, w')" "world_ok w'" using token_step_ok [OF Cons.prems(1)] by blast
  then show ?case using Cons.IH [OF w'(2)] Cons.prems(2) by auto
qed simp

section \<open>Acquisition, step by step\<close>

lemma goto_goto [simp]: "goto t pc (goto t pc' s) = goto t pc s"
  by (simp add: goto_def)

lemma acquire_from:
  assumes "mq_pc_of s t = AcqCas op j" "j \<le> mq_max_threads s"
  shows "case first_free (map (\<lambda>i. es_occupied (mq_slots s i)) [j ..< mq_max_threads s]) of
      None \<Rightarrow> mq_run (solo t (Suc (mq_max_threads s - j)) address) s = Inr (goto t Idle (s\<lparr>mq_log := mq_log s @ [RThrew]\<rparr>))
    | Some d \<Rightarrow> mq_run (solo t (Suc d) address) s =
        Inr (goto t (AcqLoad op (j + d)) (set_slot (j + d) (\<lambda>slot. slot\<lparr>es_occupied := True, es_retired := []\<rparr>) s))"
  using assms
proof (induction "mq_max_threads s - j" arbitrary: j s)
  case 0
  then show ?case by (simp add: solo_def thread_step_def acquire_cas_def)
next
  case (Suc n)
  then have j: "j < mq_max_threads s" "n = mq_max_threads s - Suc j" by simp_all
  let ?s = "goto t (AcqCas op (Suc j)) s"
  show ?case
  proof (cases "es_occupied (mq_slots s j)")
    case False
    then show ?thesis using Suc.prems(1) j(1) by (simp add: upt_conv_Cons solo_def thread_step_def acquire_cas_def)
  next
    case True
    have step: "thread_step t address False s = Inr ?s" using True Suc.prems(1) j(1) by (simp add: thread_step_def acquire_cas_def)
    have same: "mq_max_threads ?s = mq_max_threads s" "mq_slots ?s = mq_slots s" "mq_log ?s = mq_log s" "mq_pc_of ?s t = AcqCas op (Suc j)"
      by (simp_all add: goto_def)
    have log: "goto t Idle (?s\<lparr>mq_log := mq_log s @ [RThrew]\<rparr>) = goto t Idle (s\<lparr>mq_log := mq_log s @ [RThrew]\<rparr>)" by (simp add: goto_def)
    have slot: "goto t pc (set_slot i f ?s) = goto t pc (set_slot i f s)" for pc i f by (simp add: goto_def set_slot_def)
    have run: "mq_run (solo t (Suc m) address) s = mq_run (solo t m address) ?s" for m using step by (simp add: solo_def)
    have "Suc (mq_max_threads s - j) = Suc (Suc (mq_max_threads s - Suc j))" using j(1) by simp
    then show ?thesis
      using Suc.hyps(1) [of ?s "Suc j"] True j same log slot run by (auto simp: upt_conv_Cons split: option.splits)
  qed
qed

text \<open>A thread whose compare-and-swaps are not disturbed takes the slot \<open>first_free\<close> says, or throws.\<close>

lemma acquire_takes_first_free:
  assumes "mq_pc_of s t = AcqCas op 0"
  shows "case first_free (map (\<lambda>i. es_occupied (mq_slots s i)) [0 ..< mq_max_threads s]) of
      None \<Rightarrow> mq_run (solo t (Suc (mq_max_threads s)) address) s = Inr (goto t Idle (s\<lparr>mq_log := mq_log s @ [RThrew]\<rparr>))
    | Some i \<Rightarrow> mq_run (solo t (Suc i) address) s =
        Inr (goto t (AcqLoad op i) (set_slot i (\<lambda>slot. slot\<lparr>es_occupied := True, es_retired := []\<rparr>) s))"
  using acquire_from [OF assms] by (auto split: option.splits)

section \<open>Property\<close>

text \<open>C13: Slots are owned exclusively. In every program in which no queue is destroyed while a token refers to it, whatever tokens are made, moved, assigned, dropped and
  used by threads that come and go: no call reaches a destroyed queue, an occupied slot belongs to exactly one token, and every slot that a token refers to is
  occupied; so no two threads share a slot, and slots are neither leaked nor freed twice. The destructor of a queue at the end finds no slot occupied if no token is left.\<close>

theorem token_slots_exclusive:
  assumes "orderly ops new_token_world"
  shows "\<exists>oks w. token_run ops new_token_world = Inr (oks, w) \<and>
    (\<forall>q i. occupied_slot w q i \<longleftrightarrow> (\<exists>!r. owns w r q i)) \<and> (\<forall>q i r. owns w r q i \<longrightarrow> occupied_slot w q i) \<and>
    (\<forall>q slots. tw_slots w q = Some slots \<and> unowned q w \<longrightarrow> (\<forall>flag \<in> set slots. \<not> flag))"
proof -
  have "world_ok new_token_world" by (simp add: world_ok_def token_inv_def occupied_slot_def owns_def token_at_def new_token_world_def)
  then obtain oks w where w: "token_run ops new_token_world = Inr (oks, w)" "world_ok w" using token_run_ok assms by blast
  then have inv: "token_inv w" by (simp add: world_ok_def)
  have "\<not> flag" if "tw_slots w q = Some slots" "unowned q w" "flag \<in> set slots" for q slots flag
  proof -
    from that(3) obtain i where i: "i < length slots" "flag = slots ! i" by (metis in_set_conv_nth)
    then show ?thesis using token_invD(1) [OF inv, of q i] that(1,2) by (auto simp: occupied_slot_def owns_def unowned_iff)
  qed
  moreover have "occupied_slot w q i \<longleftrightarrow> (\<exists>!r. owns w r q i)" for q i using token_invD [OF inv] by metis
  moreover have "owns w r q i \<Longrightarrow> occupied_slot w q i" for q i r using token_invD(1) [OF inv] by blast
  ultimately show ?thesis using w(1) by blast
qed

definition moving_program :: "token_op list" where
  "moving_program = [NewQueue 5 2, MakeToken 0 5, UseQueue 1 5, UseQueue 2 5, MoveConstruct 1 0, DestroyToken 0, UseQueue 2 5, DestroyToken 1, UseQueue 2 5,
     ExitThread 1, ExitThread 2, DestroyQueue 5]"

theorem token_slots_exclusive_witness:
  "orderly moving_program new_token_world \<and>
   (\<exists>w. token_run moving_program new_token_world = Inr ([True, True, True, False, True, True, False, True, True, True, True, True], w) \<and>
     (\<forall>q i r. owns w r q i \<longrightarrow> occupied_slot w q i))"
proof
  show o: "orderly moving_program new_token_world" by code_simp
  have run: "case token_run moving_program new_token_world of Inl _ \<Rightarrow> False
     | Inr (oks, _) \<Rightarrow> oks = [True, True, True, False, True, True, False, True, True, True, True, True]" by code_simp
  then show "\<exists>w. token_run moving_program new_token_world = Inr ([True, True, True, False, True, True, False, True, True, True, True, True], w) \<and>
     (\<forall>q i r. owns w r q i \<longrightarrow> occupied_slot w q i)" using token_slots_exclusive [OF o] by auto
qed

text \<open>The condition matters: nothing removes the local token of a thread when the queue is destroyed. At the exit of the thread, the destroyed
  queue is called; and when another queue is constructed at the same address, the thread takes its old slot for one of the new queue, which another thread then
  acquires as well.\<close>

theorem stale_local_token:
  "isl (token_run [NewQueue 5 64, UseQueue 1 5, DestroyQueue 5, ExitThread 1] new_token_world) \<and>
   (case token_run [NewQueue 5 64, UseQueue 1 5, DestroyQueue 5, NewQueue 5 64, UseQueue 1 5, UseQueue 2 5] new_token_world of
      Inl _ \<Rightarrow> False | Inr (oks, w) \<Rightarrow> owns w (Local 1 5) 5 0 \<and> owns w (Local 2 5) 5 0)"
  by code_simp

end
