(* ===== verification/Observability.thy ===== *)
theory Observability
  imports Binary64 Cxx_Text Ring_Queue Block_Pool
begin

text \<open>
  The observability stack of \<open>tooling/observability-stack\<close>. Publishers wrap metric points and spans in envelopes, objects of
  an \<open>ObjectPool\<close>, and push their pointers into a ring queue; \<open>flush\<close> takes them out, accumulates metrics, evaluates the
  alert rules and records events in a bounded history.

  \<open>rules_\<close> is iterated, so it is an association list; the order of an \<open>unordered_map\<close> is not specified, and no theorem
  depends on it. \<open>obs_error\<close> has the exceptions and the undefined behaviour of the code: the use of an envelope that
  is not alive, and a span whose duration is not an \<open>int64_t\<close>.
\<close>

section \<open>Types\<close>

datatype EventKind = kMetric | kSpan | kAlert

datatype MetricType = kCounter | kGauge | kHistogram

datatype AlertSeverity = kInfo | kWarning | kCritical

record TraceContext =
  tc_trace_id :: string
  tc_span_id :: string
  tc_parent_span_id :: string
  tc_component :: string

record MetricPoint =
  mp_name :: string
  mp_value :: double
  mp_timestamp :: i64
  mp_type :: MetricType
  mp_trace_context :: TraceContext

record TraceSpan =
  ts_context :: TraceContext
  ts_operation :: string
  ts_start_timestamp :: i64
  ts_end_timestamp :: i64
  ts_success :: bool

record AlertRule =
  ar_rule_id :: string
  ar_metric_name :: string
  ar_threshold :: double
  ar_consecutive_breaches :: u64
  ar_severity :: AlertSeverity

record AlertNotification =
  an_rule_id :: string
  an_metric_name :: string
  an_observed_value :: double
  an_threshold :: double
  an_breach_count :: u64
  an_timestamp :: i64
  an_severity :: AlertSeverity
  an_trace_context :: TraceContext

record MetricSnapshot =
  sn_name :: string
  sn_type :: MetricType
  sn_samples :: u64
  sn_sum :: double
  sn_last :: double
  sn_min :: double
  sn_max :: double

record TelemetryEvent =
  te_kind :: EventKind
  te_name :: string
  te_component :: string
  te_trace_id :: string
  te_value :: double
  te_timestamp :: i64
  te_success :: bool
  te_severity :: AlertSeverity

datatype PublishStatus = kEnqueued | obs_kQueueFull

definition pub_ok :: "PublishStatus \<Rightarrow> bool" where
  "pub_ok status = (status = kEnqueued)"

record Envelope =
  env_kind :: EventKind
  env_metric :: MetricPoint
  env_span :: TraceSpan

record MetricAccumulator =
  ma_type :: MetricType
  ma_samples :: u64
  ma_sum :: double
  ma_last :: double
  ma_min :: double
  ma_max :: double

record ObservabilityStack =
  os_history_limit :: u64
  os_queue :: "block SpscRingQueue"
  os_envelope_pool :: "Envelope ObjectPool"
  os_metrics :: "string \<rightharpoonup> MetricAccumulator"
  os_rules :: "(string \<times> AlertRule) list"
  os_breach_counts :: "string \<rightharpoonup> u64"
  os_alerts :: "AlertNotification list"
  os_history :: "TelemetryEvent list"
  os_dropped_events :: u64

datatype obs_error = ObsQueue ring_error | ObsPool pool_error | HistoryLimitZero | RuleIdEmpty | MetricNameEmpty | ZeroBreaches
  | DanglingEnvelope | DurationOverflow

text \<open>The values \<open>{}\<close> of the structures.\<close>

definition empty_TraceContext :: TraceContext where
  "empty_TraceContext = \<lparr>tc_trace_id = [], tc_span_id = [], tc_parent_span_id = [], tc_component = []\<rparr>"

definition empty_MetricPoint :: MetricPoint where
  "empty_MetricPoint = \<lparr>mp_name = [], mp_value = 0, mp_timestamp = 0, mp_type = kCounter, mp_trace_context = empty_TraceContext\<rparr>"

definition empty_TraceSpan :: TraceSpan where
  "empty_TraceSpan = \<lparr>ts_context = empty_TraceContext, ts_operation = [], ts_start_timestamp = 0, ts_end_timestamp = 0, ts_success = True\<rparr>"

definition empty_Envelope :: Envelope where
  "empty_Envelope = \<lparr>env_kind = kMetric, env_metric = empty_MetricPoint, env_span = empty_TraceSpan\<rparr>"

definition empty_MetricAccumulator :: MetricAccumulator where
  "empty_MetricAccumulator = \<lparr>ma_type = kCounter, ma_samples = 0, ma_sum = 0, ma_last = 0, ma_min = 0, ma_max = 0\<rparr>"

section \<open>Construction and publication\<close>

definition kEnvelopePoolBlocksPerSlab :: u64 where
  "kEnvelopePoolBlocksPerSlab = 512"

definition kEnvelopePoolLocalCacheLimit :: u64 where
  "kEnvelopePoolLocalCacheLimit = 128"

text \<open>\<open>sizeof_Envelope\<close> is the size of an envelope, which the platform determines.\<close>

definition new_ObservabilityStack :: "u64 \<Rightarrow> u64 \<Rightarrow> u64 \<Rightarrow> obs_error + ObservabilityStack" where
  "new_ObservabilityStack sizeof_Envelope queue_capacity history_limit =
     (case new_SpscRingQueue queue_capacity of
        Inl e \<Rightarrow> Inl (ObsQueue e)
      | Inr queue \<Rightarrow>
     (case new_ObjectPool sizeof_Envelope kEnvelopePoolBlocksPerSlab kEnvelopePoolLocalCacheLimit of
        Inl e \<Rightarrow> Inl (ObsPool e)
      | Inr pool \<Rightarrow>
          if history_limit = 0 then Inl HistoryLimitZero
          else Inr \<lparr>os_history_limit = history_limit, os_queue = queue, os_envelope_pool = pool, os_metrics = Map.empty, os_rules = [],
                os_breach_counts = Map.empty, os_alerts = [], os_history = [], os_dropped_events = 0\<rparr>))"

text \<open>An assignment through the pointer of a live envelope.\<close>

definition store_envelope :: "block \<Rightarrow> Envelope \<Rightarrow> Envelope ObjectPool \<Rightarrow> Envelope ObjectPool" where
  "store_envelope envelope value pool = pool\<lparr>op_objects := (op_objects pool)(envelope \<mapsto> value)\<rparr>"

definition make_metric_envelope :: "thread \<Rightarrow> MetricPoint \<Rightarrow> ObservabilityStack \<Rightarrow> obs_error + block \<times> ObservabilityStack" where
  "make_metric_envelope t point s =
     (case op_create t empty_Envelope (os_envelope_pool s) of
        Inl e \<Rightarrow> Inl (ObsPool e)
      | Inr (envelope, pool) \<Rightarrow>
          Inr (envelope, s\<lparr>os_envelope_pool := store_envelope envelope \<lparr>env_kind = kMetric, env_metric = point, env_span = empty_TraceSpan\<rparr> pool\<rparr>))"

definition make_span_envelope :: "thread \<Rightarrow> TraceSpan \<Rightarrow> ObservabilityStack \<Rightarrow> obs_error + block \<times> ObservabilityStack" where
  "make_span_envelope t trace_span s =
     (case op_create t empty_Envelope (os_envelope_pool s) of
        Inl e \<Rightarrow> Inl (ObsPool e)
      | Inr (envelope, pool) \<Rightarrow>
          Inr (envelope, s\<lparr>os_envelope_pool := store_envelope envelope \<lparr>env_kind = kSpan, env_metric = empty_MetricPoint, env_span = trace_span\<rparr> pool\<rparr>))"

text \<open>The part that \<open>publish_metric\<close> and \<open>publish_span\<close> have in common.\<close>

definition publish_envelope :: "thread \<Rightarrow> obs_error + block \<times> ObservabilityStack \<Rightarrow> obs_error + PublishStatus \<times> ObservabilityStack" where
  "publish_envelope t made =
     (case made of
        Inl e \<Rightarrow> Inl e
      | Inr (envelope, s) \<Rightarrow>
          let (pushed, queue) = rq_push envelope (os_queue s); s1 = s\<lparr>os_queue := queue\<rparr>
          in if \<not> pushed
             then Inr (obs_kQueueFull, s1\<lparr>os_envelope_pool := op_destroy t (Some envelope) (os_envelope_pool s1),
                                          os_dropped_events := os_dropped_events s1 + 1\<rparr>)
             else Inr (kEnqueued, s1))"

definition publish_metric :: "thread \<Rightarrow> MetricPoint \<Rightarrow> ObservabilityStack \<Rightarrow> obs_error + PublishStatus \<times> ObservabilityStack" where
  "publish_metric t point s = publish_envelope t (make_metric_envelope t point s)"

definition publish_span :: "thread \<Rightarrow> TraceSpan \<Rightarrow> ObservabilityStack \<Rightarrow> obs_error + PublishStatus \<times> ObservabilityStack" where
  "publish_span t trace_span s = publish_envelope t (make_span_envelope t trace_span s)"

definition register_rule :: "AlertRule \<Rightarrow> ObservabilityStack \<Rightarrow> obs_error + ObservabilityStack" where
  "register_rule rule s =
     (if ar_rule_id rule = [] then Inl RuleIdEmpty
      else if ar_metric_name rule = [] then Inl MetricNameEmpty
      else if ar_consecutive_breaches rule = 0 then Inl ZeroBreaches
      else Inr (s\<lparr>os_breach_counts := (os_breach_counts s)(ar_rule_id rule := None),
                  os_rules := AList.update (ar_rule_id rule) rule (os_rules s)\<rparr>))"

section \<open>Processing\<close>

definition record_event :: "TelemetryEvent \<Rightarrow> ObservabilityStack \<Rightarrow> ObservabilityStack" where
  "record_event event s =
     s\<lparr>os_history := (if length (os_history s) = unat (os_history_limit s) then tl (os_history s) else os_history s) @ [event]\<rparr>"

definition alert_notification :: "AlertRule \<Rightarrow> MetricPoint \<Rightarrow> u64 \<Rightarrow> AlertNotification" where
  "alert_notification rule point breach_count =
     \<lparr>an_rule_id = ar_rule_id rule, an_metric_name = ar_metric_name rule, an_observed_value = mp_value point, an_threshold = ar_threshold rule,
      an_breach_count = breach_count, an_timestamp = mp_timestamp point, an_severity = ar_severity rule, an_trace_context = mp_trace_context point\<rparr>"

definition alert_event :: "AlertRule \<Rightarrow> MetricPoint \<Rightarrow> TelemetryEvent" where
  "alert_event rule point =
     \<lparr>te_kind = kAlert, te_name = ar_rule_id rule, te_component = tc_component (mp_trace_context point),
      te_trace_id = tc_trace_id (mp_trace_context point), te_value = mp_value point, te_timestamp = mp_timestamp point,
      te_success = False, te_severity = ar_severity rule\<rparr>"

definition emit_alert :: "AlertRule \<Rightarrow> MetricPoint \<Rightarrow> u64 \<Rightarrow> ObservabilityStack \<Rightarrow> ObservabilityStack" where
  "emit_alert rule point breach_count s =
     record_event (alert_event rule point) (s\<lparr>os_alerts := os_alerts s @ [alert_notification rule point breach_count]\<rparr>)"

text \<open>One rule, and the loop over the rules. \<open>breach_counts_[rule_id]\<close> is zero when it is new.\<close>

definition evaluate_rule :: "string \<Rightarrow> AlertRule \<Rightarrow> MetricPoint \<Rightarrow> ObservabilityStack \<Rightarrow> ObservabilityStack" where
  "evaluate_rule rule_id rule point s =
     (if ar_metric_name rule \<noteq> mp_name point then s
      else let breach_count = (case os_breach_counts s rule_id of None \<Rightarrow> 0 | Some c \<Rightarrow> c) in
           if ar_threshold rule \<le> mp_value point
           then let breach_count' = breach_count + 1;
                    s1 = (if breach_count' = ar_consecutive_breaches rule then emit_alert rule point breach_count' s else s)
                in s1\<lparr>os_breach_counts := (os_breach_counts s1)(rule_id \<mapsto> min breach_count' (ar_consecutive_breaches rule))\<rparr>
           else s\<lparr>os_breach_counts := (os_breach_counts s)(rule_id \<mapsto> 0)\<rparr>)"

fun evaluate_rules_loop :: "(string \<times> AlertRule) list \<Rightarrow> MetricPoint \<Rightarrow> ObservabilityStack \<Rightarrow> ObservabilityStack" where
  "evaluate_rules_loop [] point s = s"
| "evaluate_rules_loop ((rule_id, rule) # rules) point s = evaluate_rules_loop rules point (evaluate_rule rule_id rule point s)"

definition evaluate_rules :: "MetricPoint \<Rightarrow> ObservabilityStack \<Rightarrow> ObservabilityStack" where
  "evaluate_rules point s = evaluate_rules_loop (os_rules s) point s"

definition metric_event :: "MetricPoint \<Rightarrow> TelemetryEvent" where
  "metric_event point =
     \<lparr>te_kind = kMetric, te_name = mp_name point, te_component = tc_component (mp_trace_context point),
      te_trace_id = tc_trace_id (mp_trace_context point), te_value = mp_value point, te_timestamp = mp_timestamp point,
      te_success = True, te_severity = kInfo\<rparr>"

definition accumulate :: "MetricPoint \<Rightarrow> MetricAccumulator \<Rightarrow> MetricAccumulator" where
  "accumulate point accumulator =
     (let a = (if ma_samples accumulator = 0
               then accumulator\<lparr>ma_type := mp_type point, ma_min := mp_value point, ma_max := mp_value point\<rparr>
               else accumulator\<lparr>ma_min := std_min (ma_min accumulator) (mp_value point), ma_max := std_max (ma_max accumulator) (mp_value point)\<rparr>)
      in a\<lparr>ma_samples := ma_samples a + 1, ma_sum := ma_sum a + mp_value point, ma_last := mp_value point\<rparr>)"

definition process_metric :: "MetricPoint \<Rightarrow> ObservabilityStack \<Rightarrow> ObservabilityStack" where
  "process_metric point s =
     (let accumulator = (case os_metrics s (mp_name point) of None \<Rightarrow> empty_MetricAccumulator | Some a \<Rightarrow> a)
      in evaluate_rules point (record_event (metric_event point) (s\<lparr>os_metrics := (os_metrics s)(mp_name point \<mapsto> accumulate point accumulator)\<rparr>)))"

text \<open>\<open>end_timestamp - start_timestamp\<close> is undefined when it is not an \<open>int64_t\<close>.\<close>

definition span_duration :: "TraceSpan \<Rightarrow> int" where
  "span_duration trace_span = ts_end_timestamp trace_span - ts_start_timestamp trace_span"

definition duration_ok :: "TraceSpan \<Rightarrow> bool" where
  "duration_ok trace_span \<longleftrightarrow> - (2 ^ 63) \<le> span_duration trace_span \<and> span_duration trace_span < 2 ^ 63"

definition span_event :: "TraceSpan \<Rightarrow> TelemetryEvent" where
  "span_event trace_span =
     \<lparr>te_kind = kSpan, te_name = ts_operation trace_span, te_component = tc_component (ts_context trace_span), te_trace_id = tc_trace_id (ts_context trace_span),
      te_value = dint (span_duration trace_span), te_timestamp = ts_end_timestamp trace_span, te_success = ts_success trace_span, te_severity = kInfo\<rparr>"

definition process_span :: "TraceSpan \<Rightarrow> ObservabilityStack \<Rightarrow> obs_error + ObservabilityStack" where
  "process_span trace_span s = (if duration_ok trace_span then Inr (record_event (span_event trace_span) s) else Inl DurationOverflow)"

definition process_envelope :: "Envelope \<Rightarrow> ObservabilityStack \<Rightarrow> obs_error + ObservabilityStack" where
  "process_envelope value s =
     (case env_kind value of
        kMetric \<Rightarrow> Inr (process_metric (env_metric value) s)
      | kSpan \<Rightarrow> process_span (env_span value) s
      | kAlert \<Rightarrow> Inr s)"

text \<open>Processing does not touch the queue or the pool.\<close>

definition same_transport :: "ObservabilityStack \<Rightarrow> ObservabilityStack \<Rightarrow> bool" where
  "same_transport s s' \<longleftrightarrow> os_queue s' = os_queue s \<and> os_envelope_pool s' = os_envelope_pool s \<and> os_history_limit s' = os_history_limit s \<and>
     os_rules s' = os_rules s \<and> os_dropped_events s' = os_dropped_events s"

lemma evaluate_rule_transport: "same_transport s (evaluate_rule rule_id rule point s)"
  by (simp add: evaluate_rule_def emit_alert_def record_event_def same_transport_def Let_def)

lemma evaluate_rules_loop_transport: "same_transport s (evaluate_rules_loop rules point s)"
proof (induction rules point s rule: evaluate_rules_loop.induct)
  case (2 rule_id rule rules point s)
  then show ?case using evaluate_rule_transport [of s rule_id rule point] by (simp add: same_transport_def)
qed (simp add: same_transport_def)

lemma process_metric_transport: "same_transport s (process_metric point s)"
  using evaluate_rules_loop_transport by (auto simp: process_metric_def evaluate_rules_def same_transport_def record_event_def Let_def)

lemma process_envelope_transport: "process_envelope value s = Inr s' \<Longrightarrow> same_transport s s'"
  using process_metric_transport by (auto simp: process_envelope_def process_span_def record_event_def same_transport_def split: EventKind.splits if_splits)

text \<open>The body of the loop of \<open>flush\<close> after a pop: the envelope is read, processed and destroyed.\<close>

definition flush_one :: "thread \<Rightarrow> block \<Rightarrow> ObservabilityStack \<Rightarrow> obs_error + ObservabilityStack" where
  "flush_one t envelope s =
     (case op_objects (os_envelope_pool s) envelope of
        None \<Rightarrow> Inl DanglingEnvelope
      | Some value \<Rightarrow>
     (case process_envelope value s of
        Inl e \<Rightarrow> Inl e
      | Inr s1 \<Rightarrow> Inr (s1\<lparr>os_envelope_pool := op_destroy t (Some envelope) (os_envelope_pool s1)\<rparr>)))"

lemma flush_one_queue: "flush_one t envelope s = Inr s' \<Longrightarrow> os_queue s' = os_queue s"
  using process_envelope_transport by (auto simp: flush_one_def same_transport_def split: option.splits sum.splits)

function flush_loop :: "thread \<Rightarrow> u64 \<Rightarrow> ObservabilityStack \<Rightarrow> obs_error + u64 \<times> ObservabilityStack" where
  "flush_loop t processed s =
     (let s1 = s\<lparr>os_queue := snd (rq_try_pop (os_queue s))\<rparr> in
      case fst (rq_try_pop (os_queue s)) of
        None \<Rightarrow> Inr (processed, s1)
      | Some envelope \<Rightarrow>
     (case flush_one t envelope s1 of Inl e \<Rightarrow> Inl e | Inr s2 \<Rightarrow> flush_loop t (processed + 1) s2))"
  by pat_completeness auto
termination
  by (relation "measure (\<lambda>(t, processed, s). rq_len (os_queue s))") (auto dest!: flush_one_queue intro: rq_pop_shorter)

declare flush_loop.simps [simp del]

definition os_flush :: "thread \<Rightarrow> ObservabilityStack \<Rightarrow> obs_error + u64 \<times> ObservabilityStack" where
  "os_flush t s = flush_loop t 0 s"

function drain_and_dispose_pending :: "thread \<Rightarrow> ObservabilityStack \<Rightarrow> ObservabilityStack" where
  "drain_and_dispose_pending t s =
     (let s1 = s\<lparr>os_queue := snd (rq_try_pop (os_queue s))\<rparr> in
      case fst (rq_try_pop (os_queue s)) of
        None \<Rightarrow> s1
      | Some envelope \<Rightarrow> drain_and_dispose_pending t (s1\<lparr>os_envelope_pool := op_destroy t (Some envelope) (os_envelope_pool s1)\<rparr>))"
  by pat_completeness auto
termination
  by (relation "measure (\<lambda>(t, s). rq_len (os_queue s))") (auto dest: rq_pop_shorter)

declare drain_and_dispose_pending.simps [simp del]

section \<open>Queries\<close>

definition metric_snapshot :: "string \<Rightarrow> ObservabilityStack \<Rightarrow> MetricSnapshot option" where
  "metric_snapshot metric_name s =
     (case os_metrics s metric_name of
        None \<Rightarrow> None
      | Some a \<Rightarrow> Some \<lparr>sn_name = metric_name, sn_type = ma_type a, sn_samples = ma_samples a, sn_sum = ma_sum a, sn_last = ma_last a,
                      sn_min = ma_min a, sn_max = ma_max a\<rparr>)"

definition pending_events :: "ObservabilityStack \<Rightarrow> u64" where
  "pending_events s = rq_size_approx (os_queue s)"

definition child_context :: "TraceContext \<Rightarrow> string \<Rightarrow> u64 \<Rightarrow> TraceContext" where
  "child_context parent component sequence =
     (let suffix = show_u64 sequence in
      \<lparr>tc_trace_id = (if tc_trace_id parent = [] then component @ ''-trace-'' @ suffix else tc_trace_id parent),
       tc_span_id = (if tc_span_id parent = [] then component @ ''-span-'' @ suffix else tc_span_id parent @ ''.'' @ suffix),
       tc_parent_span_id = tc_span_id parent,
       tc_component = component\<rparr>)"

end
