(* ===== verification/Pointer_Queue.thy ===== *)
theory Pointer_Queue
  imports Ring_Queue Block_Pool
begin

text \<open>
  The pattern the observability stack and the performance toolkit share: a queue of pointers to objects of a pool. The queue holds the
  addresses of the live objects, each once, and no other object is alive. The locale \<open>pointer_queue\<close> combines the contract of a
  bounded queue with the contract of an object store; the ring queue and the object pool instantiate it.
\<close>

definition holds_objects :: "'b list \<Rightarrow> ('b \<rightharpoonup> 'a) \<Rightarrow> 'a list \<Rightarrow> bool" where
  "holds_objects bs m xs \<longleftrightarrow> distinct bs \<and> set bs = dom m \<and> map m bs = map Some xs"

lemma holds_length: "holds_objects bs m xs \<Longrightarrow> length bs = length xs"
  unfolding holds_objects_def by (metis length_map)

lemma holds_Nil: "holds_objects bs m [] \<longleftrightarrow> bs = [] \<and> m = Map.empty"
  by (auto simp: holds_objects_def simp flip: dom_eq_empty_conv)

lemma holds_snoc: "holds_objects bs m xs \<Longrightarrow> b \<notin> dom m \<Longrightarrow> holds_objects (bs @ [b]) (m(b \<mapsto> x)) (xs @ [x])"
proof -
  assume h: "holds_objects bs m xs" and b: "b \<notin> dom m"
  then have "map (m(b \<mapsto> x)) bs = map m bs" by (auto simp: holds_objects_def)
  then show ?thesis using h b by (simp add: holds_objects_def)
qed

lemma holds_Cons:
  assumes "holds_objects bs m (x # xs)"
  obtains b where "bs = b # tl bs" "m b = Some x" "b \<in> dom m" "holds_objects (tl bs) (m(b := None)) xs"
proof -
  obtain b cs where bs: "bs = b # cs" using assms by (cases bs) (auto simp: holds_objects_def)
  then have "b \<notin> set cs" "m b = Some x" "insert b (set cs) = dom m" "distinct cs" "map m cs = map Some xs"
    using assms by (auto simp: holds_objects_def)
  moreover from this have "map (m(b := None)) cs = map m cs" by auto
  ultimately have "holds_objects cs (m(b := None)) xs" by (auto simp: holds_objects_def)
  then show thesis using that [of b] bs \<open>m b = Some x\<close> by auto
qed

locale pointer_queue = bounded_fifo push try_pop contents wf cap + object_store create destroy objects inv
  for push :: "'b \<Rightarrow> 'q \<Rightarrow> bool \<times> 'q"
    and try_pop :: "'q \<Rightarrow> 'b option \<times> 'q"
    and contents :: "'q \<Rightarrow> 'b list"
    and wf :: "'q \<Rightarrow> bool"
    and cap :: "'q \<Rightarrow> nat"
    and create :: "'t \<Rightarrow> 'a \<Rightarrow> 'p \<Rightarrow> 'e + 'b \<times> 'p"
    and destroy :: "'t \<Rightarrow> 'b option \<Rightarrow> 'p \<Rightarrow> 'p"
    and objects :: "'p \<Rightarrow> 'b \<rightharpoonup> 'a"
    and inv :: "'p \<Rightarrow> bool"
begin

text \<open>A new object is queued, or destroyed when the queue is full.\<close>

lemma offer:
  assumes "wf q" "holds_objects (contents q) (objects p) xs" "b \<notin> dom (objects p)" "objects p' = (objects p)(b \<mapsto> x)" "inv p'"
  shows "fst (push b q) = (length xs < cap q)" "cap (snd (push b q)) = cap q" "wf (snd (push b q))"
    and "length xs < cap q \<Longrightarrow> holds_objects (contents (snd (push b q))) (objects p') (xs @ [x])"
    and "\<not> length xs < cap q \<Longrightarrow> inv (destroy t (Some b) p') \<and> holds_objects (contents (snd (push b q))) (objects (destroy t (Some b) p')) xs"
proof -
  note p = push_law [OF assms(1), of b] holds_length [OF assms(2)]
  show "fst (push b q) = (length xs < cap q)" "cap (snd (push b q)) = cap q" "wf (snd (push b q))" using p by simp_all
  show "length xs < cap q \<Longrightarrow> holds_objects (contents (snd (push b q))) (objects p') (xs @ [x])"
    using p holds_snoc [OF assms(2,3), of x] assms(4) by simp
  have "b \<in> dom (objects p')" "(objects p')(b := None) = objects p" using assms(3,4) by auto
  then show "\<not> length xs < cap q \<Longrightarrow> inv (destroy t (Some b) p') \<and> holds_objects (contents (snd (push b q))) (objects (destroy t (Some b) p')) xs"
    using p assms(2) destroy_law [OF assms(5), of b t] by simp
qed

text \<open>The oldest object is taken out and destroyed.\<close>

lemma take_out:
  assumes "wf q" "inv p" "holds_objects (contents q) (objects p) (x # xs)"
  obtains b where "fst (try_pop q) = Some b" "objects p b = Some x" "wf (snd (try_pop q))" "cap (snd (try_pop q)) = cap q"
    "inv (destroy t (Some b) p)" "holds_objects (contents (snd (try_pop q))) (objects (destroy t (Some b) p)) xs"
proof -
  obtain b where b: "contents q = b # tl (contents q)" "objects p b = Some x" "b \<in> dom (objects p)"
    "holds_objects (tl (contents q)) ((objects p)(b := None)) xs" using holds_Cons [OF assms(3)] .
  have "fst (try_pop q) = Some b" using pop_law [OF assms(1)] by (subst (asm) b(1)) simp
  then show thesis using that [of b] pop_law [OF assms(1)] destroy_law [OF assms(2) b(3), of t] b(2,4) by simp
qed

lemma take_none:
  assumes "wf q" "holds_objects (contents q) (objects p) []"
  shows "fst (try_pop q) = None" "wf (snd (try_pop q))" "cap (snd (try_pop q)) = cap q" "contents (snd (try_pop q)) = []" "objects p = Map.empty"
  using pop_law [OF assms(1)] assms(2) [unfolded holds_Nil] by simp_all

end

interpretation pq: pointer_queue rq_push rq_try_pop rq_contents rq_wf "\<lambda>q. unat (rq_capacity q)" op_create op_destroy op_objects op_inv
  by unfold_locales

section \<open>The ring of pointers\<close>

definition pq_ok :: "block SpscRingQueue \<Rightarrow> 'a ObjectPool \<Rightarrow> 'a list \<Rightarrow> bool" where
  "pq_ok q p xs \<longleftrightarrow> rq_wf q \<and> op_inv p \<and> holds_objects (rq_contents q) (op_objects p) xs"

lemma pq_new:
  assumes "new_SpscRingQueue c = Inr q" "new_ObjectPool sz n limit = Inr p" "unat (max sz 8) * unat n < 2 ^ 64"
  shows "pq_ok q p []"
  using rq_wf_new [OF assms(1)] op_inv_new [OF assms(2,3)] by (simp add: pq_ok_def holds_Nil)

lemma pq_size: "pq_ok q p xs \<Longrightarrow> rq_size_approx q = of_nat (length xs)"
  using holds_length [of "rq_contents q" "op_objects p" xs, symmetric] by (simp add: pq_ok_def rq_size_approx_def rq_len_def)

lemma pq_create:
  assumes "pq_ok q p xs"
  obtains b p' where "op_create t v p = Inr (b, p')" "b \<notin> dom (op_objects p)" "op_objects p' = (op_objects p)(b \<mapsto> v)" "op_inv p'"
  using assms op.create_law [of p t v] unfolding pq_ok_def by blast

lemma pq_push:
  assumes "pq_ok q p xs" "b \<notin> dom (op_objects p)" "op_objects p' = (op_objects p)(b \<mapsto> x)" "op_inv p'"
  shows "fst (rq_push b q) = (length xs < unat (rq_capacity q))" "rq_capacity (snd (rq_push b q)) = rq_capacity q"
    and "length xs < unat (rq_capacity q) \<Longrightarrow> pq_ok (snd (rq_push b q)) p' (xs @ [x])"
    and "\<not> length xs < unat (rq_capacity q) \<Longrightarrow> pq_ok (snd (rq_push b q)) (op_destroy t (Some b) p') xs"
proof -
  have ok: "rq_wf q" "holds_objects (rq_contents q) (op_objects p) xs" using assms(1) by (simp_all add: pq_ok_def)
  note offer = pq.offer [OF ok assms(2-4)]
  show "fst (rq_push b q) = (length xs < unat (rq_capacity q))" by (rule offer(1))
  show "rq_capacity (snd (rq_push b q)) = rq_capacity q" using offer(2) by (simp add: word_unat_eq_iff)
  show "length xs < unat (rq_capacity q) \<Longrightarrow> pq_ok (snd (rq_push b q)) p' (xs @ [x])" using offer(3,4) assms(4) by (simp add: pq_ok_def)
  show "\<not> length xs < unat (rq_capacity q) \<Longrightarrow> pq_ok (snd (rq_push b q)) (op_destroy t (Some b) p') xs"
    using offer(3) offer(5) [of t] by (simp add: pq_ok_def)
qed

lemma pq_pop_empty:
  assumes "pq_ok q p []"
  shows "fst (rq_try_pop q) = None" "pq_ok (snd (rq_try_pop q)) p []" "op_objects p = Map.empty" "rq_capacity (snd (rq_try_pop q)) = rq_capacity q"
  using pq.take_none [of q p] assms by (simp_all add: pq_ok_def holds_Nil word_unat_eq_iff)

lemma pq_pop:
  assumes "pq_ok q p (x # xs)"
  obtains b where "fst (rq_try_pop q) = Some b" "op_objects p b = Some x" "pq_ok (snd (rq_try_pop q)) (op_destroy t (Some b) p) xs"
    "rq_capacity (snd (rq_try_pop q)) = rq_capacity q"
  using pq.take_out [of q p x xs t thesis] assms unfolding pq_ok_def by (auto simp: word_unat_eq_iff)

end
