(* ===== verification/Obs_Props.thy ===== *)
theory Obs_Props
  imports Observability Pointer_Queue "HOL-Library.Sublist"
begin

text \<open>
  The observability stack against its specification. An abstract stack has a bounded list of pending inputs, the trace of the
  inputs that were processed (samples, spans and registrations of rules, in order) and a number of dropped inputs. The stack of
  the code answers like it; its metrics, alerts and history are functions of the trace.
\<close>

section \<open>Specification\<close>

datatype obs_input = Registered AlertRule | Sample MetricPoint | Traced TraceSpan

datatype os_action = PublishMetric thread MetricPoint | PublishSpan thread TraceSpan | RegisterRule AlertRule | Flush thread

datatype os_output = Published PublishStatus | RuleAdded | RuleRefused obs_error | Flushed u64

text \<open>The calls of the code in sequence; a rule that is refused with an exception leaves the stack as it was.\<close>

definition publish_out :: "obs_error + PublishStatus \<times> ObservabilityStack \<Rightarrow> obs_error + os_output \<times> ObservabilityStack" where
  "publish_out r = (case r of Inl e \<Rightarrow> Inl e | Inr (status, s) \<Rightarrow> Inr (Published status, s))"

fun os_step :: "os_action \<Rightarrow> ObservabilityStack \<Rightarrow> obs_error + os_output \<times> ObservabilityStack" where
  "os_step (PublishMetric t point) s = publish_out (publish_metric t point s)"
| "os_step (PublishSpan t sp) s = publish_out (publish_span t sp s)"
| "os_step (RegisterRule rule) s = (case register_rule rule s of Inl e \<Rightarrow> Inr (RuleRefused e, s) | Inr s' \<Rightarrow> Inr (RuleAdded, s'))"
| "os_step (Flush t) s = (case os_flush t s of Inl e \<Rightarrow> Inl e | Inr (n, s') \<Rightarrow> Inr (Flushed n, s'))"

fun os_run :: "os_action list \<Rightarrow> ObservabilityStack \<Rightarrow> obs_error + os_output list \<times> ObservabilityStack" where
  "os_run [] s = Inr ([], s)"
| "os_run (action # actions) s =
     (case os_step action s of
        Inl e \<Rightarrow> Inl e
      | Inr (out, s1) \<Rightarrow> (case os_run actions s1 of Inl e \<Rightarrow> Inl e | Inr (outs, s2) \<Rightarrow> Inr (out # outs, s2)))"

record obs_spec =
  sp_pending :: "obs_input list"
  sp_trace :: "obs_input list"
  sp_dropped :: nat

definition spec_offer :: "nat \<Rightarrow> obs_input \<Rightarrow> obs_spec \<Rightarrow> os_output \<times> obs_spec" where
  "spec_offer capacity x a =
     (if length (sp_pending a) < capacity then (Published kEnqueued, a\<lparr>sp_pending := sp_pending a @ [x]\<rparr>)
      else (Published obs_kQueueFull, a\<lparr>sp_dropped := Suc (sp_dropped a)\<rparr>))"

definition rule_refusal :: "AlertRule \<Rightarrow> obs_error option" where
  "rule_refusal rule =
     (if ar_rule_id rule = [] then Some RuleIdEmpty else if ar_metric_name rule = [] then Some MetricNameEmpty
      else if ar_consecutive_breaches rule = 0 then Some ZeroBreaches else None)"

fun spec_step :: "nat \<Rightarrow> os_action \<Rightarrow> obs_spec \<Rightarrow> os_output \<times> obs_spec" where
  "spec_step capacity (PublishMetric t point) a = spec_offer capacity (Sample point) a"
| "spec_step capacity (PublishSpan t sp) a = spec_offer capacity (Traced sp) a"
| "spec_step capacity (RegisterRule rule) a =
     (case rule_refusal rule of Some e \<Rightarrow> (RuleRefused e, a) | None \<Rightarrow> (RuleAdded, a\<lparr>sp_trace := sp_trace a @ [Registered rule]\<rparr>))"
| "spec_step capacity (Flush t) a = (Flushed (of_nat (length (sp_pending a))), a\<lparr>sp_pending := [], sp_trace := sp_trace a @ sp_pending a\<rparr>)"

fun spec_run :: "nat \<Rightarrow> os_action list \<Rightarrow> obs_spec \<Rightarrow> os_output list \<times> obs_spec" where
  "spec_run capacity [] a = ([], a)"
| "spec_run capacity (action # actions) a =
     (let (out, a1) = spec_step capacity action a; (outs, a2) = spec_run capacity actions a1 in (out # outs, a2))"

definition spec_start :: obs_spec where
  "spec_start = \<lparr>sp_pending = [], sp_trace = [], sp_dropped = 0\<rparr>"

subsection \<open>What the trace says\<close>

fun points_of :: "obs_input \<Rightarrow> MetricPoint list" where
  "points_of (Sample point) = [point]"
| "points_of _ = []"

definition samples :: "string \<Rightarrow> obs_input list \<Rightarrow> MetricPoint list" where
  "samples name tr = filter (\<lambda>point. mp_name point = name) (concat (map points_of tr))"

fun summarize_samples :: "string \<Rightarrow> MetricPoint list \<Rightarrow> MetricSnapshot option" where
  "summarize_samples name [] = None"
| "summarize_samples name (point # points) =
     Some \<lparr>sn_name = name, sn_type = mp_type point, sn_samples = of_nat (length (point # points)),
       sn_sum = foldl (+) 0 (map mp_value (point # points)), sn_last = mp_value (last (point # points)),
       sn_min = foldl std_min (mp_value point) (map mp_value points), sn_max = foldl std_max (mp_value point) (map mp_value points)\<rparr>"

text \<open>The rule in force under an id, with the samples of its metric since it was registered.\<close>

fun in_force_step :: "string \<Rightarrow> (AlertRule \<times> MetricPoint list) option \<Rightarrow> obs_input \<Rightarrow> (AlertRule \<times> MetricPoint list) option" where
  "in_force_step r st (Registered rule) = (if ar_rule_id rule = r then Some (rule, []) else st)"
| "in_force_step r st (Sample point) =
     map_option (\<lambda>(rule, points). (rule, if ar_metric_name rule = mp_name point then points @ [point] else points)) st"
| "in_force_step r st (Traced sp) = st"

definition in_force :: "string \<Rightarrow> obs_input list \<Rightarrow> (AlertRule \<times> MetricPoint list) option" where
  "in_force r tr = foldl (in_force_step r) None tr"

text \<open>The number of samples at the end that reach the threshold without a gap. An alert belongs to a sample that makes it the
  number the rule asks for.\<close>

definition breach_run :: "AlertRule \<Rightarrow> MetricPoint list \<Rightarrow> nat" where
  "breach_run rule points = length (takeWhile (\<lambda>point. ar_threshold rule \<le> mp_value point) (rev points))"

fun alert_at :: "string \<Rightarrow> obs_input list \<Rightarrow> obs_input \<Rightarrow> AlertNotification list" where
  "alert_at r tr (Sample point) =
     (case in_force r tr of
        None \<Rightarrow> []
      | Some (rule, points) \<Rightarrow>
          if ar_metric_name rule = mp_name point \<and> breach_run rule (points @ [point]) = unat (ar_consecutive_breaches rule)
          then [alert_notification rule point (ar_consecutive_breaches rule)] else [])"
| "alert_at r tr _ = []"

definition alerts_of :: "string \<Rightarrow> obs_input list \<Rightarrow> AlertNotification list" where
  "alerts_of r tr = concat (map (\<lambda>i. alert_at r (take i tr) (tr ! i)) [0 ..< length tr])"

fun events_of :: "obs_input \<Rightarrow> TelemetryEvent list" where
  "events_of (Registered rule) = []"
| "events_of (Sample point) = [metric_event point]"
| "events_of (Traced sp) = [span_event sp]"

definition notification_event :: "AlertNotification \<Rightarrow> TelemetryEvent" where
  "notification_event a =
     \<lparr>te_kind = kAlert, te_name = an_rule_id a, te_component = tc_component (an_trace_context a), te_trace_id = tc_trace_id (an_trace_context a),
      te_value = an_observed_value a, te_timestamp = an_timestamp a, te_success = False, te_severity = an_severity a\<rparr>"

section \<open>Metrics\<close>

definition metrics_ok :: "ObservabilityStack \<Rightarrow> obs_input list \<Rightarrow> bool" where
  "metrics_ok s tr \<longleftrightarrow> (\<forall>n. metric_snapshot n s = summarize_samples n (samples n tr))"

definition snapshot_of :: "string \<Rightarrow> MetricAccumulator \<Rightarrow> MetricSnapshot" where
  "snapshot_of name a = \<lparr>sn_name = name, sn_type = ma_type a, sn_samples = ma_samples a, sn_sum = ma_sum a, sn_last = ma_last a,
     sn_min = ma_min a, sn_max = ma_max a\<rparr>"

lemma metric_snapshot_eq: "metric_snapshot n s = map_option (snapshot_of n) (os_metrics s n)"
  by (simp add: metric_snapshot_def snapshot_of_def split: option.splits)

lemma samples_snoc: "samples n (tr @ [x]) = samples n tr @ filter (\<lambda>point. mp_name point = n) (points_of x)"
  by (simp add: samples_def)

lemma samples_length: "length (samples n tr) \<le> length tr"
proof -
  have one: "length (points_of x) \<le> 1" for x by (cases x) simp_all
  have "length (concat (map points_of tr)) \<le> length tr"
  proof (induction tr)
    case (Cons x tr)
    then show ?case using one [of x] by simp
  qed simp
  then show ?thesis unfolding samples_def using length_filter_le order.trans by blast
qed

lemma of_nat_u64_eq_0: "n < 2 ^ 64 \<Longrightarrow> (of_nat n :: u64) = 0 \<longleftrightarrow> n = 0"
  by (simp add: word_of_nat_eq_0_iff dvd_eq_mod_eq_0)

lemma accumulate_summary:
  assumes "map_option (snapshot_of n) a = summarize_samples n points" "length points < 2 ^ 64"
  shows "Some (snapshot_of n (accumulate point (case a of None \<Rightarrow> empty_MetricAccumulator | Some b \<Rightarrow> b))) = summarize_samples n (points @ [point])"
proof (cases points)
  case Nil
  then show ?thesis using assms by (simp add: accumulate_def snapshot_of_def empty_MetricAccumulator_def Let_def)
next
  case (Cons p ps)
  then obtain b where b: "a = Some b" "snapshot_of n b = the (summarize_samples n points)" using assms(1) by (cases a) auto
  then have "ma_samples b = of_nat (length points)" using Cons by (simp add: snapshot_of_def)
  then have "ma_samples b \<noteq> 0" using of_nat_u64_eq_0 [OF assms(2)] Cons by simp
  then show ?thesis using b Cons by (simp add: accumulate_def snapshot_of_def Let_def)
qed

section \<open>Alerts\<close>

abbreviation alerts_under :: "string \<Rightarrow> ObservabilityStack \<Rightarrow> AlertNotification list" where
  "alerts_under r s \<equiv> filter (\<lambda>a. an_rule_id a = r) (os_alerts s)"

definition breach_count :: "ObservabilityStack \<Rightarrow> string \<Rightarrow> u64" where
  "breach_count s r = (case os_breach_counts s r of None \<Rightarrow> 0 | Some c \<Rightarrow> c)"

definition rule_state_ok :: "ObservabilityStack \<Rightarrow> string \<Rightarrow> AlertRule \<Rightarrow> MetricPoint list \<Rightarrow> bool" where
  "rule_state_ok s r rule points \<longleftrightarrow> ar_rule_id rule = r \<and> ar_consecutive_breaches rule \<noteq> 0 \<and>
     breach_count s r = of_nat (min (breach_run rule points) (unat (ar_consecutive_breaches rule)))"

definition rules_ok :: "ObservabilityStack \<Rightarrow> obs_input list \<Rightarrow> bool" where
  "rules_ok s tr \<longleftrightarrow> distinct (map fst (os_rules s)) \<and>
     (\<forall>r. map_of (os_rules s) r = map_option fst (in_force r tr)) \<and>
     (\<forall>r rule points. in_force r tr = Some (rule, points) \<longrightarrow> rule_state_ok s r rule points) \<and>
     (\<forall>r. alerts_under r s = alerts_of r tr)"

lemma in_force_snoc: "in_force r (tr @ [x]) = in_force_step r (in_force r tr) x"
  by (simp add: in_force_def)

lemma alerts_of_snoc: "alerts_of r (tr @ [x]) = alerts_of r tr @ alert_at r tr x"
proof -
  have "map (\<lambda>i. alert_at r (take i (tr @ [x])) ((tr @ [x]) ! i)) [0 ..< length tr] = map (\<lambda>i. alert_at r (take i tr) (tr ! i)) [0 ..< length tr]"
    by (rule map_cong) (simp_all add: nth_append)
  moreover have "take (length tr) (tr @ [x]) = tr" by simp
  ultimately show ?thesis unfolding alerts_of_def by (simp del: map_eq_conv take_append)
qed

lemma in_force_length: "in_force r tr = Some (rule, points) \<Longrightarrow> length points \<le> length tr"
proof (induction tr arbitrary: rule points rule: rev_induct)
  case (snoc x tr)
  then show ?case by (cases x; cases "in_force r tr") (fastforce simp: in_force_snoc split: if_splits)+
qed (simp add: in_force_def)

lemma breach_run_snoc: "breach_run rule (points @ [point]) = (if ar_threshold rule \<le> mp_value point then Suc (breach_run rule points) else 0)"
  by (simp add: breach_run_def)

lemma breach_run_le: "breach_run rule points \<le> length points"
  using length_takeWhile_le [of _ "rev points"] by (simp add: breach_run_def)

text \<open>The saturating counter of the code reaches the number of the rule exactly when the run does.\<close>

lemma saturating_count:
  assumes "Suc b < 2 ^ 64" "c = (of_nat (min b (unat k)) :: u64)"
  shows "c + 1 = k \<longleftrightarrow> Suc b = unat k" "min (c + 1) k = of_nat (min (Suc b) (unat k))"
proof -
  have c1: "unat (c + 1) = Suc (min b (unat k))"
  proof -
    have "c + 1 = of_nat (Suc (min b (unat k)))" by (simp add: assms(2))
    moreover have "Suc (min b (unat k)) < 2 ^ 64" using assms(1) by simp
    ultimately show ?thesis by (simp add: unat_of_nat del: of_nat_Suc)
  qed
  show "c + 1 = k \<longleftrightarrow> Suc b = unat k" using c1 by (auto simp: word_unat_eq_iff)
  show "min (c + 1) k = of_nat (min (Suc b) (unat k))"
  proof (cases "b < unat k")
    case True
    then have "c + 1 \<le> k" using c1 by (simp add: word_le_nat_alt)
    then show ?thesis using True by (simp add: min_def assms(2))
  next
    case False
    then have "\<not> c + 1 \<le> k" using c1 by (simp add: word_le_nat_alt)
    then show ?thesis using False by (simp add: min_def)
  qed
qed

text \<open>What one rule does to the counter and the alerts of every id.\<close>

definition new_count :: "AlertRule \<Rightarrow> MetricPoint \<Rightarrow> u64 \<Rightarrow> u64" where
  "new_count rule point c =
     (if ar_metric_name rule \<noteq> mp_name point then c
      else if ar_threshold rule \<le> mp_value point then min (c + 1) (ar_consecutive_breaches rule) else 0)"

definition new_alerts :: "AlertRule \<Rightarrow> MetricPoint \<Rightarrow> u64 \<Rightarrow> AlertNotification list" where
  "new_alerts rule point c =
     (if ar_metric_name rule = mp_name point \<and> ar_threshold rule \<le> mp_value point \<and> c + 1 = ar_consecutive_breaches rule
      then [alert_notification rule point (c + 1)] else [])"

lemma evaluate_rule_effect:
  assumes "ar_rule_id rule = i"
  shows "breach_count (evaluate_rule i rule point s) r = (if r = i then new_count rule point (breach_count s r) else breach_count s r)"
    and "os_alerts (evaluate_rule i rule point s) = os_alerts s @ new_alerts rule point (breach_count s i)"
    and "alerts_under r (evaluate_rule i rule point s) = alerts_under r s @ (if r = i then new_alerts rule point (breach_count s i) else [])"
  using assms
  by (auto simp: evaluate_rule_def emit_alert_def record_event_def breach_count_def new_count_def new_alerts_def alert_notification_def Let_def)

lemma evaluate_rules_loop_effect:
  assumes "distinct (map fst rules)" "\<And>i rule. (i, rule) \<in> set rules \<Longrightarrow> ar_rule_id rule = i"
  shows "breach_count (evaluate_rules_loop rules point s) r =
      (case map_of rules r of None \<Rightarrow> breach_count s r | Some rule \<Rightarrow> new_count rule point (breach_count s r)) \<and>
    alerts_under r (evaluate_rules_loop rules point s) =
      alerts_under r s @ (case map_of rules r of None \<Rightarrow> [] | Some rule \<Rightarrow> new_alerts rule point (breach_count s r))"
  using assms
proof (induction rules arbitrary: s)
  case (Cons x rules)
  obtain i rule where x: "x = (i, rule)" by fastforce
  have id: "ar_rule_id rule = i" using Cons.prems(2) x by simp
  note one = evaluate_rule_effect(1,3) [OF id, where point = point and s = s and r = r]
  have d: "distinct (map fst rules)" "map_of rules i = None" using Cons.prems(1) x by (simp_all add: map_of_eq_None_iff)
  have ids: "\<And>i rule. (i, rule) \<in> set rules \<Longrightarrow> ar_rule_id rule = i" using Cons.prems(2) by (meson list.set_intros(2))
  note IH = Cons.IH [OF d(1) ids, of "evaluate_rule i rule point s"]
  show ?case
  proof (cases "r = i")
    case True
    then show ?thesis using IH one d(2) x by simp
  next
    case False
    then show ?thesis using IH one x by (cases "map_of rules r") simp_all
  qed
qed simp

lemma register_rules_ok:
  assumes "rules_ok s tr" "register_rule rule s = Inr s'"
  shows "rules_ok s' (tr @ [Registered rule])"
proof -
  have s': "s' = s\<lparr>os_breach_counts := (os_breach_counts s)(ar_rule_id rule := None), os_rules := AList.update (ar_rule_id rule) rule (os_rules s)\<rparr>"
    using assms(2) by (simp add: register_rule_def split: if_splits)
  have "ar_consecutive_breaches rule \<noteq> 0" using assms(2) by (auto simp: register_rule_def split: if_splits)
  then show ?thesis using assms(1) unfolding rules_ok_def s'
    by (auto simp: in_force_snoc alerts_of_snoc distinct_update update_conv rule_state_ok_def breach_count_def breach_run_def split: if_splits)
qed

lemma sample_rules_ok:
  assumes ok: "rules_ok s tr" and small: "Suc (length tr) < 2 ^ 64" and s': "s' = evaluate_rules_loop (os_rules s) point s"
  shows "rules_ok s' (tr @ [Sample point])"
proof -
  have rules: "os_rules s' = os_rules s" using evaluate_rules_loop_transport [of s "os_rules s" point] by (simp add: same_transport_def s')
  have of_r: "map_of (os_rules s) r = map_option fst (in_force r tr)" for r using ok by (simp add: rules_ok_def)
  have d: "distinct (map fst (os_rules s))" using ok by (simp add: rules_ok_def)
  have ids: "ar_rule_id rule = i" if "(i, rule) \<in> set (os_rules s)" for i rule
  proof -
    have "map_of (os_rules s) i = Some rule" using that d by (simp add: map_of_eq_Some_iff)
    then show ?thesis using of_r [of i] ok by (auto simp: rules_ok_def rule_state_ok_def)
  qed
  note eff = evaluate_rules_loop_effect [OF d ids, of point s, folded s']
  have step: "rule_state_ok s' r rule (if ar_metric_name rule = mp_name point then points @ [point] else points) \<and>
      new_alerts rule point (breach_count s r) = alert_at r tr (Sample point)" if f: "in_force r tr = Some (rule, points)" for r rule points
  proof -
    have st: "ar_rule_id rule = r" "ar_consecutive_breaches rule \<noteq> 0" "breach_count s r = of_nat (min (breach_run rule points) (unat (ar_consecutive_breaches rule)))"
      using ok f by (simp_all add: rules_ok_def rule_state_ok_def)
    have "Suc (breach_run rule points) < 2 ^ 64" using breach_run_le [of rule points] in_force_length [OF f] small by linarith
    note count = saturating_count [OF this st(3)]
    have "breach_count s' r = new_count rule point (breach_count s r)" using eff [of r] of_r [of r] f by simp
    then show ?thesis using st f count by (auto simp: rule_state_ok_def new_count_def new_alerts_def breach_run_snoc unat_gt_0)
  qed
  have "alerts_under r s' = alerts_of r (tr @ [Sample point])" for r
    using eff [of r] of_r [of r] step [of r] ok by (cases "in_force r tr") (auto simp: rules_ok_def alerts_of_snoc)
  moreover have "rule_state_ok s' r rule points" if f: "in_force r (tr @ [Sample point]) = Some (rule, points)" for r rule points
  proof -
    obtain ps where "in_force r tr = Some (rule, ps)" "points = (if ar_metric_name rule = mp_name point then ps @ [point] else ps)"
      using f by (auto simp: in_force_snoc)
    then show ?thesis using step by simp
  qed
  moreover have "map_of (os_rules s) r = map_option fst (in_force r (tr @ [Sample point]))" for r
    using of_r [of r] by (cases "in_force r tr") (auto simp: in_force_snoc)
  ultimately show ?thesis using d unfolding rules_ok_def rules by blast
qed

lemma traced_rules_ok: "rules_ok s tr \<Longrightarrow> rules_ok s (tr @ [Traced sp])"
  by (simp add: rules_ok_def in_force_snoc alerts_of_snoc)

section \<open>History\<close>

text \<open>The history holds the last events, as many as its limit allows: the samples and spans in their order, the alerts in theirs.\<close>

definition history_ok :: "ObservabilityStack \<Rightarrow> obs_input list \<Rightarrow> bool" where
  "history_ok s tr \<longleftrightarrow> os_history_limit s \<noteq> 0 \<and>
     length (os_history s) = min (unat (os_history_limit s)) (length (concat (map events_of tr)) + length (os_alerts s)) \<and>
     suffix (filter (\<lambda>e. te_kind e \<noteq> kAlert) (os_history s)) (concat (map events_of tr)) \<and>
     suffix (filter (\<lambda>e. te_kind e = kAlert) (os_history s)) (map notification_event (os_alerts s))"

lemma suffix_filter_tl: "suffix (filter P xs) ys \<Longrightarrow> suffix (filter P (tl xs)) ys"
  by (cases xs) (auto dest: suffix_ConsD split: if_splits)

lemma record_length:
  assumes "0 < limit" "length h = min limit n"
  shows "length ((if length h = limit then tl h else h) @ [e]) = min limit (Suc n)"
  using assms by (auto simp: min_def split: if_splits)

lemma record_suffix:
  assumes "suffix (filter P h) ys"
  shows "suffix (filter P ((if length h = limit then tl h else h) @ [e])) (if P e then ys @ [e] else ys)"
  using assms suffix_filter_tl [OF assms] by auto

lemma record_event_history:
  assumes ok: "history_ok s tr" and kind: "te_kind e \<noteq> kAlert" and x: "events_of x = [e]"
  shows "history_ok (record_event e s) (tr @ [x])"
proof -
  let ?h = "os_history s" and ?limit = "unat (os_history_limit s)"
  have h: "0 < ?limit" "length ?h = min ?limit (length (concat (map events_of tr)) + length (os_alerts s))"
    using ok by (simp_all add: history_ok_def unat_gt_0)
  show ?thesis using record_length [OF h, of e] ok x kind
      record_suffix [where P = "\<lambda>e. te_kind e \<noteq> kAlert" and h = ?h and limit = ?limit and e = e]
      record_suffix [where P = "\<lambda>e. te_kind e = kAlert" and h = ?h and limit = ?limit and e = e]
    by (simp add: history_ok_def record_event_def)
qed

lemma emit_alert_history:
  assumes ok: "history_ok s tr"
  shows "history_ok (emit_alert rule point c s) tr"
proof -
  let ?h = "os_history s" and ?limit = "unat (os_history_limit s)" and ?e = "alert_event rule point"
  have h: "0 < ?limit" "length ?h = min ?limit (length (concat (map events_of tr)) + length (os_alerts s))"
    using ok by (simp_all add: history_ok_def unat_gt_0)
  have e: "te_kind ?e = kAlert" "notification_event (alert_notification rule point c) = ?e"
    by (simp_all add: alert_event_def notification_event_def alert_notification_def)
  show ?thesis using record_length [OF h, of ?e] ok e
    by (auto simp: history_ok_def record_event_def emit_alert_def intro: suffix_filter_tl)
qed

lemma history_ok_frame:
  "os_history_limit s' = os_history_limit s \<Longrightarrow> os_history s' = os_history s \<Longrightarrow> os_alerts s' = os_alerts s \<Longrightarrow> history_ok s' tr = history_ok s tr"
  by (simp add: history_ok_def)

lemma evaluate_rule_history:
  assumes ok: "history_ok s tr"
  shows "history_ok (evaluate_rule i rule point s) tr"
  unfolding evaluate_rule_def Let_def using ok emit_alert_history [OF ok] by (simp add: history_ok_def)

lemma evaluate_rules_loop_history: "history_ok s tr \<Longrightarrow> history_ok (evaluate_rules_loop rules point s) tr"
  by (induction rules point s rule: evaluate_rules_loop.induct) (simp_all add: evaluate_rule_history)

section \<open>Processing\<close>

definition sink_ok :: "ObservabilityStack \<Rightarrow> obs_input list \<Rightarrow> bool" where
  "sink_ok s tr \<longleftrightarrow> metrics_ok s tr \<and> rules_ok s tr \<and> history_ok s tr"

lemma sink_ok_frame:
  assumes "sink_ok s tr"
  shows "sink_ok (s\<lparr>os_queue := q\<rparr>) tr" "sink_ok (s\<lparr>os_envelope_pool := p\<rparr>) tr" "sink_ok (s\<lparr>os_dropped_events := n\<rparr>) tr"
  using assms
  by (simp_all add: sink_ok_def metrics_ok_def metric_snapshot_def rules_ok_def rule_state_ok_def breach_count_def history_ok_def)

lemma metrics_ok_frame: "os_metrics s' = os_metrics s \<Longrightarrow> metrics_ok s' tr = metrics_ok s tr"
  by (simp add: metrics_ok_def metric_snapshot_def)

lemma rules_ok_frame:
  "os_rules s' = os_rules s \<Longrightarrow> os_breach_counts s' = os_breach_counts s \<Longrightarrow> os_alerts s' = os_alerts s \<Longrightarrow> rules_ok s' tr = rules_ok s tr"
  by (simp add: rules_ok_def rule_state_ok_def breach_count_def)

lemma evaluate_rules_loop_metrics: "os_metrics (evaluate_rules_loop rules point s) = os_metrics s"
  by (induction rules point s rule: evaluate_rules_loop.induct)
    (simp_all add: evaluate_rule_def emit_alert_def record_event_def Let_def)

lemma process_metric_sink:
  assumes ok: "sink_ok s tr" and small: "Suc (length tr) < 2 ^ 64"
  shows "sink_ok (process_metric point s) (tr @ [Sample point])"
proof -
  let ?n = "mp_name point"
  let ?acc = "case os_metrics s ?n of None \<Rightarrow> empty_MetricAccumulator | Some a \<Rightarrow> a"
  let ?s1 = "record_event (metric_event point) (s\<lparr>os_metrics := (os_metrics s)(?n \<mapsto> accumulate point ?acc)\<rparr>)"
  have s': "process_metric point s = evaluate_rules_loop (os_rules ?s1) point ?s1" by (simp add: process_metric_def evaluate_rules_def Let_def)
  have m: "metrics_ok s tr" and r: "rules_ok s tr" and h: "history_ok s tr" using ok by (simp_all add: sink_ok_def)
  have m1: "metrics_ok ?s1 (tr @ [Sample point])"
  proof -
    have "length (samples ?n tr) < 2 ^ 64" using samples_length [of ?n tr] small by linarith
    moreover have "map_option (snapshot_of ?n) (os_metrics s ?n) = summarize_samples ?n (samples ?n tr)"
      using m by (simp add: metrics_ok_def metric_snapshot_eq)
    ultimately have "Some (snapshot_of ?n (accumulate point ?acc)) = summarize_samples ?n (samples ?n tr @ [point])" by (rule accumulate_summary [rotated])
    then show ?thesis using m by (simp add: metrics_ok_def metric_snapshot_eq record_event_def samples_snoc)
  qed
  have r1: "rules_ok ?s1 tr" using r by (subst rules_ok_frame [of _ s]) (simp_all add: record_event_def)
  have h1: "history_ok ?s1 (tr @ [Sample point])"
    by (rule record_event_history) (use h in \<open>simp_all add: history_ok_def metric_event_def\<close>)
  have "metrics_ok (process_metric point s) (tr @ [Sample point])"
    unfolding s' using m1 metrics_ok_frame [OF evaluate_rules_loop_metrics] by blast
  then show ?thesis using sample_rules_ok [OF r1 small s'] evaluate_rules_loop_history [OF h1] unfolding sink_ok_def s' by blast
qed

lemma process_span_sink:
  assumes ok: "sink_ok s tr" and "duration_ok sp"
  shows "\<exists>s'. process_span sp s = Inr s' \<and> sink_ok s' (tr @ [Traced sp])"
proof -
  have "history_ok (record_event (span_event sp) s) (tr @ [Traced sp])"
    by (rule record_event_history) (use ok in \<open>simp_all add: sink_ok_def span_event_def\<close>)
  moreover have "rules_ok (record_event (span_event sp) s) (tr @ [Traced sp])"
    using ok traced_rules_ok rules_ok_frame [of "record_event (span_event sp) s" s] by (simp add: sink_ok_def record_event_def)
  moreover have "metrics_ok (record_event (span_event sp) s) (tr @ [Traced sp])"
    using ok by (simp add: sink_ok_def metrics_ok_def metric_snapshot_def record_event_def samples_snoc)
  ultimately show ?thesis using assms(2) by (simp add: process_span_def sink_ok_def)
qed

lemma register_sink:
  assumes ok: "sink_ok s tr" and "register_rule rule s = Inr s'"
  shows "sink_ok s' (tr @ [Registered rule])"
proof -
  have f: "os_metrics s' = os_metrics s" "os_history_limit s' = os_history_limit s" "os_history s' = os_history s" "os_alerts s' = os_alerts s"
    using assms(2) by (auto simp: register_rule_def split: if_splits)
  then show ?thesis using register_rules_ok [OF _ assms(2)] ok
    by (simp add: sink_ok_def metrics_ok_def metric_snapshot_def history_ok_def samples_snoc)
qed

section \<open>Queue and pool\<close>

fun envelope_of :: "obs_input \<Rightarrow> Envelope" where
  "envelope_of (Sample point) = \<lparr>env_kind = kMetric, env_metric = point, env_span = empty_TraceSpan\<rparr>"
| "envelope_of (Traced sp) = \<lparr>env_kind = kSpan, env_metric = empty_MetricPoint, env_span = sp\<rparr>"
| "envelope_of (Registered rule) = empty_Envelope"

fun input_ok :: "obs_input \<Rightarrow> bool" where
  "input_ok (Sample point) = True"
| "input_ok (Traced sp) = duration_ok sp"
| "input_ok (Registered rule) = False"

definition transport_ok :: "ObservabilityStack \<Rightarrow> obs_input list \<Rightarrow> bool" where
  "transport_ok s xs \<longleftrightarrow> pq_ok (os_queue s) (os_envelope_pool s) (map envelope_of xs)"

lemma make_envelope:
  assumes "transport_ok s xs"
  obtains b pool where "op_create t empty_Envelope (os_envelope_pool s) = Inr (b, pool)" "b \<notin> dom (op_objects (os_envelope_pool s))"
    "op_objects (store_envelope b v pool) = (op_objects (os_envelope_pool s))(b \<mapsto> v)" "op_inv (store_envelope b v pool)"
proof -
  obtain b pool where p: "op_create t empty_Envelope (os_envelope_pool s) = Inr (b, pool)" "b \<notin> dom (op_objects (os_envelope_pool s))"
    "op_objects pool = (op_objects (os_envelope_pool s))(b \<mapsto> empty_Envelope)" "op_inv pool"
    using pq_create [of "os_queue s" "os_envelope_pool s" "map envelope_of xs" t empty_Envelope] assms unfolding transport_ok_def by metis
  then show thesis using that [OF p(1,2)] by (simp add: store_envelope_def op_inv_def insert_absorb)
qed

lemma publish_envelope_spec:
  assumes ok: "transport_ok s xs" and b: "b \<notin> dom (op_objects (os_envelope_pool s))"
    and pool: "op_objects pool = (op_objects (os_envelope_pool s))(b \<mapsto> envelope_of x)" "op_inv pool"
  shows "\<exists>q p. rq_capacity q = rq_capacity (os_queue s) \<and>
     (if length xs < unat (rq_capacity (os_queue s))
      then publish_envelope t (Inr (b, s\<lparr>os_envelope_pool := pool\<rparr>)) = Inr (kEnqueued, s\<lparr>os_queue := q, os_envelope_pool := p\<rparr>) \<and>
           transport_ok (s\<lparr>os_queue := q, os_envelope_pool := p\<rparr>) (xs @ [x])
      else publish_envelope t (Inr (b, s\<lparr>os_envelope_pool := pool\<rparr>)) =
             Inr (obs_kQueueFull, s\<lparr>os_queue := q, os_envelope_pool := p, os_dropped_events := os_dropped_events s + 1\<rparr>) \<and>
           transport_ok (s\<lparr>os_queue := q, os_envelope_pool := p\<rparr>) xs)"
proof -
  let ?q = "snd (rq_push b (os_queue s))"
  note push = pq_push [OF ok [unfolded transport_ok_def] b pool]
  show ?thesis
  proof (cases "length xs < unat (rq_capacity (os_queue s))")
    case True
    then show ?thesis using push(1-3)
      by (intro exI [of _ ?q] exI [of _ pool]) (simp add: transport_ok_def publish_envelope_def split_beta Let_def)
  next
    case False
    then show ?thesis using push(1,2) push(4) [of t]
      by (intro exI [of _ ?q] exI [of _ "op_destroy t (Some b) pool"]) (simp add: transport_ok_def publish_envelope_def split_beta Let_def)
  qed
qed

lemma process_envelope_sink:
  assumes "sink_ok s tr" "input_ok x" "Suc (length tr) < 2 ^ 64"
  obtains s' where "process_envelope (envelope_of x) s = Inr s'" "sink_ok s' (tr @ [x])"
  using assms process_metric_sink process_span_sink by (cases x) (fastforce simp: process_envelope_def)+

lemma flush_loop_spec:
  assumes "transport_ok s xs" "sink_ok s tr" "list_all input_ok xs" "Suc (length tr + length xs) < 2 ^ 64"
  shows "\<exists>s'. flush_loop t n s = Inr (n + of_nat (length xs), s') \<and> transport_ok s' [] \<and> sink_ok s' (tr @ xs) \<and>
    rq_capacity (os_queue s') = rq_capacity (os_queue s) \<and> os_dropped_events s' = os_dropped_events s"
  using assms
proof (induction xs arbitrary: s tr n)
  case Nil
  let ?s1 = "s\<lparr>os_queue := snd (rq_try_pop (os_queue s))\<rparr>"
  have pop: "pq_ok (os_queue s) (os_envelope_pool s) []" using Nil.prems(1) by (simp add: transport_ok_def)
  then have "flush_loop t n s = Inr (n, ?s1)" by (subst flush_loop.simps) (simp add: pq_pop_empty Let_def)
  then show ?case using sink_ok_frame(1) [OF Nil.prems(2)] pq_pop_empty [OF pop] by (simp add: transport_ok_def)
next
  case (Cons x xs)
  let ?s1 = "s\<lparr>os_queue := snd (rq_try_pop (os_queue s))\<rparr>"
  obtain b where b: "fst (rq_try_pop (os_queue s)) = Some b" "op_objects (os_envelope_pool s) b = Some (envelope_of x)"
    "pq_ok (snd (rq_try_pop (os_queue s))) (op_destroy t (Some b) (os_envelope_pool s)) (map envelope_of xs)"
    "rq_capacity (snd (rq_try_pop (os_queue s))) = rq_capacity (os_queue s)"
    using pq_pop [OF Cons.prems(1) [unfolded transport_ok_def list.map]] by metis
  have small: "Suc (length tr) < 2 ^ 64" and x: "input_ok x" using Cons.prems(3,4) by simp_all
  obtain s2 where s2: "process_envelope (envelope_of x) ?s1 = Inr s2" "sink_ok s2 (tr @ [x])"
    using process_envelope_sink [OF sink_ok_frame(1) [OF Cons.prems(2)] x small] by blast
  let ?s3 = "s2\<lparr>os_envelope_pool := op_destroy t (Some b) (os_envelope_pool s2)\<rparr>"
  have tr2: "os_queue s2 = snd (rq_try_pop (os_queue s))" "os_envelope_pool s2 = os_envelope_pool s" "os_dropped_events s2 = os_dropped_events s"
    using process_envelope_transport [OF s2(1)] by (simp_all add: same_transport_def)
  have step: "flush_loop t n s = flush_loop t (n + 1) ?s3"
    using b(1,2) s2(1) by (subst flush_loop.simps) (simp add: Let_def flush_one_def)
  have "transport_ok ?s3 xs" using b(3) tr2 by (simp add: transport_ok_def)
  from Cons.IH [OF this sink_ok_frame(2) [OF s2(2)], of "n + 1"] Cons.prems(3,4) show ?case
    using step tr2 b(4) by (auto simp: algebra_simps)
qed

lemma drain_frees_all:
  assumes "transport_ok s xs"
  shows "op_objects (os_envelope_pool (drain_and_dispose_pending t s)) = Map.empty"
  using assms
proof (induction xs arbitrary: s)
  case Nil
  then have "pq_ok (os_queue s) (os_envelope_pool s) []" by (simp add: transport_ok_def)
  then show ?case by (subst drain_and_dispose_pending.simps) (simp add: pq_pop_empty)
next
  case (Cons x xs)
  obtain b where b: "fst (rq_try_pop (os_queue s)) = Some b"
    "pq_ok (snd (rq_try_pop (os_queue s))) (op_destroy t (Some b) (os_envelope_pool s)) (map envelope_of xs)"
    using pq_pop [OF Cons.prems(1) [unfolded transport_ok_def list.map]] by metis
  then show ?case using Cons.IH by (subst drain_and_dispose_pending.simps) (simp add: transport_ok_def)
qed

section \<open>Runs\<close>

definition obs_rel :: "ObservabilityStack \<Rightarrow> obs_spec \<Rightarrow> bool" where
  "obs_rel s a \<longleftrightarrow> transport_ok s (sp_pending a) \<and> sink_ok s (sp_trace a) \<and> list_all input_ok (sp_pending a) \<and>
     os_dropped_events s = of_nat (sp_dropped a)"

fun action_ok :: "os_action \<Rightarrow> bool" where
  "action_ok (PublishSpan t sp) = duration_ok sp"
| "action_ok _ = True"

abbreviation os_capacity :: "ObservabilityStack \<Rightarrow> nat" where
  "os_capacity s \<equiv> unat (rq_capacity (os_queue s))"

lemma offer_spec:
  assumes rel: "obs_rel s a" and b: "b \<notin> dom (op_objects (os_envelope_pool s))" and x: "input_ok x"
    and pool: "op_objects pool = (op_objects (os_envelope_pool s))(b \<mapsto> envelope_of x)" "op_inv pool"
  shows "\<exists>s'. publish_out (publish_envelope t (Inr (b, s\<lparr>os_envelope_pool := pool\<rparr>))) = Inr (fst (spec_offer (os_capacity s) x a), s') \<and>
     obs_rel s' (snd (spec_offer (os_capacity s) x a)) \<and> os_capacity s' = os_capacity s"
proof -
  have ok: "transport_ok s (sp_pending a)" and sink: "sink_ok s (sp_trace a)" and l: "list_all input_ok (sp_pending a)"
    "os_dropped_events s = of_nat (sp_dropped a)" using rel by (simp_all add: obs_rel_def)
  have sink': "sink_ok (s\<lparr>os_queue := q, os_envelope_pool := p\<rparr>) (sp_trace a)" for q p
    using sink_ok_frame(2) [OF sink_ok_frame(1) [OF sink]] by simp
  show ?thesis
  proof (cases "length (sp_pending a) < os_capacity s")
    case True
    then show ?thesis using publish_envelope_spec [OF ok b pool, of t] sink' l x by (auto simp: publish_out_def spec_offer_def obs_rel_def)
  next
    case False
    then obtain q p where q: "rq_capacity q = rq_capacity (os_queue s)"
      "publish_envelope t (Inr (b, s\<lparr>os_envelope_pool := pool\<rparr>)) =
             Inr (obs_kQueueFull, s\<lparr>os_queue := q, os_envelope_pool := p, os_dropped_events := os_dropped_events s + 1\<rparr>)"
      "transport_ok (s\<lparr>os_queue := q, os_envelope_pool := p\<rparr>) (sp_pending a)"
      using publish_envelope_spec [OF ok b pool, of t] by auto
    then show ?thesis using False sink_ok_frame(3) [OF sink' [where q = q and p = p], of "os_dropped_events s + 1"] l
      by (simp add: publish_out_def spec_offer_def obs_rel_def transport_ok_def add.commute)
  qed
qed

lemma publish_spec:
  assumes rel: "obs_rel s a"
  shows "\<exists>s'. os_step (PublishMetric t point) s = Inr (fst (spec_offer (os_capacity s) (Sample point) a), s') \<and>
      obs_rel s' (snd (spec_offer (os_capacity s) (Sample point) a)) \<and> os_capacity s' = os_capacity s"
    and "duration_ok sp \<Longrightarrow> \<exists>s'. os_step (PublishSpan t sp) s = Inr (fst (spec_offer (os_capacity s) (Traced sp) a), s') \<and>
      obs_rel s' (snd (spec_offer (os_capacity s) (Traced sp) a)) \<and> os_capacity s' = os_capacity s"
proof -
  have ok: "transport_ok s (sp_pending a)" using rel by (simp add: obs_rel_def)
  obtain b pool where b: "op_create t empty_Envelope (os_envelope_pool s) = Inr (b, pool)" "b \<notin> dom (op_objects (os_envelope_pool s))"
    "op_objects (store_envelope b (envelope_of (Sample point)) pool) = (op_objects (os_envelope_pool s))(b \<mapsto> envelope_of (Sample point))"
    "op_inv (store_envelope b (envelope_of (Sample point)) pool)" using make_envelope [OF ok] by metis
  show "\<exists>s'. os_step (PublishMetric t point) s = Inr (fst (spec_offer (os_capacity s) (Sample point) a), s') \<and>
      obs_rel s' (snd (spec_offer (os_capacity s) (Sample point) a)) \<and> os_capacity s' = os_capacity s"
    using offer_spec [OF rel b(2) _ b(3,4), of t] b(1) by (simp add: publish_metric_def make_metric_envelope_def)
  obtain b pool where b: "op_create t empty_Envelope (os_envelope_pool s) = Inr (b, pool)" "b \<notin> dom (op_objects (os_envelope_pool s))"
    "op_objects (store_envelope b (envelope_of (Traced sp)) pool) = (op_objects (os_envelope_pool s))(b \<mapsto> envelope_of (Traced sp))"
    "op_inv (store_envelope b (envelope_of (Traced sp)) pool)" using make_envelope [OF ok] by metis
  show "\<exists>s'. os_step (PublishSpan t sp) s = Inr (fst (spec_offer (os_capacity s) (Traced sp) a), s') \<and>
      obs_rel s' (snd (spec_offer (os_capacity s) (Traced sp) a)) \<and> os_capacity s' = os_capacity s" if "duration_ok sp"
    using offer_spec [OF rel b(2) _ b(3,4), of t] b(1) that by (simp add: publish_span_def make_span_envelope_def)
qed

lemma register_spec:
  assumes rel: "obs_rel s a"
  shows "\<exists>s'. os_step (RegisterRule rule) s = Inr (fst (spec_step n (RegisterRule rule) a), s') \<and>
     obs_rel s' (snd (spec_step n (RegisterRule rule) a)) \<and> os_capacity s' = os_capacity s"
proof (cases "rule_refusal rule")
  case (Some e)
  then have "register_rule rule s = Inl e" by (auto simp: rule_refusal_def register_rule_def split: if_splits)
  then show ?thesis using rel Some by simp
next
  case None
  then obtain s' where s': "register_rule rule s = Inr s'" by (auto simp: rule_refusal_def register_rule_def split: if_splits)
  then have "os_queue s' = os_queue s" "os_envelope_pool s' = os_envelope_pool s" "os_dropped_events s' = os_dropped_events s"
    by (auto simp: register_rule_def split: if_splits)
  then show ?thesis using rel None s' register_sink [OF _ s'] by (simp add: obs_rel_def transport_ok_def)
qed

lemma step_spec:
  assumes rel: "obs_rel s a" and ok: "action_ok action" and small: "Suc (length (sp_trace a) + length (sp_pending a)) < 2 ^ 64"
  shows "\<exists>s'. os_step action s = Inr (fst (spec_step (os_capacity s) action a), s') \<and> obs_rel s' (snd (spec_step (os_capacity s) action a)) \<and>
     os_capacity s' = os_capacity s"
proof (cases action)
  case (Flush t)
  have "transport_ok s (sp_pending a)" "sink_ok s (sp_trace a)" "list_all input_ok (sp_pending a)" using rel by (simp_all add: obs_rel_def)
  from flush_loop_spec [OF this small, of t 0] show ?thesis using Flush rel by (auto simp: os_flush_def obs_rel_def)
qed (use publish_spec [OF rel] register_spec [OF rel] ok in \<open>simp_all del: os_step.simps\<close>)

lemma spec_step_size:
  "length (sp_trace (snd (spec_step n action a))) + length (sp_pending (snd (spec_step n action a))) \<le> Suc (length (sp_trace a) + length (sp_pending a))"
  by (cases action) (simp_all add: spec_offer_def split: option.splits)

lemma run_spec:
  assumes "obs_rel s a" "list_all action_ok actions" "Suc (length (sp_trace a) + length (sp_pending a) + length actions) < 2 ^ 64"
  shows "\<exists>s'. os_run actions s = Inr (fst (spec_run (os_capacity s) actions a), s') \<and> obs_rel s' (snd (spec_run (os_capacity s) actions a))"
  using assms
proof (induction actions arbitrary: s a)
  case (Cons action actions)
  let ?a1 = "snd (spec_step (os_capacity s) action a)"
  obtain s1 where s1: "os_step action s = Inr (fst (spec_step (os_capacity s) action a), s1)" "obs_rel s1 ?a1" "os_capacity s1 = os_capacity s"
    using step_spec [OF Cons.prems(1), of action] Cons.prems(2,3) by auto
  have "Suc (length (sp_trace ?a1) + length (sp_pending ?a1) + length actions) < 2 ^ 64"
    using spec_step_size [of "os_capacity s" action a] Cons.prems(3) by simp
  from Cons.IH [OF s1(2) _ this] s1 Cons.prems(2) show ?case by (auto simp: split_beta Let_def)
qed simp

lemma new_stack_rel:
  assumes "new_ObservabilityStack size_e capacity limit = Inr s" "unat (max size_e 8) * 512 < 2 ^ 64"
  shows "obs_rel s spec_start"
proof -
  obtain q p where q: "new_SpscRingQueue capacity = Inr q" and p: "new_ObjectPool size_e kEnvelopePoolBlocksPerSlab kEnvelopePoolLocalCacheLimit = Inr p"
    and s: "limit \<noteq> 0" "s = \<lparr>os_history_limit = limit, os_queue = q, os_envelope_pool = p, os_metrics = Map.empty, os_rules = [],
                os_breach_counts = Map.empty, os_alerts = [], os_history = [], os_dropped_events = 0\<rparr>"
    using assms(1) by (auto simp: new_ObservabilityStack_def split: sum.splits if_splits)
  have "pq_ok q p []" using pq_new [OF q p] assms(2) by (simp add: kEnvelopePoolBlocksPerSlab_def)
  then show ?thesis using s
    by (simp add: obs_rel_def spec_start_def transport_ok_def sink_ok_def metrics_ok_def metric_snapshot_def samples_def rules_ok_def in_force_def
        alerts_of_def history_ok_def)
qed

lemma flush_loop_limit: "flush_loop t n s = Inr (m, s') \<Longrightarrow> os_history_limit s' = os_history_limit s"
proof (induction t n s rule: flush_loop.induct)
  case (1 t n s)
  let ?s1 = "s\<lparr>os_queue := snd (rq_try_pop (os_queue s))\<rparr>"
  show ?case
  proof (cases "fst (rq_try_pop (os_queue s))")
    case None
    then show ?thesis using "1.prems" by (subst (asm) flush_loop.simps) auto
  next
    case (Some b)
    then obtain s2 where s2: "flush_one t b ?s1 = Inr s2" "flush_loop t (n + 1) s2 = Inr (m, s')"
      using "1.prems" by (subst (asm) flush_loop.simps) (auto simp: Let_def split: sum.splits)
    have "os_history_limit s2 = os_history_limit s"
      using s2(1) by (auto simp: flush_one_def same_transport_def split: option.splits sum.splits dest!: process_envelope_transport)
    then show ?thesis using "1.IH" [OF refl Some s2] by simp
  qed
qed

lemma step_limit: "os_step action s = Inr (out, s') \<Longrightarrow> os_history_limit s' = os_history_limit s"
  by (cases action)
    (auto simp: publish_out_def publish_metric_def publish_span_def publish_envelope_def make_metric_envelope_def make_span_envelope_def
      register_rule_def os_flush_def split_beta Let_def split: sum.splits if_splits dest: flush_loop_limit)

lemma run_limit: "os_run actions s = Inr (outs, s') \<Longrightarrow> os_history_limit s' = os_history_limit s"
  by (induction actions arbitrary: s outs) (auto split: sum.splits dest!: step_limit)

text \<open>Children of one span with different numbers have different span ids.\<close>

lemma child_span_ids: "tc_span_id (child_context parent component n) = tc_span_id (child_context parent component m) \<longleftrightarrow> n = m"
  by (simp add: child_context_def Let_def)

section \<open>Example\<close>

definition cpu :: "int \<Rightarrow> MetricPoint" where
  "cpu value = empty_MetricPoint\<lparr>mp_name := ''cpu'', mp_value := dint value, mp_type := kGauge\<rparr>"

definition cpu_rule :: AlertRule where
  "cpu_rule = \<lparr>ar_rule_id = ''hot'', ar_metric_name = ''cpu'', ar_threshold = dint 90, ar_consecutive_breaches = 2, ar_severity = kCritical\<rparr>"

definition cpu_actions :: "os_action list" where
  "cpu_actions = [RegisterRule cpu_rule, PublishMetric 0 (cpu 95), PublishMetric 0 (cpu 91), Flush 1, PublishMetric 0 (cpu 99),
     PublishSpan 0 (empty_TraceSpan\<lparr>ts_end_timestamp := 5\<rparr>), PublishMetric 0 (cpu 10), Flush 1, PublishMetric 0 (cpu 90), PublishMetric 0 (cpu 92), PublishMetric 0 (cpu 93)]"

lemma cpu_stack:
  obtains s0 outs s where "new_ObservabilityStack 400 2 3 = Inr s0" "os_capacity s0 = 2" "os_run cpu_actions s0 = Inr (outs, s)"
proof -
  have "case new_ObservabilityStack 400 2 3 of Inl _ \<Rightarrow> False | Inr s0 \<Rightarrow> rq_capacity (os_queue s0) = 2"
    by (simp add: exec_simps new_ObservabilityStack_def kEnvelopePoolBlocksPerSlab_def kEnvelopePoolLocalCacheLimit_def)
  then obtain s0 where s0: "new_ObservabilityStack 400 2 3 = Inr s0" "os_capacity s0 = 2" by (auto split: sum.splits)
  have "list_all action_ok cpu_actions" by code_simp
  from run_spec [OF new_stack_rel [OF s0(1)] this] obtain outs s where "os_run cpu_actions s0 = Inr (outs, s)"
    by (auto simp: cpu_actions_def spec_start_def)
  then show thesis using s0 that by blast
qed

lemma cpu_actions_ok: "list_all action_ok cpu_actions" "length cpu_actions < 2 ^ 64 - 1" "unat (max 400 (8 :: u64)) * 512 < 2 ^ 64"
  by (code_simp, simp add: cpu_actions_def, simp)

section \<open>Properties\<close>

lemma new_run_spec:
  assumes "new_ObservabilityStack size_e capacity limit = Inr s0" "unat (max size_e 8) * 512 < 2 ^ 64"
    and "list_all action_ok actions" "length actions < 2 ^ 64 - 1"
  obtains s where "os_run actions s0 = Inr (fst (spec_run (os_capacity s0) actions spec_start), s)"
    "obs_rel s (snd (spec_run (os_capacity s0) actions spec_start))"
  using run_spec [OF new_stack_rel [OF assms(1,2)] assms(3)] assms(4) by (auto simp: spec_start_def)

text \<open>C31: Publishing, registering and flushing, in any order and from any threads, answer without a fault like a bounded list of pending
  inputs, as long as the duration of every span fits 64 bits (\<open>action_ok\<close>; without that a flush faults, see \<open>Observability\<close>), a slab of
  the envelope pool fits \<open>size_t\<close> and there are fewer than \<open>2 ^ 64 - 1\<close> calls. A publication is refused exactly when the queue is full and
  is then counted as dropped. A flush processes every pending input once, in the order of publication: the snapshots are the summaries
  of the samples processed, the alerts are those the rules demand of them, and the history holds the latest events of the inputs
  processed and of the alerts, as many as its limit allows. The destructor frees every envelope.\<close>

theorem obs_refines_bounded_list:
  assumes "new_ObservabilityStack size_e capacity limit = Inr s0" "unat (max size_e 8) * 512 < 2 ^ 64"
    and "list_all action_ok actions" "length actions < 2 ^ 64 - 1"
    and "spec_run (os_capacity s0) actions spec_start = (outs, a)"
  shows "\<exists>s. os_run actions s0 = Inr (outs, s) \<and> pending_events s = of_nat (length (sp_pending a)) \<and> os_dropped_events s = of_nat (sp_dropped a) \<and>
    (\<forall>name. metric_snapshot name s = summarize_samples name (samples name (sp_trace a))) \<and>
    (\<forall>r. filter (\<lambda>alert. an_rule_id alert = r) (os_alerts s) = alerts_of r (sp_trace a)) \<and>
    length (os_history s) = min (unat limit) (length (concat (map events_of (sp_trace a))) + length (os_alerts s)) \<and>
    suffix (filter (\<lambda>event. te_kind event \<noteq> kAlert) (os_history s)) (concat (map events_of (sp_trace a))) \<and>
    suffix (filter (\<lambda>event. te_kind event = kAlert) (os_history s)) (map notification_event (os_alerts s)) \<and>
    op_objects (os_envelope_pool (drain_and_dispose_pending t s)) = Map.empty"
proof -
  obtain s where s: "os_run actions s0 = Inr (outs, s)" "obs_rel s a" using new_run_spec [OF assms(1-4)] assms(5) by (metis fst_conv snd_conv)
  have sink: "metrics_ok s (sp_trace a)" "rules_ok s (sp_trace a)" "history_ok s (sp_trace a)" using s(2) by (auto simp: obs_rel_def sink_ok_def)
  have "os_history_limit s = limit" using run_limit [OF s(1)] assms(1) by (auto simp: new_ObservabilityStack_def split: sum.splits if_splits)
  then have hist: "length (os_history s) = min (unat limit) (length (concat (map events_of (sp_trace a))) + length (os_alerts s))"
      "suffix (filter (\<lambda>event. te_kind event \<noteq> kAlert) (os_history s)) (concat (map events_of (sp_trace a)))"
      "suffix (filter (\<lambda>event. te_kind event = kAlert) (os_history s)) (map notification_event (os_alerts s))"
    using sink(3) by (simp_all add: history_ok_def)
  have ok: "transport_ok s (sp_pending a)" using s(2) by (simp add: obs_rel_def)
  have "pending_events s = of_nat (length (sp_pending a))"
    using ok pq_size [of "os_queue s" "os_envelope_pool s" "map envelope_of (sp_pending a)"] by (simp add: pending_events_def transport_ok_def)
  moreover have "os_dropped_events s = of_nat (sp_dropped a)" using s(2) by (simp add: obs_rel_def)
  ultimately show ?thesis
    using s(1) hist drain_frees_all [OF ok] sink(1,2) by (simp add: metrics_ok_def rules_ok_def)
qed

theorem obs_refines_bounded_list_witness:
  "\<exists>s0 outs s. new_ObservabilityStack 400 2 3 = Inr s0 \<and> os_run cpu_actions s0 = Inr (outs, s) \<and>
     outs = [RuleAdded, Published kEnqueued, Published kEnqueued, Flushed 2, Published kEnqueued, Published kEnqueued, Published obs_kQueueFull,
       Flushed 2, Published kEnqueued, Published kEnqueued, Published obs_kQueueFull] \<and> pending_events s = 2 \<and> os_dropped_events s = 2 \<and>
     metric_snapshot ''cpu'' s = Some \<lparr>sn_name = ''cpu'', sn_type = kGauge, sn_samples = 3, sn_sum = dint 285, sn_last = dint 99, sn_min = dint 91, sn_max = dint 99\<rparr>"
proof -
  obtain s0 where s0: "new_ObservabilityStack 400 2 3 = Inr s0" "os_capacity s0 = 2" using cpu_stack by metis
  obtain outs a where a: "spec_run 2 cpu_actions spec_start = (outs, a)" by fastforce
  have e: "case spec_run 2 cpu_actions spec_start of (outs, a) \<Rightarrow>
     outs = [RuleAdded, Published kEnqueued, Published kEnqueued, Flushed 2, Published kEnqueued, Published kEnqueued, Published obs_kQueueFull,
       Flushed 2, Published kEnqueued, Published kEnqueued, Published obs_kQueueFull] \<and> length (sp_pending a) = 2 \<and> sp_dropped a = 2 \<and>
     summarize_samples ''cpu'' (samples ''cpu'' (sp_trace a)) =
       Some \<lparr>sn_name = ''cpu'', sn_type = kGauge, sn_samples = 3, sn_sum = dint 285, sn_last = dint 99, sn_min = dint 91, sn_max = dint 99\<rparr>" by code_simp
  show ?thesis using obs_refines_bounded_list [OF s0(1) cpu_actions_ok(3,1,2), of outs a 0] s0 a e by auto
qed





text \<open>The history holds the latest events, never more than its limit and never fewer than the limit allows: its samples and spans
  are the last ones processed, in order, and its alert events belong to the last alerts, in order.\<close>

theorem obs_history_bounded:
  assumes "new_ObservabilityStack size_e capacity limit = Inr s0" "unat (max size_e 8) * 512 < 2 ^ 64"
    and "list_all action_ok actions" "length actions < 2 ^ 64 - 1" "os_run actions s0 = Inr (outs, s)"
    and "processed = concat (map events_of (sp_trace (snd (spec_run (os_capacity s0) actions spec_start))))"
  shows "length (os_history s) = min (unat limit) (length processed + length (os_alerts s)) \<and>
    suffix (filter (\<lambda>event. te_kind event \<noteq> kAlert) (os_history s)) processed \<and>
    suffix (filter (\<lambda>event. te_kind event = kAlert) (os_history s)) (map notification_event (os_alerts s))"
proof -
  let ?a = "snd (spec_run (os_capacity s0) actions spec_start)"
  have "obs_rel s ?a" using new_run_spec [OF assms(1-4)] assms(5) by (metis prod.inject sum.inject(2))
  then have h: "history_ok s (sp_trace ?a)" by (simp add: obs_rel_def sink_ok_def)
  have "os_history_limit s = limit" using run_limit [OF assms(5)] assms(1) by (auto simp: new_ObservabilityStack_def split: sum.splits if_splits)
  then show ?thesis using h assms(6) by (simp add: history_ok_def)
qed

theorem obs_history_bounded_witness:
  "\<exists>s0 outs s. new_ObservabilityStack 400 2 3 = Inr s0 \<and> os_run cpu_actions s0 = Inr (outs, s) \<and> length (os_history s) = 3"
proof -
  obtain s0 outs s where s: "new_ObservabilityStack 400 2 3 = Inr s0" "os_capacity s0 = 2" "os_run cpu_actions s0 = Inr (outs, s)" by (rule cpu_stack)
  have "length (concat (map events_of (sp_trace (snd (spec_run 2 cpu_actions spec_start))))) = 4" by code_simp
  then have "length (os_history s) = 3" using obs_history_bounded [OF s(1) cpu_actions_ok(3,1,2) s(3) refl] s(2) by simp
  then show ?thesis using s by blast
qed

end
