(* ===== verification/Perf_Toolkit.thy ===== *)
theory Perf_Toolkit
  imports Binary64 Cxx_Text Ring_Queue Block_Pool
begin

text \<open>
  The performance toolkit of \<open>tooling/performance-toolkit\<close>: synthetic requests are generated into a ring queue of
  pointers to pooled envelopes, polled, and latencies are recorded and summarized with percentiles. \<open>perf_error\<close> has the exceptions and
  the undefined behaviour of the code: the use of an envelope that is not alive, and a timestamp that is not an \<open>int64_t\<close>.
\<close>

section \<open>Types\<close>

datatype FlowPattern = kLimitOnly | kMarketBurst | kMixed

record WorkloadConfig =
  wc_scenario_name :: string
  wc_pattern :: FlowPattern
  wc_request_count :: u64
  wc_burst_size :: u64
  wc_concurrency :: u64
  wc_base_timestamp_ms :: i64

record SyntheticRequest =
  sq_request_id :: string
  sq_is_market :: bool
  sq_price :: double
  sq_quantity :: double
  sq_timestamp_ms :: i64

record LatencySummary =
  ls_samples :: u64
  ls_min_ns :: u64
  ls_p50_ns :: u64
  ls_p99_ns :: u64
  ls_p999_ns :: u64
  ls_max_ns :: u64
  ls_throughput_per_second :: double
  ls_success_ratio :: double

record RequestEnvelope =
  re_request :: SyntheticRequest

record LatencyRecord =
  lr_latency_ns :: u64
  lr_success :: bool

record PerformanceToolkit =
  pt_queue :: "block SpscRingQueue"
  pt_envelope_pool :: "RequestEnvelope ObjectPool"
  pt_latencies :: "LatencyRecord list"
  pt_dropped_requests :: u64

datatype perf_error = PerfQueue ring_error | PerfPool pool_error | BadWorkload | DanglingRequest | TimestampOverflow

section \<open>Requests\<close>

text \<open>\<open>sizeof_RequestEnvelope\<close> is the size of an envelope, which the platform determines.\<close>

definition new_PerformanceToolkit :: "u64 \<Rightarrow> u64 \<Rightarrow> perf_error + PerformanceToolkit" where
  "new_PerformanceToolkit sizeof_RequestEnvelope queue_capacity =
     (case new_SpscRingQueue queue_capacity of
        Inl e \<Rightarrow> Inl (PerfQueue e)
      | Inr queue \<Rightarrow>
     (case new_ObjectPool sizeof_RequestEnvelope 512 128 of
        Inl e \<Rightarrow> Inl (PerfPool e)
      | Inr pool \<Rightarrow> Inr \<lparr>pt_queue = queue, pt_envelope_pool = pool, pt_latencies = [], pt_dropped_requests = 0\<rparr>))"

text \<open>The conversion of \<open>index / concurrency\<close> to \<open>int64_t\<close> is modular; the sum is undefined when it is not an \<open>int64_t\<close>.\<close>

definition make_request :: "WorkloadConfig \<Rightarrow> u64 \<Rightarrow> perf_error + SyntheticRequest" where
  "make_request config index =
     (let is_market = (if wc_pattern config = kMarketBurst then index mod max (wc_burst_size config) 1 = 0
                       else if wc_pattern config = kMixed then index mod 3 = 0 else False);
          spread = dint (uint (index mod 11) - 5);
          timestamp = wc_base_timestamp_ms config + sint (index div wc_concurrency config)
      in if timestamp < - (2 ^ 63) \<or> 2 ^ 63 \<le> timestamp then Inl TimestampOverflow
         else Inr \<lparr>sq_request_id = wc_scenario_name config @ ''-'' @ show_u64 (index + 1), sq_is_market = is_market,
            sq_price = (if is_market then 0 else dint 10000 + spread),
            sq_quantity = dbl (1 / 10) + dint (uint (index mod 5)) * dbl (1 / 20), sq_timestamp_ms = timestamp\<rparr>)"

text \<open>One round of the loop: whether the request was accepted.\<close>

definition enqueue_one :: "thread \<Rightarrow> WorkloadConfig \<Rightarrow> u64 \<Rightarrow> PerformanceToolkit \<Rightarrow> perf_error + bool \<times> PerformanceToolkit" where
  "enqueue_one t config index s =
     (case make_request config index of
        Inl e \<Rightarrow> Inl e
      | Inr request \<Rightarrow>
     (case op_create t \<lparr>re_request = request\<rparr> (pt_envelope_pool s) of
        Inl e \<Rightarrow> Inl (PerfPool e)
      | Inr (envelope, pool) \<Rightarrow>
          let (pushed, queue) = rq_push envelope (pt_queue s)
          in if \<not> pushed
             then Inr (False, s\<lparr>pt_queue := queue, pt_envelope_pool := op_destroy t (Some envelope) pool,
                                pt_dropped_requests := pt_dropped_requests s + 1\<rparr>)
             else Inr (True, s\<lparr>pt_queue := queue, pt_envelope_pool := pool\<rparr>)))"

function enqueue_loop :: "thread \<Rightarrow> WorkloadConfig \<Rightarrow> u64 \<Rightarrow> u64 \<Rightarrow> PerformanceToolkit \<Rightarrow> perf_error + u64 \<times> PerformanceToolkit" where
  "enqueue_loop t config index accepted s =
     (if index < wc_request_count config
      then (case enqueue_one t config index s of
              Inl e \<Rightarrow> Inl e
            | Inr (pushed, s1) \<Rightarrow> enqueue_loop t config (index + 1) (if pushed then accepted + 1 else accepted) s1)
      else Inr (accepted, s))"
  by pat_completeness auto
termination
  by (relation "measure (\<lambda>(t, config, index, accepted, s). unat (wc_request_count config) - unat index)")
    (auto simp: u64_unat_inc_below word_less_nat_alt)

declare enqueue_loop.simps [simp del]

definition enqueue_workload :: "thread \<Rightarrow> WorkloadConfig \<Rightarrow> PerformanceToolkit \<Rightarrow> perf_error + u64 \<times> PerformanceToolkit" where
  "enqueue_workload t config s =
     (if wc_scenario_name config = [] \<or> wc_request_count config = 0 \<or> wc_concurrency config = 0 then Inl BadWorkload
      else enqueue_loop t config 0 0 s)"

definition poll_request :: "thread \<Rightarrow> PerformanceToolkit \<Rightarrow> perf_error + SyntheticRequest option \<times> PerformanceToolkit" where
  "poll_request t s =
     (let s1 = s\<lparr>pt_queue := snd (rq_try_pop (pt_queue s))\<rparr> in
      case fst (rq_try_pop (pt_queue s)) of
        None \<Rightarrow> Inr (None, s1)
      | Some envelope \<Rightarrow>
     (case op_objects (pt_envelope_pool s1) envelope of
        None \<Rightarrow> Inl DanglingRequest
      | Some value \<Rightarrow>
          Inr (Some (re_request value), s1\<lparr>pt_envelope_pool := op_destroy t (Some envelope) (pt_envelope_pool s1)\<rparr>)))"

function drain_pending :: "thread \<Rightarrow> PerformanceToolkit \<Rightarrow> PerformanceToolkit" where
  "drain_pending t s =
     (let s1 = s\<lparr>pt_queue := snd (rq_try_pop (pt_queue s))\<rparr> in
      case fst (rq_try_pop (pt_queue s)) of
        None \<Rightarrow> s1
      | Some envelope \<Rightarrow> drain_pending t (s1\<lparr>pt_envelope_pool := op_destroy t (Some envelope) (pt_envelope_pool s1)\<rparr>))"
  by pat_completeness auto
termination
  by (relation "measure (\<lambda>(t, s). rq_len (pt_queue s))") (auto dest: rq_pop_shorter)

declare drain_pending.simps [simp del]

definition pending_requests :: "PerformanceToolkit \<Rightarrow> u64" where
  "pending_requests s = rq_size_approx (pt_queue s)"

section \<open>Latencies\<close>

definition record_latency :: "u64 \<Rightarrow> bool \<Rightarrow> PerformanceToolkit \<Rightarrow> PerformanceToolkit" where
  "record_latency latency_ns success s = s\<lparr>pt_latencies := pt_latencies s @ [\<lparr>lr_latency_ns = latency_ns, lr_success = success\<rparr>]\<rparr>"

text \<open>\<open>static_cast<std::size_t>(std::ceil(x))\<close> for a finite value that is in range, and \<open>static_cast<double>(n)\<close>.\<close>

definition ceil_size_t :: "double \<Rightarrow> u64" where
  "ceil_size_t x = of_int \<lceil>val x\<rceil>"

definition size_double :: "u64 \<Rightarrow> double" where
  "size_double n = dint (uint n)"

definition percentile :: "u64 list \<Rightarrow> double \<Rightarrow> u64" where
  "percentile sorted_values rank =
     (if sorted_values = [] then 0
      else let n = of_nat (length sorted_values) :: u64; index = ceil_size_t (rank * size_double n)
           in sorted_values ! unat (min (if index = 0 then 0 else index - 1) (n - 1)))"

definition empty_LatencySummary :: LatencySummary where
  "empty_LatencySummary = \<lparr>ls_samples = 0, ls_min_ns = 0, ls_p50_ns = 0, ls_p99_ns = 0, ls_p999_ns = 0, ls_max_ns = 0,
     ls_throughput_per_second = 0, ls_success_ratio = 0\<rparr>"

definition summarize :: "double \<Rightarrow> PerformanceToolkit \<Rightarrow> LatencySummary" where
  "summarize duration_seconds s =
     (if pt_latencies s = [] then empty_LatencySummary
      else let sorted_latencies = sort (map lr_latency_ns (pt_latencies s));
               successes = of_nat (length (filter lr_success (pt_latencies s))) :: u64;
               n = of_nat (length sorted_latencies) :: u64
           in \<lparr>ls_samples = n, ls_min_ns = hd sorted_latencies, ls_p50_ns = percentile sorted_latencies (dbl (1 / 2)),
               ls_p99_ns = percentile sorted_latencies (dbl (99 / 100)), ls_p999_ns = percentile sorted_latencies (dbl (999 / 1000)),
               ls_max_ns = last sorted_latencies,
               ls_throughput_per_second = (if 0 < duration_seconds then size_double n / duration_seconds else 0),
               ls_success_ratio = size_double successes / size_double n\<rparr>)"

definition newline :: string where
  "newline = [CHR 0x0A]"

definition render_report :: "string \<Rightarrow> double \<Rightarrow> PerformanceToolkit \<Rightarrow> string" where
  "render_report scenario_name duration_seconds s =
     (let summary = summarize duration_seconds s in
      ''scenario='' @ scenario_name @ newline @
      ''samples='' @ show_u64 (ls_samples summary) @ '' throughput='' @ show_double (ls_throughput_per_second summary) @ newline @
      ''p50_ns='' @ show_u64 (ls_p50_ns summary) @ '' p99_ns='' @ show_u64 (ls_p99_ns summary) @ '' p999_ns='' @ show_u64 (ls_p999_ns summary) @ newline @
      ''success_ratio='' @ show_double (ls_success_ratio summary) @ '' dropped_requests='' @ show_u64 (pt_dropped_requests s) @ newline @
      (if 5000000 < ls_p99_ns summary then ''bottleneck_hint=tail_latency_hot_path'' @ newline
       else if 0 < pt_dropped_requests s then ''bottleneck_hint=ingress_queue_pressure'' @ newline
       else ''bottleneck_hint=stable'' @ newline))"

end
