(* ===== verification/Perf_Props.thy ===== *)
theory Perf_Props
  imports Perf_Toolkit Pointer_Queue "HOL-Library.Multiset"
begin

text \<open>
  The performance toolkit: the percentiles are exact nearest-rank percentiles although the rank is computed in floating
  point, and requests are queued up to the capacity, counted otherwise, and polled in order.
\<close>

section \<open>The rank\<close>

lemma val_mult:
  assumes "is_finite a" "is_finite b" "\<bar>round_rat (val a * val b)\<bar> < fp_limit"
  shows "val (a * b) = round_rat (val a * val b)"
  using assms
proof transfer
  fix a b
  assume "fp_finite a" "fp_finite b" "\<bar>round_rat (fp_val a * fp_val b)\<bar> < fp_limit"
  then show "fp_val (fp_mul a b) = round_rat (fp_val a * fp_val b)"
    by (cases a; cases b) (auto simp: fp_round_def Let_def)
qed

lemma round_rat_int: "\<bar>m\<bar> \<le> 2 ^ 53 \<Longrightarrow> round_rat (of_int m) = of_int m"
  by (rule round_rat_exact [of _ m 0]) simp_all

text \<open>A rank slightly below \<open>a / b\<close> times a number of samples: the next integer is that of the exact product. Between the exact product and the
  integer below it there is a value with a fraction of \<open>1 / 2048\<close>, which rounding cannot cross.\<close>

lemma rounded_rank:
  fixes r :: rat and a b n :: int
  assumes r: "r \<le> of_int a / of_int b" "of_int a / of_int b \<le> r + 1 / 2 ^ 52" "0 \<le> r"
    and ab: "0 \<le> a" "a \<le> b" "0 < b" "b \<le> 1000" and n: "0 \<le> n" "n \<le> 2 ^ 40"
  shows "\<lceil>round_rat (r * of_int n)\<rceil> = \<lceil>of_int (a * n) / (of_int b :: rat)\<rceil>" "\<bar>round_rat (r * of_int n)\<bar> \<le> of_int n"
proof -
  let ?x = "of_int (a * n) / (of_int b :: rat)" and ?q = "r * of_int n"
  let ?m = "\<lceil>?x\<rceil>"
  have q: "?q \<le> ?x" "?x \<le> ?q + of_int n / 2 ^ 52" "0 \<le> ?q"
    using mult_right_mono [OF r(1), of "of_int n"] mult_right_mono [OF r(2), of "of_int n"] r(3) n(1) by (simp_all add: field_simps)
  have xn: "?x \<le> of_int n"
  proof -
    have "a * n \<le> b * n" using ab n by (intro mult_right_mono)
    then have "of_int (a * n) \<le> (of_int (b * n) :: rat)" by (simp only: of_int_le_iff)
    then show ?thesis using ab(3) by (simp add: field_simps)
  qed
  have x0: "0 \<le> ?x" using ab n by simp
  have m: "0 \<le> ?m" "?m \<le> n" using x0 xn by (simp_all add: ceiling_le_iff less_ceiling_iff flip: not_less)
  have upper: "round_rat ?q \<le> of_int ?m"
  proof -
    have "round_rat ?q \<le> round_rat (of_int ?m)" using q(1) le_of_int_ceiling order.trans by (intro round_rat_mono) blast
    moreover have "round_rat (of_int ?m) = of_int ?m"
    proof (rule round_rat_int)
      have "\<bar>?m\<bar> \<le> n" using m by linarith
      also have "n \<le> 2 ^ 53" using n(2) by simp
      finally show "\<bar>?m\<bar> \<le> 2 ^ 53" .
    qed
    ultimately show ?thesis by (simp only:)
  qed
  have "of_int (?m - 1) < round_rat ?q"
  proof (cases "?m = 0")
    case True
    then show ?thesis using round_rat_nonneg [OF q(3)] by simp
  next
    case False
    have "of_int (?m - 1) < ?x" using ceiling_correct [of ?x] by simp
    then have "of_int ((?m - 1) * b) < (of_int (a * n) :: rat)" using ab(3) by (simp add: field_simps)
    then have "(?m - 1) * b + 1 \<le> a * n" by (simp only: of_int_less_iff)
    then have "of_int ((?m - 1) * b + 1) \<le> (of_int (a * n) :: rat)" by (simp only: of_int_le_iff)
    then have "of_int ((?m - 1) * b + 1) / of_int b \<le> ?x" using ab(3) by (intro divide_right_mono) simp_all
    moreover have "of_int ((?m - 1) * b + 1) / of_int b = of_int (?m - 1) + 1 / (of_int b :: rat)" using ab(3) by (simp add: add_divide_distrib)
    ultimately have "of_int (?m - 1) + 1 / of_int b \<le> ?x" by (simp only:)
    moreover have "1 / 1000 \<le> 1 / (of_int b :: rat)" using ab(3,4) by (simp add: field_simps)
    moreover have "of_int n / 2 ^ 52 \<le> (1 / 4096 :: rat)" using n(2) by (simp add: field_simps)
    ultimately have "of_int (?m - 1) + 1 / 2048 \<le> ?q" using q(2) by linarith
    then have "round_rat (of_int (?m - 1) + 1 / 2048) \<le> round_rat ?q" by (rule round_rat_mono)
    moreover have "round_rat (of_int (?m - 1) + 1 / 2048) = of_int (?m - 1) + 1 / 2048"
    proof (rule round_rat_exact)
      show "of_int (?m - 1) + 1 / 2048 = of_int ((?m - 1) * 2048 + 1) * (2 powi (- 11) :: rat)" by (simp add: power_int_minus field_simps)
      have "\<bar>(z - 1) * 2048 + 1\<bar> \<le> 2 ^ 53" if "0 \<le> z" "z \<le> n" for z :: int using that n by (simp add: abs_le_iff)
      from this [OF m] show "\<bar>(?m - 1) * 2048 + 1\<bar> \<le> 2 ^ 53" .
    qed simp
    ultimately show ?thesis by simp
  qed
  then show "\<lceil>round_rat ?q\<rceil> = ?m" using upper by (simp add: ceiling_eq_iff)
  show "\<bar>round_rat ?q\<bar> \<le> of_int n" using round_rat_nonneg [OF q(3)] upper m by linarith
qed

lemma rank_values:
  "is_finite (dbl (1 / 2))" "val (dbl (1 / 2)) = 1 / 2"
  "is_finite (dbl (99 / 100))" "val (dbl (99 / 100)) = 4458563631096791 / 4503599627370496"
  "is_finite (dbl (999 / 1000))" "val (dbl (999 / 1000)) = 8998192055486251 / 9007199254740992"
  by code_simp+

lemma size_double_small:
  assumes "n \<le> 2 ^ 40"
  shows "is_finite (size_double (of_nat n))" "val (size_double (of_nat n)) = of_nat n" "uint (of_nat n :: u64) = int n"
proof -
  show u: "uint (of_nat n :: u64) = int n" using assms by (simp add: uint_nat unat_of_nat)
  have "exact (int n)" using assms by (simp add: exact_def)
  then show "is_finite (size_double (of_nat n))" "val (size_double (of_nat n)) = of_nat n" by (simp_all add: size_double_def u)
qed

lemma ceil_rank:
  fixes a b :: int
  assumes "is_finite d" "val d \<le> of_int a / of_int b" "of_int a / of_int b \<le> val d + 1 / 2 ^ 52" "0 \<le> val d"
    and "0 \<le> a" "a \<le> b" "0 < b" "b \<le> 1000" "n \<le> 2 ^ 40"
  shows "unat (ceil_size_t (d * size_double (of_nat n))) = nat \<lceil>of_int (a * int n) / (of_int b :: rat)\<rceil>"
proof -
  have n: "0 \<le> int n" "int n \<le> 2 ^ 40" using assms(9) by simp_all
  note rr = rounded_rank [OF assms(2-8) n]
  have "(of_int (int n) :: rat) < fp_limit"
  proof -
    have "(of_int (int n) :: rat) \<le> of_int (2 ^ 40)" using n(2) by (simp only: of_int_le_iff)
    also have "\<dots> < fp_limit" by (simp add: fp_limit_def)
    finally show ?thesis .
  qed
  then have "val (d * size_double (of_nat n)) = round_rat (val d * of_int (int n))"
    using rr(2) size_double_small [OF assms(9)] assms(1) by (subst val_mult) auto
  then have c: "ceil_size_t (d * size_double (of_nat n)) = of_int \<lceil>of_int (a * int n) / (of_int b :: rat)\<rceil>" using rr(1) by (simp add: ceil_size_t_def)
  let ?m = "\<lceil>of_int (a * int n) / (of_int b :: rat)\<rceil>"
  have "0 \<le> ?m" "?m \<le> int n"
  proof -
    have "a * int n \<le> b * int n" using assms(6) by (intro mult_right_mono) simp_all
    then have "of_int (a * int n) \<le> (of_int (b * int n) :: rat)" by (simp only: of_int_le_iff)
    then have "of_int (a * int n) / (of_int b :: rat) \<le> of_int (int n)" using assms(7) by (simp add: field_simps)
    then show "?m \<le> int n" by (simp only: ceiling_le_iff)
    have "(0 :: rat) \<le> of_int (a * int n) / of_int b" using assms(5,7) by simp
    then show "0 \<le> ?m" by (metis ceiling_mono ceiling_zero)
  qed
  then have "nat ?m < 2 ^ 64" "of_int ?m = (of_nat (nat ?m) :: u64)" using n(2) by simp_all
  then show ?thesis unfolding c by (simp add: unat_of_nat)
qed

section \<open>Nearest rank\<close>

lemma sorted_rank:
  assumes "sorted xs" "k < length xs"
  shows "Suc k \<le> length (filter (\<lambda>x. x \<le> xs ! k) xs)" "length (filter (\<lambda>x. x < xs ! k) xs) \<le> k"
proof -
  have xs: "xs = take (Suc k) xs @ drop (Suc k) xs" "xs = take k xs @ drop k xs" by simp_all
  have "\<forall>x \<in> set (take (Suc k) xs). x \<le> xs ! k" using assms by (auto simp: in_set_conv_nth sorted_nth_mono)
  then have "filter (\<lambda>x. x \<le> xs ! k) (take (Suc k) xs) = take (Suc k) xs" by (simp add: filter_id_conv)
  then have "length (filter (\<lambda>x. x \<le> xs ! k) xs) = Suc k + length (filter (\<lambda>x. x \<le> xs ! k) (drop (Suc k) xs))"
    by (subst xs(1), subst filter_append) (use assms(2) in simp)
  then show "Suc k \<le> length (filter (\<lambda>x. x \<le> xs ! k) xs)" by simp
  have "\<forall>x \<in> set (drop k xs). \<not> x < xs ! k" using assms by (auto simp: in_set_conv_nth sorted_nth_mono not_less)
  then have "filter (\<lambda>x. x < xs ! k) (drop k xs) = []" by (simp add: filter_empty_conv)
  then have "filter (\<lambda>x. x < xs ! k) xs = filter (\<lambda>x. x < xs ! k) (take k xs)" by (subst xs(2), subst filter_append) simp
  then show "length (filter (\<lambda>x. x < xs ! k) xs) \<le> k" using length_filter_le [of _ "take k xs"] by (simp add: order.trans)
qed

text \<open>At least \<open>a / b\<close> of the values are at most \<open>p\<close>, and fewer than \<open>a / b\<close> are below it.\<close>

definition nearest_rank :: "nat \<Rightarrow> nat \<Rightarrow> u64 list \<Rightarrow> u64 \<Rightarrow> bool" where
  "nearest_rank a b xs p \<longleftrightarrow> p \<in> set xs \<and> a * length xs \<le> b * length (filter (\<lambda>x. x \<le> p) xs) \<and> b * length (filter (\<lambda>x. x < p) xs) < a * length xs"

lemma nearest_rank_sort: "nearest_rank a b (sort xs) p = nearest_rank a b xs p"
proof -
  have "length (filter P (sort xs)) = length (filter P xs)" for P by (metis mset_filter mset_sort size_mset)
  then show ?thesis by (simp add: nearest_rank_def)
qed

lemma percentile_nearest_rank:
  assumes "sorted xs" "xs \<noteq> []" "length xs \<le> 2 ^ 40" and d: "is_finite d" "val d \<le> of_int (int a) / of_int (int b)"
    "of_int (int a) / of_int (int b) \<le> val d + 1 / 2 ^ 52" "0 \<le> val d" and ab: "0 < a" "a \<le> b" "b \<le> 1000"
  shows "nearest_rank a b xs (percentile xs d) \<and> percentile xs d = xs ! (nat \<lceil>of_int (int a * int (length xs)) / (of_int (int b) :: rat)\<rceil> - 1)"
proof -
  let ?n = "length xs" and ?w = "of_nat (length xs) :: u64"
  let ?x = "of_int (int a * int (length xs)) / (of_int (int b) :: rat)"
  let ?k = "nat \<lceil>?x\<rceil>"
  have n: "0 < ?n" using assms(2) by simp
  have c: "unat (ceil_size_t (d * size_double ?w)) = ?k" by (rule ceil_rank [OF d]) (use ab assms(3) in simp_all)
  have x: "0 < ?x" "?x \<le> of_int (int ?n)"
  proof -
    show "0 < ?x" using ab n by simp
    have "int a * int ?n \<le> int b * int ?n" using ab by (intro mult_right_mono) simp_all
    then have "of_int (int a * int ?n) \<le> (of_int (int b * int ?n) :: rat)" by (simp only: of_int_le_iff)
    then show "?x \<le> of_int (int ?n)" using ab by (simp add: field_simps)
  qed
  have k: "0 < ?k" "?k \<le> ?n" using x by (simp_all only: nat_le_iff ceiling_le_iff zero_less_nat_eq zero_less_ceiling)
  have w: "unat ?w = ?n" using assms(3) by (simp add: unat_of_nat)
  let ?i = "ceil_size_t (d * size_double ?w)"
  have "?i \<noteq> 0" using c k(1) by auto
  moreover have "unat (?i - 1) = ?k - 1" using c k(1) by (subst unat_minus_one) (auto simp: \<open>?i \<noteq> 0\<close>)
  moreover have "unat (?w - 1) = ?n - 1" using w n by (subst unat_minus_one) auto
  ultimately have "unat (min (if ?i = 0 then 0 else ?i - 1) (?w - 1)) = ?k - 1" using k(2) by (simp add: min_def word_le_nat_alt)
  then have p: "percentile xs d = xs ! (?k - 1)" using assms(2) by (simp add: percentile_def Let_def)
  have lt: "?k - 1 < ?n" using k by linarith
  note sr = sorted_rank [OF assms(1) lt]
  have "a * ?n \<le> b * ?k" "b * (?k - 1) < a * ?n"
  proof -
    have "?x \<le> of_int (int ?k)" "of_int (int ?k) - 1 < ?x" using k(1) ceiling_correct [of ?x] by simp_all
    then have "of_int (int a * int ?n) \<le> (of_int (int b * int ?k) :: rat)" "of_int (int b * (int ?k - 1)) < (of_int (int a * int ?n) :: rat)"
      using ab by (simp_all add: field_simps)
    then have "int a * int ?n \<le> int b * int ?k" "int b * (int ?k - 1) < int a * int ?n" by (simp_all only: of_int_le_iff of_int_less_iff)
    moreover have "int ?k - 1 = int (?k - 1)" using k(1) by linarith
    ultimately have "int (a * ?n) \<le> int (b * ?k)" "int (b * (?k - 1)) < int (a * ?n)" by simp_all
    then show "a * ?n \<le> b * ?k" "b * (?k - 1) < a * ?n" by linarith+
  qed
  moreover have "b * ?k \<le> b * length (filter (\<lambda>y. y \<le> xs ! (?k - 1)) xs)" using sr(1) k(1) by (intro mult_le_mono2) simp
  moreover have "b * length (filter (\<lambda>y. y < xs ! (?k - 1)) xs) \<le> b * (?k - 1)" using sr(2) by (rule mult_le_mono2)
  ultimately show ?thesis unfolding p nearest_rank_def using nth_mem [OF lt] order.trans le_less_trans by blast
qed

lemma sorted_hd_last: "sorted xs \<Longrightarrow> x \<in> set xs \<Longrightarrow> hd xs \<le> x \<and> x \<le> last xs" for xs :: "u64 list"
  by (induction xs) auto

lemma sort_min_max:
  fixes xs :: "u64 list"
  assumes "xs \<noteq> []"
  shows "hd (sort xs) = Min (set xs)" "last (sort xs) = Max (set xs)"
proof -
  have ne: "sort xs \<noteq> []" using assms by (metis length_sort length_0_conv)
  have b: "hd (sort xs) \<le> x \<and> x \<le> last (sort xs)" if "x \<in> set xs" for x using sorted_hd_last [of "sort xs" x] that by simp
  show "hd (sort xs) = Min (set xs)" using b hd_in_set [OF ne] by (intro Min_eqI [symmetric]) auto
  show "last (sort xs) = Max (set xs)" using b last_in_set [OF ne] by (intro Max_eqI [symmetric]) auto
qed

lemma rank_mono:
  fixes a b c d :: nat and xs :: "u64 list"
  assumes "sorted xs" "xs \<noteq> []" "a * d \<le> c * b" "0 < b" "0 < d" "c \<le> d"
  shows "xs ! (nat \<lceil>of_int (int a * int (length xs)) / (of_int (int b) :: rat)\<rceil> - 1) \<le>
    xs ! (nat \<lceil>of_int (int c * int (length xs)) / (of_int (int d) :: rat)\<rceil> - 1)"
proof (rule sorted_nth_mono [OF assms(1)])
  let ?x = "of_int (int a * int (length xs)) / (of_int (int b) :: rat)" and ?y = "of_int (int c * int (length xs)) / (of_int (int d) :: rat)"
  have "of_nat (a * d) * of_nat (length xs) \<le> (of_nat (c * b) * of_nat (length xs) :: rat)"
    using assms(3) by (intro mult_right_mono) (simp_all only: of_nat_le_iff of_nat_0_le_iff)
  then have "?x \<le> ?y" using assms(4,5) by (simp add: field_simps)
  then show "nat \<lceil>?x\<rceil> - 1 \<le> nat \<lceil>?y\<rceil> - 1" by (intro diff_le_mono nat_mono ceiling_mono)
  have "of_nat c * of_nat (length xs) \<le> (of_nat d * of_nat (length xs) :: rat)"
    using assms(6) by (intro mult_right_mono) (simp_all only: of_nat_le_iff of_nat_0_le_iff)
  then have "?y \<le> of_int (int (length xs))" using assms(5) by (simp add: field_simps)
  then have "nat \<lceil>?y\<rceil> \<le> length xs" by (simp only: nat_le_iff ceiling_le_iff)
  moreover have "0 < length xs" using assms(2) by blast
  ultimately show "nat \<lceil>?y\<rceil> - 1 < length xs" by linarith
qed

lemma rank_percentiles:
  assumes "sorted xs" "xs \<noteq> []" "length xs \<le> 2 ^ 40"
  shows "nearest_rank 50 100 xs (percentile xs (dbl (1 / 2)))" "nearest_rank 99 100 xs (percentile xs (dbl (99 / 100)))"
    "nearest_rank 999 1000 xs (percentile xs (dbl (999 / 1000)))" "percentile xs (dbl (1 / 2)) \<le> percentile xs (dbl (99 / 100))"
    "percentile xs (dbl (99 / 100)) \<le> percentile xs (dbl (999 / 1000))"
proof -
  note pr = percentile_nearest_rank [OF assms]
  have p50: "nearest_rank 50 100 xs (percentile xs (dbl (1 / 2))) \<and>
      percentile xs (dbl (1 / 2)) = xs ! (nat \<lceil>of_int (int 50 * int (length xs)) / (of_int (int 100) :: rat)\<rceil> - 1)"
    by (rule pr) (simp_all add: rank_values)
  have p99: "nearest_rank 99 100 xs (percentile xs (dbl (99 / 100))) \<and>
      percentile xs (dbl (99 / 100)) = xs ! (nat \<lceil>of_int (int 99 * int (length xs)) / (of_int (int 100) :: rat)\<rceil> - 1)"
    by (rule pr) (simp_all add: rank_values)
  have p999: "nearest_rank 999 1000 xs (percentile xs (dbl (999 / 1000))) \<and>
      percentile xs (dbl (999 / 1000)) = xs ! (nat \<lceil>of_int (int 999 * int (length xs)) / (of_int (int 1000) :: rat)\<rceil> - 1)"
    by (rule pr) (simp_all add: rank_values)
  show "nearest_rank 50 100 xs (percentile xs (dbl (1 / 2)))" "nearest_rank 99 100 xs (percentile xs (dbl (99 / 100)))"
    "nearest_rank 999 1000 xs (percentile xs (dbl (999 / 1000)))" using p50 p99 p999 by blast+
  have "xs ! (nat \<lceil>of_int (int 50 * int (length xs)) / (of_int (int 100) :: rat)\<rceil> - 1) \<le>
      xs ! (nat \<lceil>of_int (int 99 * int (length xs)) / (of_int (int 100) :: rat)\<rceil> - 1)" by (rule rank_mono [OF assms(1,2)]) simp_all
  then show "percentile xs (dbl (1 / 2)) \<le> percentile xs (dbl (99 / 100))" using p50 p99 by metis
  have "xs ! (nat \<lceil>of_int (int 99 * int (length xs)) / (of_int (int 100) :: rat)\<rceil> - 1) \<le>
      xs ! (nat \<lceil>of_int (int 999 * int (length xs)) / (of_int (int 1000) :: rat)\<rceil> - 1)" by (rule rank_mono [OF assms(1,2)]) simp_all
  then show "percentile xs (dbl (99 / 100)) \<le> percentile xs (dbl (999 / 1000))" using p99 p999 by metis
qed

text \<open>C33: The summary of up to \<open>2 ^ 40\<close> recorded latencies: count, least and greatest latency, and the exact nearest-rank percentiles (at
  least the given share of the latencies is not above the value, less than that share is below it), although the rank is computed in
  floating point from 0.99 and 0.999, which binary64 does not have. They are in order.\<close>

theorem perf_summary_percentiles:
  assumes "ls = map lr_latency_ns (pt_latencies s)" "ls \<noteq> []" "length ls \<le> 2 ^ 40" "r = summarize duration s"
  shows "ls_samples r = of_nat (length ls) \<and> ls_min_ns r = Min (set ls) \<and> ls_max_ns r = Max (set ls) \<and>
    nearest_rank 50 100 ls (ls_p50_ns r) \<and> nearest_rank 99 100 ls (ls_p99_ns r) \<and> nearest_rank 999 1000 ls (ls_p999_ns r) \<and>
    ls_min_ns r \<le> ls_p50_ns r \<and> ls_p50_ns r \<le> ls_p99_ns r \<and> ls_p99_ns r \<le> ls_p999_ns r \<and> ls_p999_ns r \<le> ls_max_ns r"
proof -
  let ?xs = "sort ls"
  have "?xs \<noteq> []" using assms(2) by (metis length_sort length_0_conv)
  then have xs: "sorted ?xs" "?xs \<noteq> []" "length ?xs \<le> 2 ^ 40" using assms(3) by simp_all
  have r: "ls_samples r = of_nat (length ls)" "ls_min_ns r = hd ?xs" "ls_max_ns r = last ?xs" "ls_p50_ns r = percentile ?xs (dbl (1 / 2))"
    "ls_p99_ns r = percentile ?xs (dbl (99 / 100))" "ls_p999_ns r = percentile ?xs (dbl (999 / 1000))"
    using assms by (auto simp: summarize_def Let_def)
  note p = rank_percentiles [OF xs, folded r]
  have "ls_p50_ns r \<in> set ?xs" "ls_p999_ns r \<in> set ?xs" using p by (simp_all add: nearest_rank_def)
  then have "ls_min_ns r \<le> ls_p50_ns r" "ls_p999_ns r \<le> ls_max_ns r" using sorted_hd_last [OF xs(1)] r(2,3) by simp_all
  then show ?thesis using p [unfolded nearest_rank_sort] r(1) sort_min_max [OF assms(2)] r(2,3) by simp
qed

text \<open>Ten latencies, one of them of a failed request.\<close>

definition ten_latencies :: PerformanceToolkit where
  "ten_latencies = fold (\<lambda>n. record_latency n (n \<noteq> 70)) [50, 20, 90, 10, 70, 30, 100, 60, 40, 80]
     \<lparr>pt_queue = \<lparr>rq_capacity = 2, rq_mask = 1, rq_buffer = [None, None], rq_head = 0, rq_tail = 0\<rparr>,
      pt_envelope_pool = \<lparr>op_storage = (case new_FixedBlockPool 64 512 128 of Inr p \<Rightarrow> p), op_objects = Map.empty\<rparr>, pt_latencies = [], pt_dropped_requests = 0\<rparr>"

theorem perf_summary_percentiles_witness:
  "nearest_rank 50 100 [50, 20, 90, 10, 70, 30, 100, 60, 40, 80] (ls_p50_ns (summarize (dint 2) ten_latencies)) \<and>
   ls_p50_ns (summarize (dint 2) ten_latencies) = 50 \<and> ls_p99_ns (summarize (dint 2) ten_latencies) = 100 \<and>
   ls_throughput_per_second (summarize (dint 2) ten_latencies) = dint 5 \<and> ls_success_ratio (summarize (dint 2) ten_latencies) = dbl (9 / 10)"
proof (intro conjI)
  have ls: "[50, 20, 90, 10, 70, 30, 100, 60, 40, 80] = map lr_latency_ns (pt_latencies ten_latencies)" by (simp add: ten_latencies_def record_latency_def)
  show "nearest_rank 50 100 [50, 20, 90, 10, 70, 30, 100, 60, 40, 80] (ls_p50_ns (summarize (dint 2) ten_latencies))"
    using perf_summary_percentiles [OF ls _ _ refl, of "dint 2"] by simp
qed code_simp+

section \<open>The request queue\<close>

definition perf_ok :: "PerformanceToolkit \<Rightarrow> SyntheticRequest list \<Rightarrow> bool" where
  "perf_ok s xs \<longleftrightarrow> pq_ok (pt_queue s) (pt_envelope_pool s) (map (\<lambda>x. \<lparr>re_request = x\<rparr>) xs)"

abbreviation pt_capacity :: "PerformanceToolkit \<Rightarrow> nat" where
  "pt_capacity s \<equiv> unat (rq_capacity (pt_queue s))"

lemma enqueue_one_spec:
  assumes ok: "perf_ok s xs" and x: "make_request config i = Inr x"
  obtains s' where "enqueue_one t config i s = Inr (length xs < pt_capacity s, s')" "pt_capacity s' = pt_capacity s"
    "perf_ok s' (if length xs < pt_capacity s then xs @ [x] else xs)"
    "pt_dropped_requests s' = pt_dropped_requests s + (if length xs < pt_capacity s then 0 else 1)" "pt_latencies s' = pt_latencies s"
proof -
  obtain b p where b: "op_create t \<lparr>re_request = x\<rparr> (pt_envelope_pool s) = Inr (b, p)" "b \<notin> dom (op_objects (pt_envelope_pool s))"
    "op_objects p = (op_objects (pt_envelope_pool s))(b \<mapsto> \<lparr>re_request = x\<rparr>)" "op_inv p"
    using pq_create [OF ok [unfolded perf_ok_def], of t "\<lparr>re_request = x\<rparr>"] by metis
  note push = pq_push [OF ok [unfolded perf_ok_def] b(2-4)]
  show thesis
  proof (cases "length xs < pt_capacity s")
    case True
    let ?s = "s\<lparr>pt_queue := snd (rq_push b (pt_queue s)), pt_envelope_pool := p\<rparr>"
    show ?thesis using True push(1-3) b(1) x by (intro that [of ?s]) (simp_all add: enqueue_one_def perf_ok_def split_beta Let_def)
  next
    case False
    let ?s = "s\<lparr>pt_queue := snd (rq_push b (pt_queue s)), pt_envelope_pool := op_destroy t (Some b) p, pt_dropped_requests := pt_dropped_requests s + 1\<rparr>"
    show ?thesis using False push(1,2) push(4) [of t] b(1) x by (intro that [of ?s]) (simp_all add: enqueue_one_def perf_ok_def split_beta Let_def)
  qed
qed

text \<open>The requests of a workload whose timestamps are all in range.\<close>

definition request_at :: "WorkloadConfig \<Rightarrow> nat \<Rightarrow> SyntheticRequest" where
  "request_at config i = projr (make_request config (of_nat i))"

definition config_ok :: "WorkloadConfig \<Rightarrow> bool" where
  "config_ok config \<longleftrightarrow> list_all (\<lambda>i. \<not> isl (make_request config (of_nat i))) [0 ..< unat (wc_request_count config)]"

lemma enqueue_loop_spec:
  assumes "perf_ok s xs" "config_ok config" "unat (wc_request_count config) = unat index + m" "a = min m (pt_capacity s - length xs)"
  shows "\<exists>s'. enqueue_loop t config index accepted s = Inr (accepted + of_nat a, s') \<and>
    perf_ok s' (xs @ map (request_at config) [unat index ..< unat index + a]) \<and>
    pt_dropped_requests s' = pt_dropped_requests s + of_nat (m - a) \<and> pt_latencies s' = pt_latencies s"
  using assms
proof (induction m arbitrary: s xs index accepted a)
  case 0
  then have "\<not> index < wc_request_count config" by (simp add: word_less_nat_alt)
  then show ?case using 0 by (subst enqueue_loop.simps) simp
next
  case (Suc m)
  let ?room = "length xs < pt_capacity s"
  have lt: "index < wc_request_count config" using Suc.prems(3) by (simp add: word_less_nat_alt)
  have x: "make_request config index = Inr (request_at config (unat index))"
  proof -
    have "\<not> isl (make_request config (of_nat (unat index)))" using bspec [OF Suc.prems(2) [unfolded config_ok_def list_all_iff], of "unat index"] lt by (simp add: word_less_nat_alt)
    then show ?thesis by (cases "make_request config index") (simp_all add: request_at_def)
  qed
  obtain s1 where s1: "enqueue_one t config index s = Inr (?room, s1)" "pt_capacity s1 = pt_capacity s"
    "perf_ok s1 (if ?room then xs @ [request_at config (unat index)] else xs)"
    "pt_dropped_requests s1 = pt_dropped_requests s + (if ?room then 0 else 1)" "pt_latencies s1 = pt_latencies s"
    using enqueue_one_spec [OF Suc.prems(1) x] by metis
  have inc: "unat (index + 1) = Suc (unat index)" using lt by (rule u64_unat_inc_below)
  have step: "enqueue_loop t config index accepted s = enqueue_loop t config (index + 1) (if ?room then accepted + 1 else accepted) s1"
    using lt s1(1) by (subst enqueue_loop.simps) simp
  have m: "unat (wc_request_count config) = unat (index + 1) + m" using Suc.prems(3) inc by simp
  show ?case
  proof (cases ?room)
    case True
    then have a: "a = Suc (min m (pt_capacity s1 - length (xs @ [request_at config (unat index)])))" using Suc.prems(4) s1(2) by simp
    have upt: "[unat index ..< unat index + Suc k] = unat index # [unat (index + 1) ..< unat (index + 1) + k]" for k
      by (simp add: inc upt_conv_Cons del: upt_Suc)
    show ?thesis using Suc.IH [OF s1(3) [simplified True if_True] Suc.prems(2) m refl, of "accepted + 1"] step s1(4,5) True a
      by (auto simp: upt simp del: upt_Suc add_Suc_right)
  next
    case False
    then have a: "a = 0" "min m (pt_capacity s1 - length xs) = 0" using Suc.prems(4) s1(2) by simp_all
    show ?thesis using Suc.IH [OF s1(3) [simplified False if_False] Suc.prems(2) m refl, of accepted] step s1(4,5) False a by auto
  qed
qed

lemma poll_request_spec:
  "perf_ok s [] \<Longrightarrow> \<exists>s'. poll_request t s = Inr (None, s') \<and> perf_ok s' []"
  "perf_ok s (x # xs) \<Longrightarrow> \<exists>s'. poll_request t s = Inr (Some x, s') \<and> perf_ok s' xs"
proof -
  show "\<exists>s'. poll_request t s = Inr (None, s') \<and> perf_ok s' []" if "perf_ok s []"
    using pq_pop_empty [of "pt_queue s" "pt_envelope_pool s"] that by (simp add: poll_request_def perf_ok_def)
  show "\<exists>s'. poll_request t s = Inr (Some x, s') \<and> perf_ok s' xs" if ok: "perf_ok s (x # xs)"
  proof -
    obtain b where "fst (rq_try_pop (pt_queue s)) = Some b" "op_objects (pt_envelope_pool s) b = Some \<lparr>re_request = x\<rparr>"
      "pq_ok (snd (rq_try_pop (pt_queue s))) (op_destroy t (Some b) (pt_envelope_pool s)) (map (\<lambda>x. \<lparr>re_request = x\<rparr>) xs)"
      using pq_pop [OF ok [unfolded perf_ok_def list.map]] by metis
    then show ?thesis by (simp add: poll_request_def perf_ok_def)
  qed
qed

text \<open>Polling until nothing is left, at most \<open>n\<close> times.\<close>

fun poll_all :: "nat \<Rightarrow> thread \<Rightarrow> PerformanceToolkit \<Rightarrow> perf_error + SyntheticRequest list \<times> PerformanceToolkit" where
  "poll_all 0 t s = Inr ([], s)"
| "poll_all (Suc n) t s =
     (case poll_request t s of
        Inl e \<Rightarrow> Inl e
      | Inr (None, s1) \<Rightarrow> Inr ([], s1)
      | Inr (Some x, s1) \<Rightarrow> (case poll_all n t s1 of Inl e \<Rightarrow> Inl e | Inr (xs, s2) \<Rightarrow> Inr (x # xs, s2)))"

lemma poll_all_spec: "perf_ok s xs \<Longrightarrow> length xs < n \<Longrightarrow> \<exists>s'. poll_all n t s = Inr (xs, s') \<and> perf_ok s' []"
proof (induction xs arbitrary: s n)
  case Nil
  then show ?case using poll_request_spec(1) [of s t] by (cases n) auto
next
  case (Cons x xs)
  then obtain m where m: "n = Suc m" "length xs < m" by (cases n) auto
  obtain s1 where s1: "poll_request t s = Inr (Some x, s1)" "perf_ok s1 xs" using poll_request_spec(2) [OF Cons.prems(1)] by blast
  then show ?case using Cons.IH [OF s1(2) m(2)] m(1) by auto
qed

lemma drain_pending_frees: "perf_ok s xs \<Longrightarrow> op_objects (pt_envelope_pool (drain_pending t s)) = Map.empty"
proof (induction xs arbitrary: s)
  case Nil
  then have "pq_ok (pt_queue s) (pt_envelope_pool s) []" by (simp add: perf_ok_def)
  then show ?case by (subst drain_pending.simps) (simp add: pq_pop_empty)
next
  case (Cons x xs)
  obtain b where b: "fst (rq_try_pop (pt_queue s)) = Some b"
    "pq_ok (snd (rq_try_pop (pt_queue s))) (op_destroy t (Some b) (pt_envelope_pool s)) (map (\<lambda>x. \<lparr>re_request = x\<rparr>) xs)"
    using pq_pop [OF Cons.prems(1) [unfolded perf_ok_def list.map]] by metis
  then show ?case using Cons.IH by (subst drain_pending.simps) (simp add: perf_ok_def)
qed

lemma new_toolkit_ok:
  assumes "new_PerformanceToolkit size_e capacity = Inr s" "unat (max size_e 8) * 512 < 2 ^ 64"
  shows "perf_ok s []"
  using assms pq_new [of capacity "pt_queue s" size_e 512 128 "pt_envelope_pool s"]
  by (auto simp: new_PerformanceToolkit_def perf_ok_def split: sum.splits)

text \<open>C34: A workload on a toolkit with \<open>xs\<close> pending: the first requests that fit into the queue are accepted and counted, all others are
  counted as dropped; polling returns what was pending, then the accepted requests, each once and in the order of generation;
  the destructor frees every envelope.\<close>

theorem perf_workload_fifo:
  assumes "perf_ok s xs" "config_ok config" "wc_scenario_name config \<noteq> []" "wc_request_count config \<noteq> 0" "wc_concurrency config \<noteq> 0"
    and "a = min (unat (wc_request_count config)) (pt_capacity s - length xs)"
  shows "\<exists>s' s''. enqueue_workload t config s = Inr (of_nat a, s') \<and>
    pt_dropped_requests s' = pt_dropped_requests s + (wc_request_count config - of_nat a) \<and>
    pending_requests s' = of_nat (length xs + a) \<and>
    poll_all (Suc (length xs + a)) u s' = Inr (xs @ map (request_at config) [0 ..< a], s'') \<and> pending_requests s'' = 0 \<and>
    op_objects (pt_envelope_pool (drain_pending u s')) = Map.empty"
proof -
  let ?n = "unat (wc_request_count config)"
  obtain s' where s': "enqueue_loop t config 0 0 s = Inr (of_nat a, s')" "perf_ok s' (xs @ map (request_at config) [0 ..< a])"
    "pt_dropped_requests s' = pt_dropped_requests s + of_nat (?n - a)"
    using enqueue_loop_spec [OF assms(1,2), of 0 ?n a t 0] assms(6) by auto
  have "of_nat (?n - a) = wc_request_count config - of_nat a" using assms(6) by (simp add: of_nat_diff)
  moreover obtain s'' where "poll_all (Suc (length xs + a)) u s' = Inr (xs @ map (request_at config) [0 ..< a], s'')" "perf_ok s'' []"
    using poll_all_spec [OF s'(2), of "Suc (length xs + a)" u] by auto
  moreover have "pending_requests s' = of_nat (length xs + a)"
    using pq_size [OF s'(2) [unfolded perf_ok_def]] by (simp add: pending_requests_def)
  moreover have "pending_requests s'' = 0" using pq_size [of "pt_queue s''" "pt_envelope_pool s''" "[]"] calculation(3) by (simp add: pending_requests_def perf_ok_def)
  ultimately show ?thesis using s' assms(3-5) drain_pending_frees [OF s'(2), of u] by (auto simp: enqueue_workload_def)
qed

definition burst :: WorkloadConfig where
  "burst = \<lparr>wc_scenario_name = ''burst'', wc_pattern = kMarketBurst, wc_request_count = 5, wc_burst_size = 2, wc_concurrency = 2,
     wc_base_timestamp_ms = 1000\<rparr>"

theorem perf_workload_fifo_witness:
  "\<exists>s s' s''. new_PerformanceToolkit 96 2 = Inr s \<and> enqueue_workload 0 burst s = Inr (2, s') \<and> pt_dropped_requests s' = 3 \<and>
     poll_all 3 1 s' = Inr ([\<lparr>sq_request_id = ''burst-1'', sq_is_market = True, sq_price = 0, sq_quantity = dbl (1 / 10), sq_timestamp_ms = 1000\<rparr>,
       \<lparr>sq_request_id = ''burst-2'', sq_is_market = False, sq_price = dint 9996, sq_quantity = dbl (1 / 10) + dbl (1 / 20), sq_timestamp_ms = 1000\<rparr>], s'')"
proof -
  obtain s where s: "new_PerformanceToolkit 96 2 = Inr s" "pt_capacity s = 2" "pt_dropped_requests s = 0"
    by (simp add: exec_simps new_PerformanceToolkit_def)
  have ok: "perf_ok s []" by (rule new_toolkit_ok [OF s(1)]) simp
  have c: "config_ok burst" by code_simp
  have r: "map (request_at burst) [0 ..< 2] = [\<lparr>sq_request_id = ''burst-1'', sq_is_market = True, sq_price = 0, sq_quantity = dbl (1 / 10), sq_timestamp_ms = 1000\<rparr>,
       \<lparr>sq_request_id = ''burst-2'', sq_is_market = False, sq_price = dint 9996, sq_quantity = dbl (1 / 10) + dbl (1 / 20), sq_timestamp_ms = 1000\<rparr>]"
    by code_simp
  have "2 = min (unat (wc_request_count burst)) (pt_capacity s - length [])" using s(2) by (simp add: burst_def)
  from perf_workload_fifo [OF ok c _ _ _ this, of 0 1] s r show ?thesis by (auto simp: burst_def numeral_3_eq_3)
qed

end
