(* ===== verification/Spec2Isabelle.thy ===== *)
theory Spec2Isabelle
  imports Ring_Weak Pipeline_Settle Candle_Aggregator Tcc_Wallet Saga Mpmc_Props Mpmc_Token Obs_Props Perf_Props
begin

text \<open>
  Verification of the exchange infrastructure in \<open>src/\<close> (C++20).

  \<^bold>\<open>The program.\<close> A request enters through the unified access gateway, is parsed and checked by the pre-trade risk engine, reserves funds
  in the account clearing system, is matched against an order book, and its trades are settled; the exchange pipeline
  (\<open>integration/exchange-pipeline\<close>) composes these. They rest on shared infrastructure: ring queues and a lock-free linked queue
  (\<open>lock-free-structures\<close>), block and object pools (\<open>memory-pool\<close>), depth book, broadcaster and candles (\<open>market-data-push-system\<close>), outbox,
  saga and try/confirm/cancel wallet (\<open>distributed-consistency\<close>). Two tools use the queues and pools as well: the observability stack and the
  performance toolkit.

  \<^bold>\<open>Library.\<close>
  \<^item> \<open>Prelude\<close>: 64-bit counters, ordered maps (\<open>std::map\<close> with a comparator, locale \<open>ordered_keys\<close>), association lists for iterated
    \<open>std::unordered_map\<close>s, and \<open>exec_simps\<close>, the equations that construct rings and pools from concrete sizes.
  \<^item> \<open>Binary64\<close>: the type \<open>double\<close> of IEEE binary64 values with rounding to nearest even, infinities and NaN, arithmetic and comparison as
    in C++ (the two zeros are one value), lemmas on rounding, and exactness on integers up to \<open>2 ^ 53\<close>.
  \<^item> \<open>Cxx_Text\<close>: decimal text of integers and of \<open>double\<close>s as stream output with default precision gives it.
  \<^item> \<open>Refinement\<close>: the locale \<open>step_refinement\<close> lifts the refinement of one step to runs.
  \<^item> \<open>Pointer_Queue\<close>: the locale \<open>pointer_queue\<close> joins \<open>bounded_fifo\<close> (of \<open>Ring_Queue\<close>) and \<open>object_store\<close> (of \<open>Block_Pool\<close>) for queues of
    pointers to pooled objects.

  \<^bold>\<open>Components.\<close> A C++ class is a record with the same name, a method a definition with the same name or a short prefix; exceptions and undefined
  behaviour are \<open>Inl\<close> of an error type of the component, early returns are branches.
  \<^item> \<open>Ring_Queue\<close> (\<open>spsc_ring_queue.hpp\<close>, \<open>queue_facade.hpp\<close>): the ring with free-running 64-bit counters is a bounded first-in first-out list at every
    position of the counters (C29). The same operations split at every atomic access, as a step relation of one producer and one consumer, are
    free of races on slots and lose, duplicate and reorder nothing: in \<open>Ring_Queue\<close> for sequentially consistent steps, in \<open>Ring_Weak\<close> under
    the release/acquire memory model, where a load may return any message its thread is not yet past and a slot accessed without a happens-before edge
    is a data race (C28).
  \<^item> \<open>Mpmc_Queue\<close>, \<open>Mpmc_Inv\<close>, \<open>Mpmc_Steps\<close>, \<open>Mpmc_Safety\<close>, \<open>Mpmc_Live\<close>, \<open>Mpmc_Count\<close>, \<open>Mpmc_Buffer\<close>, \<open>Mpmc_Token\<close>, \<open>Mpmc_Props\<close> (\<open>mpmc_linked_queue.hpp\<close>, \<open>backoff.hpp\<close>): any number of threads,
    every atomic access, allocation and \<open>delete\<close> a step, schedules as lists of actions. The invariant \<open>mq_inv\<close> places every allocated node in the list, in one
    retired vector or in the hands of one thread, and relates epochs to the nodes a thread may still dereference. From it, for sequentially consistent steps: no use
    after free and first-in first-out results (C8), obstruction freedom with an explicit bound (C9), an exact size counter and no element lost when all threads are at
    rest (C10), complete destruction (C14). The source asks for release and acquire only, which is not enough for these (C12). C8, C9, C10 and C14 exclude the release of a
    token while another thread is in an operation; the theorem \<open>mpmc_release_use_after_free\<close> shows that such a release frees a node in use.
    \<open>Mpmc_Buffer\<close> puts the stores that announce an epoch into store buffers: with a fence after the announcement every run is a sequentially consistent
    one (lemma \<open>fenced_run\<close>), without it, as in the code, a node in use is freed (C12). \<open>Mpmc_Token\<close> has class \<open>Token\<close> and the
    per-thread map of local tokens: a slot has at most one owner (C13), while a token cached for a destroyed queue serves a new one at the same
    address (theorem \<open>stale_local_token\<close>).
  \<^item> \<open>Block_Pool\<close> (\<open>fixed_block_pool.hpp\<close>, \<open>object_pool.hpp\<close>): slabs, blocks, thread-local caches; the blocks of all slabs are partitioned into the
    global list, the caches and the live blocks, so that allocation never hands out live or overlapping memory (C30).
  \<^item> \<open>Depth_Book\<close>, \<open>Broadcaster\<close>, \<open>Candle_Aggregator\<close> (\<open>market-data-push-system\<close>): the depth book applies updates as a map from prices to quantities does
    (theorem \<open>depth_update_refines\<close>), subscribers see each message once (C37), candles summarise their ticks (C40). \<open>Outbox\<close>,
    \<open>Tcc_Wallet\<close>, \<open>Saga\<close> (\<open>distributed-consistency\<close>): C38, C39.
  \<^item> \<open>Matching\<close> (\<open>orderbook_matching_engine\<close>, orders as pooled objects reached through pointers), with \<open>Matching_Book\<close>, \<open>Matching_Loop\<close>, \<open>Matching_Rest\<close>
    (invariant and its preservation), \<open>Matching_Spec\<close> (an exchange on two lists in price-time priority), \<open>Matching_Props\<close>, \<open>Matching_Safety\<close>: refinement,
    priority, all-or-nothing, conservation, termination (C3 to C7, C15, C36); market, immediate-or-cancel and fill-or-kill orders never rest (C11).
  \<^item> \<open>Clearing\<close>, \<open>Clearing_Props\<close> (\<open>account_clearing_system\<close>): the journal replays to the balances, settlement happens once, failed operations change nothing, money
    is conserved on whole units, and freezing numbers and settling with finite fees within the notional leave no
    balance negative (C23 to C27). Without these conditions, which the code does not check, and by the rounding of releases a balance can become negative or NaN:
    \<open>seller_fee_overdraws\<close>, \<open>freeze_accepts_nan\<close>, \<open>release_can_overdraw_frozen\<close>.
  \<^item> \<open>Risk_Engine\<close>, \<open>Risk_Props\<close> (\<open>pre_trade_risk_engine\<close>): the first failing rule decides (C16), and the rate limit for any
    traffic (C18). \<open>Gateway\<close> (\<open>unified_access_gateway\<close>): C17, C20.
  \<^item> \<open>Pipeline\<close>, \<open>Pipeline_Props\<close>, \<open>Pipeline_Settle\<close> (\<open>exchange_pipeline\<close>): parsing, the composition of all of the above, and its global invariant
    (C1, C19, C21, C22): no fault of any component is reached except the overflow of a timestamp, which \<open>timestamp_overflows\<close> shows for a request with the largest one.
    A completed submission has settled its trades, kept of the registered orders of its symbol those on the book, and freed the holds of closed orders up to 1e-9 (C2).
    The lemma \<open>happy_path_test\<close> runs the first test of \<open>exchange_pipeline_test.cpp\<close> on the model and finds the balances and events the test expects.
  \<^item> \<open>Observability\<close>, \<open>Obs_Props\<close> (\<open>observability_stack\<close>): the stack answers like a bounded list of pending inputs, and metrics, alerts and history are functions of
    the trace of processed inputs (C31, C32, C35, and theorem \<open>obs_history_bounded\<close>).
  \<^item> \<open>Perf_Toolkit\<close>, \<open>Perf_Props\<close> (\<open>performance_toolkit\<close>): exact nearest-rank percentiles from floating-point ranks, and the request queue (C33, C34).

  \<^bold>\<open>Parameters.\<close> \<open>strtod\<close> of the pipeline's parser and the sort of the gateway's routes are arguments with their documented behaviour as hypotheses; sizes of pooled
  objects are arguments with the hypothesis that a slab fits into 64 bits; addresses returned by \<open>operator new\<close> and spurious failures of weak
  compare-exchange are chosen by the schedule. \<open>std::int64_t\<close> is \<open>int\<close>; where a difference or sum of timestamps can leave the 64 bits, the model has an error
  (\<open>TimeOverflow\<close> in the gateway and the pipeline, \<open>DurationOverflow\<close>, \<open>TimestampOverflow\<close>). The risk engine cannot: it subtracts a positive window from a positive timestamp.

  \<^bold>\<open>Loops.\<close> Every loop terminates by a measure: drains by the length of the ring, matching by the number of resting orders, the workload by its counter. Only
  \<open>drain_all_nodes\<close> has fuel, because a cyclic list would not end; C14 shows that the length of the list is enough.

  \<^bold>\<open>Not modelled.\<close> Weak memory beyond what the ring (release/acquire) and the announcements of the linked queue (store buffers) have: all other steps of the
  linked queue are interleaved sequentially consistently, and the pool's lists are only used by one operation at a time; running out of memory, and \<open>reserve\<close> of a \<open>vector\<close> for more elements
  than it can have; the state
  after an exception leaves a method that had already changed something, where the caller cannot continue; \<open>module_summary\<close> and
  \<open>project_name\<close> (fixed text); the \<open>main\<close> programs and benchmarks, which only call the modelled classes and print; build files. \<open>reactor\<close> and \<open>regex\<close>
  are separate repositories whose sources are not part of this one.
\<close>

end
